(* ===== verification/Weave_Prelude.thy ===== *)
theory Weave_Prelude
  imports Main "HOL-Library.Word"
begin

text \<open>
  Types, hint collections and generic lemmas shared by every component of the development.
  The fixed-width integers of the C sources are words of HOL-Library.Word: \<open>+\<close> and \<open>-\<close> wrap
  around, \<open>unat\<close> reads the unsigned value, \<open>sint\<close> the two's complement one. The lemmas on
  \<open>x + 1\<close> and \<open>x - 1\<close> say where the wrap-around cannot happen; the binary-search lemmas
  characterise the position every half-open search of the sources settles on.
\<close>

unbundle bit_operations_syntax

type_synonym u8 = "8 word"
type_synonym u16 = "16 word"
type_synonym u32 = "32 word"
type_synonym u64 = "64 word"

named_theorems word_step \<open>order facts about the successor and predecessor of a word\<close>
named_theorems layout_simps \<open>definitions that unfold when a byte layout is computed\<close>

subsection \<open>Word successor and predecessor\<close>

lemma max_word_not_less [simp]: "\<not> (- 1 :: 'a::len word) < x"
  by (simp add: word_order.extremum_strict)

lemma word_less_max_iff: "(x::'a::len word) < - 1 \<longleftrightarrow> x \<noteq> - 1"
  by (simp add: word_order.not_eq_extremum)

lemma unat_u32: "unat (x::u32) < 2 ^ 32"
  using unsigned_less [of x, where ?'a = nat] by simp

lemma unat_inc [word_step]:
  fixes x y :: "'a::len word"
  assumes "x < y"
  shows "unat (x + 1) = Suc (unat x)"
proof -
  have "unat x < unat y" using assms by (simp add: word_less_nat_alt)
  moreover have "unat y < 2 ^ LENGTH('a)" by (rule unsigned_less)
  ultimately have "Suc (unat x) < 2 ^ LENGTH('a)" by linarith
  then show ?thesis by (simp add: unat_word_ariths)
qed

lemma less_inc [word_step]: "(x::'a::len word) < y \<Longrightarrow> x < x + 1"
  by (simp add: word_less_nat_alt unat_inc)

lemma inc_le [word_step]: "(x::'a::len word) < y \<Longrightarrow> x + 1 \<le> y"
  by (simp add: word_less_nat_alt word_le_nat_alt unat_inc)

lemma less_inc_iff: "(x::'a::len word) < b \<Longrightarrow> y < x + 1 \<longleftrightarrow> y \<le> x"
  by (simp add: word_less_nat_alt word_le_nat_alt unat_inc less_Suc_eq_le)

lemma unat_dec [word_step]:
  fixes x y :: "'a::len word"
  assumes "y < x"
  shows "unat (x - 1) = unat x - 1"
proof -
  have "0 < unat x" using assms by (simp add: word_less_nat_alt)
  then have "1 \<le> x" by (simp add: word_le_nat_alt Suc_le_eq)
  then show ?thesis by (simp add: unat_sub)
qed

lemma le_dec_iff [word_step]: "(y::'a::len word) < x \<Longrightarrow> z \<le> x - 1 \<longleftrightarrow> z < x"
  using unat_dec [of y x] by (auto simp: word_less_nat_alt word_le_nat_alt)

lemma le_dec [word_step]: "(y::'a::len word) < x \<Longrightarrow> y \<le> x - 1"
  by (simp add: le_dec_iff)

subsection \<open>Widening\<close>

lemma unat_widen [simp]: "unat (ucast (a::u32) :: u64) = unat a"
  using unat_u32 [of a] by (simp add: unsigned_ucast_eq take_bit_nat_eq_self)

lemma widen_less: "ucast (a::u32) < (ucast (b::u32) :: u64) \<longleftrightarrow> a < b"
  by (simp add: word_less_nat_alt)

lemma widen_le: "ucast (a::u32) \<le> (ucast (b::u32) :: u64) \<longleftrightarrow> a \<le> b"
  by (simp add: word_le_nat_alt)

lemma widen_inj: "ucast (a::u32) = (ucast (b::u32) :: u64) \<longleftrightarrow> a = b"
  by (metis unat_widen word_unat_eq_iff)

lemma narrow_widen:
  assumes "(k::u64) < ucast (b::u32)"
  shows "ucast (ucast k :: u32) = k"
proof -
  have "unat k < 2 ^ 32" using assms unat_u32 [of b] by (simp add: word_less_nat_alt)
  then have "unat (ucast k :: u32) = unat k"
    by (simp only: unsigned_ucast_eq) (simp add: take_bit_nat_eq_self)
  then show ?thesis by (metis unat_widen word_unat_eq_iff)
qed

lemma unat_shifted_one:
  assumes "i < LENGTH('a)"
  shows "unat (push_bit i 1 :: 'a::len word) = 2 ^ i"
proof -
  have "(2::nat) ^ i < 2 ^ LENGTH('a)" using power_strict_increasing [OF assms, of "2::nat"] by simp
  then have "unat (of_nat (2 ^ i) :: 'a word) = 2 ^ i"
    by (simp only: unsigned_of_nat take_bit_nat_eq_self of_nat_id)
  then show ?thesis by (simp add: push_bit_eq_mult)
qed

subsection \<open>Searching a sorted array\<close>

text \<open>
  \<open>lower_bound_at xs t i\<close>: every entry before \<open>i\<close> is below \<open>t\<close> and no entry from \<open>i\<close> on is.
  The position is unique, so a search is correct when it returns such a position.
\<close>

definition lower_bound_at :: "'a::linorder list \<Rightarrow> 'a \<Rightarrow> nat \<Rightarrow> bool" where
  "lower_bound_at xs t i \<longleftrightarrow>
     i \<le> length xs \<and> (\<forall>j<i. xs ! j < t) \<and> (\<forall>j. i \<le> j \<longrightarrow> j < length xs \<longrightarrow> t \<le> xs ! j)"

lemma lower_bound_at_unique:
  assumes "lower_bound_at xs t i" and "lower_bound_at xs t j"
  shows "i = j"
proof (rule ccontr)
  assume "i \<noteq> j"
  then consider "i < j" | "j < i" by linarith
  then show False
    using assms by cases (fastforce simp: lower_bound_at_def)+
qed

lemma sorted_wrt_nth_mono:
  "sorted_wrt (<) (xs::'a::linorder list) \<Longrightarrow> i < j \<Longrightarrow> j < length xs \<Longrightarrow> xs ! i < xs ! j"
  by (simp add: sorted_wrt_iff_nth_less)

lemma sorted_wrt_nth_le:
  assumes "sorted_wrt (<) (xs::'a::linorder list)" and "i \<le> j" and "j < length xs"
  shows "xs ! i \<le> xs ! j"
  using assms sorted_wrt_nth_mono [of xs i j] by (cases "i = j") auto

lemma lower_bound_from_probe:
  assumes srt: "sorted_wrt (<) (xs::'a::linorder list)"
    and below: "\<forall>j<i. xs ! j < t"
    and probe: "i = length xs \<or> i < length xs \<and> t \<le> xs ! i"
  shows "lower_bound_at xs t i"
proof -
  have "t \<le> xs ! j" if "i \<le> j" and "j < length xs" for j
    using probe that sorted_wrt_nth_le [OF srt that] by auto
  then show ?thesis using below probe by (auto simp: lower_bound_at_def)
qed

subsection \<open>Folds that change nothing\<close>

lemma foldl_id_on:
  assumes "\<And>x. x \<in> set xs \<Longrightarrow> f a x = a"
  shows "foldl f a xs = a"
  using assms by (induction xs) auto

end
