(* ===== verification/Weave_Float32.thy ===== *)
theory Weave_Float32
  imports Weave_Prelude "HOL-Library.Product_Lexorder"
begin

text \<open>
  The C type \<open>float\<close> as the sources use it: IEEE-754 binary32 with round-to-nearest-even. Every
  finite binary32 value is an integer multiple of \<open>2 ^ -149\<close>, so \<open>Fin m\<close> is the value
  \<open>m * 2 ^ -149\<close> and all arithmetic is exact integer arithmetic followed by one rounding to 24
  significant bits (\<open>round_mag\<close>), with overflow to an infinity from \<open>2 ^ 128 = 2 ^ 277 * 2 ^ -149\<close>
  on. The two zeros compare equal and no modelled code divides or inspects a sign bit of a
  \<open>float\<close>, so they are one value here. Comparisons with a NaN are false, as in C.
\<close>

datatype f32 = NaN | NInf | PInf | Fin int

subsection \<open>Rounding\<close>

fun bit_length :: "nat \<Rightarrow> nat" where
  "bit_length n = (if n = 0 then 0 else Suc (bit_length (n div 2)))"

declare bit_length.simps [simp del]

lemma bit_length_0 [simp]: "bit_length 0 = 0"
  by (simp add: bit_length.simps)

lemma bit_length_pos: "0 < n \<Longrightarrow> bit_length n = Suc (bit_length (n div 2))"
  by (subst bit_length.simps) simp

lemma bit_length_upper: "n < 2 ^ bit_length n"
proof (induction n rule: bit_length.induct)
  case (1 n)
  show ?case
  proof (cases "n = 0")
    case False
    then have "n div 2 < 2 ^ bit_length (n div 2)" using 1 by simp
    then show ?thesis using False by (simp add: bit_length_pos)
  qed simp
qed

lemma bit_length_lower: "0 < n \<Longrightarrow> 2 ^ (bit_length n - 1) \<le> n"
proof (induction n rule: bit_length.induct)
  case (1 n)
  show ?case
  proof (cases "n div 2 = 0")
    case True
    then show ?thesis using 1(2) by (simp add: bit_length_pos)
  next
    case False
    then have "2 ^ (bit_length (n div 2) - 1) \<le> n div 2" and "0 < bit_length (n div 2)"
      using 1 bit_length_pos [of "n div 2"] by auto
    then have "2 * 2 ^ (bit_length (n div 2) - 1) \<le> n" by linarith
    then show ?thesis
      using 1(2) \<open>0 < bit_length (n div 2)\<close>
      by (metis bit_length_pos diff_Suc_1 power_minus_mult mult.commute)
  qed
qed

lemma bit_length_le_iff: "bit_length n \<le> b \<longleftrightarrow> n < 2 ^ b"
proof
  assume "bit_length n \<le> b"
  then show "n < 2 ^ b"
    using bit_length_upper [of n] power_increasing [of "bit_length n" b "2::nat"]
    by linarith
next
  assume less: "n < 2 ^ b"
  show "bit_length n \<le> b"
  proof (cases "n = 0")
    case False
    then have "(2::nat) ^ (bit_length n - 1) < 2 ^ b"
      using bit_length_lower [of n] less by linarith
    then show ?thesis by simp
  qed simp
qed

lemma bit_length_mono: "m \<le> n \<Longrightarrow> bit_length m \<le> bit_length n"
  using bit_length_upper [of n] by (simp add: bit_length_le_iff)

definition rne :: "nat \<Rightarrow> nat \<Rightarrow> nat" where
  \<comment> \<open>\<open>n / 2 ^ s\<close> rounded to the nearest integer, ties to even\<close>
  "rne n s =
     (let q = n div 2 ^ s; r = n mod 2 ^ s
      in if 2 ^ s < 2 * r \<or> (2 * r = 2 ^ s \<and> odd q) then Suc q else q)"

definition round_mag :: "nat \<Rightarrow> nat \<Rightarrow> nat" where
  \<comment> \<open>a magnitude in units of \<open>2 ^ -(149 + b)\<close>, rounded to binary32 in units of \<open>2 ^ -149\<close>\<close>
  "round_mag b n = (let s = max b (bit_length n - 24) in rne n s * 2 ^ (s - b))"

definition round32 :: "nat \<Rightarrow> int \<Rightarrow> f32" where
  "round32 b n =
     (let m = round_mag b (nat \<bar>n\<bar>)
      in if 2 ^ 277 \<le> m then (if n < 0 then NInf else PInf)
         else Fin (if n < 0 then - int m else int m))"

subsection \<open>Arithmetic and comparison\<close>

fun fadd :: "f32 \<Rightarrow> f32 \<Rightarrow> f32" where
  "fadd NaN _ = NaN"
| "fadd _ NaN = NaN"
| "fadd PInf NInf = NaN"
| "fadd NInf PInf = NaN"
| "fadd PInf _ = PInf"
| "fadd _ PInf = PInf"
| "fadd NInf _ = NInf"
| "fadd _ NInf = NInf"
| "fadd (Fin a) (Fin b) = round32 0 (a + b)"

fun fneg :: "f32 \<Rightarrow> f32" where
  "fneg NaN = NaN"
| "fneg NInf = PInf"
| "fneg PInf = NInf"
| "fneg (Fin a) = Fin (- a)"

definition fsub :: "f32 \<Rightarrow> f32 \<Rightarrow> f32" where
  "fsub a b = fadd a (fneg b)"

definition inf_times :: "bool \<Rightarrow> int \<Rightarrow> f32" where
  "inf_times pos a = (if a = 0 then NaN else if (0 < a) = pos then PInf else NInf)"

fun fmul :: "f32 \<Rightarrow> f32 \<Rightarrow> f32" where
  "fmul NaN _ = NaN"
| "fmul _ NaN = NaN"
| "fmul PInf PInf = PInf"
| "fmul PInf NInf = NInf"
| "fmul NInf PInf = NInf"
| "fmul NInf NInf = PInf"
| "fmul PInf (Fin a) = inf_times True a"
| "fmul NInf (Fin a) = inf_times False a"
| "fmul (Fin a) PInf = inf_times True a"
| "fmul (Fin a) NInf = inf_times False a"
| "fmul (Fin a) (Fin b) = round32 149 (a * b)"

fun flt :: "f32 \<Rightarrow> f32 \<Rightarrow> bool" where
  "flt NaN _ = False"
| "flt _ NaN = False"
| "flt NInf y = (y \<noteq> NInf)"
| "flt _ NInf = False"
| "flt PInf _ = False"
| "flt _ PInf = True"
| "flt (Fin a) (Fin b) = (a < b)"

definition fle :: "f32 \<Rightarrow> f32 \<Rightarrow> bool" where
  "fle a b \<longleftrightarrow> a \<noteq> NaN \<and> b \<noteq> NaN \<and> \<not> flt b a"

abbreviation fzero :: f32 where
  "fzero \<equiv> Fin 0"

abbreviation fone :: f32 where
  "fone \<equiv> Fin (2 ^ 149)"

lemma flt_cases:
  "flt a b \<longleftrightarrow> a \<noteq> NaN \<and> b \<noteq> NaN \<and>
     (case (a, b) of (NInf, y) \<Rightarrow> y \<noteq> NInf | (_, NInf) \<Rightarrow> False | (PInf, _) \<Rightarrow> False
        | (_, PInf) \<Rightarrow> True | (Fin x, Fin y) \<Rightarrow> x < y | _ \<Rightarrow> False)"
  by (cases a; cases b; simp)

lemma fle_Fin [simp]: "fle (Fin a) (Fin b) \<longleftrightarrow> a \<le> b"
  by (auto simp: fle_def)

lemma fle_NaN [simp]: "\<not> fle a NaN" "\<not> fle NaN a"
  by (simp_all add: fle_def)

lemma fle_refl: "a \<noteq> NaN \<Longrightarrow> fle a a"
  by (cases a) (auto simp: fle_def)

lemma fle_trans: "fle a b \<Longrightarrow> fle b c \<Longrightarrow> fle a c"
  by (cases a; cases b; cases c) (auto simp: fle_def)

lemma fle_PInf [simp]: "a \<noteq> NaN \<Longrightarrow> fle a PInf"
  by (cases a) (auto simp: fle_def)

lemma NInf_fle [simp]: "a \<noteq> NaN \<Longrightarrow> fle NInf a"
  by (cases a) (auto simp: fle_def)

lemma fle_NInf [simp]: "fle a NInf \<longleftrightarrow> a = NInf"
  by (cases a) (auto simp: fle_def)

lemma fle_Fin_cases: "fle a (Fin y) \<longleftrightarrow> a = NInf \<or> (\<exists>x. a = Fin x \<and> x \<le> y)"
  by (cases a) (auto simp: fle_def)

lemma Fin_fle_cases: "fle (Fin x) a \<longleftrightarrow> a = PInf \<or> (\<exists>y. a = Fin y \<and> x \<le> y)"
  by (cases a) (auto simp: fle_def)

lemma flt_extremes [simp]: "\<not> flt a NInf" "\<not> flt PInf a"
  by (cases a; simp)+

lemma flt_irrefl [simp]: "\<not> flt a a"
  by (cases a) auto

lemma flt_trans: "flt a b \<Longrightarrow> flt b c \<Longrightarrow> flt a c"
  by (cases a; cases b; cases c) auto

lemma fle_flt_trans: "fle a b \<Longrightarrow> flt b c \<Longrightarrow> flt a c"
  by (cases a; cases b; cases c) (auto simp: fle_def)

lemma flt_fle_trans: "flt a b \<Longrightarrow> fle b c \<Longrightarrow> flt a c"
  by (cases a; cases b; cases c) (auto simp: fle_def)

lemma flt_not_fle: "flt a b \<Longrightarrow> \<not> fle b a"
  by (simp add: fle_def)

lemma fle_not_flt: "fle a b \<Longrightarrow> \<not> flt b a"
  by (simp add: fle_def)

lemma not_flt_fle: "a \<noteq> NaN \<Longrightarrow> b \<noteq> NaN \<Longrightarrow> \<not> flt a b \<longleftrightarrow> fle b a"
  by (simp add: fle_def)

lemma flt_antisym_eq: "a \<noteq> NaN \<Longrightarrow> b \<noteq> NaN \<Longrightarrow> \<not> flt a b \<Longrightarrow> \<not> flt b a \<Longrightarrow> a = b"
  by (cases a; cases b) (auto split: if_splits)

subsection \<open>Rounding is exact on representable values\<close>

lemma rne_dvd: "2 ^ s dvd n \<Longrightarrow> rne n s * 2 ^ s = n"
  by (auto simp: rne_def)

lemma rne_0 [simp]: "rne n 0 = n"
  by (simp add: rne_def)

lemma rne_zero [simp]: "rne 0 s = 0"
  by (simp add: rne_def)

lemma round_mag_zero [simp]: "round_mag b 0 = 0"
  by (simp add: round_mag_def)

lemma round_mag_exact:
  assumes "z \<le> 2 ^ 24"
  shows "round_mag 0 (z * 2 ^ j) = z * 2 ^ j"
proof -
  let ?n = "z * 2 ^ j :: nat" and ?s = "bit_length (z * 2 ^ j) - 24"
  have "2 ^ ?s dvd ?n"
  proof (cases "z = 2 ^ 24")
    case True
    then have "?n = 2 ^ (24 + j)" by (simp add: power_add)
    moreover have "?s \<le> 24 + j"
      using bit_length_le_iff [of "2 ^ (24 + j)" "Suc (24 + j)"] calculation by simp
    ultimately show ?thesis by (metis le_imp_power_dvd)
  next
    case False
    then have "z < 2 ^ 24" using assms by simp
    then have "z * 2 ^ j < 2 ^ 24 * 2 ^ j"
      by (intro mult_strict_right_mono) simp_all
    then have "?n < 2 ^ (24 + j)"
      by (simp only: power_add)
    then have "?s \<le> j" using bit_length_le_iff [of ?n "24 + j"] by linarith
    then show ?thesis by (meson dvd_mult le_imp_power_dvd)
  qed
  then show ?thesis by (simp add: round_mag_def rne_dvd)
qed


subsection \<open>Rounding is monotone\<close>

lemma rne_bounds:
  shows "n div 2 ^ s \<le> rne n s" and "rne n s \<le> Suc (n div 2 ^ s)"
  by (auto simp: rne_def Let_def)

lemma rne_mono:
  assumes "m \<le> n"
  shows "rne m s \<le> rne n s"
proof (cases "m div 2 ^ s = n div 2 ^ s")
  case True
  have "m mod 2 ^ s \<le> n mod 2 ^ s"
    using assms True by (metis add_le_cancel_left div_mult_mod_eq)
  then show ?thesis using True by (auto simp: rne_def Let_def)
next
  case False
  then have "Suc (m div 2 ^ s) \<le> n div 2 ^ s"
    using div_le_mono [OF assms, of "2 ^ s"] by linarith
  then show ?thesis using rne_bounds [of m s] rne_bounds [of n s] by linarith
qed

lemma round_mag_shift:
  "round_mag b n = rne n (max b (bit_length n - 24)) * 2 ^ (max b (bit_length n - 24) - b)"
  by (simp only: round_mag_def Let_def)

lemma round_mag_mono:
  assumes "m \<le> n"
  shows "round_mag b m \<le> round_mag b n"
proof (cases "max b (bit_length m - 24) = max b (bit_length n - 24)")
  case True
  then show ?thesis by (simp add: round_mag_shift rne_mono [OF assms])
next
  case False
  define t where "t = bit_length n - 24"
  define s where "s = max b (bit_length m - 24)"
  have lens: "bit_length m \<le> bit_length n" using assms by (rule bit_length_mono)
  then have t: "max b t = t" "b \<le> t" "24 < bit_length n" "s < t"
    using False by (auto simp: t_def s_def)
  have n_low: "2 ^ (23 + t) \<le> n"
    using bit_length_lower [of n] t by (cases "n = 0") (auto simp: t_def)
  have m_len: "bit_length m \<le> 24 + s" by (auto simp: s_def)
  then have "m < 2 ^ (24 + s)" by (simp add: bit_length_le_iff)
  then have "m div 2 ^ s < 2 ^ 24"
    by (simp add: power_add less_mult_imp_div_less)
  then have "rne m s \<le> 2 ^ 24" using rne_bounds(2) [of m s] by linarith
  then have "round_mag b m \<le> 2 ^ 24 * 2 ^ (s - b)"
    by (simp add: round_mag_shift s_def [symmetric])
  also have "\<dots> \<le> 2 ^ 23 * 2 ^ (t - b)"
  proof -
    have "Suc (s - b) \<le> t - b" using t s_def by auto
    then have "(2::nat) ^ Suc (s - b) \<le> 2 ^ (t - b)" by (rule power_increasing) simp
    then show ?thesis by simp
  qed
  also have "\<dots> \<le> rne n t * 2 ^ (t - b)"
  proof (rule mult_le_mono1)
    have "2 ^ (23 + t) div 2 ^ t \<le> n div 2 ^ t" using n_low by (rule div_le_mono)
    then show "2 ^ 23 \<le> rne n t" using rne_bounds(1) [of n t] by (simp add: power_add)
  qed
  also have "\<dots> = round_mag b n" by (simp add: round_mag_shift t_def [symmetric] t(1))
  finally show ?thesis .
qed

lemma round32_not_NaN [simp]: "round32 b n \<noteq> NaN" "NaN \<noteq> round32 b n"
  by (auto simp: round32_def Let_def)

lemma round32_mono:
  assumes "m \<le> n"
  shows "fle (round32 b m) (round32 b n)"
proof -
  have "round_mag b (nat \<bar>m\<bar>) \<le> round_mag b (nat \<bar>n\<bar>)" if "0 \<le> m"
    using that assms by (intro round_mag_mono) simp
  moreover have "round_mag b (nat \<bar>n\<bar>) \<le> round_mag b (nat \<bar>m\<bar>)" if "n < 0"
    using that assms by (intro round_mag_mono) simp
  ultimately show ?thesis
    using assms by (cases "m < 0"; cases "n < 0") (auto simp: round32_def Let_def)
qed

lemma round32_zero [simp]: "round32 b 0 = Fin 0"
  by (simp add: round32_def)

lemma round32_nonneg: "0 \<le> n \<Longrightarrow> fle fzero (round32 b n)"
  using round32_mono [of 0 n b] by simp

lemma fmul_mono:
  assumes w: "0 < c" and le: "fle x y"
  shows "fle (fmul (Fin c) x) (fmul (Fin c) y)"
proof (cases x; cases y)
  fix a b assume xy: "x = Fin a" "y = Fin b"
  then show ?thesis using assms by (simp add: round32_mono mult_left_mono)
qed (use assms in \<open>auto simp: inf_times_def fle_def\<close>)

subsection \<open>A grid on which sums are exact\<close>

text \<open>
  \<open>on_grid j n x\<close>: \<open>x\<close> is a multiple of \<open>2 ^ j\<close> units of magnitude at most \<open>n\<close> such steps. Up to
  \<open>2 ^ 24\<close> steps every such value is representable, so sums of grid values are exact, whatever
  the order of summation. This is the regime in which a sum of bounds bounds a sum of scores.
\<close>

definition on_grid :: "nat \<Rightarrow> nat \<Rightarrow> f32 \<Rightarrow> bool" where
  "on_grid j n x \<longleftrightarrow> (\<exists>z. x = Fin (z * 2 ^ j) \<and> \<bar>z\<bar> \<le> int n)"

fun fval :: "f32 \<Rightarrow> int" where
  "fval (Fin a) = a"
| "fval _ = 0"

lemma on_grid_Fin: "on_grid j n x \<Longrightarrow> x = Fin (fval x)"
  by (auto simp: on_grid_def)

lemma on_grid_mono: "on_grid j m x \<Longrightarrow> m \<le> n \<Longrightarrow> on_grid j n x"
  unfolding on_grid_def using of_nat_mono order_trans by blast

lemma on_grid_zero [simp]: "on_grid j n fzero"
  by (auto simp: on_grid_def)

lemma round32_exact:
  assumes "\<bar>z\<bar> \<le> 2 ^ 24" and "j \<le> 252"
  shows "round32 0 (z * 2 ^ j) = Fin (z * 2 ^ j)"
proof -
  have abs: "nat \<bar>z * 2 ^ j\<bar> = nat \<bar>z\<bar> * 2 ^ j"
    by (simp add: abs_mult nat_mult_distrib nat_power_eq)
  have z: "nat \<bar>z\<bar> \<le> 2 ^ 24" using assms(1) by simp
  have "nat \<bar>z\<bar> * 2 ^ j \<le> 2 ^ 24 * 2 ^ 252"
    using z power_increasing [OF assms(2), of "2::nat"] by (intro mult_le_mono) simp_all
  moreover have "(2::nat) ^ 24 * 2 ^ 252 < 2 ^ 277" by simp
  ultimately have small: "\<not> 2 ^ 277 \<le> nat \<bar>z\<bar> * 2 ^ j" by linarith
  have "int (nat \<bar>z\<bar> * 2 ^ j) = \<bar>z * 2 ^ j\<bar>" by (simp add: abs_mult)
  then show ?thesis
    using small by (simp only: round32_def Let_def abs round_mag_exact [OF z] if_False) auto
qed

lemma fadd_grid:
  assumes "on_grid j m x" and "on_grid j n y" and "m + n \<le> 2 ^ 24" and "j \<le> 252"
  shows "fadd x y = Fin (fval x + fval y)" and "on_grid j (m + n) (fadd x y)"
proof -
  obtain a b where ab: "x = Fin (a * 2 ^ j)" "y = Fin (b * 2 ^ j)" "\<bar>a\<bar> \<le> int m" "\<bar>b\<bar> \<le> int n"
    using assms(1,2) by (auto simp: on_grid_def)
  then have le: "\<bar>a + b\<bar> \<le> int (m + n)" by linarith
  moreover have "int (m + n) \<le> 2 ^ 24"
    using assms(3) by (metis of_nat_le_iff of_nat_numeral of_nat_power)
  ultimately have "\<bar>a + b\<bar> \<le> 2 ^ 24" by linarith
  from round32_exact [OF this assms(4)] have eq: "fadd x y = Fin ((a + b) * 2 ^ j)"
    by (simp add: ab(1,2) distrib_right)
  then show "fadd x y = Fin (fval x + fval y)" by (simp add: ab(1,2) distrib_right)
  show "on_grid j (m + n) (fadd x y)" using eq le by (auto simp: on_grid_def)
qed

lemma fadd_zero_grid:
  assumes "on_grid j n x" and "n \<le> 2 ^ 24" and "j \<le> 252"
  shows "fadd x fzero = x" and "fadd fzero x = x"
  using fadd_grid(1) [OF assms(1) on_grid_zero [of j 0]] fadd_grid(1) [OF on_grid_zero [of j 0] assms(1)]
    assms on_grid_Fin [OF assms(1)] by simp_all

lemma fadd_mono_Fin:
  assumes "fle (Fin a) x" and "fle (Fin b) y"
  shows "fle (fadd (Fin a) (Fin b)) (fadd x y)"
  using assms by (cases x; cases y) (auto simp: fle_def [of _ PInf] round32_mono fle_def [of "Fin _" NInf])

lemma round_mag_exact_scaled:
  assumes "z < 2 ^ 24"
  shows "round_mag b (z * 2 ^ (b + j)) = z * 2 ^ j"
proof -
  let ?n = "z * 2 ^ (b + j) :: nat" and ?s = "max b (bit_length (z * 2 ^ (b + j)) - 24)"
  have "?n < 2 ^ 24 * 2 ^ (b + j)" using assms by (intro mult_strict_right_mono) simp_all
  then have "?n < 2 ^ (24 + (b + j))" by (simp only: power_add [of 2 24])
  then have "?s \<le> b + j" using bit_length_le_iff [of ?n "24 + (b + j)"] by linarith
  then have "2 ^ ?s dvd ?n" by (meson dvd_mult le_imp_power_dvd)
  then have "rne ?n ?s * 2 ^ ?s = ?n" by (rule rne_dvd)
  moreover have "(2::nat) ^ ?s = 2 ^ (?s - b) * 2 ^ b" by (simp flip: power_add)
  ultimately have "rne ?n ?s * 2 ^ (?s - b) * 2 ^ b = z * 2 ^ j * 2 ^ b"
    by (simp add: power_add ac_simps)
  then show ?thesis by (simp add: round_mag_shift)
qed

lemma round32_exact_scaled:
  assumes "\<bar>z\<bar> < 2 ^ 24"
  shows "round32 149 (z * 2 ^ 298) = Fin (z * 2 ^ 149)"
proof -
  let ?m = "nat \<bar>z\<bar>"
  have m: "?m < 2 ^ 24" using assms by simp
  have abs: "nat \<bar>z * 2 ^ 298\<bar> = ?m * 2 ^ (149 + 149)"
    by (simp add: abs_mult nat_mult_distrib nat_power_eq)
  have "?m * (2::nat) ^ 149 < 2 ^ 24 * 2 ^ 149" using m by (intro mult_strict_right_mono) simp_all
  moreover have "(2::nat) ^ 24 * 2 ^ 149 < 2 ^ 277" by simp
  ultimately have small: "\<not> 2 ^ 277 \<le> ?m * 2 ^ 149" by linarith
  have "int (?m * 2 ^ 149) = \<bar>z * 2 ^ 149\<bar>" by (simp add: abs_mult)
  then show ?thesis
    using small by (simp only: round32_def Let_def abs round_mag_exact_scaled [OF m] if_False) auto
qed

text \<open>Whole numbers are exact as long as they fit the significand.\<close>

definition whole :: "int \<Rightarrow> f32" where
  "whole z = Fin (z * 2 ^ 149)"

lemma whole_zero: "whole 0 = fzero"
  by (simp add: whole_def)

lemma whole_grid: "\<bar>z\<bar> \<le> int n \<Longrightarrow> on_grid 149 n (whole z)"
  by (auto simp: whole_def on_grid_def)

lemma whole_simps [simp]:
  "whole a = whole b \<longleftrightarrow> a = b" "whole a \<noteq> NaN" "whole a \<noteq> PInf" "whole a \<noteq> NInf"
  "fle (whole a) (whole b) \<longleftrightarrow> a \<le> b" "flt (whole a) (whole b) \<longleftrightarrow> a < b"
  "fle fzero (whole a) \<longleftrightarrow> 0 \<le> a" "fle (whole a) fzero \<longleftrightarrow> a \<le> 0"
  by (simp_all add: whole_def mult_le_0_iff zero_le_mult_iff)

lemma fmul_whole: "\<bar>a * b\<bar> < 2 ^ 24 \<Longrightarrow> fmul (whole a) (whole b) = whole (a * b)"
proof -
  assume "\<bar>a * b\<bar> < 2 ^ 24"
  then have "round32 149 (a * b * 2 ^ 298) = Fin (a * b * 2 ^ 149)" by (rule round32_exact_scaled)
  moreover have "a * 2 ^ 149 * (b * 2 ^ 149) = a * b * 2 ^ 298" by simp
  ultimately show ?thesis by (simp only: whole_def fmul.simps)
qed

lemma fadd_whole: "\<bar>a + b\<bar> \<le> 2 ^ 24 \<Longrightarrow> fadd (whole a) (whole b) = whole (a + b)"
proof -
  assume "\<bar>a + b\<bar> \<le> 2 ^ 24"
  then have "round32 0 ((a + b) * 2 ^ 149) = Fin ((a + b) * 2 ^ 149)" by (rule round32_exact) simp
  then show ?thesis by (simp only: whole_def fadd.simps distrib_right)
qed

lemma fadd_fzero_whole:
  assumes "\<bar>a\<bar> \<le> 2 ^ 24"
  shows "fadd fzero (whole a) = whole a" and "fadd (whole a) fzero = whole a"
  using assms fadd_whole [of 0 a] fadd_whole [of a 0] by (simp_all add: whole_zero)

subsection \<open>A linear order\<close>

text \<open>The comparisons of C on the values that are not a NaN, extended by placing NaN below them.\<close>

definition f32_rank :: "f32 \<Rightarrow> int \<times> int" where
  "f32_rank x = (case x of NaN \<Rightarrow> (0, 0) | NInf \<Rightarrow> (1, 0) | Fin z \<Rightarrow> (2, z) | PInf \<Rightarrow> (3, 0))"

lemma f32_rank_inj: "f32_rank a = f32_rank b \<Longrightarrow> a = b"
  by (cases a; cases b) (auto simp: f32_rank_def)

instantiation f32 :: linorder
begin

definition less_eq_f32 :: "f32 \<Rightarrow> f32 \<Rightarrow> bool" where
  "less_eq_f32 a b \<longleftrightarrow> f32_rank a \<le> f32_rank b"

definition less_f32 :: "f32 \<Rightarrow> f32 \<Rightarrow> bool" where
  "less_f32 a b \<longleftrightarrow> f32_rank a < f32_rank b"

instance
  by standard (auto simp: less_eq_f32_def less_f32_def dest: f32_rank_inj)

end

lemma less_f32_flt: "a \<noteq> NaN \<Longrightarrow> b \<noteq> NaN \<Longrightarrow> a < b \<longleftrightarrow> flt a b"
  by (cases a; cases b) (auto simp: less_f32_def f32_rank_def)

lemma less_eq_f32_fle: "a \<noteq> NaN \<Longrightarrow> b \<noteq> NaN \<Longrightarrow> a \<le> b \<longleftrightarrow> fle a b"
  by (simp add: fle_def less_f32_flt [symmetric] not_less)

lemma flt_asym: "flt a b \<Longrightarrow> \<not> flt b a"
  by (auto dest: flt_trans)

lemma flt_fle: "flt a b \<Longrightarrow> fle a b"
  by (cases a; cases b) (auto simp: fle_def)

end
