(* ===== verification/Weave_Channel.thy ===== *)
theory Weave_Channel
  imports Weave_Float32
begin

text \<open>
  The channel face of the fused scorer (\<open>WeaveFuseChanOps\<close> and \<open>WeaveFuseChan\<close> in
  \<open>include/weave/fuse.h\<close>) and the shuttle contract (C1)-(C5) of \<open>include/weave/channel.h\<close>.

  A channel's private state, \<open>void *state\<close> in C, is the type parameter \<open>'s\<close>. Its three
  operations take that state and return it updated; \<open>seek\<close> also says what it published as
  \<open>blkend\<close> (nothing when it returned the end sentinel without writing it), and returns no value
  when the C function raises an \<open>ereport\<close>. A channel is described by its postings, the map from
  warp positions to the score it contributes there; \<open>standing\<close> says what the contract promises of
  a channel that stands on a position, for all further calls, and \<open>opens\<close> what it promises of a
  channel that has not been positioned yet. The locale \<open>shuttle\<close> reduces both to an invariant
  of the implementation.
\<close>

abbreviation FUSE_END :: u32 where
  "FUSE_END \<equiv> 0xFFFFFFFF"

lemma FUSE_END_max: "FUSE_END = - 1"
  by simp

lemma le_FUSE_END [simp]: "p \<le> FUSE_END" and not_FUSE_END_less [simp]: "\<not> FUSE_END < p"
  unfolding FUSE_END_max by (auto simp: word_order.extremum_strict)

lemma less_FUSE_END: "p < FUSE_END \<longleftrightarrow> p \<noteq> FUSE_END"
  unfolding FUSE_END_max by (rule word_less_max_iff)

abbreviation (input) FUSE_MAX_CHAN :: nat where
  "FUSE_MAX_CHAN \<equiv> 64"

record 's chan_ops =
  seek :: "'s \<Rightarrow> u32 \<Rightarrow> (u32 \<times> u32 option \<times> 's) option"
  block_max :: "'s \<Rightarrow> f32 \<times> 's"
  score :: "'s \<Rightarrow> u32 \<Rightarrow> f32 \<times> 's"

record 's chan =
  ops :: "'s chan_ops"
  cid :: nat            \<comment> \<open>stands for the object's address, which \<open>badchan\<close> reports\<close>
  cur :: u32
  blkend :: u32
  maxscore :: f32
  weight :: f32
  required :: bool
  cstate :: 's
  nseek :: nat
  nscore :: nat
  nbmax :: nat

subsection \<open>The contract\<close>

type_synonym postings = "u32 \<Rightarrow> f32 option"

definition next_at :: "postings \<Rightarrow> u32 \<Rightarrow> u32 \<Rightarrow> bool" where
  \<comment> \<open>(C1): the smallest position at or after \<open>t\<close> with a posting, or the end sentinel\<close>
  "next_at P t p \<longleftrightarrow> t \<le> p \<and> (p = FUSE_END \<or> P p \<noteq> None) \<and> (\<forall>q. t \<le> q \<and> q < p \<longrightarrow> P q = None)"

definition contrib_at :: "postings \<Rightarrow> u32 \<Rightarrow> f32" where
  "contrib_at P q = (case P q of None \<Rightarrow> fzero | Some v \<Rightarrow> v)"

definition covers :: "u32 set \<Rightarrow> postings \<Rightarrow> u32 \<Rightarrow> u32 \<Rightarrow> f32 \<Rightarrow> bool" where
  \<comment> \<open>(C2): \<open>b\<close> bounds the contribution at every admissible position of \<open>[lo, hi]\<close>\<close>
  "covers A P lo hi b \<longleftrightarrow> b \<noteq> NaN \<and> (\<forall>q\<in>A. lo \<le> q \<and> q \<le> hi \<longrightarrow> fle (contrib_at P q) b)"

definition blk_end :: "u32 \<Rightarrow> u32 option \<Rightarrow> u32" where
  "blk_end p be = (case be of None \<Rightarrow> p | Some b \<Rightarrow> max p b)"

coinductive standing :: "u32 set \<Rightarrow> 's chan_ops \<Rightarrow> postings \<Rightarrow> u32 \<Rightarrow> u32 \<Rightarrow> 's \<Rightarrow> bool"
  for A :: "u32 set" and vt :: "'s chan_ops" and P :: postings where
  standingI:
    "\<lbrakk>\<And>t. lo \<le> t \<Longrightarrow> t \<noteq> FUSE_END \<Longrightarrow>
        \<exists>p be s'. seek vt s t = Some (p, be, s') \<and> next_at P t p \<and> (be = None \<longrightarrow> p = FUSE_END) \<and>
          standing A vt P p (blk_end p be) s';
      \<And>v. P lo = Some v \<Longrightarrow> fst (score vt s lo) = v;
      \<And>v. P lo = Some v \<Longrightarrow> standing A vt P lo hi (snd (score vt s lo));
      \<And>v. P lo = Some v \<Longrightarrow> covers A P lo hi (fst (block_max vt s));
      \<And>v. P lo = Some v \<Longrightarrow> standing A vt P lo hi (snd (block_max vt s))\<rbrakk>
     \<Longrightarrow> standing A vt P lo hi s"

definition opens :: "u32 set \<Rightarrow> 's chan_ops \<Rightarrow> postings \<Rightarrow> 's \<Rightarrow> bool" where
  "opens A vt P s \<longleftrightarrow>
     (\<forall>t. t \<noteq> FUSE_END \<longrightarrow>
        (\<exists>p be s'. seek vt s t = Some (p, be, s') \<and> next_at P t p \<and> (be = None \<longrightarrow> p = FUSE_END) \<and>
           standing A vt P p (blk_end p be) s'))"

lemma next_at_unique:
  assumes "next_at P t p" and "next_at P t q" and "P FUSE_END = None"
  shows "p = q"
proof (rule ccontr)
  assume "p \<noteq> q"
  then consider "p < q" | "q < p" by (meson linorder_neqE)
  then show False
  proof cases
    case 1
    then have "P p = None" "p \<noteq> FUSE_END" using assms by (auto simp: next_at_def)
    then show False using assms(1) by (auto simp: next_at_def)
  next
    case 2
    then have "P q = None" "q \<noteq> FUSE_END" using assms by (auto simp: next_at_def)
    then show False using assms(2) by (auto simp: next_at_def)
  qed
qed

lemma standing_seek:
  assumes "standing A vt P lo hi s" and "lo \<le> t" and "t \<noteq> FUSE_END"
  obtains p be s' where "seek vt s t = Some (p, be, s')" "next_at P t p"
    "be = None \<Longrightarrow> p = FUSE_END" "standing A vt P p (blk_end p be) s'"
proof -
  from assms(1) have "\<exists>p be s'. seek vt s t = Some (p, be, s') \<and> next_at P t p \<and>
      (be = None \<longrightarrow> p = FUSE_END) \<and> standing A vt P p (blk_end p be) s'"
    by (cases rule: standing.cases) (use assms(2,3) in blast)
  then show thesis using that by blast
qed

lemma standing_score:
  assumes "standing A vt P lo hi s" and "P lo = Some v"
  shows "fst (score vt s lo) = v" and "standing A vt P lo hi (snd (score vt s lo))"
  using assms by (auto elim: standing.cases)

lemma standing_block_max:
  assumes "standing A vt P lo hi s" and "P lo = Some v"
  shows "covers A P lo hi (fst (block_max vt s))"
    and "standing A vt P lo hi (snd (block_max vt s))"
  using assms by (auto elim: standing.cases)

subsection \<open>The contract as an interface\<close>

locale shuttle =
  fixes A :: "u32 set" and vt :: "'s chan_ops" and P :: postings
    and inv :: "u32 \<Rightarrow> u32 \<Rightarrow> 's \<Rightarrow> bool" and fresh :: "'s \<Rightarrow> bool"
  assumes seek_fresh:
      "\<lbrakk>fresh s; t \<noteq> FUSE_END\<rbrakk> \<Longrightarrow>
         \<exists>p be s'. seek vt s t = Some (p, be, s') \<and> next_at P t p \<and> (be = None \<longrightarrow> p = FUSE_END) \<and>
           inv p (blk_end p be) s'"
    and seek_on:
      "\<lbrakk>inv lo hi s; lo \<le> t; t \<noteq> FUSE_END\<rbrakk> \<Longrightarrow>
         \<exists>p be s'. seek vt s t = Some (p, be, s') \<and> next_at P t p \<and> (be = None \<longrightarrow> p = FUSE_END) \<and>
           inv p (blk_end p be) s'"
    and score_on: "\<lbrakk>inv lo hi s; P lo = Some v\<rbrakk> \<Longrightarrow> fst (score vt s lo) = v"
    and score_keeps: "\<lbrakk>inv lo hi s; P lo = Some v\<rbrakk> \<Longrightarrow> inv lo hi (snd (score vt s lo))"
    and bound_on: "\<lbrakk>inv lo hi s; P lo = Some v\<rbrakk> \<Longrightarrow> covers A P lo hi (fst (block_max vt s))"
    and bound_keeps: "\<lbrakk>inv lo hi s; P lo = Some v\<rbrakk> \<Longrightarrow> inv lo hi (snd (block_max vt s))"
begin

lemma inv_standing: "inv lo hi s \<Longrightarrow> standing A vt P lo hi s"
proof (coinduction arbitrary: lo hi s)
  case standing
  have step: "\<exists>p be s'. seek vt s t = Some (p, be, s') \<and> next_at P t p \<and> (be = None \<longrightarrow> p = FUSE_END) \<and>
      ((\<exists>lo hi s. p = lo \<and> blk_end p be = hi \<and> s' = s \<and> inv lo hi s) \<or>
        standing A vt P p (blk_end p be) s')"
    if "lo \<le> t" and "t \<noteq> FUSE_END" for t
    using seek_on [OF standing that] by blast
  show ?case
    using step score_on [OF standing] score_keeps [OF standing]
      bound_on [OF standing] bound_keeps [OF standing]
    by auto
qed

lemma fresh_opens: "fresh s \<Longrightarrow> opens A vt P s"
  unfolding opens_def using seek_fresh inv_standing by blast

end

end
