(* ===== verification/Weave_Fuse.thy ===== *)
theory Weave_Fuse
  imports Weave_Channel
begin

text \<open>
  The fused-threshold top-k core, \<open>src/am/fuse.c\<close>: its state (\<open>WeaveFuseState\<close>), the top-k heap,
  set-up, the scan loop and the brute-force reference. The loop body of \<open>weave_fuse_run\<close> is
  cut at its numbered steps into one definition each; \<open>fuse_step\<close> is one iteration, and its
  three outcomes are the three ways the C loop body ends: \<open>continue\<close> with a pivot, \<open>break\<close>, or
  \<open>return\<close> of an error. A C error code other than \<open>WEAVE_FUSE_OK\<close> is \<open>Inl\<close> of the code and of the
  channel \<open>badchan\<close> names; \<open>CHAN_RAISED\<close> is an \<open>ereport\<close> thrown by a channel's own \<open>seek\<close>. The heap
  is the list of its first \<open>nheap\<close> slots. Both loops terminate for every channel implementation:
  the pivot strictly increases, which the termination proofs establish from the code's own guards.
\<close>

subsection \<open>State\<close>

datatype fuse_error = BAD_K | BAD_NCHAN | BAD_WEIGHT | BAD_MAXSCORE | C1_VIOLATION | C2_VIOLATION
  | C2_ABANDON | NAN_SCORE | CHAN_RAISED

datatype fuse_stop = STOP_NONE | STOP_EXHAUSTED | STOP_CEILING | STOP_REQUIRED | STOP_NOCAND

type_synonym failure = "fuse_error \<times> nat option"

record hit =
  hwarp :: u32
  hscore :: f32

record 's fstate =
  sc :: "'s chan list"
  rq :: "'s chan list"
  fceil :: "f32 list"
  fsuffix :: "f32 list"
  fsplit :: nat
  heap :: "hit list"
  topk :: nat
  theta :: f32
  live :: "u64 list option"
  nwarp :: u32
  check_bounds :: bool
  npivot :: nat
  nblkskip :: nat
  nrqskip :: nat
  nlivedrop :: nat
  nveto :: nat
  nabandon :: nat
  stop :: fuse_stop

definition FUSE_C2_RELTOL :: f32 where
  \<comment> \<open>\<open>1e-6f\<close>, whose bit pattern is \<open>0x358637BD\<close>\<close>
  "FUSE_C2_RELTOL = Fin (8796093 * 2 ^ 106)"

definition fuse_isnan :: "f32 \<Rightarrow> bool" where
  "fuse_isnan x \<longleftrightarrow> x = NaN"

definition fuse_finite :: "f32 \<Rightarrow> bool" where
  "fuse_finite x \<longleftrightarrow> \<not> fuse_isnan x \<and> x \<noteq> PInf \<and> x \<noteq> NInf"

definition live_at :: "u64 list option \<Rightarrow> u32 \<Rightarrow> u32 \<Rightarrow> bool" where
  "live_at lv n p =
     (if n \<le> p then False
      else case lv of None \<Rightarrow> True
        | Some bm \<Rightarrow> bit (bm ! (unat p div 64)) (unat p mod 64))"

definition fuse_live :: "'s fstate \<Rightarrow> u32 \<Rightarrow> bool" where
  "fuse_live st p = live_at (live st) (nwarp st) p"

subsection \<open>The top-k heap\<close>

definition fuse_worse :: "hit \<Rightarrow> hit \<Rightarrow> bool" where
  "fuse_worse a b =
     (if flt (hscore a) (hscore b) then True
      else if flt (hscore b) (hscore a) then False
      else hwarp b < hwarp a)"

definition fuse_swap :: "hit list \<Rightarrow> nat \<Rightarrow> nat \<Rightarrow> hit list" where
  "fuse_swap h i j = h[i := h ! j, j := h ! i]"

function fuse_sift_down :: "hit list \<Rightarrow> nat \<Rightarrow> nat \<Rightarrow> hit list" where
  "fuse_sift_down h n i =
     (let l = 2 * i + 1;
          r = l + 1;
          w1 = (if l < n \<and> fuse_worse (h ! l) (h ! i) then l else i);
          w = (if r < n \<and> fuse_worse (h ! r) (h ! w1) then r else w1)
      in if w = i then h else fuse_sift_down (fuse_swap h i w) n w)"
  by pat_completeness auto
termination
  by (relation "measure (\<lambda>(h, n, i). n - i)") (auto simp: Let_def split: if_splits)

fun fuse_sift_up :: "hit list \<Rightarrow> nat \<Rightarrow> hit list" where
  \<comment> \<open>the insertion loop of \<open>fuse_push\<close>\<close>
  "fuse_sift_up h i =
     (if 0 < i then
        let parent = (i - 1) div 2
        in if \<not> fuse_worse (h ! i) (h ! parent) then h
           else fuse_sift_up (fuse_swap h i parent) parent
      else h)"

declare fuse_sift_down.simps [simp del] fuse_sift_up.simps [simp del]

definition heap_push :: "nat \<Rightarrow> hit list \<Rightarrow> hit \<Rightarrow> hit list" where
  "heap_push k h x =
     (if length h < k then fuse_sift_up (h @ [x]) (length h)
      else fuse_sift_down (h[0 := x]) (length h) 0)"

definition heap_theta :: "nat \<Rightarrow> hit list \<Rightarrow> f32" where
  "heap_theta k h = (if length h = k then hscore (h ! 0) else NInf)"

definition fuse_push :: "'s fstate \<Rightarrow> u32 \<Rightarrow> f32 \<Rightarrow> 's fstate" where
  "fuse_push st w s =
     (let h = heap_push (topk st) (heap st) \<lparr>hwarp = w, hscore = s\<rparr>
      in st\<lparr>heap := h, theta := heap_theta (topk st) h\<rparr>)"

fun drain_loop :: "hit list \<Rightarrow> nat \<Rightarrow> hit list" where
  "drain_loop h 0 = h"
| "drain_loop h (Suc i) = drain_loop (fuse_sift_down (fuse_swap h 0 (Suc i)) (Suc i) 0) i"

definition weave_fuse_drain :: "'s fstate \<Rightarrow> 's fstate \<times> hit list" where
  "weave_fuse_drain st =
     (st\<lparr>heap := [], theta := NInf\<rparr>, drain_loop (heap st) (length (heap st) - 1))"

subsection \<open>Set-up\<close>

fun shift_in :: "'s chan \<times> f32 \<Rightarrow> ('s chan \<times> f32) list \<Rightarrow> ('s chan \<times> f32) list" where
  \<comment> \<open>the inner loop: the sorted part is scanned from its right end\<close>
  "shift_in x [] = [x]"
| "shift_in x (y # ys) = (if flt (snd y) (snd x) then y # shift_in x ys else x # y # ys)"

definition fuse_sort_scored :: "('s chan \<times> f32) list \<Rightarrow> ('s chan \<times> f32) list" where
  "fuse_sort_scored xs = rev (foldl (\<lambda>acc x. shift_in x acc) [] xs)"

fun suffix_sums :: "f32 list \<Rightarrow> f32 list" where
  "suffix_sums [] = [fzero]"
| "suffix_sums (c # cs) = (let r = suffix_sums cs in fadd (hd r) c # r)"

definition reset_chan :: "'s chan \<Rightarrow> 's chan" where
  "reset_chan c = c\<lparr>cur := 0, blkend := 0, nseek := 0, nscore := 0, nbmax := 0\<rparr>"

fun classify :: "'s chan list \<Rightarrow> failure + ('s chan list \<times> ('s chan \<times> f32) list)" where
  "classify [] = Inr ([], [])"
| "classify (c # cs) =
     (if \<not> fuse_finite (weight c) \<or> fle (weight c) fzero then Inl (BAD_WEIGHT, Some (cid c))
      else if required c then
        (case classify cs of Inl e \<Rightarrow> Inl e | Inr (r, s) \<Rightarrow> Inr (reset_chan c # r, s))
      else if \<not> fuse_finite (maxscore c) then Inl (BAD_MAXSCORE, Some (cid c))
      else
        (case classify cs of Inl e \<Rightarrow> Inl e
         | Inr (r, s) \<Rightarrow> Inr (r, (reset_chan c, fmul (weight c) (maxscore c)) # s)))"

definition weave_fuse_init ::
  "'s chan list \<Rightarrow> int \<Rightarrow> u64 list option \<Rightarrow> u32 \<Rightarrow> failure + 's fstate" where
  "weave_fuse_init chans k lv n =
     (if length chans < 1 \<or> FUSE_MAX_CHAN < length chans then Inl (BAD_NCHAN, None)
      else if k < 1 then Inl (BAD_K, None)
      else case classify chans of Inl e \<Rightarrow> Inl e
        | Inr (r, s) \<Rightarrow>
            let srt = fuse_sort_scored s
            in Inr \<lparr>sc = map fst srt, rq = r, fceil = map snd srt,
                    fsuffix = suffix_sums (map snd srt), fsplit = length srt,
                    heap = [], topk = nat k, theta = NInf, live = lv, nwarp = n,
                    check_bounds = False, npivot = 0, nblkskip = 0, nrqskip = 0, nlivedrop = 0,
                    nveto = 0, nabandon = 0, stop = STOP_NONE\<rparr>)"

fun repart :: "f32 list \<Rightarrow> f32 \<Rightarrow> nat \<Rightarrow> nat" where
  "repart sf th 0 = 0"
| "repart sf th (Suc n) = (if fle (sf ! n) th then repart sf th n else Suc n)"

definition fuse_repartition :: "'s fstate \<Rightarrow> 's fstate" where
  "fuse_repartition st = st\<lparr>fsplit := repart (fsuffix st) (theta st) (fsplit st)\<rparr>"

subsection \<open>Moving channels\<close>

definition moved :: "'s chan \<Rightarrow> u32 \<Rightarrow> u32 option \<Rightarrow> 's \<Rightarrow> 's chan" where
  \<comment> \<open>what the core records after a \<open>seek\<close> that returned \<open>q\<close>: \<open>blkend\<close> is only ever raised to \<open>cur\<close>\<close>
  "moved c q be s =
     (let b = (case be of None \<Rightarrow> blkend c | Some b \<Rightarrow> b)
      in c\<lparr>cstate := s, nseek := Suc (nseek c), cur := q, blkend := (if b < q then q else b)\<rparr>)"

definition fuse_advance :: "'s chan \<Rightarrow> u32 \<Rightarrow> failure + 's chan" where
  "fuse_advance c target =
     (if 0 < nseek c \<and> target \<le> cur c then Inr c
      else case seek (ops c) (cstate c) target of
        None \<Rightarrow> Inl (CHAN_RAISED, Some (cid c))
      | Some (p, be, s) \<Rightarrow>
          if p < target then Inl (C1_VIOLATION, Some (cid c))
          else Inr (moved c p be s))"

fun isect_pass ::
  "'s chan list \<Rightarrow> u32 \<Rightarrow> u32 \<Rightarrow> failure + ('s chan list \<times> u32 option)" where
  \<comment> \<open>one pass of \<open>fuse_intersect\<close>: the furthest position reached, \<open>None\<close> at the end sentinel\<close>
  "isect_pass [] p hi = Inr ([], Some hi)"
| "isect_pass (c # cs) p hi =
     (case fuse_advance c p of Inl e \<Rightarrow> Inl e
      | Inr c' \<Rightarrow>
          if cur c' = FUSE_END then Inr (c' # cs, None)
          else (case isect_pass cs p (if hi < cur c' then cur c' else hi) of Inl e \<Rightarrow> Inl e
                | Inr (cs', r) \<Rightarrow> Inr (c' # cs', r)))"

lemma isect_pass_ge: "isect_pass cs p hi = Inr (cs', Some h) \<Longrightarrow> hi \<le> h"
  by (induction cs arbitrary: hi cs') (fastforce split: sum.splits if_splits prod.splits)+

function fuse_intersect ::
  "'s chan list \<Rightarrow> u32 \<Rightarrow> nat \<Rightarrow> failure + ('s chan list \<times> u32 \<times> nat)" where
  "fuse_intersect cs p n =
     (case isect_pass cs p p of Inl e \<Rightarrow> Inl e
      | Inr (cs', None) \<Rightarrow> Inr (cs', FUSE_END, n)
      | Inr (cs', Some hi) \<Rightarrow> if hi = p then Inr (cs', p, n) else fuse_intersect cs' hi (Suc n))"
  by pat_completeness auto
termination
proof (relation "measure (\<lambda>(cs, p, n). 2 ^ 32 - unat p)", goal_cases)
  case 1
  show ?case by simp
next
  case (2 cs p n x2 x y hi)
  then have "p < hi" using isect_pass_ge [of cs p p] by (metis order_le_imp_less_or_eq)
  moreover have "unat hi < 2 ^ 32" using unsigned_less [of hi] by simp
  ultimately show ?case by (simp add: word_less_nat_alt)
qed

declare fuse_intersect.simps [simp del]

fun pivot_pass :: "'s chan list \<Rightarrow> u32 \<Rightarrow> u32 \<Rightarrow> failure + ('s chan list \<times> u32)" where
  "pivot_pass [] p lo = Inr ([], lo)"
| "pivot_pass (c # cs) p lo =
     (case fuse_advance c p of Inl e \<Rightarrow> Inl e
      | Inr c' \<Rightarrow>
          (case pivot_pass cs p (if cur c' < lo then cur c' else lo) of Inl e \<Rightarrow> Inl e
           | Inr (cs', r) \<Rightarrow> Inr (c' # cs', r)))"

definition fuse_pivot :: "'s fstate \<Rightarrow> u32 \<Rightarrow> failure + ('s fstate \<times> u32)" where
  "fuse_pivot st p =
     (case pivot_pass (take (fsplit st) (sc st)) p FUSE_END of Inl e \<Rightarrow> Inl e
      | Inr (cs, q) \<Rightarrow> Inr (st\<lparr>sc := cs @ drop (fsplit st) (sc st)\<rparr>, q))"

fun advance_all :: "'s chan list \<Rightarrow> u32 \<Rightarrow> failure + 's chan list" where
  "advance_all [] p = Inr []"
| "advance_all (c # cs) p =
     (case fuse_advance c p of Inl e \<Rightarrow> Inl e
      | Inr c' \<Rightarrow> (case advance_all cs p of Inl e \<Rightarrow> Inl e | Inr cs' \<Rightarrow> Inr (c' # cs')))"

subsection \<open>Bounding and scoring one document\<close>

fun bound_scan ::
  "u32 \<Rightarrow> nat \<Rightarrow> 's chan list \<Rightarrow> f32 \<Rightarrow> u32 \<Rightarrow>
     failure + ('s chan list \<times> (nat \<times> f32) list \<times> f32 \<times> u32)" where
  \<comment> \<open>step 4: the contributing channels with their weighted bounds, \<open>ub\<close> and \<open>rend\<close>\<close>
  "bound_scan p i [] ub rend = Inr ([], [], ub, rend)"
| "bound_scan p i (c # cs) ub rend =
     (if cur c = p then
        (let (bm, s) = block_max (ops c) (cstate c);
             b = fmul (weight c) bm;
             c' = c\<lparr>cstate := s, nbmax := Suc (nbmax c)\<rparr>
         in if fuse_isnan b then Inl (NAN_SCORE, Some (cid c))
            else (case bound_scan p (Suc i) cs (fadd ub b)
                         (if blkend c < rend then blkend c else rend) of Inl e \<Rightarrow> Inl e
                  | Inr (cs', con, ub', rend') \<Rightarrow> Inr (c' # cs', (i, b) # con, ub', rend')))
      else
        (case bound_scan p (Suc i) cs ub (if cur c - 1 < rend then cur c - 1 else rend) of
           Inl e \<Rightarrow> Inl e
         | Inr (cs', con, ub', rend') \<Rightarrow> Inr (c # cs', con, ub', rend')))"

fun csuffix :: "f32 list \<Rightarrow> f32" where
  "csuffix [] = fzero"
| "csuffix (b # bs) = fadd (csuffix bs) b"

definition take_score :: "'s chan \<Rightarrow> f32 \<times> 's chan" where
  \<comment> \<open>\<open>c->weight * c->ops->score(c)\<close>\<close>
  "take_score c =
     (let (x, s) = score (ops c) (cstate c) (cur c) in (fmul (weight c) x, c\<lparr>cstate := s\<rparr>))"

definition bump_score :: "'s chan \<Rightarrow> 's chan" where
  "bump_score c = c\<lparr>nscore := Suc (nscore c)\<rparr>"

fun score_required :: "'s chan list \<Rightarrow> f32 \<Rightarrow> failure + ('s chan list \<times> f32 option)" where
  \<comment> \<open>step 5, required channels: \<open>None\<close> is a veto\<close>
  "score_required [] s = Inr ([], Some s)"
| "score_required (c # cs) s =
     (let (v, c1) = take_score c; c' = bump_score c1
      in if fuse_isnan v then Inl (NAN_SCORE, Some (cid c))
         else if v = NInf then Inr (c' # cs, None)
         else (case score_required cs (fadd s v) of Inl e \<Rightarrow> Inl e
               | Inr (cs', r) \<Rightarrow> Inr (c' # cs', r)))"

fun audit_loop ::
  "(nat \<times> f32) list \<Rightarrow> 's chan list \<Rightarrow> f32 \<Rightarrow> f32 \<Rightarrow> nat option \<Rightarrow>
     failure + ('s chan list \<times> f32 \<times> nat option)" where
  "audit_loop [] cs actual worst bad = Inr (cs, actual, bad)"
| "audit_loop ((i, b) # rest) cs actual worst bad =
     (let c = cs ! i; (v, c') = take_score c; over = fsub v b
      in if fuse_isnan v then Inl (NAN_SCORE, Some (cid c))
         else if flt worst over
           then audit_loop rest (cs[i := c']) (fadd actual v) over (Some (cid c))
           else audit_loop rest (cs[i := c']) (fadd actual v) worst bad)"

definition fabs32 :: "f32 \<Rightarrow> f32" where
  "fabs32 x = (if flt x fzero then fneg x else x)"

definition fuse_audit_abandon ::
  "f32 \<Rightarrow> (nat \<times> f32) list \<Rightarrow> 's chan list \<Rightarrow> f32 \<Rightarrow> failure + 's chan list" where
  "fuse_audit_abandon th rest cs s =
     (case audit_loop rest cs fzero fzero None of Inl e \<Rightarrow> Inl e
      | Inr (cs', actual, bad) \<Rightarrow>
          let tol = fmul FUSE_C2_RELTOL (fabs32 th)
          in if flt (fadd th tol) (fadd s actual) then Inl (C2_ABANDON, bad) else Inr cs')"

datatype verdict = Kept f32 | Vetoed | Abandoned

fun score_scored ::
  "f32 \<Rightarrow> bool \<Rightarrow> (nat \<times> f32) list \<Rightarrow> 's chan list \<Rightarrow> f32 \<Rightarrow> failure + ('s chan list \<times> verdict)" where
  \<comment> \<open>step 5, contributing channels, with incremental abandonment\<close>
  "score_scored th chk [] cs s = Inr (cs, Kept s)"
| "score_scored th chk ((i, b) # rest) cs s =
     (let c = cs ! i; (v, c1) = take_score c; cs' = cs[i := bump_score c1]
      in if fuse_isnan v then Inl (NAN_SCORE, Some (cid c))
         else if chk \<and> flt (fadd b (fmul FUSE_C2_RELTOL (fabs32 b))) v
           then Inl (C2_VIOLATION, Some (cid c))
         else if v = NInf then Inr (cs', Vetoed)
         else let s' = fadd s v
              in if fle (fadd s' (csuffix (map snd rest))) th
                 then (if chk then
                         (case fuse_audit_abandon th rest cs' s' of Inl e \<Rightarrow> Inl e
                          | Inr cs'' \<Rightarrow> Inr (cs'', Abandoned))
                       else Inr (cs', Abandoned))
                 else score_scored th chk rest cs' s')"

subsection \<open>The scan\<close>

datatype 's step = Continue "'s fstate" u32 | Break "'s fstate" | Return failure

definition fuse_score_doc :: "'s fstate \<Rightarrow> u32 \<Rightarrow> (nat \<times> f32) list \<Rightarrow> 's step" where
  "fuse_score_doc st p con =
     (case score_required (rq st) fzero of
        Inl e \<Rightarrow> Return e
      | Inr (r, None) \<Rightarrow> Continue (st\<lparr>rq := r, nveto := Suc (nveto st)\<rparr>) (p + 1)
      | Inr (r, Some s) \<Rightarrow>
          (case score_scored (theta st) (check_bounds st) con (sc st) s of
             Inl e \<Rightarrow> Return e
           | Inr (cs, Vetoed) \<Rightarrow>
               Continue (st\<lparr>rq := r, sc := cs, nveto := Suc (nveto st)\<rparr>) (p + 1)
           | Inr (cs, Abandoned) \<Rightarrow>
               Continue (st\<lparr>rq := r, sc := cs, nabandon := Suc (nabandon st)\<rparr>) (p + 1)
           | Inr (cs, Kept s') \<Rightarrow>
               let st1 = st\<lparr>rq := r, sc := cs\<rparr>
               in Continue (if length (heap st) < topk st \<or> flt (theta st) s'
                            then fuse_repartition (fuse_push st1 p s') else st1) (p + 1)))"

definition fuse_bound_doc :: "'s fstate \<Rightarrow> u32 \<Rightarrow> 's step" where
  "fuse_bound_doc st p =
     (case advance_all (sc st) p of Inl e \<Rightarrow> Return e
      | Inr cs \<Rightarrow>
          (case bound_scan p 0 cs fzero (FUSE_END - 1) of Inl e \<Rightarrow> Return e
           | Inr (cs', con, ub, rend) \<Rightarrow>
               let st' = st\<lparr>sc := cs'\<rparr>
               in if fle ub (theta st) then
                    (if rend < p then Return (C1_VIOLATION, None)
                     else let st'' = st'\<lparr>nblkskip := Suc (nblkskip st)\<rparr>
                          in if FUSE_END - 1 \<le> rend then Break st'' else Continue st'' (rend + 1))
                  else fuse_score_doc st' p con))"

definition fuse_visit :: "'s fstate \<Rightarrow> u32 \<Rightarrow> 's step" where
  "fuse_visit st p =
     (let st1 = st\<lparr>npivot := Suc (npivot st)\<rparr>
      in if \<not> fuse_live st1 p then Continue (st1\<lparr>nlivedrop := Suc (nlivedrop st)\<rparr>) (p + 1)
         else fuse_bound_doc st1 p)"

definition fuse_candidate :: "'s fstate \<Rightarrow> u32 \<Rightarrow> 's step" where
  "fuse_candidate st p =
     (if 0 < fsplit st then
        (case fuse_pivot st p of Inl e \<Rightarrow> Return e
         | Inr (st', q) \<Rightarrow> if p < q then Continue st' q else fuse_visit st' p)
      else if rq st = [] then Break (st\<lparr>stop := STOP_NOCAND\<rparr>)
      else fuse_visit st p)"

definition at_end :: "'s fstate \<Rightarrow> u32 \<Rightarrow> bool" where
  "at_end st p \<longleftrightarrow> p = FUSE_END \<or> nwarp st \<le> p"

definition fuse_step :: "'s fstate \<Rightarrow> u32 \<Rightarrow> 's step" where
  "fuse_step st p =
     (if at_end st p then Break (st\<lparr>stop := STOP_EXHAUSTED\<rparr>)
      else if length (heap st) = topk st \<and> fle (fsuffix st ! 0) (theta st)
        then Break (st\<lparr>stop := STOP_CEILING\<rparr>)
      else if rq st \<noteq> [] then
        (case fuse_intersect (rq st) p (nrqskip st) of Inl e \<Rightarrow> Return e
         | Inr (r, q, n) \<Rightarrow>
             let st' = st\<lparr>rq := r, nrqskip := n\<rparr>
             in if at_end st' q then Break (st'\<lparr>stop := STOP_REQUIRED\<rparr>) else fuse_candidate st' q)
      else fuse_candidate st p)"

subsection \<open>Every iteration moves the pivot\<close>

lemma fuse_intersect_ge: "fuse_intersect cs p n = Inr (r, q, m) \<Longrightarrow> p \<le> q"
proof (induction cs p n arbitrary: r q m rule: fuse_intersect.induct)
  case (1 cs p n)
  from "1.prems" consider "p \<le> q"
    | cs' hi where "isect_pass cs p p = Inr (cs', Some hi)" "hi \<noteq> p"
        "fuse_intersect cs' hi (Suc n) = Inr (r, q, m)"
    by (subst (asm) fuse_intersect.simps)
      (auto split: sum.splits prod.splits option.splits if_splits)
  then show ?case
  proof cases
    case 2
    then show ?thesis using "1.IH" [OF 2(1) refl refl] isect_pass_ge by (meson order_trans)
  qed
qed

lemma fuse_score_doc_moves:
  "fuse_score_doc st p con = Continue st' p' \<Longrightarrow> p' = p + 1"
  by (auto simp: fuse_score_doc_def Let_def
      split: sum.splits prod.splits option.splits verdict.splits)

lemma fuse_bound_doc_moves:
  assumes "fuse_bound_doc st p = Continue st' p'" and "p < n"
  shows "p < p'"
proof -
  have "p < rend + 1" if "\<not> rend < p" and "\<not> FUSE_END - 1 \<le> rend" for rend
    using that less_inc [of rend "FUSE_END - 1"] by (simp add: not_le not_less)
  then show ?thesis
    using assms less_inc [OF assms(2)]
    by (auto simp: fuse_bound_doc_def Let_def dest!: fuse_score_doc_moves
        split: sum.splits prod.splits if_splits)
qed

lemma fuse_visit_moves: "fuse_visit st p = Continue st' p' \<Longrightarrow> p < n \<Longrightarrow> p < p'"
  by (auto simp: fuse_visit_def Let_def less_inc dest: fuse_bound_doc_moves split: if_splits)

lemma fuse_candidate_moves: "fuse_candidate st p = Continue st' p' \<Longrightarrow> p < n \<Longrightarrow> p < p'"
  by (auto simp: fuse_candidate_def dest: fuse_visit_moves split: sum.splits prod.splits if_splits)

lemma fuse_step_moves:
  assumes "fuse_step st p = Continue st' p'"
  shows "p < p'"
proof (cases "rq st = []")
  case True
  then have "fuse_candidate st p = Continue st' p'" and "p < nwarp st"
    using assms by (auto simp: fuse_step_def at_end_def split: if_splits)
  then show ?thesis by (rule fuse_candidate_moves)
next
  case False
  then obtain r q n where i: "fuse_intersect (rq st) p (nrqskip st) = Inr (r, q, n)"
    and c: "fuse_candidate (st\<lparr>rq := r, nrqskip := n\<rparr>) q = Continue st' p'" and "q < nwarp st"
    using assms
    by (auto simp: fuse_step_def at_end_def Let_def split: sum.splits prod.splits if_splits)
  then show ?thesis
    using fuse_intersect_ge [OF i] fuse_candidate_moves [OF c] by (meson order_le_less_trans)
qed

function fuse_loop :: "'s fstate \<Rightarrow> u32 \<Rightarrow> failure + 's fstate" where
  "fuse_loop st p =
     (case fuse_step st p of
        Continue st' p' \<Rightarrow> fuse_loop st' p'
      | Break st' \<Rightarrow> Inr st'
      | Return e \<Rightarrow> Inl e)"
  by pat_completeness auto
termination
proof (relation "measure (\<lambda>(st, p). 2 ^ 32 - unat p)", goal_cases)
  case 1
  show ?case by simp
next
  case (2 st p st' p')
  then have "p < p'" by (auto dest: fuse_step_moves)
  moreover have "unat p' < 2 ^ 32" using unsigned_less [of p'] by simp
  ultimately show ?case by (simp add: word_less_nat_alt)
qed

declare fuse_loop.simps [simp del]

definition weave_fuse_run :: "'s fstate \<Rightarrow> failure + 's fstate" where
  "weave_fuse_run st = fuse_loop st 0"

subsection \<open>The brute-force reference\<close>

definition ref_seek :: "'s chan \<Rightarrow> u32 \<Rightarrow> failure + 's chan" where
  "ref_seek c p =
     (if nseek c = 0 \<or> cur c < p then
        (case seek (ops c) (cstate c) p of
           None \<Rightarrow> Inl (CHAN_RAISED, Some (cid c))
         | Some (q, be, s) \<Rightarrow> Inr (moved c q be s))
      else Inr c)"

fun ref_doc ::
  "u32 \<Rightarrow> 's chan list \<Rightarrow> f32 \<Rightarrow> bool \<Rightarrow> failure + ('s chan list \<times> (f32 \<times> bool) option)" where
  \<comment> \<open>the inner loop: \<open>None\<close> is a veto, otherwise the sum and \<open>reached\<close>\<close>
  "ref_doc p [] s reached = Inr ([], Some (s, reached))"
| "ref_doc p (c # cs) s reached =
     (case ref_seek c p of Inl e \<Rightarrow> Inl e
      | Inr c1 \<Rightarrow>
          if cur c1 \<noteq> p then
            (if required c1 then Inr (c1 # cs, None)
             else case ref_doc p cs s reached of Inl e \<Rightarrow> Inl e
               | Inr (cs', r) \<Rightarrow> Inr (c1 # cs', r))
          else
            (let (v, c2) = take_score c1; c3 = bump_score c2
             in if v = NInf then Inr (c3 # cs, None)
                else case ref_doc p cs (fadd s v) (reached \<or> \<not> required c1) of Inl e \<Rightarrow> Inl e
                  | Inr (cs', r) \<Rightarrow> Inr (c3 # cs', r)))"

definition ref_accept :: "nat \<Rightarrow> 's fstate \<Rightarrow> u32 \<Rightarrow> (f32 \<times> bool) option \<Rightarrow> 's fstate" where
  "ref_accept nsc st p res =
     (case res of None \<Rightarrow> st
      | Some (s, reached) \<Rightarrow>
          if \<not> reached \<and> 0 < nsc then st
          else if length (heap st) < topk st \<or> flt (theta st) s then fuse_push st p s else st)"

function ref_loop :: "nat \<Rightarrow> 's fstate \<Rightarrow> 's chan list \<Rightarrow> u32 \<Rightarrow> failure + 's fstate" where
  "ref_loop nsc st cs p =
     (if p < nwarp st then
        (if \<not> fuse_live st p then ref_loop nsc st cs (p + 1)
         else case ref_doc p cs fzero False of Inl e \<Rightarrow> Inl e
           | Inr (cs', res) \<Rightarrow> ref_loop nsc (ref_accept nsc st p res) cs' (p + 1))
      else Inr st)"
  by pat_completeness auto
termination
proof (relation "measure (\<lambda>(nsc, st, cs, p). 2 ^ 32 - unat p)", goal_cases)
  case 1
  show ?case by simp
next
  case (2 nsc st cs p)
  moreover have "unat (p + 1) < 2 ^ 32" using unsigned_less [of "p + 1"] by simp
  ultimately show ?case by (simp add: unat_inc [of p "nwarp st"])
next
  case (3 nsc st cs p x2 x y)
  moreover have "unat (p + 1) < 2 ^ 32" using unsigned_less [of "p + 1"] by simp
  ultimately show ?case by (simp add: unat_inc [of p "nwarp st"])
qed

declare ref_loop.simps [simp del]

definition weave_fuse_reference ::
  "'s chan list \<Rightarrow> u64 list option \<Rightarrow> u32 \<Rightarrow> int \<Rightarrow> failure + hit list" where
  "weave_fuse_reference chans lv n k =
     (case weave_fuse_init chans k lv n of
        Inl _ \<Rightarrow> Inr []
      | Inr st \<Rightarrow>
          (case ref_loop (length (sc st)) st (rq st @ sc st) 0 of Inl e \<Rightarrow> Inl e
           | Inr st' \<Rightarrow> Inr (snd (weave_fuse_drain st'))))"

end
