(* ===== verification/Weave_Fuse_Spec.thy ===== *)
theory Weave_Fuse_Spec
  imports Weave_Fuse
begin

text \<open>
  What a fused scan is meant to return, stated over the channels' postings instead of their
  cursors: \<open>cand\<close> is the score of a candidate document (none for a dead, vetoed or unreached one)
  and \<open>spec_heap\<close> offers every position to the top-k heap in ascending order. The reference loop
  and the pruning loop of \<open>fuse.c\<close> are both shown to leave exactly this heap.
\<close>

subsection \<open>Static parts of a channel\<close>

definition same_chan :: "'s chan \<Rightarrow> 's chan \<Rightarrow> bool" where
  "same_chan c d \<longleftrightarrow> ops c = ops d \<and> cid c = cid d \<and> maxscore c = maxscore d \<and>
     weight c = weight d \<and> required c = required d"

lemma same_chan_refl [simp]: "same_chan c c"
  by (simp add: same_chan_def)

lemma same_chan_trans: "same_chan a b \<Longrightarrow> same_chan b c \<Longrightarrow> same_chan a c"
  by (simp add: same_chan_def)

lemma same_chanD:
  assumes "same_chan c d"
  shows "ops d = ops c" "cid d = cid c" "maxscore d = maxscore c" "weight d = weight c"
    "required d = required c"
  using assms by (simp_all add: same_chan_def)

abbreviation same_chans :: "'s chan list \<Rightarrow> 's chan list \<Rightarrow> bool" where
  "same_chans \<equiv> list_all2 same_chan"

lemma same_chans_refl [simp]: "same_chans cs cs"
  by (simp add: list_all2_refl)

lemma same_chans_trans: "same_chans a b \<Longrightarrow> same_chans b c \<Longrightarrow> same_chans a c"
  using list_all2_trans [of same_chan same_chan same_chan] same_chan_trans by blast

subsection \<open>Candidates\<close>

fun spec_doc :: "(nat \<Rightarrow> postings) \<Rightarrow> 's chan list \<Rightarrow> u32 \<Rightarrow> f32 \<Rightarrow> bool \<Rightarrow> (f32 \<times> bool) option" where
  "spec_doc post [] p s r = Some (s, r)"
| "spec_doc post (c # cs) p s r =
     (case post (cid c) p of
        None \<Rightarrow> if required c then None else spec_doc post cs p s r
      | Some v \<Rightarrow>
          let x = fmul (weight c) v
          in if x = NInf then None else spec_doc post cs p (fadd s x) (r \<or> \<not> required c))"

definition cand ::
  "(nat \<Rightarrow> postings) \<Rightarrow> 's chan list \<Rightarrow> nat \<Rightarrow> u64 list option \<Rightarrow> u32 \<Rightarrow> u32 \<Rightarrow> f32 option" where
  "cand post cs nsc lv n p =
     (if \<not> live_at lv n p then None
      else case spec_doc post cs p fzero False of None \<Rightarrow> None
        | Some (s, r) \<Rightarrow> if \<not> r \<and> 0 < nsc then None else Some s)"

definition accept :: "nat \<Rightarrow> hit list \<Rightarrow> u32 \<Rightarrow> f32 option \<Rightarrow> hit list" where
  "accept k h p os =
     (case os of None \<Rightarrow> h
      | Some s \<Rightarrow> if length h < k \<or> flt (heap_theta k h) s
                 then heap_push k h \<lparr>hwarp = p, hscore = s\<rparr> else h)"

definition positions :: "u32 \<Rightarrow> u32 \<Rightarrow> u32 list" where
  "positions a b = map of_nat [unat a..<unat b]"

definition spec_heap :: "(u32 \<Rightarrow> f32 option) \<Rightarrow> nat \<Rightarrow> hit list \<Rightarrow> u32 list \<Rightarrow> hit list" where
  "spec_heap f k h ps = foldl (\<lambda>h p. accept k h p (f p)) h ps"

lemma positions_Nil [simp]: "b \<le> a \<Longrightarrow> positions a b = []"
  by (simp add: positions_def word_le_nat_alt)

lemma positions_Cons: "a < b \<Longrightarrow> positions a b = a # positions (a + 1) b"
  by (simp add: positions_def upt_conv_Cons word_less_nat_alt unat_inc [of a b])

lemma positions_append:
  assumes "a \<le> b" and "b \<le> c"
  shows "positions a c = positions a b @ positions b c"
proof -
  have "[unat a..<unat c] = [unat a..<unat b] @ [unat b..<unat c]"
    using assms upt_add_eq_append [of "unat a" "unat b" "unat c - unat b"]
    by (simp add: word_le_nat_alt)
  then show ?thesis by (simp add: positions_def)
qed

lemma set_positions [simp]: "set (positions a b) = {q. a \<le> q \<and> q < b}"
proof -
  have "of_nat n \<in> {q. a \<le> q \<and> q < b}" if "unat a \<le> n" "n < unat b" for n
  proof -
    have "n < 2 ^ 32" using that unat_u32 [of b] by simp
    then have "unat (of_nat n :: u32) = n" by (simp add: unat_of_nat take_bit_nat_eq_self)
    then show ?thesis using that by (simp add: word_le_nat_alt word_less_nat_alt)
  qed
  moreover have "q \<in> set (positions a b)" if "a \<le> q" "q < b" for q
    using that unfolding positions_def
    by (auto simp: word_le_nat_alt word_less_nat_alt image_iff intro!: bexI [of _ "unat q"])
  ultimately show ?thesis by (auto simp: positions_def)
qed

lemma spec_heap_append: "spec_heap f k h (ps @ qs) = spec_heap f k (spec_heap f k h ps) qs"
  by (simp add: spec_heap_def)

lemma spec_heap_split:
  "a \<le> b \<Longrightarrow> b \<le> c \<Longrightarrow>
   spec_heap f k h (positions a c) = spec_heap f k (spec_heap f k h (positions a b)) (positions b c)"
  by (simp add: positions_append [of a b c] spec_heap_append)

lemma spec_heap_one: "p < b \<Longrightarrow> spec_heap f k h (positions p (p + 1)) = accept k h p (f p)"
  by (simp add: positions_Cons [OF less_inc] spec_heap_def)

lemma spec_heap_idle:
  assumes "\<And>q. a \<le> q \<Longrightarrow> q < b \<Longrightarrow> accept k h q (f q) = h"
  shows "spec_heap f k h (positions a b) = h"
  unfolding spec_heap_def by (rule foldl_id_on) (use assms in auto)

lemma accept_None [simp]: "accept k h p None = h"
  by (simp add: accept_def)

lemma accept_low:
  assumes "fle (Fin x) (heap_theta k h)"
  shows "accept k h p (Some (Fin x)) = h"
  using assms fle_not_flt [OF assms] by (auto simp: accept_def heap_theta_def split: if_splits)

subsection \<open>Channels in the middle of a scan\<close>

definition placed :: "u32 set \<Rightarrow> (nat \<Rightarrow> postings) \<Rightarrow> u32 \<Rightarrow> 's chan \<Rightarrow> bool" where
  \<comment> \<open>sought at or after \<open>p\<close>: it stands on its first posting from \<open>p\<close> on\<close>
  "placed A post p c \<longleftrightarrow>
     0 < nseek c \<and> next_at (post (cid c)) p (cur c) \<and>
     (\<exists>hi. standing A (ops c) (post (cid c)) (cur c) hi (cstate c) \<and>
           (cur c \<noteq> FUSE_END \<longrightarrow> hi = blkend c \<and> cur c \<le> blkend c))"

definition chan_ok :: "u32 set \<Rightarrow> (nat \<Rightarrow> postings) \<Rightarrow> u32 \<Rightarrow> 's chan \<Rightarrow> bool" where
  "chan_ok A post p c \<longleftrightarrow>
     (if nseek c = 0 then opens A (ops c) (post (cid c)) (cstate c)
      else (\<exists>q. placed A post q c \<and> q \<le> p))"

lemma placed_chan_ok: "placed A post p c \<Longrightarrow> chan_ok A post p c"
  by (auto simp: chan_ok_def placed_def)

lemma chan_ok_mono: "chan_ok A post p c \<Longrightarrow> p \<le> q \<Longrightarrow> chan_ok A post q c"
  unfolding chan_ok_def by (metis order_trans)

lemma placed_later:
  assumes "placed A post q c" and "q \<le> p" and "p \<le> cur c"
  shows "placed A post p c"
  using assms by (auto simp: placed_def next_at_def dest: order_trans [OF assms(2)])

lemma placed_absent: "placed A post p c \<Longrightarrow> p \<le> q \<Longrightarrow> q < cur c \<Longrightarrow> post (cid c) q = None"
  by (auto simp: placed_def next_at_def)

lemma placed_ge: "placed A post p c \<Longrightarrow> p \<le> cur c"
  by (auto simp: placed_def next_at_def)

lemma placed_here: "placed A post p c \<Longrightarrow> cur c \<noteq> FUSE_END \<Longrightarrow> \<exists>v. post (cid c) (cur c) = Some v"
  by (auto simp: placed_def next_at_def)

lemma placed_iff:
  assumes "placed A post p c" and "p \<noteq> FUSE_END"
  shows "cur c = p \<longleftrightarrow> post (cid c) p \<noteq> None"
  using placed_here [OF assms(1)] placed_absent [OF assms(1) order_refl] placed_ge [OF assms(1)] assms(2)
  by (cases "cur c = p") auto

lemma chan_ok_seek:
  assumes ok: "chan_ok A post p c" and p: "p \<noteq> FUSE_END" and ask: "nseek c = 0 \<or> cur c < p"
  obtains q be s where "seek (ops c) (cstate c) p = Some (q, be, s)" "next_at (post (cid c)) p q"
    "be = None \<Longrightarrow> q = FUSE_END" "standing A (ops c) (post (cid c)) q (blk_end q be) s"
proof (cases "nseek c = 0")
  case True
  then have "opens A (ops c) (post (cid c)) (cstate c)" using ok by (simp add: chan_ok_def)
  then show thesis using p that unfolding opens_def by blast
next
  case False
  then obtain q hi where "placed A post q c" and
    st: "standing A (ops c) (post (cid c)) (cur c) hi (cstate c)"
    using ok by (auto simp: chan_ok_def placed_def)
  have le: "cur c \<le> p" using ask False by auto
  show thesis by (rule standing_seek [OF st le p]) (rule that)
qed

lemma moved_placed:
  assumes "next_at (post (cid c)) p q" and "be = None \<Longrightarrow> q = FUSE_END"
    and "standing A (ops c) (post (cid c)) q (blk_end q be) s"
  shows "placed A post p (moved c q be s)"
  using assms
  by (cases be) (auto simp: placed_def moved_def Let_def blk_end_def max_def not_less split: if_splits)

lemma moved_simps [simp]: "same_chan c (moved c q be s)" "cur (moved c q be s) = q"
  by (simp_all add: moved_def same_chan_def Let_def)

lemma advance_ok:
  assumes ok: "chan_ok A post p c" and p: "p \<noteq> FUSE_END"
  obtains c' where "fuse_advance c p = Inr c'" "same_chan c c'" "placed A post p c'"
proof (cases "0 < nseek c \<and> p \<le> cur c")
  case True
  then have "placed A post p c"
    using ok placed_later by (auto simp: chan_ok_def)
  then show thesis using True that [of c] by (simp add: fuse_advance_def)
next
  case False
  then have "nseek c = 0 \<or> cur c < p" by auto
  then obtain q be s where sk: "seek (ops c) (cstate c) p = Some (q, be, s)"
    and nx: "next_at (post (cid c)) p q" and be: "be = None \<Longrightarrow> q = FUSE_END"
    and st: "standing A (ops c) (post (cid c)) q (blk_end q be) s"
    by (rule chan_ok_seek [OF ok p]) blast
  have "\<not> q < p" using nx by (auto simp: next_at_def)
  then have "fuse_advance c p = Inr (moved c q be s)"
    using False sk by (auto simp: fuse_advance_def)
  moreover have "placed A post p (moved c q be s)" using nx be st by (rule moved_placed)
  ultimately show thesis using that [of "moved c q be s"] by simp
qed

lemma take_score_ok:
  assumes pl: "placed A post p c" and p: "p \<noteq> FUSE_END" and here: "cur c = p"
  obtains v c' where "post (cid c) p = Some v" "take_score c = (fmul (weight c) v, c')"
    "same_chan c c'" "placed A post p c'" "cur c' = p"
proof -
  obtain v where v: "post (cid c) p = Some v" using placed_here [OF pl] p here by auto
  obtain s where sc: "score (ops c) (cstate c) p = (v, s)"
    and st: "standing A (ops c) (post (cid c)) p (blkend c) s"
    using pl p here standing_score [of A "ops c" "post (cid c)" p "blkend c" "cstate c" v] v
    by (metis placed_def prod.collapse)
  show thesis
    by (rule that [OF v, of "c\<lparr>cstate := s\<rparr>"])
      (use pl sc st here p in \<open>auto simp: take_score_def same_chan_def placed_def\<close>)
qed

lemma bump_score_simps [simp]:
  "same_chan c (bump_score d) = same_chan c d" "placed A post p (bump_score c) = placed A post p c"
  "cur (bump_score c) = cur c" "cid (bump_score c) = cid c"
  by (simp_all add: bump_score_def same_chan_def placed_def)

subsection \<open>The reference computes the specification\<close>

lemma spec_doc_same: "same_chans cs ds \<Longrightarrow> spec_doc post cs p s r = spec_doc post ds p s r"
  by (induction cs ds arbitrary: s r rule: list_all2_induct)
    (auto simp: same_chan_def Let_def split: option.splits)

lemma ref_seek_ok:
  assumes ok: "chan_ok A post p c" and p: "p \<noteq> FUSE_END"
  obtains c' where "ref_seek c p = Inr c'" "same_chan c c'" "placed A post p c'"
proof (cases "nseek c = 0 \<or> cur c < p")
  case True
  then obtain q be s where sk: "seek (ops c) (cstate c) p = Some (q, be, s)"
    and nx: "next_at (post (cid c)) p q" and be: "be = None \<Longrightarrow> q = FUSE_END"
    and st: "standing A (ops c) (post (cid c)) q (blk_end q be) s"
    by (rule chan_ok_seek [OF ok p]) blast
  have "ref_seek c p = Inr (moved c q be s)" using True sk by (auto simp: ref_seek_def)
  moreover have "placed A post p (moved c q be s)" using nx be st by (rule moved_placed)
  ultimately show thesis using that [of "moved c q be s"] by simp
next
  case False
  then have "placed A post p c" using ok placed_later by (auto simp: chan_ok_def not_less)
  then show thesis using False that [of c] by (auto simp: ref_seek_def)
qed

lemma ref_doc_ok:
  assumes "\<forall>c\<in>set cs. chan_ok A post p c" and "p \<noteq> FUSE_END"
  shows "\<exists>cs'. ref_doc p cs s r = Inr (cs', spec_doc post cs p s r) \<and> same_chans cs cs' \<and>
           (\<forall>c\<in>set cs'. chan_ok A post p c)"
  using assms(1)
proof (induction cs arbitrary: s r)
  case Nil
  show ?case by simp
next
  case (Cons c cs)
  have rest: "\<forall>c\<in>set cs. chan_ok A post p c" using Cons.prems by simp
  obtain c1 where c1: "ref_seek c p = Inr c1" "same_chan c c1" "placed A post p c1"
    using Cons.prems assms(2) by (auto elim: ref_seek_ok [of A post p c])
  note d1 = same_chanD [OF c1(2)]
  show ?case
  proof (cases "cur c1 = p")
    case False
    then have "post (cid c) p = None" using placed_iff [OF c1(3) assms(2)] by (simp add: d1)
    then show ?thesis
      using Cons.IH [OF rest, of s r] c1(1,2) False rest placed_chan_ok [OF c1(3)]
      by (auto simp: d1)
  next
    case True
    obtain v c2 where c2: "post (cid c1) p = Some v" "take_score c1 = (fmul (weight c1) v, c2)"
      "same_chan c1 c2" "placed A post p c2"
      by (rule take_score_ok [OF c1(3) assms(2) True]) blast
    let ?c3 = "bump_score c2"
    have c3: "same_chan c ?c3" "chan_ok A post p ?c3"
      using same_chan_trans [OF c1(2) c2(3)] c2(4) by (simp_all add: placed_chan_ok)
    show ?thesis
      using Cons.IH [OF rest, of "fadd s (fmul (weight c1) v)" "r \<or> \<not> required c1"]
        c1(1) c2(1,2) c3 True rest
      by (auto simp: d1 Let_def)
  qed
qed

lemma fuse_push_heap [simp]:
  "heap (fuse_push st p s) = heap_push (topk st) (heap st) \<lparr>hwarp = p, hscore = s\<rparr>"
  "theta (fuse_push st p s) = heap_theta (topk st) (heap (fuse_push st p s))"
  "topk (fuse_push st p s) = topk st" "live (fuse_push st p s) = live st"
  "nwarp (fuse_push st p s) = nwarp st"
  by (simp_all add: fuse_push_def Let_def)

lemma ref_loop_ok:
  assumes "\<forall>c\<in>set cs. chan_ok A post p c" and "theta st = heap_theta (topk st) (heap st)"
  shows "\<exists>st'. ref_loop nsc st cs p = Inr st' \<and>
    heap st' = spec_heap (cand post cs nsc (live st) (nwarp st)) (topk st) (heap st)
                 (positions p (nwarp st))"
  using assms
proof (induction nsc st cs p rule: ref_loop.induct)
  case (1 nsc st cs p)
  show ?case
  proof (cases "p < nwarp st")
    case False
    then show ?thesis by (subst ref_loop.simps) (auto simp: not_less spec_heap_def)
  next
    case True
    let ?f = "cand post cs nsc (live st) (nwarp st)"
    have p: "p \<noteq> FUSE_END" using True by auto
    have split: "spec_heap ?f (topk st) (heap st) (positions p (nwarp st)) =
        spec_heap ?f (topk st) (accept (topk st) (heap st) p (?f p)) (positions (p + 1) (nwarp st))"
      by (simp add: positions_Cons [OF True] spec_heap_def)
    have le: "p \<le> p + 1" using less_inc [OF True] by simp
    show ?thesis
    proof (cases "fuse_live st p")
      case False
      have "\<forall>c\<in>set cs. chan_ok A post (p + 1) c" using "1.prems"(1) chan_ok_mono le by blast
      moreover have "?f p = None" using False by (simp add: cand_def fuse_live_def)
      ultimately show ?thesis
        using "1.IH"(1) [OF True False _ "1.prems"(2)] False
        by (subst ref_loop.simps) (simp add: True split)
    next
      case lv: True
      obtain cs' where rd: "ref_doc p cs fzero False = Inr (cs', spec_doc post cs p fzero False)"
        "same_chans cs cs'" "\<forall>c\<in>set cs'. chan_ok A post p c"
        using ref_doc_ok [OF "1.prems"(1) p] by blast
      let ?st = "ref_accept nsc st p (spec_doc post cs p fzero False)"
      have st: "heap ?st = accept (topk st) (heap st) p (?f p)" "topk ?st = topk st"
        "live ?st = live st" "nwarp ?st = nwarp st" "theta ?st = heap_theta (topk ?st) (heap ?st)"
        using lv "1.prems"(2)
        by (auto simp: ref_accept_def accept_def cand_def fuse_live_def split: option.splits)
      have "\<forall>c\<in>set cs'. chan_ok A post (p + 1) c" using rd(3) chan_ok_mono le by blast
      moreover have "cand post cs' nsc (live st) (nwarp st) = ?f"
        by (rule ext) (simp add: cand_def spec_doc_same [OF rd(2)])
      ultimately show ?thesis
        using "1.IH"(2) [OF True _ rd(1) refl _ st(5)] lv
        by (subst ref_loop.simps) (simp add: True rd(1) split st)
    qed
  qed
qed

end
