(* ===== verification/Weave_Fuse_Heap.thy ===== *)
theory Weave_Fuse_Heap
  imports Weave_Fuse_Spec "HOL-Library.Multiset"
begin

text \<open>
  The top-k heap of \<open>fuse.c\<close>. Under \<open>fuse_worse\<close> -- lower score first, then higher warp -- the
  hits without a NaN score are linearly ordered; the heap keeps the worst entry at its root,
  \<open>fuse_push\<close> keeps the \<open>k\<close> best of what it was offered, and \<open>weave_fuse_drain\<close> sorts them best
  first.
\<close>

subsection \<open>The order of hits\<close>

definition upto_worse :: "hit \<Rightarrow> hit \<Rightarrow> bool" where
  \<comment> \<open>\<open>a\<close> is as bad as \<open>b\<close> or worse\<close>
  "upto_worse a b \<longleftrightarrow> \<not> fuse_worse b a"

definition hits_ok :: "hit list \<Rightarrow> bool" where
  "hits_ok h \<longleftrightarrow> (\<forall>x\<in>set h. hscore x \<noteq> NaN)"

lemma worse_irrefl [simp]: "\<not> fuse_worse a a"
  by (simp add: fuse_worse_def)

lemma upto_worse_refl [simp]: "upto_worse a a"
  by (simp add: upto_worse_def)

lemma upto_worse_alt:
  assumes "hscore a \<noteq> NaN" and "hscore b \<noteq> NaN"
  shows "upto_worse a b \<longleftrightarrow> flt (hscore a) (hscore b) \<or> (hscore a = hscore b \<and> hwarp b \<le> hwarp a)"
  using assms flt_antisym_eq [OF assms]
    flt_trans [of "hscore a" "hscore b" "hscore a"]
  by (auto simp: upto_worse_def fuse_worse_def not_less)

lemma fuse_worse_alt:
  assumes "hscore a \<noteq> NaN" and "hscore b \<noteq> NaN"
  shows "fuse_worse a b \<longleftrightarrow> flt (hscore a) (hscore b) \<or> (hscore a = hscore b \<and> hwarp b < hwarp a)"
  using assms flt_antisym_eq [OF assms] flt_trans [of "hscore a" "hscore b" "hscore a"]
  by (auto simp: fuse_worse_def)

lemma upto_worse_trans:
  assumes "upto_worse a b" and "upto_worse b c"
    and "hscore a \<noteq> NaN" and "hscore b \<noteq> NaN" and "hscore c \<noteq> NaN"
  shows "upto_worse a c"
  using assms flt_trans [of "hscore a" "hscore b" "hscore c"]
  by (simp add: upto_worse_alt) (metis order_trans)

lemma upto_worse_antisym:
  assumes "upto_worse a b" and "upto_worse b a" and "hscore a \<noteq> NaN" and "hscore b \<noteq> NaN"
  shows "a = b"
  using assms flt_trans [of "hscore a" "hscore b" "hscore a"]
  by (cases a; cases b) (auto simp: upto_worse_alt)

lemma worse_imp_upto: "fuse_worse a b \<Longrightarrow> upto_worse a b"
  using flt_trans [of "hscore a" "hscore b" "hscore a"]
  by (auto simp: upto_worse_def fuse_worse_def split: if_splits)

lemma not_worse: "\<not> fuse_worse a b \<longleftrightarrow> upto_worse b a"
  by (simp add: upto_worse_def)

subsection \<open>Array shape\<close>

abbreviation parent :: "nat \<Rightarrow> nat" where
  "parent i \<equiv> (i - 1) div 2"

lemma parent_less: "0 < i \<Longrightarrow> parent i < i"
  by simp

lemma parent_child: "0 < j \<Longrightarrow> parent j = i \<longleftrightarrow> j = 2 * i + 1 \<or> j = 2 * i + 2"
  by arith

lemma fuse_swap_length [simp]: "length (fuse_swap h i j) = length h"
  by (simp add: fuse_swap_def)

lemma fuse_swap_mset [simp]:
  "i < length h \<Longrightarrow> j < length h \<Longrightarrow> mset (fuse_swap h i j) = mset h"
  by (simp add: fuse_swap_def mset_swap)

lemma fuse_swap_set [simp]:
  "i < length h \<Longrightarrow> j < length h \<Longrightarrow> set (fuse_swap h i j) = set h"
  by (metis fuse_swap_mset set_mset_mset)

lemma fuse_swap_nth:
  "i < length h \<Longrightarrow> j < length h \<Longrightarrow> x < length h \<Longrightarrow>
   fuse_swap h i j ! x = (if x = j then h ! i else if x = i then h ! j else h ! x)"
  by (auto simp: fuse_swap_def nth_list_update)

definition is_heap :: "hit list \<Rightarrow> nat \<Rightarrow> bool" where
  "is_heap h n \<longleftrightarrow> (\<forall>j. 0 < j \<longrightarrow> j < n \<longrightarrow> upto_worse (h ! parent j) (h ! j))"

definition heap_but_below :: "hit list \<Rightarrow> nat \<Rightarrow> nat \<Rightarrow> bool" where
  \<comment> \<open>only the edges from \<open>i\<close> down to its children may be out of order\<close>
  "heap_but_below h n i \<longleftrightarrow>
     (\<forall>j. 0 < j \<longrightarrow> j < n \<longrightarrow> parent j \<noteq> i \<longrightarrow> upto_worse (h ! parent j) (h ! j)) \<and>
     (\<forall>j. 0 < j \<longrightarrow> j < n \<longrightarrow> parent j = i \<longrightarrow> 0 < i \<longrightarrow> upto_worse (h ! parent i) (h ! j))"

definition heap_but_above :: "hit list \<Rightarrow> nat \<Rightarrow> nat \<Rightarrow> bool" where
  \<comment> \<open>only the edge from \<open>i\<close> up to its parent may be out of order\<close>
  "heap_but_above h n i \<longleftrightarrow>
     (\<forall>j. 0 < j \<longrightarrow> j < n \<longrightarrow> j \<noteq> i \<longrightarrow> upto_worse (h ! parent j) (h ! j)) \<and>
     (\<forall>j. 0 < j \<longrightarrow> j < n \<longrightarrow> parent j = i \<longrightarrow> 0 < i \<longrightarrow> upto_worse (h ! parent i) (h ! j))"

lemma is_heap_root:
  assumes "is_heap h n" and "hits_ok h" and "i < n" and "n \<le> length h"
  shows "upto_worse (h ! 0) (h ! i)"
  using assms(3)
proof (induction i rule: less_induct)
  case (less i)
  show ?case
  proof (cases "i = 0")
    case False
    then have "upto_worse (h ! 0) (h ! parent i)" and "upto_worse (h ! parent i) (h ! i)"
      using less assms(1) by (auto simp: is_heap_def)
    moreover have "hscore (h ! x) \<noteq> NaN" if "x < n" for x
      using that assms(2,4) by (simp add: hits_ok_def)
    then have "hscore (h ! 0) \<noteq> NaN" "hscore (h ! parent i) \<noteq> NaN" "hscore (h ! i) \<noteq> NaN"
      using less.prems False by auto
    ultimately show ?thesis by (rule upto_worse_trans)
  qed simp
qed

subsection \<open>Sifting\<close>

definition sift_target :: "hit list \<Rightarrow> nat \<Rightarrow> nat \<Rightarrow> nat" where
  "sift_target h n i =
     (let w1 = (if 2 * i + 1 < n \<and> fuse_worse (h ! (2 * i + 1)) (h ! i) then 2 * i + 1 else i)
      in if 2 * i + 2 < n \<and> fuse_worse (h ! (2 * i + 2)) (h ! w1) then 2 * i + 2 else w1)"

lemma sift_down_unfold:
  "fuse_sift_down h n i =
     (if sift_target h n i = i then h
      else fuse_sift_down (fuse_swap h i (sift_target h n i)) n (sift_target h n i))"
proof -
  have t: "sift_target h n i =
      (let l = 2 * i + 1; r = l + 1;
           w1 = (if l < n \<and> fuse_worse (h ! l) (h ! i) then l else i)
       in if r < n \<and> fuse_worse (h ! r) (h ! w1) then r else w1)"
    by (simp add: sift_target_def Let_def)
  show ?thesis unfolding t Let_def by (rule fuse_sift_down.simps [of h n i, unfolded Let_def])
qed

lemma sift_target_cases:
  "sift_target h n i = i \<or> (parent (sift_target h n i) = i \<and> i < sift_target h n i \<and> sift_target h n i < n)"
  by (auto simp: sift_target_def Let_def)

lemma sift_target_min:
  assumes "hits_ok h" and "n \<le> length h" and "i < n" and "0 < j" and "j < n" and "parent j = i"
  shows "upto_worse (h ! sift_target h n i) (h ! j)"
    and "upto_worse (h ! sift_target h n i) (h ! i)"
proof -
  have ok: "hscore (h ! x) \<noteq> NaN" if "x < n" for x
    using that assms(1,2) by (simp add: hits_ok_def)
  have l: "2 * i + 1 < n" using assms(4-6) by arith
  define w1 where "w1 = (if fuse_worse (h ! (2 * i + 1)) (h ! i) then 2 * i + 1 else i)"
  have w1: "w1 < n" "upto_worse (h ! w1) (h ! i)" "upto_worse (h ! w1) (h ! (2 * i + 1))"
    using l assms(3) by (auto simp: w1_def not_worse worse_imp_upto)
  have t: "sift_target h n i = (if 2 * i + 2 < n \<and> fuse_worse (h ! (2 * i + 2)) (h ! w1) then 2 * i + 2 else w1)"
    using l by (simp add: sift_target_def w1_def Let_def)
  have tw: "upto_worse (h ! sift_target h n i) (h ! w1)" "sift_target h n i < n"
    "2 * i + 2 < n \<Longrightarrow> upto_worse (h ! sift_target h n i) (h ! (2 * i + 2))"
    using w1(1) by (auto simp: t not_worse worse_imp_upto)
  show "upto_worse (h ! sift_target h n i) (h ! i)"
    by (rule upto_worse_trans [OF tw(1) w1(2)]) (use ok tw w1 assms(3) in auto)
  have "upto_worse (h ! sift_target h n i) (h ! (2 * i + 1))"
    by (rule upto_worse_trans [OF tw(1) w1(3)]) (use ok tw w1 l in auto)
  then show "upto_worse (h ! sift_target h n i) (h ! j)"
    using tw(3) assms(4-6) parent_child [of j i] by auto
qed

lemma sift_down_ok:
  assumes "heap_but_below h n i" and "hits_ok h" and "n \<le> length h" and "i < n"
  shows "is_heap (fuse_sift_down h n i) n \<and> mset (fuse_sift_down h n i) = mset h \<and>
    (\<forall>x. n \<le> x \<longrightarrow> x < length h \<longrightarrow> fuse_sift_down h n i ! x = h ! x)"
  using assms
proof (induction "n - i" arbitrary: h i rule: less_induct)
  case less
  let ?t = "sift_target h n i"
  note min = sift_target_min [OF less.prems(2-4)]
  show ?case
  proof (cases "?t = i")
    case True
    have "upto_worse (h ! parent j) (h ! j)" if "0 < j" "j < n" for j
      using that less.prems(1) min(1) [of j] True
      by (cases "parent j = i") (auto simp: heap_but_below_def)
    then show ?thesis by (simp add: sift_down_unfold [of h n i] True is_heap_def)
  next
    case False
    then have t: "parent ?t = i" "i < ?t" "?t < n" using sift_target_cases [of h n i] by auto
    let ?h = "fuse_swap h i ?t"
    have il: "i < length h" "?t < length h" using t less.prems(3,4) by auto
    have nth: "?h ! x = (if x = ?t then h ! i else if x = i then h ! ?t else h ! x)" if "x < n" for x
      using that less.prems(3) il by (simp add: fuse_swap_nth)
    have below: "heap_but_below ?h n ?t"
      unfolding heap_but_below_def
    proof (intro conjI allI impI)
      fix j assume j: "0 < j" "j < n" "parent j \<noteq> ?t"
      have pj: "parent j < n" using j by arith
      show "upto_worse (?h ! parent j) (?h ! j)"
      proof (cases "parent j = i")
        case True
        then show ?thesis
          using min(1) [OF j(1,2) True] min(2) [OF j(1,2) True] j t by (auto simp: nth)
      next
        case False
        then show ?thesis
          using less.prems(1) j pj t by (auto simp: nth heap_but_below_def)
      qed
    next
      fix j assume j: "0 < j" "j < n" "parent j = ?t" "0 < ?t"
      have ne: "j \<noteq> i" "j \<noteq> ?t" "parent j \<noteq> i" "i \<noteq> ?t" using t j by arith+
      then have "upto_worse (h ! parent j) (h ! j)"
        using less.prems(1) j unfolding heap_but_below_def by blast
      then show "upto_worse (?h ! parent ?t) (?h ! j)"
        unfolding t(1) j(3) using ne nth [of i] nth [OF j(2)] less.prems(4) by simp
    qed
    have "hits_ok ?h" using less.prems(2) il by (simp add: hits_ok_def)
    from less.hyps [OF _ below this _ t(3)] t less.prems(3,4) il
    show ?thesis by (auto simp: sift_down_unfold [of h n i] False fuse_swap_nth)
  qed
qed

lemma sift_up_ok:
  assumes "heap_but_above h (length h) i" and "hits_ok h" and "i < length h"
  shows "is_heap (fuse_sift_up h i) (length h) \<and> mset (fuse_sift_up h i) = mset h"
  using assms
proof (induction h i rule: fuse_sift_up.induct)
  case (1 h i)
  note above = "1.prems"(1)
  show ?case
  proof (cases "0 < i \<and> fuse_worse (h ! i) (h ! parent i)")
    case False
    then have "upto_worse (h ! parent i) (h ! i)" if "0 < i" using that by (simp add: not_worse)
    then have "is_heap h (length h)"
      using above by (auto simp: is_heap_def heap_but_above_def)
    then show ?thesis using False by (subst fuse_sift_up.simps, subst fuse_sift_up.simps) auto
  next
    case True
    let ?p = "parent i" and ?h = "fuse_swap h i (parent i)"
    have pl: "?p < i" "?p < length h" using True "1.prems"(3) by auto
    have nth: "?h ! x = (if x = ?p then h ! i else if x = i then h ! ?p else h ! x)"
      if "x < length h" for x
      using that "1.prems"(3) pl by (simp add: fuse_swap_nth)
    have up: "upto_worse (h ! i) (h ! ?p)" using True by (simp add: worse_imp_upto)
    have ok: "hscore (h ! x) \<noteq> NaN" if "x < length h" for x
      using that "1.prems"(2) by (simp add: hits_ok_def)
    have "heap_but_above ?h (length h) ?p"
      unfolding heap_but_above_def
    proof (intro conjI allI impI)
      fix j assume j: "0 < j" "j < length h" "j \<noteq> ?p"
      have pj: "parent j < length h" using j by arith
      show "upto_worse (?h ! parent j) (?h ! j)"
      proof (cases "parent j = ?p \<and> j \<noteq> i")
        case True
        then have "upto_worse (h ! parent j) (h ! j)"
          using above j unfolding heap_but_above_def by blast
        then have "upto_worse (h ! ?p) (h ! j)" using True by simp
        then have "upto_worse (h ! i) (h ! j)"
          using up upto_worse_trans ok j pl "1.prems"(3) by blast
        then show ?thesis using True j pl nth [OF pl(2)] nth [OF j(2)] by simp
      next
        case False
        have ai: "upto_worse (h ! parent j) (h ! j)" if "j \<noteq> i"
          using above j that unfolding heap_but_above_def by blast
        have ci: "upto_worse (h ! ?p) (h ! j)" if "parent j = i"
          using above j that True unfolding heap_but_above_def by blast
        show ?thesis
          using False ai ci up j pl nth [OF pj] nth [OF j(2)] by auto
      qed
    next
      fix j assume j: "0 < j" "j < length h" "parent j = ?p" "0 < ?p"
      have pp: "upto_worse (h ! parent ?p) (h ! ?p)"
        using above j(4) pl by (auto simp: heap_but_above_def)
      define g where "g = parent ?p"
      have gp: "g < ?p" using j(4) unfolding g_def by arith
      have "upto_worse (h ! g) (h ! j)" if "j \<noteq> i"
      proof -
        have "upto_worse (h ! parent j) (h ! j)"
          using above j that unfolding heap_but_above_def by blast
        then have "upto_worse (h ! ?p) (h ! j)" unfolding j(3) .
        then show ?thesis
          using pp upto_worse_trans ok j pl gp unfolding g_def [symmetric]
          by (meson order.strict_trans)
      qed
      moreover have "j \<noteq> ?p" using j by arith
      ultimately have "upto_worse (h ! g) (if j = ?p then h ! i else if j = i then h ! ?p else h ! j)"
        using pp unfolding g_def [symmetric] by simp
      moreover have "?h ! g = h ! g" using nth [of g] gp pl by simp
      ultimately show "upto_worse (?h ! parent ?p) (?h ! j)"
        unfolding g_def [symmetric] nth [OF j(2)] by simp
    qed
    moreover have "hits_ok ?h" using "1.prems"(2,3) pl by (simp add: hits_ok_def)
    ultimately have "is_heap (fuse_sift_up ?h ?p) (length h) \<and> mset (fuse_sift_up ?h ?p) = mset ?h"
      using "1.IH" True pl by (auto simp: Let_def)
    then show ?thesis
      using True "1.prems"(3) pl by (subst fuse_sift_up.simps, subst fuse_sift_up.simps) (auto simp: Let_def)
  qed
qed

subsection \<open>Pushing\<close>

lemma hits_ok_mset: "mset g = mset h \<Longrightarrow> hits_ok g = hits_ok h"
  using mset_eq_setD [of g h] by (simp add: hits_ok_def)

lemma mset_replace_root: "h \<noteq> [] \<Longrightarrow> mset (h[0 := x]) = add_mset x (mset h - {#h ! 0#})"
  by (simp add: mset_update)

lemma heap_push_room:
  assumes "is_heap h (length h)" and "hits_ok h" and "hscore x \<noteq> NaN" and "length h < k"
  shows "is_heap (heap_push k h x) (Suc (length h))" and "mset (heap_push k h x) = add_mset x (mset h)"
proof -
  have nth: "(h @ [x]) ! j = h ! j" if "j < length h" for j
    using that by (simp add: nth_append)
  have above: "heap_but_above (h @ [x]) (length (h @ [x])) (length h)"
    unfolding heap_but_above_def
  proof (intro conjI allI impI)
    fix j assume j: "0 < j" "j < length (h @ [x])" "j \<noteq> length h"
    then have "j < length h" and "parent j < length h" by auto
    then show "upto_worse ((h @ [x]) ! parent j) ((h @ [x]) ! j)"
      using assms(1) j(1) by (simp add: nth is_heap_def)
  next
    fix j assume "0 < j" "j < length (h @ [x])" "parent j = length h" "0 < length h"
    then have False by simp
    then show "upto_worse ((h @ [x]) ! parent (length h)) ((h @ [x]) ! j)" ..
  qed
  have "hits_ok (h @ [x])" using assms(2,3) by (simp add: hits_ok_def)
  from sift_up_ok [OF above this] assms(4)
  show "is_heap (heap_push k h x) (Suc (length h))" "mset (heap_push k h x) = add_mset x (mset h)"
    by (simp_all add: heap_push_def)
qed

lemma heap_push_full:
  assumes "is_heap h (length h)" and "hits_ok h" and "hscore x \<noteq> NaN"
    and "\<not> length h < k" and "h \<noteq> []"
  shows "is_heap (heap_push k h x) (length h)"
    and "mset (heap_push k h x) = add_mset x (mset h - {#h ! 0#})"
proof -
  have "heap_but_below (h[0 := x]) (length h) 0"
    using assms(1) by (auto simp: heap_but_below_def is_heap_def nth_list_update)
  moreover have "hits_ok (h[0 := x])"
    using assms(2,3) by (auto simp: hits_ok_def dest!: set_update_subset_insert [THEN subsetD])
  ultimately have "is_heap (fuse_sift_down (h[0 := x]) (length h) 0) (length h) \<and>
      mset (fuse_sift_down (h[0 := x]) (length h) 0) = mset (h[0 := x])"
    using sift_down_ok [of "h[0 := x]" "length h" 0] assms(5) by simp
  then show "is_heap (heap_push k h x) (length h)"
    "mset (heap_push k h x) = add_mset x (mset h - {#h ! 0#})"
    using assms(4,5) by (simp_all add: heap_push_def mset_replace_root)
qed

definition heap_ok :: "nat \<Rightarrow> hit list \<Rightarrow> bool" where
  "heap_ok k h \<longleftrightarrow> is_heap h (length h) \<and> hits_ok h \<and> length h \<le> k"

lemma heap_ok_Nil [simp]: "heap_ok k []"
  by (simp add: heap_ok_def is_heap_def hits_ok_def)

lemma heap_push_ok:
  assumes h: "heap_ok k h" and x: "hscore x \<noteq> NaN" and k: "0 < k"
  shows "heap_ok k (heap_push k h x)"
    and "length (heap_push k h x) = min k (Suc (length h))"
    and "mset (heap_push k h x) =
           add_mset x (if length h < k then mset h else mset h - {#h ! 0#})"
proof -
  have ok: "is_heap h (length h)" "hits_ok h" "length h \<le> k" using h by (auto simp: heap_ok_def)
  have "is_heap (heap_push k h x) (min k (Suc (length h))) \<and>
      mset (heap_push k h x) = add_mset x (if length h < k then mset h else mset h - {#h ! 0#})"
  proof (cases "length h < k")
    case True
    then show ?thesis using heap_push_room [OF ok(1,2) x] by simp
  next
    case False
    then have "h \<noteq> []" "length h = k" using ok(3) k by auto
    then show ?thesis using heap_push_full [OF ok(1,2) x] by simp
  qed
  then have hp: "is_heap (heap_push k h x) (min k (Suc (length h)))"
    and ms: "mset (heap_push k h x) = add_mset x (if length h < k then mset h else mset h - {#h ! 0#})"
    by blast+
  have "size (mset (heap_push k h x)) = min k (Suc (length h))"
    unfolding ms using ok(3) k by (auto simp: size_Diff_singleton)
  then show len: "length (heap_push k h x) = min k (Suc (length h))" by simp
  have "set (heap_push k h x) \<subseteq> insert x (set h)"
    using arg_cong [OF ms, of set_mset] by (auto split: if_splits dest: in_diffD)
  then have "hits_ok (heap_push k h x)" using ok(2) x by (auto simp: hits_ok_def)
  then show "heap_ok k (heap_push k h x)" using hp len by (simp add: heap_ok_def)
  show "mset (heap_push k h x) = add_mset x (if length h < k then mset h else mset h - {#h ! 0#})"
    by (rule ms)
qed

lemma heap_theta_not_NaN: "heap_ok k h \<Longrightarrow> 0 < k \<Longrightarrow> heap_theta k h \<noteq> NaN"
  by (auto simp: heap_theta_def heap_ok_def hits_ok_def)

lemma heap_theta_push:
  assumes h: "heap_ok k h" and x: "hscore x \<noteq> NaN" and k: "0 < k"
    and acc: "length h < k \<or> flt (heap_theta k h) (hscore x)"
  shows "fle (heap_theta k h) (heap_theta k (heap_push k h x))"
proof (cases "length h < k")
  case True
  then show ?thesis
    using heap_theta_not_NaN [OF heap_push_ok(1) [OF h x k] k] by (simp add: heap_theta_def)
next
  case False
  let ?g = "heap_push k h x"
  have len: "length h = k" "h \<noteq> []" using False h k by (auto simp: heap_ok_def)
  have "length ?g = k" using heap_push_ok(2) [OF h x k] len by simp
  then have "?g ! 0 \<in> set ?g" using k by simp
  then have "?g ! 0 = x \<or> ?g ! 0 \<in> set h"
    using arg_cong [OF heap_push_ok(3) [OF h x k], of set_mset] False by (auto dest: in_diffD)
  moreover have "fle (hscore (h ! 0)) (hscore y)" if y: "y \<in> set h" for y
  proof -
    obtain i where i: "i < length h" "y = h ! i" using y by (auto simp: in_set_conv_nth)
    then have "upto_worse (h ! 0) y" using is_heap_root [of h "length h" i] h by (auto simp: heap_ok_def)
    moreover have "hscore (h ! 0) \<noteq> NaN" "hscore y \<noteq> NaN"
      using h len y by (auto simp: heap_ok_def hits_ok_def)
    ultimately show ?thesis
      by (auto simp: upto_worse_alt not_flt_fle [symmetric] dest: fle_not_flt flt_trans)
  qed
  moreover have "fle (hscore (h ! 0)) (hscore x)"
    using acc False len x by (auto simp: heap_theta_def flt_fle)
  ultimately show ?thesis using len \<open>length ?g = k\<close> by (auto simp: heap_theta_def)
qed

subsection \<open>Draining\<close>

definition tail_best :: "hit list \<Rightarrow> nat \<Rightarrow> bool" where
  \<comment> \<open>from \<open>n\<close> on the array is best first, and nothing before \<open>n\<close> is worse than it\<close>
  "tail_best h n \<longleftrightarrow> (\<forall>a b. a < b \<longrightarrow> n \<le> b \<longrightarrow> b < length h \<longrightarrow> upto_worse (h ! b) (h ! a))"

lemma same_prefix_mset:
  assumes "mset g = mset h" and "n \<le> length h" and "\<forall>x. n \<le> x \<longrightarrow> x < length h \<longrightarrow> g ! x = h ! x"
    and "a < n"
  obtains b where "b < n" and "g ! a = h ! b"
proof -
  have len: "length g = length h" by (rule mset_eq_length [OF assms(1)])
  have "drop n g = drop n h"
    by (rule nth_equalityI) (use assms(3) len in auto)
  moreover have "mset (take n g) + mset (drop n g) = mset (take n h) + mset (drop n h)"
    using assms(1) by (metis append_take_drop_id mset_append)
  ultimately have "set (take n g) = set (take n h)"
    by (metis add_right_cancel set_mset_mset)
  moreover have "g ! a \<in> set (take n g)"
    using assms(2,4) len by (auto simp: in_set_conv_nth intro!: exI [of _ a])
  ultimately obtain b where "b < n" "g ! a = h ! b"
    by (auto simp: in_set_conv_nth)
  then show thesis by (rule that)
qed

lemma drain_step:
  assumes hp: "is_heap h (Suc n)" and ok: "hits_ok h" and tb: "tail_best h (Suc n)"
    and n: "0 < n" "n < length h"
  defines "g \<equiv> fuse_sift_down (fuse_swap h 0 n) n 0"
  shows "is_heap g n \<and> hits_ok g \<and> tail_best g n \<and> mset g = mset h"
proof -
  let ?s = "fuse_swap h 0 n"
  have zl: "0 < length h" "h \<noteq> []" using n by auto
  have snth: "?s ! x = (if x = n then h ! 0 else if x = 0 then h ! n else h ! x)" if "x < length h" for x
    using that n zl by (simp add: fuse_swap_nth del: length_greater_0_conv)
  have oks: "hits_ok ?s" using ok n zl by (simp add: hits_ok_def)
  have "heap_but_below ?s n 0"
    using hp n by (auto simp: heap_but_below_def is_heap_def snth)
  then have g: "is_heap g n" "mset g = mset ?s"
    "\<forall>x. n \<le> x \<longrightarrow> x < length ?s \<longrightarrow> g ! x = ?s ! x"
    using sift_down_ok [of ?s n 0] oks n unfolding g_def by auto
  have len: "length g = length h" using mset_eq_length [OF g(2)] by simp
  have ms: "mset g = mset h" using g(2) n zl by simp
  have "upto_worse (g ! b) (g ! a)" if ab: "a < b" "n \<le> b" "b < length g" for a b
  proof -
    have "\<exists>a'. g ! a = h ! a' \<and> a' \<le> n \<or> g ! a = h ! a \<and> n < a"
    proof (cases "a < n")
      case True
      obtain c where c: "c < n" "g ! a = ?s ! c"
        by (rule same_prefix_mset [OF g(2) _ g(3) True]) (use n in auto)
      then show ?thesis using n by (auto simp: snth)
    next
      case False
      then show ?thesis using g(3) ab len n snth [of a] by (cases "a = n") auto
    qed
    then obtain a' where a': "g ! a = h ! a'" "a' \<le> n \<or> a' = a \<and> n < a" by blast
    show ?thesis
    proof (cases "b = n")
      case True
      then have "a' \<le> n" using a'(2) ab by auto
      then have "upto_worse (h ! 0) (h ! a')"
        using is_heap_root [OF hp ok, of a'] n by simp
      then show ?thesis using g(3) ab len n a'(1) True by (auto simp: snth)
    next
      case False
      then have "g ! b = h ! b" using g(3) ab len n by (auto simp: snth)
      moreover have "upto_worse (h ! b) (h ! a')"
        using tb a'(2) False ab len by (auto simp: tail_best_def)
      ultimately show ?thesis using a'(1) by simp
    qed
  qed
  then have "tail_best g n" by (simp add: tail_best_def)
  moreover have "hits_ok g" using ok hits_ok_mset [OF ms] by simp
  ultimately show ?thesis using g(1) ms by blast
qed

lemma drain_loop_ok:
  assumes "is_heap h (Suc n)" and "hits_ok h" and "tail_best h (Suc n)" and "n < length h"
  shows "mset (drain_loop h n) = mset h \<and> tail_best (drain_loop h n) 0"
  using assms
proof (induction h n rule: drain_loop.induct)
  case (1 h)
  then show ?case by (auto simp: tail_best_def)
next
  case (2 h n)
  have "is_heap (fuse_sift_down (fuse_swap h 0 (Suc n)) (Suc n) 0) (Suc n) \<and>
      hits_ok (fuse_sift_down (fuse_swap h 0 (Suc n)) (Suc n) 0) \<and>
      tail_best (fuse_sift_down (fuse_swap h 0 (Suc n)) (Suc n) 0) (Suc n) \<and>
      mset (fuse_sift_down (fuse_swap h 0 (Suc n)) (Suc n) 0) = mset h"
    by (rule drain_step) (use "2.prems" in auto)
  moreover from this have "length (fuse_sift_down (fuse_swap h 0 (Suc n)) (Suc n) 0) = length h"
    by (metis size_mset)
  ultimately show ?case using "2.IH" "2.prems"(4) by simp
qed

subsection \<open>The k best\<close>

definition hkey :: "hit \<Rightarrow> f32 \<times> int" where
  "hkey x = (hscore x, - uint (hwarp x))"

definition best_first :: "hit list \<Rightarrow> hit list" where
  \<comment> \<open>score order, ties by ascending warp\<close>
  "best_first xs = rev (sort_key hkey xs)"

lemma hkey_inj: "inj hkey"
proof (rule injI)
  fix x y assume "hkey x = hkey y"
  then have "hscore x = hscore y" and "hwarp x = hwarp y" using word_uint_eq_iff [of "hwarp x" "hwarp y"] by (simp_all add: hkey_def)
  then show "x = y" by (cases x; cases y) simp
qed

lemma worse_hkey:
  "hscore a \<noteq> NaN \<Longrightarrow> hscore b \<noteq> NaN \<Longrightarrow> fuse_worse a b \<longleftrightarrow> hkey a < hkey b"
  using not_flt_fle [of "hscore a" "hscore b"] less_eq_f32_fle [of "hscore a" "hscore b"]
  by (auto simp: fuse_worse_alt hkey_def less_f32_flt [symmetric] word_less_def)

lemma upto_worse_hkey:
  "hscore a \<noteq> NaN \<Longrightarrow> hscore b \<noteq> NaN \<Longrightarrow> upto_worse a b \<longleftrightarrow> hkey a \<le> hkey b"
  by (auto simp: upto_worse_def worse_hkey not_less)

lemma best_first_unique:
  assumes "mset xs = mset ys" and "sorted (map hkey (rev ys))"
  shows "best_first xs = ys"
proof -
  have "sort_key hkey xs = rev ys"
    by (rule sort_key_inj_key_eq) (use assms inj_on_subset [OF hkey_inj] in auto)
  then show ?thesis by (simp add: best_first_def)
qed

lemma mset_best_first [simp]: "mset (best_first xs) = mset xs"
  by (simp add: best_first_def)

lemma weave_fuse_drain_ok:
  assumes "heap_ok k h"
  shows "drain_loop h (length h - 1) = best_first h"
proof (cases h)
  case Nil
  then show ?thesis by (simp add: best_first_def)
next
  case (Cons a t)
  let ?d = "drain_loop h (length h - 1)"
  have "mset ?d = mset h \<and> tail_best ?d 0"
    by (rule drain_loop_ok) (use assms Cons in \<open>auto simp: heap_ok_def tail_best_def\<close>)
  then have ms: "mset ?d = mset h" and tb: "tail_best ?d 0" by auto
  have ok: "hscore (?d ! i) \<noteq> NaN" if "i < length ?d" for i
    using assms hits_ok_mset [OF ms] that by (auto simp: heap_ok_def hits_ok_def)
  have "sorted (map hkey (rev ?d))"
    unfolding sorted_iff_nth_mono_less
  proof (intro allI impI)
    fix i j assume ij: "i < j" "j < length (map hkey (rev ?d))"
    then have "upto_worse (?d ! (length ?d - Suc i)) (?d ! (length ?d - Suc j))"
      using tb by (auto simp: tail_best_def)
    then show "map hkey (rev ?d) ! i \<le> map hkey (rev ?d) ! j"
      using ij ok by (simp add: rev_nth upto_worse_hkey)
  qed
  then show ?thesis using best_first_unique [OF ms [symmetric]] by simp
qed

definition keeps_best :: "nat \<Rightarrow> hit list \<Rightarrow> hit list \<Rightarrow> bool" where
  "keeps_best k cs h \<longleftrightarrow> length h = min k (length cs) \<and>
     (\<exists>r. mset cs = mset h + mset r \<and> (\<forall>a\<in>set h. \<forall>b\<in>set r. hkey b \<le> hkey a))"

lemma keeps_bestI:
  assumes "mset cs = mset h + mset r" and "length h = min k (length cs)"
    and "\<And>a b. a \<in> set h \<Longrightarrow> b \<in> set r \<Longrightarrow> hkey b \<le> hkey a"
  shows "keeps_best k cs h"
  using assms unfolding keeps_best_def by blast

lemma keeps_best_take:
  assumes "keeps_best k cs h"
  shows "best_first h = take k (best_first cs)"
proof -
  obtain r where ms: "mset cs = mset h + mset r" and le: "\<forall>a\<in>set h. \<forall>b\<in>set r. hkey b \<le> hkey a"
    and len: "length h = min k (length cs)"
    using assms by (auto simp: keeps_best_def)
  have "sorted (map hkey (rev (best_first h @ best_first r)))"
    using le by (auto simp: best_first_def sorted_append)
  then have bf: "best_first cs = best_first h @ best_first r"
    by (intro best_first_unique) (use ms in simp)
  have bl: "length (best_first xs) = length xs" for xs by (simp add: best_first_def)
  have "length cs = length h + length r" using arg_cong [OF ms, of size] by simp
  then show ?thesis unfolding bf using len bl [of h] bl [of r] by (cases "k \<le> length cs") auto
qed

definition hits_of :: "(u32 \<Rightarrow> f32 option) \<Rightarrow> u32 list \<Rightarrow> hit list" where
  "hits_of f ps =
     concat (map (\<lambda>p. case f p of None \<Rightarrow> [] | Some s \<Rightarrow> [\<lparr>hwarp = p, hscore = s\<rparr>]) ps)"

lemma hits_of_warps: "x \<in> set (hits_of f ps) \<Longrightarrow> hwarp x \<in> set ps"
  by (auto simp: hits_of_def split: option.splits)

lemma hits_of_scores:
  "\<forall>p s. f p = Some s \<longrightarrow> s \<noteq> NaN \<Longrightarrow> x \<in> set (hits_of f ps) \<Longrightarrow> hscore x \<noteq> NaN"
  by (auto simp: hits_of_def split: option.splits)

lemma heap_root_least:
  assumes "heap_ok k h" and "a \<in> set h"
  shows "hkey (h ! 0) \<le> hkey a"
proof -
  obtain i where i: "i < length h" "a = h ! i" using assms(2) by (auto simp: in_set_conv_nth)
  then have "upto_worse (h ! 0) a" using is_heap_root [of h "length h" i] assms by (auto simp: heap_ok_def)
  moreover have "hscore (h ! 0) \<noteq> NaN" "hscore a \<noteq> NaN"
    using assms i nth_mem [of 0 h] by (auto simp: heap_ok_def hits_ok_def simp del: nth_mem length_greater_0_conv)
  ultimately show ?thesis by (simp add: upto_worse_hkey)
qed

text \<open>The heap's contents as a multiset decide what it keeps.\<close>

lemma keeps_best_accept:
  assumes kb: "keeps_best k cs h" and h: "heap_ok k h" and k: "0 < k" and s: "s \<noteq> NaN"
    and below: "\<forall>a\<in>set cs. hwarp a < p"
  shows "keeps_best k (cs @ [\<lparr>hwarp = p, hscore = s\<rparr>]) (accept k h p (Some s))"
proof -
  let ?x = "\<lparr>hwarp = p, hscore = s\<rparr>"
  obtain r where ms: "mset cs = mset h + mset r" and le: "\<forall>a\<in>set h. \<forall>b\<in>set r. hkey b \<le> hkey a"
    and len: "length h = min k (length cs)"
    using kb by (auto simp: keeps_best_def)
  have x: "hscore ?x \<noteq> NaN" using s by simp
  note push = heap_push_ok [OF h x k]
  have cl: "length cs = length h + length r" using arg_cong [OF ms, of size] by simp
  show ?thesis
  proof (cases "length h < k")
    case True
    have lc: "length h = length cs" using True len by linarith
    then have "length r = 0" using cl by linarith
    then have r: "r = []" by simp
    have "mset (heap_push k h ?x) = add_mset ?x (mset h)" using push(3) True by simp
    then have "mset (cs @ [?x]) = mset (heap_push k h ?x) + mset []" using ms r by simp
    moreover have "length (heap_push k h ?x) = min k (length (cs @ [?x]))"
      unfolding push(2) lc by simp
    moreover have "accept k h p (Some s) = heap_push k h ?x" using True by (simp add: accept_def)
    ultimately show ?thesis by (metis keeps_bestI list.set(1) empty_iff)
  next
    case False
    then have full: "length h = k" using len by linarith
    then have ne: "h \<noteq> []" using k by auto
    have rt: "h ! 0 \<in> set h" using ne by simp
    have rs: "hscore (h ! 0) \<noteq> NaN" using h rt by (auto simp: heap_ok_def hits_ok_def)
    have rl: "hkey (h ! 0) \<le> hkey a" if "a \<in> set h" for a by (rule heap_root_least [OF h that])
    show ?thesis
    proof (cases "flt (heap_theta k h) s")
      case True
      then have "hkey (h ! 0) < hkey ?x"
        using full s rs by (simp add: heap_theta_def hkey_def less_f32_flt)
      moreover have hm: "mset (heap_push k h ?x) = add_mset ?x (mset h - {#h ! 0#})"
        using push(3) False by simp
      moreover have "set (heap_push k h ?x) \<subseteq> insert ?x (set h)"
        using arg_cong [OF hm, of set_mset] by (auto dest: in_diffD)
      moreover have "hkey b \<le> hkey ?x" if "b \<in> set r" for b
        using le that rt calculation(1) by (meson order.strict_implies_order order_trans)
      ultimately have "\<forall>a\<in>set (heap_push k h ?x). \<forall>b\<in>set (h ! 0 # r). hkey b \<le> hkey a"
        using le rl order.strict_implies_order by fastforce
      moreover have "mset (cs @ [?x]) = mset (heap_push k h ?x) + mset (h ! 0 # r)"
        using ms rt by (simp add: hm)
      moreover have "accept k h p (Some s) = heap_push k h ?x" using True by (simp add: accept_def)
      moreover have "length (heap_push k h ?x) = min k (length (cs @ [?x]))"
        unfolding push(2) using full len by simp
      ultimately show ?thesis
        using keeps_bestI [of "cs @ [?x]" "heap_push k h ?x" "h ! 0 # r" k] by metis
    next
      case low: False
      have "hkey ?x \<le> hkey (h ! 0)"
      proof (cases "hscore (h ! 0) = s")
        case True
        have "h ! 0 \<in> set cs" using arg_cong [OF ms, of set_mset] rt by simp
        then show ?thesis using below True by (auto simp: hkey_def word_less_def)
      next
        case False
        then show ?thesis
          using low full s rs flt_antisym_eq [of "hscore (h ! 0)" s]
          by (auto simp: heap_theta_def hkey_def less_f32_flt)
      qed
      then have "\<forall>a\<in>set h. \<forall>b\<in>set (?x # r). hkey b \<le> hkey a"
        using le rl by (auto intro: order_trans [of "hkey ?x" "hkey (h ! 0)"])
      moreover have "accept k h p (Some s) = h" using low False by (simp add: accept_def)
      moreover have "mset (cs @ [?x]) = mset h + mset (?x # r)" using ms by simp
      moreover have "length h = min k (length (cs @ [?x]))" using full len by simp
      ultimately show ?thesis using keeps_bestI [of "cs @ [?x]" h "?x # r" k] by metis
    qed
  qed
qed

lemma accept_ok:
  "heap_ok k h \<Longrightarrow> 0 < k \<Longrightarrow> s \<noteq> NaN \<Longrightarrow> heap_ok k (accept k h p (Some s))"
  by (auto simp: accept_def intro: heap_push_ok(1))

lemma spec_heap_best:
  assumes "sorted_wrt (<) ps" and "\<forall>p s. f p = Some s \<longrightarrow> s \<noteq> NaN" and "0 < k"
  shows "heap_ok k (spec_heap f k [] ps) \<and> keeps_best k (hits_of f ps) (spec_heap f k [] ps)"
  using assms(1)
proof (induction ps rule: rev_induct)
  case Nil
  show ?case by (simp add: spec_heap_def hits_of_def keeps_best_def)
next
  case (snoc p ps)
  have IH: "heap_ok k (spec_heap f k [] ps)" "keeps_best k (hits_of f ps) (spec_heap f k [] ps)"
    using snoc by (auto simp: sorted_wrt_append)
  have below: "\<forall>a\<in>set (hits_of f ps). hwarp a < p"
    using snoc.prems by (auto simp: sorted_wrt_append dest: hits_of_warps)
  have step: "spec_heap f k [] (ps @ [p]) = accept k (spec_heap f k [] ps) p (f p)"
    by (simp add: spec_heap_def)
  have hits: "hits_of f (ps @ [p]) =
      hits_of f ps @ (case f p of None \<Rightarrow> [] | Some s \<Rightarrow> [\<lparr>hwarp = p, hscore = s\<rparr>])"
    by (simp add: hits_of_def)
  show ?case
  proof (cases "f p")
    case None
    then show ?thesis using IH by (simp add: step hits)
  next
    case (Some s)
    then have "s \<noteq> NaN" using assms(2) by auto
    then show ?thesis
      using Some IH keeps_best_accept [OF IH(2,1) assms(3) _ below] accept_ok [OF IH(1) assms(3)]
      by (simp add: step hits)
  qed
qed

end
