(* ===== verification/Weave_Fuse_Run.thy ===== *)
theory Weave_Fuse_Run
  imports Weave_Fuse_Heap
begin

text \<open>
  The pruning loop of \<open>fuse.c\<close> leaves the heap the specification leaves. The three prunes -- the
  ceiling stop, the non-essential channels and the block skip -- and the abandonment of a document
  all rest on one fact: a float sum of bounds is at least the float sum of what they bound. That
  holds when the weighted scores are exact in binary32 in any order of summation, which
  \<open>good_scored\<close> states as a grid: integers of at most \<open>2 ^ 18\<close> steps, so that \<open>FUSE_MAX_CHAN\<close> of
  them stay within the \<open>2 ^ 24\<close> a significand holds. The bounds themselves need not be on it.
\<close>

subsection \<open>What the channels of a scan satisfy\<close>

definition wcontrib :: "(nat \<Rightarrow> postings) \<Rightarrow> 's chan \<Rightarrow> u32 \<Rightarrow> f32" where
  "wcontrib post c q = fmul (weight c) (contrib_at (post (cid c)) q)"

definition pos_weight :: "'s chan \<Rightarrow> bool" where
  "pos_weight c \<longleftrightarrow> (\<exists>w>0. weight c = Fin w)"

definition good_scored :: "(nat \<Rightarrow> postings) \<Rightarrow> u32 set \<Rightarrow> nat \<Rightarrow> 's chan \<Rightarrow> bool" where
  "good_scored post A j c \<longleftrightarrow>
     \<not> required c \<and> pos_weight c \<and>
     (\<forall>q v. post (cid c) q = Some v \<longrightarrow>
        fmul (weight c) v = NInf \<or> on_grid j (2 ^ 18) (fmul (weight c) v)) \<and>
     (\<forall>q\<in>A. fle (contrib_at (post (cid c)) q) (maxscore c))"

definition good_required :: "(nat \<Rightarrow> postings) \<Rightarrow> 's chan \<Rightarrow> bool" where
  \<comment> \<open>(C5): a required channel contributes 0 or vetoes\<close>
  "good_required post c \<longleftrightarrow>
     required c \<and> pos_weight c \<and> (\<forall>q v. post (cid c) q = Some v \<longrightarrow> v = fzero \<or> v = NInf)"

definition admissible :: "(nat \<Rightarrow> postings) \<Rightarrow> 's chan list \<Rightarrow> u64 list option \<Rightarrow> u32 \<Rightarrow> u32 set" where
  "admissible post rqs lv n = {q. live_at lv n q \<and> (\<forall>c\<in>set rqs. post (cid c) q \<noteq> None)}"

lemma fmul_pos_zero [simp]: "pos_weight c \<Longrightarrow> fmul (weight c) fzero = fzero"
  by (auto simp: pos_weight_def)

lemma fmul_pos_NInf [simp]: "pos_weight c \<Longrightarrow> fmul (weight c) NInf = NInf"
  by (auto simp: pos_weight_def inf_times_def)

lemma fmul_pos_not_NaN: "pos_weight c \<Longrightarrow> b \<noteq> NaN \<Longrightarrow> fmul (weight c) b \<noteq> NaN"
  by (cases b) (auto simp: pos_weight_def inf_times_def)

lemma fmul_pos_mono: "pos_weight c \<Longrightarrow> fle x y \<Longrightarrow> fle (fmul (weight c) x) (fmul (weight c) y)"
  by (auto simp: pos_weight_def fmul_mono)

lemma wcontrib_simps:
  "post (cid c) q = None \<Longrightarrow> pos_weight c \<Longrightarrow> wcontrib post c q = fzero"
  "post (cid c) q = Some v \<Longrightarrow> wcontrib post c q = fmul (weight c) v"
  by (simp_all add: wcontrib_def contrib_at_def)

lemma same_chan_wcontrib: "same_chan c d \<Longrightarrow> wcontrib post d q = wcontrib post c q"
  by (simp add: wcontrib_def same_chan_def)

lemma same_chan_good:
  "same_chan c d \<Longrightarrow> good_scored post A j d = good_scored post A j c"
  "same_chan c d \<Longrightarrow> good_required post d = good_required post c"
  by (auto simp: good_scored_def good_required_def pos_weight_def same_chan_def)

subsection \<open>A sum of bounds bounds the sum\<close>

definition bounds_at :: "(nat \<Rightarrow> postings) \<Rightarrow> u32 \<Rightarrow> 's chan list \<Rightarrow> f32 list \<Rightarrow> bool" where
  "bounds_at post q = list_all2 (\<lambda>c b. fle (wcontrib post c q) b)"

lemma spec_doc_scored_step:
  assumes "good_scored post A j c" and "spec_doc post (c # cs) q s r = Some res"
    and "on_grid j m s" and "m + 2 ^ 18 \<le> 2 ^ 24" and "j \<le> 252"
  obtains x r' where "wcontrib post c q = Fin x" "on_grid j (2 ^ 18) (Fin x)"
    "spec_doc post cs q (fadd s (Fin x)) r' = Some res" "on_grid j (m + 2 ^ 18) (fadd s (Fin x))"
    "r' = (r \<or> post (cid c) q \<noteq> None)"
proof (cases "post (cid c) q")
  case None
  have c: "pos_weight c" "\<not> required c" using assms(1) by (auto simp: good_scored_def)
  have m: "m \<le> 2 ^ 24" using assms(4) by linarith
  show thesis
  proof (rule that)
    show "wcontrib post c q = Fin 0" using c None by (simp add: wcontrib_simps)
    show "on_grid j (2 ^ 18) (Fin 0)" by simp
    show "spec_doc post cs q (fadd s (Fin 0)) r = Some res"
      using assms(2) None c fadd_zero_grid(1) [OF assms(3) m assms(5)] by simp
    show "on_grid j (m + 2 ^ 18) (fadd s (Fin 0))"
      using fadd_zero_grid(1) [OF assms(3) m assms(5)] on_grid_mono [OF assms(3)] by simp
    show "r = (r \<or> post (cid c) q \<noteq> None)" using None by simp
  qed
next
  case (Some v)
  have c: "\<not> required c" "fmul (weight c) v = NInf \<or> on_grid j (2 ^ 18) (fmul (weight c) v)"
    using assms(1) Some by (auto simp: good_scored_def)
  with assms(2) Some have ne: "fmul (weight c) v \<noteq> NInf"
    and sd: "spec_doc post cs q (fadd s (fmul (weight c) v)) True = Some res"
    by (auto simp: Let_def split: if_splits)
  have g: "on_grid j (2 ^ 18) (fmul (weight c) v)" using c(2) ne by simp
  note v = on_grid_Fin [OF g]
  show thesis
  proof (rule that)
    show "wcontrib post c q = Fin (fval (fmul (weight c) v))"
      using v Some by (simp add: wcontrib_simps)
    show "on_grid j (2 ^ 18) (Fin (fval (fmul (weight c) v)))" using g v by simp
    show "spec_doc post cs q (fadd s (Fin (fval (fmul (weight c) v)))) True = Some res"
      using sd v by simp
    show "on_grid j (m + 2 ^ 18) (fadd s (Fin (fval (fmul (weight c) v))))"
      using fadd_grid(2) [OF assms(3) g assms(4,5)] v by simp
    show "True = (r \<or> post (cid c) q \<noteq> None)" using Some by simp
  qed
qed

lemma spec_doc_grid:
  assumes "\<forall>c\<in>set cs. good_scored post A j c" and "spec_doc post cs q s r = Some (s', r')"
    and "on_grid j m s" and "m + length cs * 2 ^ 18 \<le> 2 ^ 24" and "j \<le> 252"
  shows "on_grid j (m + length cs * 2 ^ 18) s' \<and> (r' \<longleftrightarrow> r \<or> (\<exists>c\<in>set cs. post (cid c) q \<noteq> None))"
  using assms(1-4)
proof (induction cs arbitrary: s r m)
  case Nil
  then show ?case by simp
next
  case (Cons c cs)
  have m: "m + 2 ^ 18 \<le> 2 ^ 24" using Cons.prems(4) by simp
  obtain x r1 where st: "spec_doc post cs q (fadd s (Fin x)) r1 = Some (s', r')"
    "on_grid j (m + 2 ^ 18) (fadd s (Fin x))" "r1 = (r \<or> post (cid c) q \<noteq> None)"
    by (rule spec_doc_scored_step [OF _ Cons.prems(2,3) m assms(5)]) (use Cons.prems(1) in auto)
  have "on_grid j (m + 2 ^ 18 + length cs * 2 ^ 18) s' \<and>
      (r' \<longleftrightarrow> r1 \<or> (\<exists>c\<in>set cs. post (cid c) q \<noteq> None))"
    by (rule Cons.IH [OF _ st(1,2)]) (use Cons.prems in auto)
  then show ?case using st(3) by (auto simp: algebra_simps)
qed

lemma spec_doc_le_foldl:
  assumes "bounds_at post q cs bs" and "\<forall>c\<in>set cs. good_scored post A j c"
    and "spec_doc post cs q s r = Some (s', r')" and "on_grid j m s"
    and "m + length cs * 2 ^ 18 \<le> 2 ^ 24" and "j \<le> 252" and "fle s u"
  shows "fle s' (foldl fadd u bs)"
  using assms(1-5,7) unfolding bounds_at_def
proof (induction cs bs arbitrary: s r m u rule: list_all2_induct)
  case Nil
  then show ?case by simp
next
  case (Cons c cs b bs)
  have m: "m + 2 ^ 18 \<le> 2 ^ 24" using Cons.prems(4) by simp
  obtain x r1 where x: "wcontrib post c q = Fin x"
    and st: "spec_doc post cs q (fadd s (Fin x)) r1 = Some (s', r')"
    "on_grid j (m + 2 ^ 18) (fadd s (Fin x))"
    by (rule spec_doc_scored_step [OF _ Cons.prems(2,3) m assms(6)]) (use Cons.prems(1) in auto)
  have "fle (fadd s (Fin x)) (fadd u b)"
    using fadd_mono_Fin [of "fval s" u x b] Cons.hyps(1) Cons.prems(5) x
      on_grid_Fin [OF Cons.prems(3)] by auto
  then have "fle s' (foldl fadd (fadd u b) bs)"
    by (intro Cons.IH [OF _ st]) (use Cons.prems in auto)
  then show ?case by simp
qed

lemma csuffix_bounds:
  assumes "bounds_at post q cs bs" and "\<forall>c\<in>set cs. good_scored post A j c"
    and "spec_doc post cs q s r = Some (s', r')" and "on_grid j m s"
    and "m + length cs * 2 ^ 18 \<le> 2 ^ 24" and "j \<le> 252"
  shows "\<exists>y. on_grid j (length cs * 2 ^ 18) (Fin y) \<and> fle (Fin y) (csuffix bs) \<and> s' = Fin (fval s + y)"
  using assms(1-5) unfolding bounds_at_def
proof (induction cs bs arbitrary: s r m rule: list_all2_induct)
  case Nil
  then show ?case using on_grid_Fin [of j m s] by (intro exI [of _ 0]) (simp add: fle_refl)
next
  case (Cons c cs b bs)
  have m: "m + 2 ^ 18 \<le> 2 ^ 24" using Cons.prems(4) by simp
  obtain x r1 where x: "wcontrib post c q = Fin x" "on_grid j (2 ^ 18) (Fin x)"
    and st: "spec_doc post cs q (fadd s (Fin x)) r1 = Some (s', r')"
    "on_grid j (m + 2 ^ 18) (fadd s (Fin x))"
    by (rule spec_doc_scored_step [OF _ Cons.prems(2,3) m assms(6)]) (use Cons.prems(1) in auto)
  obtain y where y: "on_grid j (length cs * 2 ^ 18) (Fin y)" "fle (Fin y) (csuffix bs)"
    "s' = Fin (fval (fadd s (Fin x)) + y)"
    using Cons.IH [OF _ st] Cons.prems by (auto simp: algebra_simps)
  have len: "length cs * 2 ^ 18 + 2 ^ 18 \<le> 2 ^ 24" using Cons.prems(4) by simp
  note yx = fadd_grid [OF y(1) x(2) len assms(6)]
  note sx = fadd_grid(1) [OF Cons.prems(3) x(2) m assms(6)]
  have "fle (Fin (y + x)) (csuffix (b # bs))"
    using fadd_mono_Fin [OF y(2), of x b] Cons.hyps(1) x(1) yx(1) by simp
  moreover have "on_grid j (length (c # cs) * 2 ^ 18) (Fin (y + x))"
    using yx by (simp add: algebra_simps)
  moreover have "s' = Fin (fval s + (y + x))" using y(3) sx by simp
  ultimately show ?case by blast
qed

lemma spec_doc_le_csuffix:
  assumes "bounds_at post q cs bs" and "\<forall>c\<in>set cs. good_scored post A j c"
    and "spec_doc post cs q s r = Some (s', r')" and "on_grid j m s"
    and "m + length cs * 2 ^ 18 \<le> 2 ^ 24" and "j \<le> 252"
  shows "fle s' (fadd s (csuffix bs))"
proof -
  obtain y where y: "on_grid j (length cs * 2 ^ 18) (Fin y)" "fle (Fin y) (csuffix bs)"
    "s' = Fin (fval s + y)"
    using csuffix_bounds [OF assms] by blast
  note s = on_grid_Fin [OF assms(4)]
  have "fadd s (Fin y) = s'" using fadd_grid(1) [OF assms(4) y(1) assms(5,6)] y(3) by simp
  moreover have "fle (fadd s (Fin y)) (fadd s (csuffix bs))"
    using fadd_mono_Fin [of "fval s" s y "csuffix bs"] y(2) s fle_refl [of s] by auto
  ultimately show ?thesis by simp
qed

lemma spec_doc_le_ceiling:
  assumes "bounds_at post q cs bs" and "\<forall>c\<in>set cs. good_scored post A j c"
    and "spec_doc post cs q fzero r = Some (s', r')" and "length cs \<le> 64" and "j \<le> 252"
  shows "fle s' (csuffix bs)"
  using csuffix_bounds [OF assms(1-3) on_grid_zero [of j 0]] assms(4,5) by auto

lemma suffix_sums_Cons [simp]: "suffix_sums xs \<noteq> []"
  by (cases xs) (simp_all add: Let_def)

lemma hd_suffix_sums: "hd (suffix_sums xs) = csuffix xs"
  by (induction xs) (simp_all add: Let_def)

lemma suffix_sums_nth: "m \<le> length xs \<Longrightarrow> suffix_sums xs ! m = csuffix (drop m xs)"
proof (induction xs arbitrary: m)
  case (Cons x xs)
  then show ?case by (cases m) (auto simp: Let_def hd_suffix_sums)
qed simp

lemma spec_doc_absent:
  "\<forall>c\<in>set cs. \<not> P c \<longrightarrow> \<not> required c \<and> post (cid c) q = None \<Longrightarrow>
   spec_doc post (filter P cs) q s r = spec_doc post cs q s r"
  by (induction cs arbitrary: s r) (auto simp: Let_def split: option.splits)

lemma spec_doc_absent_prefix:
  "\<forall>c\<in>set cs. \<not> required c \<and> post (cid c) q = None \<Longrightarrow>
   spec_doc post (cs @ ds) q s r = spec_doc post ds q s r"
  by (induction cs) auto

lemma spec_doc_required:
  assumes "\<forall>c\<in>set rqs. good_required post c" and "\<forall>c\<in>set rqs. post (cid c) q \<noteq> None"
  shows "spec_doc post (rqs @ cs) q fzero r =
    (if \<exists>c\<in>set rqs. post (cid c) q = Some NInf then None else spec_doc post cs q fzero r)"
  using assms
proof (induction rqs)
  case (Cons c rqs)
  then obtain v where v: "post (cid c) q = Some v" by auto
  have c: "required c" "pos_weight c" "v = fzero \<or> v = NInf"
    using Cons.prems(1) v by (auto simp: good_required_def)
  have IH: "spec_doc post (rqs @ cs) q fzero r =
    (if \<exists>c\<in>set rqs. post (cid c) q = Some NInf then None else spec_doc post cs q fzero r)"
    using Cons by auto
  from c(3) show ?case
  proof
    assume "v = fzero"
    then show ?thesis using v c(1,2) IH by (simp add: Let_def)
  next
    assume "v = NInf"
    then show ?thesis using v c(1,2) by (simp add: Let_def)
  qed
qed simp

lemma spec_doc_required_absent:
  "c \<in> set rqs \<Longrightarrow> required c \<Longrightarrow> post (cid c) q = None \<Longrightarrow>
   spec_doc post (rqs @ cs) q s r = None"
  by (induction rqs arbitrary: s r) (auto simp: Let_def split: option.splits)

subsection \<open>Moving the channels of a scan\<close>

lemma all_chan_ok_mono:
  "\<forall>c\<in>set cs. chan_ok A post p c \<Longrightarrow> p \<le> q \<Longrightarrow> \<forall>c\<in>set cs. chan_ok A post q c"
  using chan_ok_mono by blast

lemma all_placed_ok: "\<forall>c\<in>set cs. placed A post p c \<Longrightarrow> \<forall>c\<in>set cs. chan_ok A post p c"
  using placed_chan_ok by blast

lemma advance_all_ok:
  assumes "\<forall>c\<in>set cs. chan_ok A post p c" and "p \<noteq> FUSE_END"
  shows "\<exists>cs'. advance_all cs p = Inr cs' \<and> same_chans cs cs' \<and> (\<forall>c\<in>set cs'. placed A post p c)"
  using assms(1)
proof (induction cs)
  case (Cons c cs)
  obtain c' where "fuse_advance c p = Inr c'" "same_chan c c'" "placed A post p c'"
    using Cons.prems assms(2) by (auto elim: advance_ok [of A post p c])
  then show ?case using Cons by auto
qed simp

lemma pivot_pass_ok:
  assumes "\<forall>c\<in>set cs. chan_ok A post p c" and "p \<noteq> FUSE_END"
  shows "\<exists>cs' q. pivot_pass cs p lo = Inr (cs', q) \<and> same_chans cs cs' \<and>
    (\<forall>c\<in>set cs'. placed A post p c \<and> q \<le> cur c) \<and> q \<le> lo \<and> (q = lo \<or> (\<exists>c\<in>set cs'. cur c = q))"
  using assms(1)
proof (induction cs arbitrary: lo)
  case (Cons c cs)
  obtain c' where c': "fuse_advance c p = Inr c'" "same_chan c c'" "placed A post p c'"
    using Cons.prems assms(2) by (auto elim: advance_ok [of A post p c])
  define lo' where "lo' = (if cur c' < lo then cur c' else lo)"
  have rest: "\<forall>c\<in>set cs. chan_ok A post p c" using Cons.prems by simp
  obtain cs' q where pp: "pivot_pass cs p lo' = Inr (cs', q)"
    "same_chans cs cs'" "\<forall>c\<in>set cs'. placed A post p c \<and> q \<le> cur c"
    "q \<le> lo'" "q = lo' \<or> (\<exists>c\<in>set cs'. cur c = q)"
    using Cons.IH [OF rest, of lo'] by blast
  have "pivot_pass (c # cs) p lo = Inr (c' # cs', q)" using c'(1) pp(1) by (simp add: lo'_def)
  moreover have "q \<le> cur c'" "q \<le> lo" using pp(4) by (auto simp: lo'_def split: if_splits)
  moreover have "q = lo \<or> (\<exists>c\<in>set (c' # cs'). cur c = q)"
    using pp(5) by (auto simp: lo'_def split: if_splits)
  ultimately show ?case using c'(2,3) pp(2,3) by auto
qed simp

lemma isect_pass_ok:
  assumes "\<forall>c\<in>set cs. chan_ok A post p c" and "p \<noteq> FUSE_END"
  shows "\<exists>cs' r. isect_pass cs p hi = Inr (cs', r) \<and> same_chans cs cs' \<and>
    (case r of
       None \<Rightarrow> (\<forall>c\<in>set cs'. chan_ok A post p c) \<and> (\<exists>c\<in>set cs'. placed A post p c \<and> cur c = FUSE_END)
     | Some h \<Rightarrow> (\<forall>c\<in>set cs'. placed A post p c \<and> cur c \<le> h \<and> cur c \<noteq> FUSE_END) \<and>
         (h = hi \<or> (\<exists>c\<in>set cs'. cur c = h)))"
  using assms(1)
proof (induction cs arbitrary: hi)
  case (Cons c cs)
  obtain c' where c': "fuse_advance c p = Inr c'" "same_chan c c'" "placed A post p c'"
    using Cons.prems assms(2) by (auto elim: advance_ok [of A post p c])
  show ?case
  proof (cases "cur c' = FUSE_END")
    case True
    then show ?thesis using c' Cons.prems placed_chan_ok [OF c'(3)] by auto
  next
    case False
    let ?hi = "if hi < cur c' then cur c' else hi"
    obtain cs' r where ip: "isect_pass cs p ?hi = Inr (cs', r)" "same_chans cs cs'"
      and r: "case r of
       None \<Rightarrow> (\<forall>c\<in>set cs'. chan_ok A post p c) \<and> (\<exists>c\<in>set cs'. placed A post p c \<and> cur c = FUSE_END)
     | Some h \<Rightarrow> (\<forall>c\<in>set cs'. placed A post p c \<and> cur c \<le> h \<and> cur c \<noteq> FUSE_END) \<and>
         (h = ?hi \<or> (\<exists>c\<in>set cs'. cur c = h))"
      using Cons.IH [of ?hi] Cons.prems by fastforce
    have eq: "isect_pass (c # cs) p hi = Inr (c' # cs', r)" using c'(1) False ip(1) by simp
    show ?thesis
    proof (cases r)
      case None
      then show ?thesis using eq c'(2) ip(2) r placed_chan_ok [OF c'(3)] by auto
    next
      case (Some h)
      have "?hi \<le> h" using isect_pass_ge ip(1) Some by blast
      then have "cur c' \<le> h" by (auto split: if_splits)
      then show ?thesis using eq c'(2,3) ip(2) r Some False by (auto split: if_splits)
    qed
  qed
qed simp

lemma same_chans_mem: "same_chans cs ds \<Longrightarrow> d \<in> set ds \<Longrightarrow> \<exists>c\<in>set cs. same_chan c d"
  by (induction cs ds rule: list_all2_induct) auto

lemma same_chans_ex: "same_chans cs ds \<Longrightarrow> (\<exists>c\<in>set cs. P (cid c)) = (\<exists>c\<in>set ds. P (cid c))"
  by (induction cs ds rule: list_all2_induct) (auto simp: same_chan_def)

lemma same_chans_good:
  "same_chans cs ds \<Longrightarrow> \<forall>c\<in>set cs. good_scored post A j c \<Longrightarrow> \<forall>d\<in>set ds. good_scored post A j d"
  by (induction cs ds rule: list_all2_induct) (auto simp: same_chan_good)

lemma fuse_intersect_ok:
  assumes "\<forall>c\<in>set cs. chan_ok A post p c" and "p \<noteq> FUSE_END" and "cs \<noteq> []"
  shows "\<exists>cs' q m. fuse_intersect cs p n = Inr (cs', q, m) \<and> same_chans cs cs' \<and> p \<le> q \<and>
    (\<forall>x. p \<le> x \<and> x < q \<longrightarrow> (\<exists>c\<in>set cs. post (cid c) x = None)) \<and>
    (\<forall>c\<in>set cs'. chan_ok A post q c) \<and>
    (q \<noteq> FUSE_END \<longrightarrow> (\<forall>c\<in>set cs'. placed A post q c \<and> cur c = q))"
  using assms
proof (induction cs p n rule: fuse_intersect.induct)
  case (1 cs p n)
  obtain cs1 r where ip: "isect_pass cs p p = Inr (cs1, r)" and sc: "same_chans cs cs1"
    and r: "case r of
       None \<Rightarrow> (\<forall>c\<in>set cs1. chan_ok A post p c) \<and> (\<exists>c\<in>set cs1. placed A post p c \<and> cur c = FUSE_END)
     | Some h \<Rightarrow> (\<forall>c\<in>set cs1. placed A post p c \<and> cur c \<le> h \<and> cur c \<noteq> FUSE_END) \<and>
         (h = p \<or> (\<exists>c\<in>set cs1. cur c = h))"
    using isect_pass_ok [OF "1.prems"(1,2)] by blast
  have prior: "\<exists>c\<in>set cs. post (cid c) x = None" if "c' \<in> set cs1" "post (cid c') x = None" for c' x
    using same_chans_mem [OF sc that(1)] that(2) by (metis same_chanD(2))
  show ?case
  proof (cases r)
    case None
    then obtain c' where c': "c' \<in> set cs1" "placed A post p c'" "cur c' = FUSE_END" using r by auto
    have "\<exists>c\<in>set cs. post (cid c) x = None" if "p \<le> x" "x < FUSE_END" for x
      using prior [OF c'(1)] placed_absent [OF c'(2) that(1)] that(2) c'(3) by simp
    moreover have "fuse_intersect cs p n = Inr (cs1, FUSE_END, n)"
      using ip None by (subst fuse_intersect.simps) simp
    moreover have "\<forall>c\<in>set cs1. chan_ok A post FUSE_END c"
      using r None by (auto intro: chan_ok_mono [of A post p])
    ultimately show ?thesis using sc by auto
  next
    case (Some h)
    have pl: "\<forall>c\<in>set cs1. placed A post p c \<and> cur c \<le> h \<and> cur c \<noteq> FUSE_END" using r Some by simp
    have ge: "p \<le> h" using isect_pass_ge ip Some by blast
    show ?thesis
    proof (cases "h = p")
      case True
      then have "\<forall>c\<in>set cs1. cur c = p" using pl placed_ge by (metis order_antisym)
      moreover have "fuse_intersect cs p n = Inr (cs1, p, n)"
        using ip Some True by (subst fuse_intersect.simps) simp
      ultimately show ?thesis using sc pl by (auto intro: placed_chan_ok)
    next
      case False
      then obtain c' where c': "c' \<in> set cs1" "cur c' = h" using r Some by auto
      have skip: "\<exists>c\<in>set cs. post (cid c) x = None" if "p \<le> x" "x < h" for x
        using prior [OF c'(1)] placed_absent [of A post p c' x] that c' pl by simp
      have hE: "h \<noteq> FUSE_END" using c' pl by auto
      have ok1: "\<forall>c\<in>set cs1. chan_ok A post h c"
        using pl placed_chan_ok chan_ok_mono [OF _ ge] by blast
      have ne: "cs1 \<noteq> []" using c'(1) by auto
      obtain cs' q m where IH: "fuse_intersect cs1 h (Suc n) = Inr (cs', q, m)" "same_chans cs1 cs'"
        "h \<le> q" "\<forall>x. h \<le> x \<and> x < q \<longrightarrow> (\<exists>c\<in>set cs1. post (cid c) x = None)"
        "\<forall>c\<in>set cs'. chan_ok A post q c"
        "q \<noteq> FUSE_END \<longrightarrow> (\<forall>c\<in>set cs'. placed A post q c \<and> cur c = q)"
        using "1.IH" [OF _ refl _ False ok1 hE ne] ip Some by blast
      have "fuse_intersect cs p n = Inr (cs', q, m)"
        using ip Some False IH(1) by (subst fuse_intersect.simps) simp
      moreover have "\<exists>c\<in>set cs. post (cid c) x = None" if "p \<le> x \<and> x < q" for x
        using that skip [of x] IH(4) prior by (cases "x < h") (auto simp: not_less)
      ultimately show ?thesis
        using same_chans_trans [OF sc IH(2)] order_trans [OF ge IH(3)] IH(5,6)
        by (intro exI conjI) auto
    qed
  qed
qed

subsection \<open>Bounding and scoring at a position\<close>

definition on_con :: "u32 \<Rightarrow> nat \<Rightarrow> 's chan list \<Rightarrow> (nat \<times> f32) list \<Rightarrow> 's chan list \<Rightarrow> bool" where
  \<comment> \<open>the contributing entries index the channels \<open>ds\<close>, which stand on \<open>p\<close>\<close>
  "on_con p i cs con ds \<longleftrightarrow>
     list_all2 (\<lambda>e d. i \<le> fst e \<and> fst e - i < length cs \<and> same_chan d (cs ! (fst e - i)) \<and>
                  cur (cs ! (fst e - i)) = p) con ds"

lemma on_con_shift: "on_con p (Suc i) cs con ds \<Longrightarrow> on_con p i (c # cs) con ds"
  unfolding on_con_def
proof (erule list_all2_mono)
  fix e d
  assume *: "Suc i \<le> fst e \<and> fst e - Suc i < length cs \<and> same_chan d (cs ! (fst e - Suc i)) \<and>
      cur (cs ! (fst e - Suc i)) = p"
  then have "fst e - i = Suc (fst e - Suc i)" by (simp add: Suc_diff_Suc)
  then show "i \<le> fst e \<and> fst e - i < length (c # cs) \<and> same_chan d ((c # cs) ! (fst e - i)) \<and>
      cur ((c # cs) ! (fst e - i)) = p" using * by simp
qed

lemma bound_scan_ok:
  assumes "\<forall>c\<in>set cs. placed A post p c \<and> good_scored post A j c" and "p \<noteq> FUSE_END"
    and "p \<le> rend"
  shows "\<exists>cs' con rend'. bound_scan p i cs ub rend = Inr (cs', con, foldl fadd ub (map snd con), rend') \<and>
    same_chans cs cs' \<and> (\<forall>c\<in>set cs'. placed A post p c) \<and> p \<le> rend' \<and> rend' \<le> rend \<and>
    on_con p i cs' con (filter (\<lambda>c. cur c = p) cs) \<and>
    (\<forall>q\<in>A. p \<le> q \<longrightarrow> q \<le> rend' \<longrightarrow> bounds_at post q (filter (\<lambda>c. cur c = p) cs) (map snd con)) \<and>
    (\<forall>c\<in>set cs. cur c \<noteq> p \<longrightarrow> (\<forall>q. p \<le> q \<longrightarrow> q \<le> rend' \<longrightarrow> post (cid c) q = None))"
  using assms(1,3)
proof (induction cs arbitrary: i ub rend)
  case Nil
  then show ?case by (simp add: on_con_def bounds_at_def)
next
  case (Cons c cs)
  have rest: "\<forall>c\<in>set cs. placed A post p c \<and> good_scored post A j c" using Cons.prems by simp
  have pl: "placed A post p c" and g: "good_scored post A j c" using Cons.prems by auto
  show ?case
  proof (cases "cur c = p")
    case True
    let ?bm = "fst (block_max (ops c) (cstate c))"
    let ?s = "snd (block_max (ops c) (cstate c))"
    let ?c = "c\<lparr>cstate := ?s, nbmax := Suc (nbmax c)\<rparr>"
    let ?b = "fmul (weight c) ?bm"
    define rn where "rn = (if blkend c < rend then blkend c else rend)"
    obtain v where v: "post (cid c) p = Some v" using placed_here [OF pl] True assms(2) by auto
    have st: "standing A (ops c) (post (cid c)) p (blkend c) (cstate c)" and le: "p \<le> blkend c"
      using pl True assms(2) by (auto simp: placed_def)
    have cov: "covers A (post (cid c)) p (blkend c) ?bm"
      and st': "standing A (ops c) (post (cid c)) p (blkend c) ?s"
      using standing_block_max [OF st v] by auto
    have c': "same_chan c ?c" "placed A post p ?c" "cur ?c = p"
      using pl st' True assms(2) by (auto simp: same_chan_def placed_def)
    have w: "pos_weight c" using g by (simp add: good_scored_def)
    then have bn: "\<not> fuse_isnan ?b"
      using cov fmul_pos_not_NaN by (auto simp: covers_def fuse_isnan_def)
    have rle: "p \<le> rn" "rn \<le> rend" "rn \<le> blkend c" using le Cons.prems(2) by (auto simp: rn_def)
    obtain cs' con rend' where IH:
      "bound_scan p (Suc i) cs (fadd ub ?b) rn = Inr (cs', con, foldl fadd (fadd ub ?b) (map snd con), rend')"
      "same_chans cs cs'" "\<forall>c\<in>set cs'. placed A post p c" "p \<le> rend'" "rend' \<le> rn"
      "on_con p (Suc i) cs' con (filter (\<lambda>c. cur c = p) cs)"
      "\<forall>q\<in>A. p \<le> q \<longrightarrow> q \<le> rend' \<longrightarrow> bounds_at post q (filter (\<lambda>c. cur c = p) cs) (map snd con)"
      "\<forall>c\<in>set cs. cur c \<noteq> p \<longrightarrow> (\<forall>q. p \<le> q \<longrightarrow> q \<le> rend' \<longrightarrow> post (cid c) q = None)"
      using Cons.IH [OF rest rle(1), of "Suc i" "fadd ub ?b"] by blast
    have "bound_scan p i (c # cs) ub rend =
        Inr (?c # cs', (i, ?b) # con, foldl fadd ub (map snd ((i, ?b) # con)), rend')"
      using True bn IH(1) by (simp add: split_beta rn_def Let_def)
    moreover have "on_con p i (?c # cs') ((i, ?b) # con) (filter (\<lambda>c. cur c = p) (c # cs))"
      using on_con_shift [OF IH(6), of ?c] True c' by (simp add: on_con_def)
    moreover have "fle (wcontrib post c q) ?b" if "q \<in> A" "p \<le> q" "q \<le> rend'" for q
      using cov that IH(5) rle(3) fmul_pos_mono [OF w]
      by (auto simp: covers_def wcontrib_def)
    then have "\<forall>q\<in>A. p \<le> q \<longrightarrow> q \<le> rend' \<longrightarrow>
        bounds_at post q (filter (\<lambda>c. cur c = p) (c # cs)) (map snd ((i, ?b) # con))"
      using IH(7) True by (simp add: bounds_at_def)
    moreover have "rend' \<le> rend" using IH(5) rle(2) by simp
    ultimately show ?thesis using IH(2,3,4,8) c' True by auto
  next
    case False
    define rn where "rn = (if cur c - 1 < rend then cur c - 1 else rend)"
    have lt: "p < cur c" using placed_ge [OF pl] False by simp
    then have "p \<le> cur c - 1" by (rule le_dec)
    then have rle: "p \<le> rn" "rn \<le> rend" "rn \<le> cur c - 1" using Cons.prems(2) by (auto simp: rn_def)
    obtain cs' con rend' where IH:
      "bound_scan p (Suc i) cs ub rn = Inr (cs', con, foldl fadd ub (map snd con), rend')"
      "same_chans cs cs'" "\<forall>c\<in>set cs'. placed A post p c" "p \<le> rend'" "rend' \<le> rn"
      "on_con p (Suc i) cs' con (filter (\<lambda>c. cur c = p) cs)"
      "\<forall>q\<in>A. p \<le> q \<longrightarrow> q \<le> rend' \<longrightarrow> bounds_at post q (filter (\<lambda>c. cur c = p) cs) (map snd con)"
      "\<forall>c\<in>set cs. cur c \<noteq> p \<longrightarrow> (\<forall>q. p \<le> q \<longrightarrow> q \<le> rend' \<longrightarrow> post (cid c) q = None)"
      using Cons.IH [OF rest rle(1), of "Suc i" ub] by blast
    have "bound_scan p i (c # cs) ub rend = Inr (c # cs', con, foldl fadd ub (map snd con), rend')"
      using False IH(1) by (simp add: rn_def)
    moreover have "on_con p i (c # cs') con (filter (\<lambda>c. cur c = p) (c # cs))"
      using on_con_shift [OF IH(6), of c] False by simp
    moreover have "post (cid c) q = None" if "p \<le> q" "q \<le> rend'" for q
    proof (rule placed_absent [OF pl that(1)])
      have "q \<le> cur c - 1" using that(2) IH(5) rle(3) by (meson order_trans)
      then show "q < cur c" using le_dec_iff [OF lt] by simp
    qed
    moreover have "rend' \<le> rend" using IH(5) rle(2) by simp
    ultimately show ?thesis using IH(2,3,4,7,8) pl False by auto
  qed
qed

lemma score_required_ok:
  assumes "\<forall>c\<in>set cs. placed A post p c \<and> cur c = p \<and> good_required post c" and "p \<noteq> FUSE_END"
  shows "\<exists>cs'. score_required cs fzero =
      Inr (cs', if \<exists>c\<in>set cs. post (cid c) p = Some NInf then None else Some fzero) \<and>
    same_chans cs cs' \<and> (\<forall>c\<in>set cs'. placed A post p c)"
  using assms(1)
proof (induction cs)
  case (Cons c cs)
  then have pl: "placed A post p c" "cur c = p" "good_required post c" by auto
  obtain v c' where ts: "post (cid c) p = Some v" "take_score c = (fmul (weight c) v, c')"
    "same_chan c c'" "placed A post p c'"
    by (rule take_score_ok [OF pl(1) assms(2) pl(2)]) blast
  have w: "pos_weight c" "v = fzero \<or> v = NInf" using pl(3) ts(1) by (auto simp: good_required_def)
  from w(2) show ?case
  proof
    assume v: "v = fzero"
    then show ?thesis using Cons ts w(1) by (auto simp: Let_def fuse_isnan_def)
  next
    assume v: "v = NInf"
    then show ?thesis using Cons.prems ts w(1) by (auto simp: Let_def fuse_isnan_def)
  qed
qed simp

lemma score_scored_ok:
  assumes "on_con p 0 cs con ds" and "\<forall>c\<in>set cs. placed A post p c" and "p \<noteq> FUSE_END"
    and "\<forall>c\<in>set ds. good_scored post A j c" and "bounds_at post p ds (map snd con)"
    and "on_grid j m s" and "m + length ds * 2 ^ 18 \<le> 2 ^ 24" and "j \<le> 252"
  shows "\<exists>cs' v. score_scored th False con cs s = Inr (cs', v) \<and>
    same_chans cs cs' \<and> (\<forall>c\<in>set cs'. placed A post p c) \<and>
    (case v of Kept s' \<Rightarrow> \<exists>r'. spec_doc post ds p s r = Some (s', r')
     | Vetoed \<Rightarrow> spec_doc post ds p s r = None
     | Abandoned \<Rightarrow> \<forall>s' r'. spec_doc post ds p s r = Some (s', r') \<longrightarrow> fle s' th)"
  using assms(1,2,4-7)
proof (induction con arbitrary: cs ds s m r)
  case Nil
  then show ?case by (simp add: on_con_def)
next
  case (Cons e con)
  obtain x b where e: "e = (x, b)" by (cases e)
  from Cons.prems(1) e obtain d ds' where ds: "ds = d # ds'" and x: "x < length cs"
    and dc: "same_chan d (cs ! x)" "cur (cs ! x) = p" and con: "on_con p 0 cs con ds'"
    by (auto simp: on_con_def list_all2_Cons1)
  have pl: "placed A post p (cs ! x)" using Cons.prems(2) x by simp
  obtain v c' where ts: "post (cid (cs ! x)) p = Some v"
    "take_score (cs ! x) = (fmul (weight (cs ! x)) v, c')"
    "same_chan (cs ! x) c'" "placed A post p c'" "cur c' = p"
    by (rule take_score_ok [OF pl assms(3) dc(2)]) blast
  note same = same_chanD [OF dc(1)]
  have g: "good_scored post A j d" using Cons.prems(3) ds by simp
  have v: "post (cid d) p = Some v" using ts(1) same by simp
  have wv: "fmul (weight d) v = NInf \<or> on_grid j (2 ^ 18) (fmul (weight d) v)"
    and nr: "\<not> required d" using g v by (auto simp: good_scored_def)
  have nn: "\<not> fuse_isnan (fmul (weight d) v)"
    using wv by (auto simp: fuse_isnan_def on_grid_def)
  let ?cs = "cs[x := bump_score c']"
  have cs': "same_chans cs ?cs" "\<forall>c\<in>set ?cs. placed A post p c"
    using ts(3,4) x Cons.prems(2) set_update_subset_insert [of cs x "bump_score c'"]
    by (auto simp: list_all2_conv_all_nth nth_list_update)
  show ?case
  proof (cases "fmul (weight d) v = NInf")
    case True
    have "score_scored th False (e # con) cs s = Inr (?cs, Vetoed)"
      using True nn ts(2) same by (simp add: e Let_def)
    moreover have "spec_doc post ds p s r = None" using True v by (simp add: ds Let_def)
    ultimately show ?thesis using cs' by auto
  next
    case False
    let ?s = "fadd s (fmul (weight d) v)"
    have sd: "spec_doc post ds p s r = spec_doc post ds' p ?s True"
      using False v nr by (simp add: ds Let_def)
    have m: "m + 2 ^ 18 \<le> 2 ^ 24" using Cons.prems(6) by (simp add: ds)
    have gs: "on_grid j (m + 2 ^ 18) ?s"
      using fadd_grid(2) [OF Cons.prems(5) _ m assms(8)] wv False by auto
    have len: "m + 2 ^ 18 + length ds' * 2 ^ 18 \<le> 2 ^ 24" using Cons.prems(6) by (simp add: ds)
    have bs: "bounds_at post p ds' (map snd con)" and gds: "\<forall>c\<in>set ds'. good_scored post A j c"
      using Cons.prems(3,4) by (auto simp: ds bounds_at_def)
    show ?thesis
    proof (cases "fle (fadd ?s (csuffix (map snd con))) th")
      case True
      have "score_scored th False (e # con) cs s = Inr (?cs, Abandoned)"
        using False True nn ts(2) same by (simp add: e Let_def)
      moreover have "fle s' th" if "spec_doc post ds p s r = Some (s', r')" for s' r'
        using spec_doc_le_csuffix [OF bs gds _ gs len assms(8)] that sd fle_trans [OF _ True]
        by metis
      ultimately show ?thesis using cs' by auto
    next
      case no: False
      have "on_con p 0 ?cs con ds'"
        using con unfolding on_con_def
      proof (rule list_all2_mono)
        fix y dd
        assume *: "0 \<le> fst y \<and> fst y - 0 < length cs \<and> same_chan dd (cs ! (fst y - 0)) \<and>
          cur (cs ! (fst y - 0)) = p"
        then show "0 \<le> fst y \<and> fst y - 0 < length ?cs \<and> same_chan dd (?cs ! (fst y - 0)) \<and>
          cur (?cs ! (fst y - 0)) = p"
          using ts(3,5) same_chan_trans [of dd "cs ! x" c'] by (cases "fst y = x") auto
      qed
      from Cons.IH [OF this cs'(2) gds bs gs len, of True]
      obtain cs'' w where "score_scored th False con ?cs ?s = Inr (cs'', w)" "same_chans ?cs cs''"
        "\<forall>c\<in>set cs''. placed A post p c"
        "case w of Kept s' \<Rightarrow> \<exists>r'. spec_doc post ds' p ?s True = Some (s', r')
         | Vetoed \<Rightarrow> spec_doc post ds' p ?s True = None
         | Abandoned \<Rightarrow> \<forall>s' r'. spec_doc post ds' p ?s True = Some (s', r') \<longrightarrow> fle s' th"
        by blast
      moreover have "score_scored th False (e # con) cs s = score_scored th False con ?cs ?s"
        using False no nn ts(2) same by (simp add: e Let_def)
      ultimately show ?thesis
        using same_chans_trans [OF cs'(1), of cs''] unfolding sd by (intro exI conjI) auto
    qed
  qed
qed

subsection \<open>One iteration\<close>

definition fceils :: "'s chan list \<Rightarrow> f32 list" where
  "fceils cs = map (\<lambda>c. fmul (weight c) (maxscore c)) cs"

definition scan_ok ::
  "(nat \<Rightarrow> postings) \<Rightarrow> nat \<Rightarrow> 's chan list \<Rightarrow> 's chan list \<Rightarrow> u64 list option \<Rightarrow> u32 \<Rightarrow> nat \<Rightarrow> bool"
where
  \<comment> \<open>what the channels of the scan \<open>SC\<close>, \<open>RQ\<close> and the other parameters satisfy throughout\<close>
  "scan_ok post j SC RQ lv n k \<longleftrightarrow>
     (\<forall>c\<in>set SC. good_scored post (admissible post RQ lv n) j c) \<and>
     (\<forall>c\<in>set RQ. good_required post c) \<and>
     length SC \<le> 64 \<and> j \<le> 252 \<and> 0 < k \<and> (SC \<noteq> [] \<or> RQ \<noteq> [])"

definition scan_inv ::
  "(nat \<Rightarrow> postings) \<Rightarrow> 's chan list \<Rightarrow> 's chan list \<Rightarrow> u64 list option \<Rightarrow> u32 \<Rightarrow> nat \<Rightarrow>
     u32 \<Rightarrow> 's fstate \<Rightarrow> bool" where
  "scan_inv post SC RQ lv n k p st \<longleftrightarrow>
     same_chans SC (sc st) \<and> same_chans RQ (rq st) \<and>
     (\<forall>c\<in>set (sc st). chan_ok (admissible post RQ lv n) post p c) \<and>
     (\<forall>c\<in>set (rq st). chan_ok (admissible post RQ lv n) post p c) \<and>
     topk st = k \<and> live st = lv \<and> nwarp st = n \<and> \<not> check_bounds st \<and>
     theta st = heap_theta k (heap st) \<and> heap_ok k (heap st) \<and>
     fsuffix st = suffix_sums (fceils SC) \<and> fsplit st \<le> length SC \<and>
     (fsplit st < length SC \<longrightarrow> fle (fsuffix st ! fsplit st) (theta st))"

abbreviation scan_cand where
  "scan_cand post SC RQ lv n \<equiv> cand post (RQ @ SC) (length SC) lv n"

lemma cand_inadmissible:
  assumes "scan_ok post j SC RQ lv n k" and "q \<notin> admissible post RQ lv n"
  shows "scan_cand post SC RQ lv n q = None"
  using assms spec_doc_required_absent [of _ RQ post q SC]
  by (auto simp: cand_def admissible_def scan_ok_def good_required_def)

lemma cand_admissible:
  assumes "scan_ok post j SC RQ lv n k" and "q \<in> admissible post RQ lv n"
    and "scan_cand post SC RQ lv n q = Some s"
  obtains r x where "spec_doc post SC q fzero False = Some (s, r)" "r \<or> SC = []" "s = Fin x"
    "\<not> (\<exists>c\<in>set RQ. post (cid c) q = Some NInf)"
proof -
  have rqs: "\<forall>c\<in>set RQ. good_required post c" "\<forall>c\<in>set RQ. post (cid c) q \<noteq> None"
    and scs: "\<forall>c\<in>set SC. good_scored post (admissible post RQ lv n) j c" "length SC \<le> 64" "j \<le> 252"
    using assms(1,2) by (auto simp: scan_ok_def admissible_def)
  obtain r where r: "spec_doc post SC q fzero False = Some (s, r)" "r \<or> SC = []"
    "\<not> (\<exists>c\<in>set RQ. post (cid c) q = Some NInf)"
    using assms(3) by (auto simp: cand_def spec_doc_required [OF rqs] split: option.splits if_splits)
  have "on_grid j (0 + length SC * 2 ^ 18) s"
    using spec_doc_grid [OF scs(1) r(1) on_grid_zero [of j 0] _ scs(3)] scs(2) by simp
  then show thesis using r that on_grid_Fin by blast
qed

lemma spec_heap_idle_cand:
  assumes ok: "scan_ok post j SC RQ lv n k"
    and low: "\<And>q s r. \<lbrakk>a \<le> q; q < b; q \<in> admissible post RQ lv n;
       spec_doc post SC q fzero False = Some (s, r); r \<or> SC = []\<rbrakk> \<Longrightarrow> fle s (heap_theta k h)"
  shows "spec_heap (scan_cand post SC RQ lv n) k h (positions a b) = h"
proof (rule spec_heap_idle)
  fix q assume q: "a \<le> q" "q < b"
  show "accept k h q (scan_cand post SC RQ lv n q) = h"
  proof (cases "scan_cand post SC RQ lv n q")
    case (Some s)
    then have A: "q \<in> admissible post RQ lv n" using cand_inadmissible [OF ok] by fastforce
    obtain r x where "spec_doc post SC q fzero False = Some (s, r)" "r \<or> SC = []" "s = Fin x"
      by (rule cand_admissible [OF ok A Some])
    then show ?thesis using Some accept_low low [OF q A] by metis
  qed simp
qed

lemma spec_heap_idle_rest:
  assumes "scan_ok post j SC RQ lv n k" and "n \<le> a"
  shows "spec_heap (scan_cand post SC RQ lv n) k h (positions a b) = h"
proof (rule spec_heap_idle_cand [OF assms(1)])
  fix q s r assume "a \<le> q" "q \<in> admissible post RQ lv n"
  then have False using assms(2) order_trans [OF assms(2), of q]
    by (auto simp: admissible_def live_at_def)
  then show "fle s (heap_theta k h)" ..
qed

lemma fceils_bound:
  assumes "scan_ok post j SC RQ lv n k" and "q \<in> admissible post RQ lv n"
  shows "bounds_at post q (drop m SC) (drop m (fceils SC))"
proof -
  have "fle (wcontrib post c q) (fmul (weight c) (maxscore c))" if "c \<in> set SC" for c
    using assms that fmul_pos_mono [of c] by (auto simp: scan_ok_def good_scored_def wcontrib_def)
  then show ?thesis
    using set_drop_subset [of m SC]
    by (auto simp: bounds_at_def fceils_def drop_map list_all2_map2 intro!: list.rel_refl_strong)
qed

lemma below_suffix:
  assumes ok: "scan_ok post j SC RQ lv n k" and A: "q \<in> admissible post RQ lv n"
    and sd: "spec_doc post SC q fzero False = Some (s, r)"
    and none: "\<forall>c\<in>set (take m SC). post (cid c) q = None" and m: "m \<le> length SC"
  shows "fle s (suffix_sums (fceils SC) ! m)"
proof -
  have g: "\<forall>c\<in>set SC. good_scored post (admissible post RQ lv n) j c" "length SC \<le> 64" "j \<le> 252"
    using ok by (auto simp: scan_ok_def)
  have "spec_doc post (take m SC @ drop m SC) q fzero False = spec_doc post (drop m SC) q fzero False"
    by (rule spec_doc_absent_prefix)
      (use none g(1) in \<open>auto simp: good_scored_def dest: in_set_takeD\<close>)
  then have "spec_doc post (drop m SC) q fzero False = Some (s, r)" using sd by simp
  then have "fle s (csuffix (drop m (fceils SC)))"
    using spec_doc_le_ceiling [OF fceils_bound [OF ok A], of m "admissible post RQ lv n" j False s r]
      g set_drop_subset [of m SC] by (simp add: subset_iff)
  then show ?thesis using m by (simp add: suffix_sums_nth fceils_def)
qed

lemma repart_le: "repart sf th m \<le> m"
  by (induction m) auto

lemma repart_fle: "repart sf th m < m \<Longrightarrow> fle (sf ! repart sf th m) th"
proof (induction m)
  case (Suc m)
  then show ?case
    using repart_le [of sf th m] by (cases "repart sf th m < m") (auto split: if_splits)
qed simp

definition step_ok ::
  "(nat \<Rightarrow> postings) \<Rightarrow> 's chan list \<Rightarrow> 's chan list \<Rightarrow> u64 list option \<Rightarrow> u32 \<Rightarrow> nat \<Rightarrow>
     u32 \<Rightarrow> hit list \<Rightarrow> 's step \<Rightarrow> bool" where
  "step_ok post SC RQ lv n k p h res =
     (case res of
        Continue st' p' \<Rightarrow> scan_inv post SC RQ lv n k p' st' \<and> p \<le> p' \<and>
          heap st' = spec_heap (scan_cand post SC RQ lv n) k h (positions p p')
      | Break st' \<Rightarrow> heap st' = h \<and> topk st' = k \<and>
          spec_heap (scan_cand post SC RQ lv n) k h (positions p FUSE_END) = h
      | Return e \<Rightarrow> False)"

lemma scan_inv_move:
  assumes "scan_inv post SC RQ lv n k p st" and "same_chans (rq st) (rq st')" "same_chans (sc st) (sc st')"
    and "\<forall>c\<in>set (rq st'). chan_ok (admissible post RQ lv n) post q c"
    and "\<forall>c\<in>set (sc st'). chan_ok (admissible post RQ lv n) post q c"
    and "topk st' = topk st" "live st' = live st" "nwarp st' = nwarp st" "check_bounds st' = check_bounds st"
      "theta st' = theta st" "heap st' = heap st" "fsuffix st' = fsuffix st" "fsplit st' = fsplit st"
  shows "scan_inv post SC RQ lv n k q st'"
proof -
  have same: "same_chans SC (sc st)" "same_chans RQ (rq st)" using assms(1) by (simp_all add: scan_inv_def)
  show ?thesis
    using assms(1) assms(4-) same_chans_trans [OF same(1) assms(3)] same_chans_trans [OF same(2) assms(2)]
    by (auto simp: scan_inv_def)
qed

lemma all_placed_later:
  "\<forall>c\<in>set cs. placed A post p c \<Longrightarrow> p \<le> q \<Longrightarrow> \<forall>c\<in>set cs. chan_ok A post q c"
  using chan_ok_mono placed_chan_ok by blast

lemma scan_inv_push:
  assumes inv: "scan_inv post SC RQ lv n k p st" and s: "s \<noteq> NaN" and k: "0 < k"
    and acc: "length (heap st) < k \<or> flt (theta st) s"
  shows "scan_inv post SC RQ lv n k p (fuse_repartition (fuse_push st q s))"
proof -
  let ?x = "\<lparr>hwarp = q, hscore = s\<rparr>" and ?st = "fuse_push st q s"
  have h: "heap_ok k (heap st)" "topk st = k" "theta st = heap_theta k (heap st)"
    using inv by (auto simp: scan_inv_def)
  have up: "fle (theta st) (theta ?st)"
    using heap_theta_push [OF h(1) _ k, of ?x] s acc h(2,3) by simp
  have ok: "heap_ok k (heap ?st)" using heap_push_ok(1) [OF h(1) _ k, of ?x] s h(2) by simp
  let ?m = "repart (fsuffix st) (theta ?st) (fsplit st)"
  have eq: "fuse_repartition ?st = ?st\<lparr>fsplit := ?m\<rparr>"
    by (simp add: fuse_repartition_def fuse_push_def Let_def)
  have "fle (fsuffix st ! ?m) (theta ?st)" if "?m < length SC"
  proof (cases "?m = fsplit st")
    case True
    then show ?thesis using inv that fle_trans [OF _ up] by (auto simp: scan_inv_def)
  next
    case False
    then show ?thesis
      using repart_le [of "fsuffix st" "theta ?st" "fsplit st"] by (intro repart_fle) auto
  qed
  moreover have "?m \<le> length SC"
    using inv repart_le [of "fsuffix st" "theta ?st" "fsplit st"] by (auto simp: scan_inv_def)
  ultimately show ?thesis
    using inv ok h(2) unfolding eq by (simp add: scan_inv_def fuse_push_def Let_def)
qed

lemma fuse_score_doc_ok:
  assumes ok: "scan_ok post j SC RQ lv n k" and inv: "scan_inv post SC RQ lv n k p st" and p: "p < n"
    and A: "p \<in> admissible post RQ lv n"
    and rqp: "\<forall>c\<in>set (rq st). placed (admissible post RQ lv n) post p c \<and> cur c = p"
    and scp: "\<forall>c\<in>set (sc st). placed (admissible post RQ lv n) post p c"
    and con: "on_con p 0 (sc st) con ds" and bs: "bounds_at post p ds (map snd con)"
    and g: "\<forall>c\<in>set ds. good_scored post (admissible post RQ lv n) j c" and len: "length ds \<le> 64"
    and sd: "spec_doc post SC p fzero False = spec_doc post ds p fzero False"
    and reach: "SC = [] \<or> (\<exists>c\<in>set ds. post (cid c) p \<noteq> None)"
  shows "step_ok post SC RQ lv n k p (heap st) (fuse_score_doc st p con)"
proof -
  let ?A = "admissible post RQ lv n" and ?f = "scan_cand post SC RQ lv n"
  have pE: "p \<noteq> FUSE_END" using p by auto
  have le: "p \<le> p + 1" using less_inc [OF p] by simp
  have j: "j \<le> 252" "0 < k" and gr: "\<forall>c\<in>set RQ. good_required post c" using ok by (auto simp: scan_ok_def)
  have same: "same_chans SC (sc st)" "same_chans RQ (rq st)" using inv by (auto simp: scan_inv_def)
  have one: "spec_heap ?f k (heap st) (positions p (p + 1)) = accept k (heap st) p (?f p)"
    by (rule spec_heap_one [OF p])
  have fin: "step_ok post SC RQ lv n k p (heap st) (Continue st' (p + 1))"
    if "scan_inv post SC RQ lv n k (p + 1) st'" "heap st' = accept k (heap st) p (?f p)" for st'
    using that le one by (simp add: step_ok_def)
  have inv1: "scan_inv post SC RQ lv n k (p + 1) st'"
    if "same_chans (rq st) (rq st')" "same_chans (sc st) (sc st')"
      "\<forall>c\<in>set (rq st'). placed ?A post p c" "\<forall>c\<in>set (sc st'). placed ?A post p c"
      "topk st' = topk st" "live st' = live st" "nwarp st' = nwarp st" "check_bounds st' = check_bounds st"
      "theta st' = theta st" "heap st' = heap st" "fsuffix st' = fsuffix st" "fsplit st' = fsplit st" for st'
    by (rule scan_inv_move [OF inv that(1,2) all_placed_later [OF that(3) le]
          all_placed_later [OF that(4) le]]) (simp_all add: that)
  have gq: "\<forall>c\<in>set (rq st). placed ?A post p c \<and> cur c = p \<and> good_required post c"
    using rqp gr same_chans_mem [OF same(2)] same_chan_good(2) by blast
  have req: "(\<exists>c\<in>set (rq st). post (cid c) p = Some NInf) \<longleftrightarrow> (\<exists>c\<in>set RQ. post (cid c) p = Some NInf)"
    by (rule same_chans_ex [OF same(2), symmetric])
  obtain r where r: "score_required (rq st) fzero =
      Inr (r, if \<exists>c\<in>set RQ. post (cid c) p = Some NInf then None else Some fzero)"
    "same_chans (rq st) r" "\<forall>c\<in>set r. placed ?A post p c"
    using score_required_ok [OF gq pE] unfolding req by blast
  have rqs: "\<forall>c\<in>set RQ. post (cid c) p \<noteq> None" and lv: "live_at lv n p"
    using A by (auto simp: admissible_def)
  note spr = spec_doc_required [OF gr rqs]
  show ?thesis
  proof (cases "\<exists>c\<in>set RQ. post (cid c) p = Some NInf")
    case True
    then have "?f p = None" using lv by (simp add: cand_def spr)
    moreover have "fuse_score_doc st p con = Continue (st\<lparr>rq := r, nveto := Suc (nveto st)\<rparr>) (p + 1)"
      using r(1) True by (simp add: fuse_score_doc_def)
    ultimately show ?thesis using fin inv1 r(2,3) scp by simp
  next
    case nv: False
    have fp: "?f p = (case spec_doc post ds p fzero False of None \<Rightarrow> None
       | Some (s, r) \<Rightarrow> if \<not> r \<and> SC \<noteq> [] then None else Some s)"
      using lv nv by (simp add: cand_def spr sd split: option.split)
    have g0: "on_grid j 0 fzero" "0 + length ds * 2 ^ 18 \<le> 2 ^ 24" using len by simp_all
    obtain cs v where sc: "score_scored (theta st) False con (sc st) fzero = Inr (cs, v)"
      "same_chans (sc st) cs" "\<forall>c\<in>set cs. placed ?A post p c"
      and v: "case v of Kept s' \<Rightarrow> \<exists>r'. spec_doc post ds p fzero False = Some (s', r')
        | Vetoed \<Rightarrow> spec_doc post ds p fzero False = None
        | Abandoned \<Rightarrow> \<forall>s' r'. spec_doc post ds p fzero False = Some (s', r') \<longrightarrow> fle s' (theta st)"
      using score_scored_ok [OF con scp pE g bs g0 j(1), of "theta st" False] by blast
    have st: "\<not> check_bounds st" "theta st = heap_theta k (heap st)" "topk st = k"
      using inv by (auto simp: scan_inv_def)
    note fs = fuse_score_doc_def [of st p con] r(1) nv sc(1) st(1)
    show ?thesis
    proof (cases v)
      case Vetoed
      then have "?f p = None" using v by (simp add: fp)
      moreover have "fuse_score_doc st p con =
          Continue (st\<lparr>rq := r, sc := cs, nveto := Suc (nveto st)\<rparr>) (p + 1)"
        using Vetoed by (simp add: fs)
      ultimately show ?thesis using fin inv1 r(2,3) sc(2,3) by simp
    next
      case Abandoned
      have "accept k (heap st) p (?f p) = heap st"
      proof (cases "?f p")
        case (Some s)
        obtain r0 x where "spec_doc post SC p fzero False = Some (s, r0)" "s = Fin x"
          by (rule cand_admissible [OF ok A Some]) blast
        then show ?thesis using v Abandoned st(2) Some accept_low sd by simp
      qed simp
      moreover have "fuse_score_doc st p con =
          Continue (st\<lparr>rq := r, sc := cs, nabandon := Suc (nabandon st)\<rparr>) (p + 1)"
        using Abandoned by (simp add: fs)
      ultimately show ?thesis using fin inv1 r(2,3) sc(2,3) by simp
    next
      case (Kept s)
      then obtain r' where sp: "spec_doc post ds p fzero False = Some (s, r')" using v by auto
      have gs: "on_grid j (0 + length ds * 2 ^ 18) s \<and>
          (r' \<longleftrightarrow> False \<or> (\<exists>c\<in>set ds. post (cid c) p \<noteq> None))"
        by (rule spec_doc_grid [OF g sp g0 j(1)])
      then have "?f p = Some s" using sp reach by (auto simp: fp)
      let ?st1 = "st\<lparr>rq := r, sc := cs\<rparr>"
      have i1: "scan_inv post SC RQ lv n k (p + 1) ?st1" using inv1 r(2,3) sc(2,3) by simp
      have sn: "s \<noteq> NaN" using gs by (auto simp: on_grid_def)
      have eq: "fuse_score_doc st p con =
          Continue (if length (heap st) < k \<or> flt (theta st) s
                    then fuse_repartition (fuse_push ?st1 p s) else ?st1) (p + 1)"
        using Kept st(3) by (simp add: fs)
      show ?thesis
      proof (cases "length (heap st) < k \<or> flt (theta st) s")
        case True
        have "scan_inv post SC RQ lv n k (p + 1) (fuse_repartition (fuse_push ?st1 p s))"
          by (rule scan_inv_push [OF i1 sn j(2)]) (use True in simp)
        moreover have "heap (fuse_repartition (fuse_push ?st1 p s)) = accept k (heap st) p (?f p)"
          using True st \<open>?f p = Some s\<close> by (simp add: accept_def fuse_repartition_def)
        ultimately show ?thesis using fin eq True by simp
      next
        case False
        then have "accept k (heap st) p (?f p) = heap st"
          using st \<open>?f p = Some s\<close> by (simp add: accept_def)
        then show ?thesis using fin [OF i1] eq False by simp
      qed
    qed
  qed
qed

lemma fuse_bound_doc_ok:
  assumes ok: "scan_ok post j SC RQ lv n k" and inv: "scan_inv post SC RQ lv n k p st" and p: "p < n"
    and A: "p \<in> admissible post RQ lv n"
    and rqp: "\<forall>c\<in>set (rq st). placed (admissible post RQ lv n) post p c \<and> cur c = p"
    and reach: "SC = [] \<or> fsplit st = 0 \<or> (\<exists>c\<in>set SC. post (cid c) p \<noteq> None)"
  shows "step_ok post SC RQ lv n k p (heap st) (fuse_bound_doc st p)"
proof -
  let ?A = "admissible post RQ lv n"
  have pE: "p \<noteq> FUSE_END" using p by auto
  then have pE1: "p \<le> FUSE_END - 1" using le_dec [of p FUSE_END] less_FUSE_END by blast
  have g: "\<forall>c\<in>set SC. good_scored post ?A j c" "length SC \<le> 64" "j \<le> 252"
    using ok by (auto simp: scan_ok_def)
  have sc0: "same_chans SC (sc st)" "\<forall>c\<in>set (sc st). chan_ok ?A post p c" "theta st = heap_theta k (heap st)"
    using inv by (auto simp: scan_inv_def)
  obtain cs where adv: "advance_all (sc st) p = Inr cs" "same_chans (sc st) cs"
    "\<forall>c\<in>set cs. placed ?A post p c"
    using advance_all_ok [OF sc0(2) pE] by blast
  have same: "same_chans SC cs" by (rule same_chans_trans [OF sc0(1) adv(2)])
  have gcs: "\<forall>c\<in>set cs. good_scored post ?A j c" by (rule same_chans_good [OF same g(1)])
  let ?ds = "filter (\<lambda>c. cur c = p) cs"
  have pg: "\<forall>c\<in>set cs. placed ?A post p c \<and> good_scored post ?A j c" using adv(3) gcs by blast
  obtain cs' con rend where bsc:
    "bound_scan p 0 cs fzero (FUSE_END - 1) = Inr (cs', con, foldl fadd fzero (map snd con), rend)"
    "same_chans cs cs'" "\<forall>c\<in>set cs'. placed ?A post p c" "p \<le> rend" "on_con p 0 cs' con ?ds"
    "\<forall>q\<in>?A. p \<le> q \<longrightarrow> q \<le> rend \<longrightarrow> bounds_at post q ?ds (map snd con)"
    "\<forall>c\<in>set cs. cur c \<noteq> p \<longrightarrow> (\<forall>q. p \<le> q \<longrightarrow> q \<le> rend \<longrightarrow> post (cid c) q = None)"
    using bound_scan_ok [OF pg pE pE1, of 0 fzero] by blast
  let ?ub = "foldl fadd fzero (map snd con)"
  have gds: "\<forall>c\<in>set ?ds. good_scored post ?A j c" using gcs by simp
  have len: "length ?ds \<le> 64"
    using g(2) list_all2_lengthD [OF same] length_filter_le [of "\<lambda>c. cur c = p" cs] by linarith
  have sd: "spec_doc post SC q fzero False = spec_doc post ?ds q fzero False"
    if "p \<le> q" "q \<le> rend" for q
    unfolding spec_doc_same [OF same]
    by (rule spec_doc_absent [symmetric]) (use bsc(7) gcs that in \<open>auto simp: good_scored_def\<close>)
  let ?st = "st\<lparr>sc := cs'\<rparr>"
  have mv: "scan_inv post SC RQ lv n k q (?st\<lparr>nblkskip := x\<rparr>)" if "p \<le> q" for q x
    by (rule scan_inv_move [OF inv])
      (use same_chans_trans [OF adv(2) bsc(2)] all_placed_later [OF bsc(3) that]
        all_placed_later [of "rq st" ?A post p, OF _ that] rqp in auto)
  show ?thesis
  proof (cases "fle ?ub (theta st)")
    case True
    have low: "fle s (heap_theta k (heap st))"
      if q: "p \<le> q" "q \<le> rend" "q \<in> ?A" and s: "spec_doc post SC q fzero False = Some (s, r)" for q s r
    proof -
      have "bounds_at post q ?ds (map snd con)" using bsc(6) q by blast
      moreover have "spec_doc post ?ds q fzero False = Some (s, r)" using s sd [OF q(1,2)] by simp
      ultimately have "fle s ?ub"
        using spec_doc_le_foldl [OF _ gds _ on_grid_zero [of j 0] _ g(3), of q "map snd con" False s r fzero]
          len by (simp add: fle_refl)
      then show ?thesis using True sc0(3) fle_trans by metis
    qed
    show ?thesis
    proof (cases "FUSE_END - 1 \<le> rend")
      case end': True
      have "fuse_bound_doc st p = Break (?st\<lparr>nblkskip := Suc (nblkskip st)\<rparr>)"
        using adv(1) bsc(1,4) True end' by (simp add: fuse_bound_doc_def)
      moreover have "spec_heap (scan_cand post SC RQ lv n) k (heap st) (positions p b) = heap st" for b
      proof (rule spec_heap_idle_cand [OF ok])
        fix q s r assume q: "p \<le> q" "q < b" "q \<in> ?A" "spec_doc post SC q fzero False = Some (s, r)"
        then have "q \<le> FUSE_END - 1" using le_dec [of q FUSE_END] less_FUSE_END by fastforce
        then show "fle s (heap_theta k (heap st))" using low q end' by (meson order_trans)
      qed
      moreover have "topk st = k" using inv by (simp add: scan_inv_def)
      ultimately show ?thesis by (simp add: step_ok_def)
    next
      case False
      then have lt: "rend < FUSE_END - 1" by simp
      have le: "p \<le> rend + 1" using bsc(4) less_inc [OF lt] by (meson order_le_less_trans order_less_imp_le)
      have "fuse_bound_doc st p = Continue (?st\<lparr>nblkskip := Suc (nblkskip st)\<rparr>) (rend + 1)"
        using adv(1) bsc(1,4) True False by (simp add: fuse_bound_doc_def)
      moreover have "spec_heap (scan_cand post SC RQ lv n) k (heap st) (positions p (rend + 1)) = heap st"
        by (rule spec_heap_idle_cand [OF ok]) (use low less_inc_iff [OF lt] in blast)
      ultimately show ?thesis using mv [OF le] le by (simp add: step_ok_def)
    qed
  next
    case False
    have "fuse_bound_doc st p = fuse_score_doc ?st p con"
      using adv(1) bsc(1) False by (simp add: fuse_bound_doc_def)
    moreover have "step_ok post SC RQ lv n k p (heap ?st) (fuse_score_doc ?st p con)"
    proof (rule fuse_score_doc_ok [OF ok _ p A _ _ _ _ gds len])
      show "scan_inv post SC RQ lv n k p ?st" using mv [of p "nblkskip ?st"] by simp
      show "\<forall>c\<in>set (rq ?st). placed ?A post p c \<and> cur c = p" using rqp by simp
      show "\<forall>c\<in>set (sc ?st). placed ?A post p c" using bsc(3) by simp
      show "on_con p 0 (sc ?st) con ?ds" using bsc(5) by simp
      show "bounds_at post p ?ds (map snd con)" using bsc(4,6) A by blast
      show "spec_doc post SC p fzero False = spec_doc post ?ds p fzero False" using sd bsc(4) by simp
      have absent: "post (cid c) p = None" if "c \<in> set cs" "cur c \<noteq> p" for c
        using that bsc(4,7) by simp
      have "\<exists>c\<in>set SC. post (cid c) p \<noteq> None" if "SC \<noteq> []" "fsplit st = 0"
      proof (rule ccontr)
        assume none: "\<not> (\<exists>c\<in>set SC. post (cid c) p \<noteq> None)"
        then have "spec_doc post (SC @ []) p fzero False = Some (fzero, False)"
          by (subst spec_doc_absent_prefix) (use g(1) in \<open>auto simp: good_scored_def\<close>)
        then have "fle fzero (suffix_sums (fceils SC) ! 0)"
          using below_suffix [OF ok A, of fzero False 0] by simp
        moreover have "fle (suffix_sums (fceils SC) ! 0) (theta st)"
          using inv that by (auto simp: scan_inv_def)
        moreover have "?ds = []"
        proof -
          have "post (cid c) p = None" if "c \<in> set cs" for c
            using none same_chans_ex [OF same, of "\<lambda>i. post i p \<noteq> None"] that by blast
          then have "cur c \<noteq> p" if "c \<in> set cs" for c
            using placed_iff [of ?A post p c, OF _ pE] adv(3) that by auto
          then show ?thesis by (simp add: filter_empty_conv)
        qed
        then have "con = []" using bsc(5) by (simp add: on_con_def)
        ultimately show False using False fle_trans by auto
      qed
      then have "SC = [] \<or> (\<exists>c\<in>set cs. post (cid c) p \<noteq> None)"
        using reach same_chans_ex [OF same, of "\<lambda>i. post i p \<noteq> None"] by metis
      then show "SC = [] \<or> (\<exists>c\<in>set ?ds. post (cid c) p \<noteq> None)" using absent by fastforce
    qed
    ultimately show ?thesis by simp
  qed
qed

lemma fuse_visit_ok:
  assumes ok: "scan_ok post j SC RQ lv n k" and inv: "scan_inv post SC RQ lv n k p st" and p: "p < n"
    and rqp: "\<forall>c\<in>set (rq st). placed (admissible post RQ lv n) post p c \<and> cur c = p"
    and reach: "SC = [] \<or> fsplit st = 0 \<or> (\<exists>c\<in>set SC. post (cid c) p \<noteq> None)"
  shows "step_ok post SC RQ lv n k p (heap st) (fuse_visit st p)"
proof -
  let ?A = "admissible post RQ lv n"
  have pE: "p \<noteq> FUSE_END" using p by auto
  have le: "p \<le> p + 1" using less_inc [OF p] by simp
  have st: "live st = lv" "nwarp st = n" "same_chans RQ (rq st)" using inv by (auto simp: scan_inv_def)
  have inv1: "scan_inv post SC RQ lv n k p (st\<lparr>npivot := Suc (npivot st)\<rparr>)"
    by (rule scan_inv_move [OF inv]) (use inv in \<open>auto simp: scan_inv_def\<close>)
  show ?thesis
  proof (cases "live_at lv n p")
    case False
    then have "p \<notin> ?A" by (simp add: admissible_def)
    then have "spec_heap (scan_cand post SC RQ lv n) k (heap st) (positions p (p + 1)) = heap st"
      using spec_heap_one [OF p] cand_inadmissible [OF ok] by simp
    moreover have "scan_inv post SC RQ lv n k (p + 1)
        (st\<lparr>npivot := Suc (npivot st), nlivedrop := Suc (nlivedrop st)\<rparr>)"
      by (rule scan_inv_move [OF inv])
        (use inv in \<open>auto simp: scan_inv_def intro: chan_ok_mono [OF _ le]\<close>)
    ultimately show ?thesis using False st le by (simp add: fuse_visit_def fuse_live_def step_ok_def)
  next
    case True
    have "\<forall>c\<in>set (rq st). post (cid c) p \<noteq> None" using rqp placed_iff [OF _ pE] by blast
    then have "p \<in> ?A" using True same_chans_ex [OF st(3), of "\<lambda>i. post i p = None"]
      by (auto simp: admissible_def)
    from fuse_bound_doc_ok [OF ok inv1 p this] show ?thesis
      using True st rqp reach by (simp add: fuse_visit_def fuse_live_def)
  qed
qed

lemma fuse_candidate_ok:
  assumes ok: "scan_ok post j SC RQ lv n k" and inv: "scan_inv post SC RQ lv n k p st" and p: "p < n"
    and rqp: "\<forall>c\<in>set (rq st). placed (admissible post RQ lv n) post p c \<and> cur c = p"
  shows "step_ok post SC RQ lv n k p (heap st) (fuse_candidate st p)"
proof -
  let ?A = "admissible post RQ lv n" and ?f = "scan_cand post SC RQ lv n"
  have pE: "p \<noteq> FUSE_END" using p by auto
  have st: "same_chans SC (sc st)" "same_chans RQ (rq st)" "\<forall>c\<in>set (sc st). chan_ok ?A post p c"
    "theta st = heap_theta k (heap st)" "fsuffix st = suffix_sums (fceils SC)" "fsplit st \<le> length SC"
    "fsplit st < length SC \<longrightarrow> fle (fsuffix st ! fsplit st) (theta st)" "topk st = k"
    using inv by (auto simp: scan_inv_def)
  have len: "length (sc st) = length SC" using list_all2_lengthD [OF st(1)] by simp
  show ?thesis
  proof (cases "fsplit st = 0")
    case True
    show ?thesis
    proof (cases "rq st = []")
      case rq: True
      then have ne: "SC \<noteq> []" using ok st(2) by (auto simp: scan_ok_def)
      have "spec_heap ?f k (heap st) (positions p b) = heap st" for b
      proof (rule spec_heap_idle_cand [OF ok])
        fix q s r assume "q \<in> ?A" "spec_doc post SC q fzero False = Some (s, r)"
        then have "fle s (suffix_sums (fceils SC) ! 0)" using below_suffix [OF ok, of q s r 0] by simp
        then show "fle s (heap_theta k (heap st))" using st(4,5,7) True ne fle_trans by auto
      qed
      then show ?thesis using True rq st(8) by (simp add: fuse_candidate_def step_ok_def)
    next
      case False
      then show ?thesis
        using True fuse_visit_ok [OF ok inv p rqp] by (simp add: fuse_candidate_def)
    qed
  next
    case False
    let ?m = "fsplit st"
    have tk: "\<forall>c\<in>set (take ?m (sc st)). chan_ok ?A post p c"
      using st(3) by (auto dest: in_set_takeD)
    obtain cs q where pv: "pivot_pass (take ?m (sc st)) p FUSE_END = Inr (cs, q)"
      "same_chans (take ?m (sc st)) cs" "\<forall>c\<in>set cs. placed ?A post p c \<and> q \<le> cur c"
      "q = FUSE_END \<or> (\<exists>c\<in>set cs. cur c = q)"
      using pivot_pass_ok [OF tk pE, of FUSE_END] by blast
    let ?st = "st\<lparr>sc := cs @ drop ?m (sc st)\<rparr>"
    have fp: "fuse_pivot st p = Inr (?st, q)" using pv(1) by (simp add: fuse_pivot_def)
    have "same_chans (take ?m (sc st) @ drop ?m (sc st)) (cs @ drop ?m (sc st))"
      by (rule list_all2_appendI [OF pv(2) same_chans_refl])
    then have same: "same_chans (sc st) (cs @ drop ?m (sc st))" by simp
    have cok: "\<forall>c\<in>set (cs @ drop ?m (sc st)). chan_ok ?A post p c"
      using pv(3) st(3) by (auto intro: placed_chan_ok dest: in_set_dropD)
    have "same_chans (take ?m SC) (take ?m (sc st))" by (rule list_all2_takeI [OF st(1)])
    then have same': "same_chans (take ?m SC) cs" using pv(2) by (rule same_chans_trans)
    have inv': "scan_inv post SC RQ lv n k x ?st" if "p \<le> x" for x
      by (rule scan_inv_move [OF inv])
        (use same all_chan_ok_mono [OF cok that] all_placed_later [of "rq st" ?A post p, OF _ that] rqp
         in auto)
    show ?thesis
    proof (cases "p < q")
      case True
      have "spec_heap ?f k (heap st) (positions p q) = heap st"
      proof (rule spec_heap_idle_cand [OF ok])
        fix x s r assume x: "p \<le> x" "x < q" "x \<in> ?A" and sd: "spec_doc post SC x fzero False = Some (s, r)"
          and r: "r \<or> SC = []"
        have "\<forall>c\<in>set cs. post (cid c) x = None"
          using pv(3) placed_absent [OF _ x(1)] x(2) by (meson order_less_le_trans)
        then have none: "\<forall>c\<in>set (take ?m SC). post (cid c) x = None"
          using same_chans_ex [OF same', of "\<lambda>i. post i x \<noteq> None"] by metis
        have le: "fle s (suffix_sums (fceils SC) ! ?m)" by (rule below_suffix [OF ok x(3) sd none st(6)])
        show "fle s (heap_theta k (heap st))"
        proof (cases "?m < length SC")
          case True
          then show ?thesis using le st(4,5,7) fle_trans by auto
        next
          case False
          then have none: "\<forall>c\<in>set SC. post (cid c) x = None" using none st(6) by simp
          have "\<forall>c\<in>set SC. \<not> required c" using ok by (auto simp: scan_ok_def good_scored_def)
          then have "spec_doc post (SC @ []) x fzero False = Some (fzero, False)"
            using none by (subst spec_doc_absent_prefix) auto
          then have "SC = []" using sd r by simp
          then show ?thesis using \<open>fsplit st \<noteq> 0\<close> st(6) by simp
        qed
      qed
      then show ?thesis
        using False fp True inv' [of q] by (simp add: fuse_candidate_def step_ok_def)
    next
      case no: False
      then have "q \<noteq> FUSE_END" using pE less_FUSE_END by auto
      then obtain c where c: "c \<in> set cs" "cur c = q" using pv(4) by auto
      then have "p \<le> q" using pv(3) placed_ge by blast
      then have q: "q = p" using no by simp
      then have "post (cid c) p \<noteq> None" using c pv(3) placed_iff [OF _ pE] by blast
      then have "\<exists>c\<in>set SC. post (cid c) p \<noteq> None"
        using c(1) same_chans_ex [OF same', of "\<lambda>i. post i p \<noteq> None"] by (meson in_set_takeD)
      then have "step_ok post SC RQ lv n k p (heap ?st) (fuse_visit ?st p)"
        by (intro fuse_visit_ok [OF ok inv' p]) (use rqp in auto)
      then show ?thesis using False fp q by (simp add: fuse_candidate_def)
    qed
  qed
qed

lemma step_ok_later:
  assumes "step_ok post SC RQ lv n k q h res" and "p \<le> q"
    and "spec_heap (scan_cand post SC RQ lv n) k h (positions p q) = h"
  shows "step_ok post SC RQ lv n k p h res"
proof (cases res)
  case (Continue st' p')
  then show ?thesis
    using assms spec_heap_split [of p q p' "scan_cand post SC RQ lv n" k h]
    by (auto simp: step_ok_def)
next
  case (Break st')
  then show ?thesis
    using assms spec_heap_split [of p q FUSE_END "scan_cand post SC RQ lv n" k h]
    by (simp add: step_ok_def)
next
  case (Return e)
  then show ?thesis using assms by (simp add: step_ok_def)
qed

lemma fuse_step_ok:
  assumes ok: "scan_ok post j SC RQ lv n k" and inv: "scan_inv post SC RQ lv n k p st"
  shows "step_ok post SC RQ lv n k p (heap st) (fuse_step st p)"
proof -
  let ?A = "admissible post RQ lv n" and ?f = "scan_cand post SC RQ lv n"
  have st: "same_chans RQ (rq st)" "\<forall>c\<in>set (rq st). chan_ok ?A post p c" "theta st = heap_theta k (heap st)"
    "fsuffix st = suffix_sums (fceils SC)" "topk st = k" "nwarp st = n"
    using inv by (auto simp: scan_inv_def)
  have rest: "spec_heap ?f k (heap st) (positions a FUSE_END) = heap st" if "a = FUSE_END \<or> n \<le> a" for a
    using that spec_heap_idle_rest [OF ok] spec_heap_def [of ?f k "heap st" "[]"] by auto
  show ?thesis
  proof (cases "at_end st p")
    case True
    then show ?thesis using rest st(5,6) by (auto simp: fuse_step_def step_ok_def at_end_def)
  next
    case more: False
    then have p: "p < n" "p \<noteq> FUSE_END" using st(6) by (auto simp: at_end_def)
    show ?thesis
    proof (cases "length (heap st) = k \<and> fle (fsuffix st ! 0) (theta st)")
      case True
      have "spec_heap ?f k (heap st) (positions p FUSE_END) = heap st"
      proof (rule spec_heap_idle_cand [OF ok])
        fix q s r assume "q \<in> ?A" "spec_doc post SC q fzero False = Some (s, r)"
        then have "fle s (suffix_sums (fceils SC) ! 0)" using below_suffix [OF ok, of q s r 0] by simp
        then show "fle s (heap_theta k (heap st))" using st(3,4) True fle_trans by auto
      qed
      then show ?thesis using more True st(5) by (simp add: fuse_step_def step_ok_def)
    next
      case nc: False
      show ?thesis
      proof (cases "rq st = []")
        case True
        then show ?thesis
          using fuse_candidate_ok [OF ok inv p(1)] more nc st(5) by (auto simp: fuse_step_def)
      next
        case False
        obtain r q m where it: "fuse_intersect (rq st) p (nrqskip st) = Inr (r, q, m)"
          "same_chans (rq st) r" "p \<le> q"
          "\<forall>x. p \<le> x \<and> x < q \<longrightarrow> (\<exists>c\<in>set (rq st). post (cid c) x = None)"
          "\<forall>c\<in>set r. chan_ok ?A post q c" "q \<noteq> FUSE_END \<longrightarrow> (\<forall>c\<in>set r. placed ?A post q c \<and> cur c = q)"
          using fuse_intersect_ok [OF st(2) p(2) False] by blast
        let ?st = "st\<lparr>rq := r, nrqskip := m\<rparr>"
        have skip: "spec_heap ?f k (heap st) (positions p q) = heap st"
        proof (rule spec_heap_idle_cand [OF ok])
          fix x s r assume "p \<le> x" "x < q" "x \<in> ?A"
          then have False
            using it(4) same_chans_ex [OF st(1), of "\<lambda>i. post i x = None"] by (auto simp: admissible_def)
          then show "fle s (heap_theta k (heap st))" ..
        qed
        have inv': "scan_inv post SC RQ lv n k q ?st"
          by (rule scan_inv_move [OF inv])
            (use it(2,5) all_chan_ok_mono [OF _ it(3), of "sc st" ?A post] inv in \<open>auto simp: scan_inv_def\<close>)
        show ?thesis
        proof (cases "at_end ?st q")
          case True
          then have "spec_heap ?f k (heap st) (positions q FUSE_END) = heap st"
            using rest st(6) by (auto simp: at_end_def)
          then have "spec_heap ?f k (heap st) (positions p FUSE_END) = heap st"
            using skip spec_heap_split [of p q FUSE_END ?f k "heap st"] it(3) by simp
          then show ?thesis
            using more nc False it(1) True st(5) by (auto simp: fuse_step_def step_ok_def)
        next
          case go: False
          then have q: "q < n" "q \<noteq> FUSE_END" using st(6) by (auto simp: at_end_def)
          have "step_ok post SC RQ lv n k q (heap ?st) (fuse_candidate ?st q)"
            by (rule fuse_candidate_ok [OF ok inv' q(1)]) (use it(6) q(2) in simp)
          then have "step_ok post SC RQ lv n k p (heap st) (fuse_candidate ?st q)"
            using step_ok_later [OF _ it(3) skip] by simp
          then show ?thesis
            using more nc False it(1) go st(5) by (auto simp: fuse_step_def)
        qed
      qed
    qed
  qed
qed

subsection \<open>The whole scan\<close>

lemma fuse_loop_ok:
  assumes "scan_ok post j SC RQ lv n k" and "scan_inv post SC RQ lv n k p st"
  shows "\<exists>st'. fuse_loop st p = Inr st' \<and> topk st' = k \<and>
    heap st' = spec_heap (scan_cand post SC RQ lv n) k (heap st) (positions p FUSE_END)"
  using assms(2)
proof (induction st p rule: fuse_loop.induct)
  case (1 st p)
  note so = fuse_step_ok [OF assms(1) "1.prems"]
  show ?case
  proof (cases "fuse_step st p")
    case (Continue st' p')
    then have c: "scan_inv post SC RQ lv n k p' st'" "p \<le> p'"
      "heap st' = spec_heap (scan_cand post SC RQ lv n) k (heap st) (positions p p')"
      using so by (auto simp: step_ok_def)
    from "1.IH" [OF Continue c(1)] show ?thesis
      using Continue c(2,3) spec_heap_split [of p p' FUSE_END "scan_cand post SC RQ lv n" k "heap st"]
      by (subst fuse_loop.simps) simp
  next
    case (Break st')
    then show ?thesis using so by (subst fuse_loop.simps) (simp add: step_ok_def)
  next
    case (Return e)
    then show ?thesis using so by (simp add: step_ok_def)
  qed
qed

subsection \<open>Set-up and result\<close>

lemma classify_parts:
  "classify cs = Inr (r, s) \<Longrightarrow>
     r = map reset_chan (filter required cs) \<and>
     s = map (\<lambda>c. (reset_chan c, fmul (weight c) (maxscore c))) (filter (\<lambda>c. \<not> required c) cs)"
  by (induction cs arbitrary: r s) (auto split: if_splits sum.splits prod.splits)

lemma shift_in_mset: "mset (shift_in x ys) = add_mset x (mset ys)"
  by (induction ys) auto

lemma sort_scored_mset: "mset (fuse_sort_scored xs) = mset xs"
proof -
  have "mset (foldl (\<lambda>acc x. shift_in x acc) ys xs) = mset ys + mset xs" for ys
    by (induction xs arbitrary: ys) (simp_all add: shift_in_mset)
  then show ?thesis by (simp add: fuse_sort_scored_def)
qed

lemma sort_scored_set: "set (fuse_sort_scored xs) = set xs"
  by (rule mset_eq_setD [OF sort_scored_mset])

lemma sort_scored_length: "length (fuse_sort_scored xs) = length xs"
  by (rule mset_eq_length [OF sort_scored_mset])

definition fused_chan :: "(nat \<Rightarrow> postings) \<Rightarrow> u32 set \<Rightarrow> nat \<Rightarrow> 's chan \<Rightarrow> bool" where
  "fused_chan post A j c \<longleftrightarrow>
     opens A (ops c) (post (cid c)) (cstate c) \<and>
     (if required c then good_required post c else good_scored post A j c)"

lemma reset_chan_simps [simp]:
  "ops (reset_chan c) = ops c" "cid (reset_chan c) = cid c" "weight (reset_chan c) = weight c"
  "maxscore (reset_chan c) = maxscore c" "required (reset_chan c) = required c"
  "cstate (reset_chan c) = cstate c" "nseek (reset_chan c) = 0"
  by (simp_all add: reset_chan_def)

lemma same_chan_reset [simp]: "same_chan c (reset_chan c)"
  by (simp add: same_chan_def)

lemma fused_reset [simp]:
  "good_scored post A j (reset_chan c) = good_scored post A j c"
  "good_required post (reset_chan c) = good_required post c"
  "chan_ok A post p (reset_chan c) = opens A (ops c) (post (cid c)) (cstate c)"
  using same_chan_good [OF same_chan_reset [of c]] by (simp_all add: chan_ok_def)

lemma weave_fuse_init_ok:
  assumes init: "weave_fuse_init chans k lv n = Inr st" and j: "j \<le> 252"
    and ch: "\<forall>c\<in>set chans. fused_chan post (admissible post (filter required chans) lv n) j c"
  shows "scan_ok post j (sc st) (rq st) lv n (nat k)"
    and "scan_inv post (sc st) (rq st) lv n (nat k) 0 st"
    and "\<forall>c\<in>set (rq st @ sc st). chan_ok (admissible post (rq st) lv n) post 0 c"
    and "heap st = []" "topk st = nat k" "live st = lv" "nwarp st = n" "theta st = NInf"
proof -
  let ?A = "admissible post (filter required chans) lv n"
  obtain r s where cl: "classify chans = Inr (r, s)"
    and len: "chans \<noteq> []" "length chans \<le> 64" and k: "1 \<le> k"
    and st: "st = \<lparr>sc = map fst (fuse_sort_scored s), rq = r, fceil = map snd (fuse_sort_scored s),
                    fsuffix = suffix_sums (map snd (fuse_sort_scored s)),
                    fsplit = length (fuse_sort_scored s),
                    heap = [], topk = nat k, theta = NInf, live = lv, nwarp = n,
                    check_bounds = False, npivot = 0, nblkskip = 0, nrqskip = 0, nlivedrop = 0,
                    nveto = 0, nabandon = 0, stop = STOP_NONE\<rparr>"
    using init by (auto simp: weave_fuse_init_def Let_def not_less split: if_splits sum.splits)
  have r: "r = map reset_chan (filter required chans)"
    and s: "s = map (\<lambda>c. (reset_chan c, fmul (weight c) (maxscore c))) (filter (\<lambda>c. \<not> required c) chans)"
    using classify_parts [OF cl] by auto
  let ?S = "fuse_sort_scored s"
  have rq: "rq st = r" and sc: "sc st = map fst ?S" by (simp_all add: st)
  have A: "admissible post (rq st) lv n = ?A"
    by (auto simp: admissible_def rq r)
  have sset: "set (sc st) = reset_chan ` {c \<in> set chans. \<not> required c}"
    by (force simp: sc sort_scored_set s)
  have rset: "set (rq st) = reset_chan ` {c \<in> set chans. required c}"
    by (auto simp: rq r)
  have slen: "length (sc st) = length (filter (\<lambda>c. \<not> required c) chans)"
    by (simp add: sc sort_scored_length s)
  have "length (sc st) \<le> 64"
    using slen len(2) length_filter_le [of "\<lambda>c. \<not> required c" chans] by linarith
  moreover have "sc st \<noteq> [] \<or> rq st \<noteq> []"
  proof -
    have "hd chans \<in> set chans" using len(1) by simp
    then have "reset_chan (hd chans) \<in> set (sc st) \<or> reset_chan (hd chans) \<in> set (rq st)"
      by (auto simp: sset rset)
    then show ?thesis by auto
  qed
  ultimately show "scan_ok post j (sc st) (rq st) lv n (nat k)"
    using ch j k by (auto simp: scan_ok_def A sset rset fused_chan_def)
  show cok: "\<forall>c\<in>set (rq st @ sc st). chan_ok (admissible post (rq st) lv n) post 0 c"
    unfolding A using ch by (auto simp: sset rset fused_chan_def)
  have "fceils (sc st) = map snd ?S"
    by (auto simp: fceils_def sc sort_scored_set s)
  then show "scan_inv post (sc st) (rq st) lv n (nat k) 0 st"
    using cok k unfolding scan_inv_def
    by (simp add: st heap_theta_def)
  show "heap st = []" "topk st = nat k" "live st = lv" "nwarp st = n" "theta st = NInf"
    by (simp_all add: st)
qed

lemma hits_of_append: "hits_of f (ps @ qs) = hits_of f ps @ hits_of f qs"
  by (simp add: hits_of_def)

lemma cand_not_NaN:
  assumes "scan_ok post j SC RQ lv n k"
  shows "\<forall>q s. scan_cand post SC RQ lv n q = Some s \<longrightarrow> s \<noteq> NaN"
proof (intro allI impI)
  fix q s assume f: "scan_cand post SC RQ lv n q = Some s"
  then have A: "q \<in> admissible post RQ lv n" using cand_inadmissible [OF assms] by fastforce
  obtain x where "s = Fin x" by (rule cand_admissible [OF assms A f])
  then show "s \<noteq> NaN" by simp
qed

lemma sorted_positions: "sorted_wrt (<) (positions a b)"
proof -
  have "sorted_wrt (<) (map (of_nat :: nat \<Rightarrow> u32) [x..<y])" if "y < 2 ^ 32" for x y
    unfolding sorted_wrt_map
    by (rule sorted_wrt_mono_rel [of _ "(<)"])
      (use that in \<open>auto simp: word_less_nat_alt unat_of_nat take_bit_nat_eq_self\<close>)
  then show ?thesis using unat_u32 [of b] by (simp add: positions_def)
qed

lemma fused_scan_result:
  assumes init: "weave_fuse_init chans k lv n = Inr st" and j: "j \<le> 252"
    and ch: "\<forall>c\<in>set chans. fused_chan post (admissible post (filter required chans) lv n) j c"
  shows "\<exists>st'. weave_fuse_run st = Inr st' \<and>
    snd (weave_fuse_drain st') =
      take (nat k) (best_first (hits_of (scan_cand post (sc st) (rq st) lv n) (positions 0 n)))"
    and "weave_fuse_reference chans lv n k =
      Inr (take (nat k) (best_first (hits_of (scan_cand post (sc st) (rq st) lv n) (positions 0 n))))"
proof -
  let ?f = "scan_cand post (sc st) (rq st) lv n"
  note ok = weave_fuse_init_ok [OF init j ch]
  have k: "0 < nat k" using ok(1) by (simp add: scan_ok_def)
  have best: "heap_ok (nat k) (spec_heap ?f (nat k) [] (positions 0 n)) \<and>
      keeps_best (nat k) (hits_of ?f (positions 0 n)) (spec_heap ?f (nat k) [] (positions 0 n))"
    by (rule spec_heap_best [OF sorted_positions cand_not_NaN [OF ok(1)] k])
  have drain: "drain_loop (spec_heap ?f (nat k) [] (positions 0 n))
        (length (spec_heap ?f (nat k) [] (positions 0 n)) - 1) =
      take (nat k) (best_first (hits_of ?f (positions 0 n)))"
    by (rule trans [OF weave_fuse_drain_ok keeps_best_take]) (use best in blast)+
  have "spec_heap ?f (nat k) [] (positions 0 FUSE_END) =
      spec_heap ?f (nat k) (spec_heap ?f (nat k) [] (positions 0 n)) (positions n FUSE_END)"
    by (rule spec_heap_split) simp_all
  also have "\<dots> = spec_heap ?f (nat k) [] (positions 0 n)"
    by (rule spec_heap_idle_rest [OF ok(1)]) simp
  finally have full: "spec_heap ?f (nat k) [] (positions 0 FUSE_END) =
      spec_heap ?f (nat k) [] (positions 0 n)" .
  obtain st' where "fuse_loop st 0 = Inr st'" "heap st' = spec_heap ?f (nat k) [] (positions 0 n)"
    using fuse_loop_ok [OF ok(1,2)] full ok(4) by auto
  then show "\<exists>st'. weave_fuse_run st = Inr st' \<and>
      snd (weave_fuse_drain st') = take (nat k) (best_first (hits_of ?f (positions 0 n)))"
    using drain by (simp add: weave_fuse_run_def weave_fuse_drain_def)
  have "theta st = heap_theta (topk st) (heap st)" using ok(4,5,8) k by (simp add: heap_theta_def)
  from ref_loop_ok [OF ok(3) this, of "length (sc st)"] obtain st2 where
    "ref_loop (length (sc st)) st (rq st @ sc st) 0 = Inr st2"
    "heap st2 = spec_heap ?f (nat k) [] (positions 0 n)"
    using ok(4-7) by auto
  then show "weave_fuse_reference chans lv n k =
      Inr (take (nat k) (best_first (hits_of ?f (positions 0 n))))"
    using init drain by (simp add: weave_fuse_reference_def weave_fuse_drain_def)
qed

end
