(* ===== verification/Weave_Scan.thy ===== *)
theory Weave_Scan
  imports Weave_Fuse_Run
begin

text \<open>
  The properties of the fused scan as a whole, and concrete scans. The concrete channels hold their
  blocks in an array, as the channels of the repository's property test do; \<open>arr_opens\<close> shows that
  such a channel keeps the contract when its bounds do.
\<close>

subsection \<open>Channels over an array of blocks\<close>

record entry =
  epos :: u32
  eend :: u32
  ebound :: f32
  escore :: f32

definition arr_at :: "entry list \<Rightarrow> u32 \<Rightarrow> entry option" where
  "arr_at xs q = find (\<lambda>e. epos e = q) xs"

definition arr_ops :: "entry list \<Rightarrow> u32 chan_ops" where
  "arr_ops xs =
     \<lparr>seek = \<lambda>s t. (case find (\<lambda>e. t \<le> epos e) xs of None \<Rightarrow> Some (FUSE_END, None, FUSE_END)
                    | Some e \<Rightarrow> Some (epos e, Some (eend e), epos e)),
      block_max = \<lambda>s. (case arr_at xs s of None \<Rightarrow> NaN | Some e \<Rightarrow> ebound e, s),
      score = \<lambda>s q. (case arr_at xs q of None \<Rightarrow> NInf | Some e \<Rightarrow> escore e, s)\<rparr>"

definition arr_postings :: "entry list \<Rightarrow> postings" where
  "arr_postings xs q = map_option escore (arr_at xs q)"

definition arr_ok :: "entry list \<Rightarrow> bool" where
  "arr_ok xs \<longleftrightarrow> sorted_wrt (<) (map epos xs) \<and>
     (\<forall>e\<in>set xs. epos e < FUSE_END \<and> epos e \<le> eend e \<and> ebound e \<noteq> NaN \<and> fle fzero (ebound e) \<and>
        (\<forall>f\<in>set xs. epos e \<le> epos f \<and> epos f \<le> eend e \<longrightarrow> fle (escore f) (ebound e)))"

definition arr_inv :: "entry list \<Rightarrow> u32 \<Rightarrow> u32 \<Rightarrow> u32 \<Rightarrow> bool" where
  "arr_inv xs lo hi s \<longleftrightarrow>
     s = lo \<and> (case arr_at xs lo of None \<Rightarrow> lo = FUSE_END | Some e \<Rightarrow> hi = eend e)"

definition arr_chan :: "nat \<Rightarrow> bool \<Rightarrow> f32 \<Rightarrow> f32 \<Rightarrow> entry list \<Rightarrow> u32 chan" where
  "arr_chan i rqd w mx xs =
     \<lparr>ops = arr_ops xs, cid = i, cur = 0, blkend = 0, maxscore = mx, weight = w, required = rqd,
      cstate = 0, nseek = 0, nscore = 0, nbmax = 0\<rparr>"

lemma arr_atD: "arr_at xs q = Some e \<Longrightarrow> e \<in> set xs \<and> epos e = q"
  by (auto simp: arr_at_def find_Some_iff)

lemma arr_at_mem:
  assumes "arr_ok xs" and "e \<in> set xs"
  shows "arr_at xs (epos e) = Some e"
proof -
  have "distinct (map epos xs)"
    using assms(1) by (simp add: arr_ok_def strict_sorted_iff)
  then have "inj_on epos (set xs)" by (simp add: distinct_map)
  moreover obtain f where "arr_at xs (epos e) = Some f"
    using assms(2) by (cases "arr_at xs (epos e)") (auto simp: arr_at_def find_None_iff)
  ultimately show ?thesis using arr_atD [of xs "epos e" f] assms(2) by (auto simp: inj_on_def)
qed

lemma arr_seek_step:
  assumes ok: "arr_ok xs"
  shows "\<exists>p be s'. seek (arr_ops xs) s t = Some (p, be, s') \<and> next_at (arr_postings xs) t p \<and>
    (be = None \<longrightarrow> p = FUSE_END) \<and> arr_inv xs p (blk_end p be) s'"
proof (cases "find (\<lambda>e. t \<le> epos e) xs")
  case None
  then have "arr_at xs q = None" if "t \<le> q" for q
    using that by (auto simp: arr_at_def find_None_iff)
  then show ?thesis using None
    by (simp add: arr_ops_def next_at_def arr_postings_def arr_inv_def)
next
  case (Some e)
  then obtain i where i: "i < length xs" "e = xs ! i" "t \<le> epos e" "\<forall>j<i. \<not> t \<le> epos (xs ! j)"
    by (auto simp: find_Some_iff)
  have e: "e \<in> set xs" using i by simp
  have none: "arr_at xs q = None" if q: "t \<le> q" "q < epos e" for q
  proof (rule ccontr)
    assume "arr_at xs q \<noteq> None"
    then obtain j where j: "j < length xs" "epos (xs ! j) = q"
      using arr_atD by (metis in_set_conv_nth option.exhaust)
    then have "i \<le> j" using i(4) q(1) not_less by blast
    moreover have "i \<noteq> j" using j i(2) q(2) by auto
    ultimately have "epos (xs ! i) < epos (xs ! j)"
      using ok j(1) by (auto simp: arr_ok_def sorted_wrt_iff_nth_less)
    then show False using i(2) j(2) q(2) by auto
  qed
  have "next_at (arr_postings xs) t (epos e)"
    using i(3) none arr_at_mem [OF ok e] by (simp add: next_at_def arr_postings_def)
  moreover have "epos e \<le> eend e" using ok e by (simp add: arr_ok_def)
  ultimately show ?thesis using Some arr_at_mem [OF ok e]
    by (simp add: arr_ops_def arr_inv_def blk_end_def max_absorb2)
qed

lemma arr_shuttle_laws:
  assumes ok: "arr_ok xs"
  shows "shuttle A (arr_ops xs) (arr_postings xs) (arr_inv xs) (\<lambda>_. True)"
proof
  fix lo hi s v assume inv: "arr_inv xs lo hi s" and v: "arr_postings xs lo = Some v"
  then obtain e where e: "arr_at xs lo = Some e" "v = escore e" "hi = eend e" "s = lo"
    by (auto simp: arr_postings_def arr_inv_def)
  note me = arr_atD [OF e(1)]
  have le: "fle (contrib_at (arr_postings xs) q) (ebound e)" if q: "lo \<le> q" "q \<le> hi" for q
  proof (cases "arr_at xs q")
    case None
    then show ?thesis using ok me by (simp add: contrib_at_def arr_postings_def arr_ok_def)
  next
    case (Some f)
    then show ?thesis using ok me arr_atD [OF Some] q e(3)
      by (auto simp: contrib_at_def arr_postings_def arr_ok_def)
  qed
  show "fst (score (arr_ops xs) s lo) = v" using e by (simp add: arr_ops_def)
  show "arr_inv xs lo hi (snd (score (arr_ops xs) s lo))" using inv by (simp add: arr_ops_def)
  show "arr_inv xs lo hi (snd (block_max (arr_ops xs) s))" using inv by (simp add: arr_ops_def)
  show "covers A (arr_postings xs) lo hi (fst (block_max (arr_ops xs) s))"
    using le ok me e by (auto simp: covers_def arr_ops_def arr_ok_def)
qed (use arr_seek_step [OF ok] in blast)+

lemma arr_opens: "arr_ok xs \<Longrightarrow> opens A (arr_ops xs) (arr_postings xs) s"
  using shuttle.fresh_opens [OF arr_shuttle_laws] by blast

subsection \<open>A concrete scan\<close>

definition entry_at :: "u32 \<Rightarrow> int \<Rightarrow> entry" where
  "entry_at p m = \<lparr>epos = p, eend = p, ebound = whole m, escore = whole m\<rparr>"

definition demo_blocks :: "nat \<Rightarrow> entry list" where
  "demo_blocks i =
     (if i = 0 then [entry_at 1 1, entry_at 3 2, entry_at 4 1]
      else if i = 1 then [entry_at 3 1, entry_at 4 2]
      else if i = 2 then [entry_at 1 0, entry_at 3 0, entry_at 4 0, entry_at 5 0]
      else [])"

definition demo_chans :: "u32 chan list" where
  "demo_chans =
     [arr_chan 0 False (whole 1) (whole 2) (demo_blocks 0),
      arr_chan 1 False (whole 2) (whole 2) (demo_blocks 1),
      arr_chan 2 True (whole 1) fzero (demo_blocks 2)]"

lemma demo_init: "\<exists>st. weave_fuse_init demo_chans 2 None 8 = Inr st"
  by (simp add: demo_chans_def weave_fuse_init_def arr_chan_def fuse_finite_def
      fuse_isnan_def Let_def)

definition whole_blocks :: "int \<Rightarrow> int \<Rightarrow> entry list \<Rightarrow> bool" where
  \<comment> \<open>whole-number scores of at most \<open>mx\<close>, small enough for a weight of \<open>w\<close>\<close>
  "whole_blocks w mx xs \<longleftrightarrow> (\<forall>e\<in>set xs. \<exists>m\<le>mx. escore e = whole m \<and> \<bar>w * m\<bar> \<le> 2 ^ 18)"

lemma arr_posting_entry: "arr_postings xs q = Some v \<Longrightarrow> \<exists>e\<in>set xs. v = escore e"
  using arr_atD by (fastforce simp: arr_postings_def)

lemma arr_scored_fused:
  assumes ok: "arr_ok xs" and wh: "whole_blocks w mx xs" and w: "0 < w" and mx: "0 \<le> mx" and p: "post i = arr_postings xs"
  shows "fused_chan post A 149 (arr_chan i False (whole w) (whole mx) xs)"
proof -
  have grid: "on_grid 149 (2 ^ 18) (fmul (whole w) v) \<and> fle v (whole mx)"
    if v: "arr_postings xs q = Some v" for q v
  proof -
    obtain m where m: "v = whole m" "m \<le> mx" "\<bar>w * m\<bar> \<le> 2 ^ 18"
      using arr_posting_entry [OF v] wh by (auto simp: whole_blocks_def)
    then have "fmul (whole w) v = whole (w * m)" by (simp add: fmul_whole)
    then show ?thesis using m whole_grid [of "w * m" "2 ^ 18"] by simp
  qed
  have pos: "\<exists>a>0. whole w = Fin a" using w by (simp add: whole_def)
  have le: "fle (contrib_at (arr_postings xs) q) (whole mx)" for q
    using grid mx by (auto simp: contrib_at_def split: option.splits)
  show ?thesis
    using grid le pos by (auto simp: fused_chan_def arr_chan_def good_scored_def pos_weight_def p
        arr_opens [OF ok])
qed

lemma arr_required_fused:
  assumes ok: "arr_ok xs" and z: "\<forall>e\<in>set xs. escore e = fzero" and w: "0 < w" and p: "post i = arr_postings xs"
  shows "fused_chan post A 149 (arr_chan i True (whole w) mx xs)"
proof -
  have pos: "\<exists>a>0. whole w = Fin a" using w by (simp add: whole_def)
  show ?thesis
    using pos z arr_posting_entry [of xs] by (fastforce simp: fused_chan_def arr_chan_def
        good_required_def pos_weight_def p arr_opens [OF ok])
qed

lemma demo_blocks_ok: "arr_ok (demo_blocks i)"
  by (simp add: arr_ok_def demo_blocks_def entry_at_def word_le_nat_alt word_less_nat_alt)

lemma demo_whole: "whole_blocks 1 2 (demo_blocks 0)" "whole_blocks 2 2 (demo_blocks (Suc 0))"
  by (auto simp: whole_blocks_def demo_blocks_def entry_at_def)

lemma demo_zero: "\<forall>e\<in>set (demo_blocks 2). escore e = fzero"
  by (auto simp: demo_blocks_def entry_at_def whole_zero)

lemma demo_fused:
  "\<forall>c\<in>set demo_chans. fused_chan (\<lambda>i. arr_postings (demo_blocks i)) A 149 c"
proof -
  let ?post = "\<lambda>i. arr_postings (demo_blocks i)"
  have "fused_chan ?post A 149 (arr_chan 0 False (whole 1) (whole 2) (demo_blocks 0))"
    by (rule arr_scored_fused) (use demo_blocks_ok demo_whole in simp_all)
  moreover have "fused_chan ?post A 149 (arr_chan 1 False (whole 2) (whole 2) (demo_blocks 1))"
    by (rule arr_scored_fused) (use demo_blocks_ok demo_whole in simp_all)
  moreover have "fused_chan ?post A 149 (arr_chan 2 True (whole 1) fzero (demo_blocks 2))"
    by (rule arr_required_fused) (use demo_blocks_ok demo_zero in simp_all)
  ultimately show ?thesis unfolding demo_chans_def by simp
qed

subsection \<open>The pruning scan against the brute-force reference\<close>

text \<open>
  C1: given channels that keep the shuttle contract (C1)-(C5) and whose weighted scores sum exactly,
  the pruning scan of \<open>weave_fuse_run\<close> always returns normally, and its drained heap is, hit for
  hit and in the same order, what the brute-force \<open>weave_fuse_reference\<close> returns.
\<close>

theorem fused_scan_equals_reference:
  assumes "weave_fuse_init chans k lv n = Inr st" and "j \<le> 252"
    and "\<forall>c\<in>set chans. fused_chan post (admissible post (filter required chans) lv n) j c"
  shows "\<exists>st'. weave_fuse_run st = Inr st' \<and>
    weave_fuse_reference chans lv n k = Inr (snd (weave_fuse_drain st'))"
  using fused_scan_result [OF assms] by auto

theorem fused_scan_equals_reference_witness:
  "\<exists>st st'. weave_fuse_init demo_chans 2 None 8 = Inr st \<and> weave_fuse_run st = Inr st' \<and>
     weave_fuse_reference demo_chans None 8 2 = Inr (snd (weave_fuse_drain st'))"
proof -
  obtain st where st: "weave_fuse_init demo_chans 2 None 8 = Inr st" using demo_init by blast
  from fused_scan_equals_reference [OF st _ demo_fused] show ?thesis using st by auto
qed

text \<open>
  C2: under the same conditions the drained heap is the \<open>k\<close> best candidate documents, by descending
  score and ascending warp position: no live document that every required channel admits and some
  scored channel reaches is missed by a prune, and none is ranked by anything but its full score.
\<close>

theorem fused_scan_returns_k_best:
  assumes "weave_fuse_init chans k lv n = Inr st" and "j \<le> 252"
    and "\<forall>c\<in>set chans. fused_chan post (admissible post (filter required chans) lv n) j c"
    and "weave_fuse_run st = Inr st'"
  shows "snd (weave_fuse_drain st') =
    take (nat k) (best_first (hits_of (cand post (rq st @ sc st) (length (sc st)) lv n) (positions 0 n)))"
  using fused_scan_result(1) [OF assms(1-3)] assms(4) by auto

theorem fused_scan_returns_k_best_witness:
  "\<exists>st st'. weave_fuse_init demo_chans 2 None 8 = Inr st \<and> weave_fuse_run st = Inr st' \<and>
     snd (weave_fuse_drain st') =
       take 2 (best_first (hits_of
         (cand (\<lambda>i. arr_postings (demo_blocks i)) (rq st @ sc st) (length (sc st)) None 8) (positions 0 8)))"
proof -
  obtain st where st: "weave_fuse_init demo_chans 2 None 8 = Inr st" using demo_init by blast
  obtain st' where run: "weave_fuse_run st = Inr st'"
    using fused_scan_result(1) [OF st _ demo_fused] by auto
  from fused_scan_returns_k_best [OF st _ demo_fused run] show ?thesis using st run by auto
qed

subsection \<open>The scan makes progress\<close>

definition pivots_kept :: "nat \<Rightarrow> u32 \<Rightarrow> 's step \<Rightarrow> bool" where
  "pivots_kept m n r \<longleftrightarrow>
     (case r of Continue st' p' \<Rightarrow> nwarp st' = n \<and> npivot st' \<le> m
      | Break st' \<Rightarrow> nwarp st' = n \<and> npivot st' \<le> m | Return e \<Rightarrow> True)"

lemma score_doc_pivots: "npivot st \<le> m \<Longrightarrow> pivots_kept m (nwarp st) (fuse_score_doc st p con)"
  by (auto simp: fuse_score_doc_def pivots_kept_def Let_def fuse_repartition_def fuse_push_def
      split: sum.splits prod.splits option.splits verdict.splits)

lemma bound_doc_pivots:
  assumes "npivot st \<le> m" shows "pivots_kept m (nwarp st) (fuse_bound_doc st p)"
proof -
  have "pivots_kept m (nwarp st) (fuse_score_doc (st\<lparr>sc := cs\<rparr>) p con)" for cs con
    using score_doc_pivots [of "st\<lparr>sc := cs\<rparr>" m p con] assms by simp
  then show ?thesis using assms
    by (simp add: fuse_bound_doc_def Let_def split: sum.split prod.split) (simp add: pivots_kept_def)
qed

lemma visit_pivots: "pivots_kept (Suc (npivot st)) (nwarp st) (fuse_visit st p)"
  using bound_doc_pivots [of "st\<lparr>npivot := Suc (npivot st)\<rparr>" "Suc (npivot st)" p]
  by (simp add: fuse_visit_def Let_def) (simp add: pivots_kept_def)

lemma candidate_pivots: "pivots_kept (Suc (npivot st)) (nwarp st) (fuse_candidate st p)"
proof (cases "0 < fsplit st")
  case True
  show ?thesis
  proof (cases "fuse_pivot st p")
    case (Inr r)
    then obtain st1 q where r: "r = (st1, q)" "npivot st1 = npivot st" "nwarp st1 = nwarp st"
      by (auto simp: fuse_pivot_def split: sum.splits)
    then show ?thesis using True Inr visit_pivots [of st1 p]
      by (simp add: fuse_candidate_def) (simp add: pivots_kept_def)
  qed (simp add: True fuse_candidate_def pivots_kept_def)
next
  case False
  then show ?thesis using visit_pivots [of st p]
    by (simp add: fuse_candidate_def) (simp add: pivots_kept_def)
qed

lemma step_pivots: "pivots_kept (Suc (npivot st)) (nwarp st) (fuse_step st p)"
proof (cases "at_end st p \<or> length (heap st) = topk st \<and> fle (fsuffix st ! 0) (theta st)")
  case True
  then show ?thesis by (auto simp: fuse_step_def pivots_kept_def)
next
  case go: False
  show ?thesis
  proof (cases "rq st = []")
    case True
    then show ?thesis using go candidate_pivots [of st p] by (auto simp: fuse_step_def)
  next
    case False
    have "pivots_kept (Suc (npivot st)) (nwarp st) (fuse_candidate (st\<lparr>rq := r, nrqskip := n\<rparr>) q)" for r n q
      using candidate_pivots [of "st\<lparr>rq := r, nrqskip := n\<rparr>" q] by simp
    then show ?thesis using False go
      by (auto simp: fuse_step_def Let_def split: sum.split prod.split) (auto simp: pivots_kept_def)
  qed
qed

lemma step_at_end: "nwarp st \<le> p \<Longrightarrow> fuse_step st p = Break (st\<lparr>stop := STOP_EXHAUSTED\<rparr>)"
  by (simp add: fuse_step_def at_end_def)

lemma loop_pivots:
  "fuse_loop st p = Inr st' \<Longrightarrow> npivot st' \<le> npivot st + (unat (nwarp st) - unat p)"
proof (induction st p rule: fuse_loop.induct)
  case (1 st p)
  show ?case
  proof (cases "nwarp st \<le> p")
    case True
    then show ?thesis using "1.prems" by (auto simp: fuse_loop.simps [of st p] step_at_end)
  next
    case False
    then have lt: "unat p < unat (nwarp st)" by (simp add: not_le word_less_nat_alt)
    show ?thesis
    proof (cases "fuse_step st p")
      case (Continue st1 p1)
      have "p < p1" using fuse_step_moves [OF Continue] .
      then have "unat p < unat p1" by (simp add: word_less_nat_alt)
      moreover have "nwarp st1 = nwarp st" "npivot st1 \<le> Suc (npivot st)"
        using step_pivots [of st p] Continue by (simp_all add: pivots_kept_def)
      moreover have "npivot st' \<le> npivot st1 + (unat (nwarp st1) - unat p1)"
        using "1.IH" [OF Continue] "1.prems" Continue by (simp add: fuse_loop.simps [of st p])
      ultimately show ?thesis using lt by simp
    next
      case (Break st1)
      then have "npivot st' \<le> Suc (npivot st)" using "1.prems" step_pivots [of st p]
        by (simp add: fuse_loop.simps [of st p] pivots_kept_def)
      then show ?thesis using lt by linarith
    next
      case (Return e)
      then show ?thesis using "1.prems" by (simp add: fuse_loop.simps [of st p])
    qed
  qed
qed

text \<open>
  C7: for any channels whatever, one iteration of the scan that goes on moves the pivot strictly
  forward, so the loop of \<open>weave_fuse_run\<close> cannot cycle; and a run that returns normally has looked
  at no more pivots than the corpus has documents.
\<close>

theorem fuse_run_progress:
  "(fuse_step st p = Continue st1 p1 \<longrightarrow> p < p1) \<and>
   (weave_fuse_run st = Inr st' \<longrightarrow> npivot st' \<le> npivot st + unat (nwarp st))"
  using fuse_step_moves loop_pivots [of st 0 st'] by (auto simp: weave_fuse_run_def)

theorem fuse_run_progress_witness:
  "\<exists>st st'. weave_fuse_init demo_chans 2 None 8 = Inr st \<and> weave_fuse_run st = Inr st' \<and> npivot st' \<le> 8"
proof -
  obtain st where st: "weave_fuse_init demo_chans 2 None 8 = Inr st" using demo_init by blast
  then have "npivot st = 0" "nwarp st = 8"
    by (auto simp: weave_fuse_init_def Let_def split: if_splits sum.splits)
  moreover obtain st' where run: "weave_fuse_run st = Inr st'"
    using fused_scan_result(1) [OF st _ demo_fused] by auto
  ultimately show ?thesis using st fuse_run_progress [of st 0 st 0 st'] by auto
qed

subsection \<open>The top-k heap\<close>

text \<open>
  C14: offering a hit to the bounded heap keeps its \<open>nheap\<close> slots a min-heap under \<open>fuse_worse\<close>, grows
  it up to \<open>k\<close> and never beyond, and replaces exactly its worst entry once it is full; the threshold
  \<open>theta\<close> is then the score of the root and never falls.
\<close>

theorem fuse_push_keeps_heap:
  assumes "heap_ok (topk st) (heap st)" and "0 < topk st" and "s \<noteq> NaN"
    and "length (heap st) < topk st \<or> flt (theta st) s" and "theta st = heap_theta (topk st) (heap st)"
  shows "heap_ok (topk st) (heap (fuse_push st w s))
    \<and> length (heap (fuse_push st w s)) = min (topk st) (Suc (length (heap st)))
    \<and> mset (heap (fuse_push st w s)) = add_mset \<lparr>hwarp = w, hscore = s\<rparr>
        (if length (heap st) < topk st then mset (heap st) else mset (heap st) - {#heap st ! 0#})
    \<and> fle (theta st) (theta (fuse_push st w s))"
  using heap_push_ok [OF assms(1) _ assms(2), of "\<lparr>hwarp = w, hscore = s\<rparr>"]
    heap_theta_push [OF assms(1) _ assms(2), of "\<lparr>hwarp = w, hscore = s\<rparr>"] assms(3-5)
  by (simp add: fuse_push_def Let_def)

definition full_state :: "nat \<Rightarrow> hit list \<Rightarrow> u32 fstate" where
  \<comment> \<open>a state after set-up whose heap holds \<open>h\<close>\<close>
  "full_state k h =
     \<lparr>sc = [], rq = [], fceil = [], fsuffix = [fzero], fsplit = 0, heap = h, topk = k,
      theta = heap_theta k h, live = None, nwarp = 8, check_bounds = False, npivot = 0, nblkskip = 0,
      nrqskip = 0, nlivedrop = 0, nveto = 0, nabandon = 0, stop = STOP_NONE\<rparr>"

theorem fuse_push_keeps_heap_witness:
  "length (heap (fuse_push (full_state 1 [\<lparr>hwarp = 0, hscore = whole 1\<rparr>]) 3 (whole 2))) = 1"
  using fuse_push_keeps_heap [of "full_state 1 [\<lparr>hwarp = 0, hscore = whole 1\<rparr>]" "whole 2" 3]
  by (simp add: full_state_def heap_ok_def is_heap_def hits_ok_def heap_theta_def)

text \<open>
  Draining a heap empties it and returns its hits best first, by descending score with ties broken
  by ascending warp position, which is the order of the reference.
\<close>

theorem weave_fuse_drain_sorts:
  assumes "heap_ok (topk st) (heap st)"
  shows "snd (weave_fuse_drain st) = best_first (heap st) \<and> heap (fst (weave_fuse_drain st)) = []"
  using weave_fuse_drain_ok [OF assms] by (simp add: weave_fuse_drain_def)

theorem weave_fuse_drain_sorts_witness:
  "snd (weave_fuse_drain (full_state 2 [\<lparr>hwarp = 5, hscore = whole 1\<rparr>, \<lparr>hwarp = 2, hscore = whole 3\<rparr>])) =
     best_first [\<lparr>hwarp = 5, hscore = whole 1\<rparr>, \<lparr>hwarp = 2, hscore = whole 3\<rparr>]"
  using weave_fuse_drain_sorts [of "full_state 2 [\<lparr>hwarp = 5, hscore = whole 1\<rparr>, \<lparr>hwarp = 2, hscore = whole 3\<rparr>]"]
  by (simp add: full_state_def heap_ok_def is_heap_def hits_ok_def upto_worse_def fuse_worse_def
      less_Suc_eq numeral_2_eq_2)

subsection \<open>Set-up\<close>

lemma shift_in_sorted:
  "sorted (map snd ys) \<Longrightarrow> \<forall>y\<in>set (x # ys). snd y \<noteq> NaN \<Longrightarrow> sorted (map snd (shift_in x ys))"
proof (induction ys)
  case (Cons y ys)
  have "set (shift_in x ys) = insert x (set ys)"
    using mset_eq_setD [OF shift_in_mset [of x ys, folded mset.simps(2)]] by simp
  then show ?case
    using Cons by (auto simp: less_f32_flt [symmetric] intro: order.strict_implies_order)
qed simp

lemma sort_scored_sorted:
  assumes "\<forall>x\<in>set xs. snd x \<noteq> NaN"
  shows "sorted (rev (map snd (fuse_sort_scored xs)))"
proof -
  have "sorted (map snd (foldl (\<lambda>acc x. shift_in x acc) ys xs))"
    if "sorted (map snd ys)" and "\<forall>x\<in>set (ys @ xs). snd x \<noteq> NaN" for ys
    using that
  proof (induction xs arbitrary: ys)
    case (Cons x xs)
    have "set (shift_in x ys) = insert x (set ys)"
      using mset_eq_setD [OF shift_in_mset [of x ys, folded mset.simps(2)]] by simp
    then show ?case using Cons.IH [OF shift_in_sorted] Cons.prems by auto
  qed simp
  from this [of "[]"] assms show ?thesis by (simp add: fuse_sort_scored_def rev_map)
qed

lemma classify_accepts:
  "(\<exists>p. classify cs = Inr p) \<longleftrightarrow>
     (\<forall>c\<in>set cs. fuse_finite (weight c) \<and> \<not> fle (weight c) fzero \<and> (required c \<or> fuse_finite (maxscore c)))"
proof (induction cs)
  case (Cons c cs)
  show ?case by (cases "classify cs") (use Cons in \<open>auto split: prod.splits\<close>)
qed simp

text \<open>
  C15: \<open>weave_fuse_init\<close> accepts a scan exactly when it has between one and \<open>WEAVE_FUSE_MAX_CHAN\<close>
  channels, a \<open>k\<close> of at least one, finite strictly positive weights, and a finite ceiling on every
  scored channel; infinite ceilings are accepted on required channels only.
\<close>

theorem weave_fuse_init_accepts:
  "(\<exists>st. weave_fuse_init chans k lv n = Inr st) \<longleftrightarrow>
     chans \<noteq> [] \<and> length chans \<le> 64 \<and> 1 \<le> k \<and>
     (\<forall>c\<in>set chans. fuse_finite (weight c) \<and> \<not> fle (weight c) fzero \<and>
        (required c \<or> fuse_finite (maxscore c)))"
  using classify_accepts [of chans]
  by (auto simp: weave_fuse_init_def Let_def not_less not_le Suc_le_eq split: sum.splits)

theorem weave_fuse_init_accepts_witness:
  "\<exists>st. weave_fuse_init demo_chans 2 None 8 = Inr st"
  unfolding weave_fuse_init_accepts
  by (simp add: demo_chans_def arr_chan_def fuse_finite_def fuse_isnan_def)

text \<open>
  Set-up keeps every channel, sorts the scored ones by descending weighted ceiling and stores in
  \<open>suffix[i]\<close> the sum of the ceilings from \<open>i\<close> on, with every scored channel essential at first.
\<close>

theorem weave_fuse_init_sorts:
  assumes "weave_fuse_init chans k lv n = Inr st"
  shows "mset (sc st @ rq st) = mset (map reset_chan chans) \<and>
    (\<forall>c\<in>set (sc st). \<not> required c) \<and> (\<forall>c\<in>set (rq st). required c) \<and>
    fceil st = map (\<lambda>c. fmul (weight c) (maxscore c)) (sc st) \<and> sorted (rev (fceil st)) \<and>
    length (fsuffix st) = Suc (length (sc st)) \<and> fsplit st = length (sc st) \<and>
    (\<forall>i\<le>length (sc st). fsuffix st ! i = csuffix (drop i (fceil st)))"
proof -
  obtain r s where cl: "classify chans = Inr (r, s)"
    and st: "sc st = map fst (fuse_sort_scored s)" "rq st = r" "fceil st = map snd (fuse_sort_scored s)"
      "fsuffix st = suffix_sums (map snd (fuse_sort_scored s))" "fsplit st = length (fuse_sort_scored s)"
    using assms by (auto simp: weave_fuse_init_def Let_def split: if_splits sum.splits)
  note parts = classify_parts [OF cl]
  have ok: "\<forall>c\<in>set chans. fuse_finite (weight c) \<and> (required c \<or> fuse_finite (maxscore c))"
    using classify_accepts [of chans] cl by auto
  have pair: "\<forall>x\<in>set (fuse_sort_scored s). snd x = fmul (weight (fst x)) (maxscore (fst x)) \<and> \<not> required (fst x)"
    by (auto simp: sort_scored_set parts)
  have "snd x \<noteq> NaN" if x: "x \<in> set s" for x
  proof -
    obtain c where "x = (reset_chan c, fmul (weight c) (maxscore c))" "fuse_finite (weight c)" "fuse_finite (maxscore c)"
      using x parts ok by auto
    then show ?thesis by (cases "weight c"; cases "maxscore c") (auto simp: fuse_finite_def fuse_isnan_def)
  qed
  then have srt: "sorted (rev (fceil st))" using sort_scored_sorted [of s] st by simp
  have ms: "mset (sc st @ rq st) = mset (map reset_chan chans)"
  proof -
    have "mset (sc st) = image_mset fst (mset s)" by (simp add: st sort_scored_mset)
    also have "\<dots> = mset (map reset_chan (filter (\<lambda>c. \<not> required c) chans))"
      by (simp add: parts image_mset.compositionality comp_def)
    finally show ?thesis
      by (simp add: st parts image_mset_union [symmetric] del: image_mset_union)
  qed
  have ceil: "fceil st = map (\<lambda>c. fmul (weight c) (maxscore c)) (sc st)"
    using pair by (simp add: st)
  have len: "length (suffix_sums xs) = Suc (length xs)" for xs by (induction xs) (auto simp: Let_def)
  have "\<forall>c\<in>set (sc st). \<not> required c" "\<forall>c\<in>set (rq st). required c"
    using pair by (simp_all add: st parts(1))
  moreover have "length (fsuffix st) = Suc (length (sc st))" "fsplit st = length (sc st)"
    by (simp_all add: st len)
  moreover have "\<forall>i\<le>length (sc st). fsuffix st ! i = csuffix (drop i (fceil st))"
    by (simp add: st suffix_sums_nth)
  ultimately show ?thesis using ms srt ceil by blast
qed

theorem weave_fuse_init_sorts_witness:
  "\<exists>st. weave_fuse_init demo_chans 2 None 8 = Inr st \<and> sorted (rev (fceil st)) \<and> fsplit st = length (sc st)"
proof -
  obtain st where st: "weave_fuse_init demo_chans 2 None 8 = Inr st" using demo_init by blast
  from weave_fuse_init_sorts [OF st] have "sorted (rev (fceil st)) \<and> fsplit st = length (sc st)"
    by (elim conjE) (intro conjI)
  with st show ?thesis by (intro exI [of _ st]) simp
qed

subsection \<open>Breaches of the contract\<close>

lemma advance_outcome:
  assumes "fuse_advance c t = Inr c'" and "nseek c = 0 \<or> cur c \<le> blkend c"
  shows "t \<le> cur c' \<and> cur c' \<le> blkend c'"
  using assms
  by (auto simp: fuse_advance_def moved_def Let_def not_less split: if_splits option.splits prod.splits)

lemma advance_all_outcome:
  "advance_all cs p = Inr cs' \<Longrightarrow> \<forall>c\<in>set cs. nseek c = 0 \<or> cur c \<le> blkend c \<Longrightarrow>
   \<forall>c\<in>set cs'. p \<le> cur c \<and> cur c \<le> blkend c"
  by (induction cs arbitrary: cs') (auto split: sum.splits dest: advance_outcome)

lemma advance_all_error: "advance_all cs p = Inl e \<Longrightarrow> snd e \<noteq> None"
  by (induction cs)
    (auto simp: fuse_advance_def split: sum.splits if_splits option.splits prod.splits)

lemma bound_scan_error: "bound_scan p i cs ub rend = Inl e \<Longrightarrow> snd e \<noteq> None"
  by (induction p i cs ub rend rule: bound_scan.induct)
    (auto simp: Let_def split: sum.splits if_splits prod.splits)

lemma bound_scan_covers_pivot:
  "bound_scan p i cs ub rend = Inr (cs', con, ub', rend') \<Longrightarrow>
   \<forall>c\<in>set cs. p \<le> cur c \<and> cur c \<le> blkend c \<Longrightarrow> p \<le> rend \<Longrightarrow> p \<le> rend'"
proof (induction cs arbitrary: i ub rend cs' con ub')
  case (Cons c cs)
  have "p \<le> cur c - 1" if "cur c \<noteq> p"
    using that Cons.prems(2) le_dec [of p "cur c"] by auto
  then show ?case using Cons
    by (fastforce simp: Let_def split: sum.splits if_splits prod.splits)
qed simp

lemma score_required_error: "score_required cs s = Inl e \<Longrightarrow> fst e = NAN_SCORE"
  by (induction cs arbitrary: s) (auto simp: Let_def split: sum.splits if_splits prod.splits)

lemma audit_loop_error: "audit_loop con cs a w b = Inl e \<Longrightarrow> fst e = NAN_SCORE"
  by (induction con cs a w b rule: audit_loop.induct) (auto simp: Let_def split: if_splits prod.splits)

lemma score_scored_error:
  "score_scored th chk con cs s = Inl e \<Longrightarrow> fst e \<in> {NAN_SCORE, C2_VIOLATION, C2_ABANDON}"
  by (induction th chk con cs s rule: score_scored.induct)
    (auto simp: Let_def fuse_audit_abandon_def dest: audit_loop_error
      split: sum.splits if_splits prod.splits)

lemma score_doc_error: "fuse_score_doc st p con \<noteq> Return (C1_VIOLATION, b)"
  by (auto simp: fuse_score_doc_def Let_def dest: score_required_error score_scored_error
      split: sum.splits option.splits prod.splits verdict.splits)

text \<open>
  The range \<open>[p, rend]\<close> a block skip covers always contains the pivot, for any channels whatever
  that were positioned through \<open>fuse_advance\<close>: the guard against \<open>rend < p\<close>, which would send the scan
  backwards into a cycle, can never fire.
\<close>

theorem fuse_block_skip_forward:
  assumes "\<forall>c\<in>set (sc st). nseek c = 0 \<or> cur c \<le> blkend c" and "p \<noteq> FUSE_END"
  shows "fuse_bound_doc st p \<noteq> Return (C1_VIOLATION, None)"
proof (cases "advance_all (sc st) p")
  case (Inl e)
  then show ?thesis using advance_all_error [OF Inl] by (auto simp: fuse_bound_doc_def)
next
  case adv: (Inr cs)
  have p: "p \<le> FUSE_END - 1" using assms(2) le_dec [of p FUSE_END] less_FUSE_END [of p] by simp
  show ?thesis
  proof (cases "bound_scan p 0 cs fzero (FUSE_END - 1)")
    case (Inl e)
    then show ?thesis using adv bound_scan_error [OF Inl] by (auto simp: fuse_bound_doc_def)
  next
    case (Inr r)
    obtain cs' con ub rend where r: "r = (cs', con, ub, rend)" by (cases r)
    have "p \<le> rend"
      using bound_scan_covers_pivot [OF Inr [unfolded r] advance_all_outcome [OF adv assms(1)] p] .
    then show ?thesis using adv Inr r score_doc_error
      by (auto simp: fuse_bound_doc_def Let_def not_less)
  qed
qed

theorem fuse_block_skip_forward_witness:
  "fuse_bound_doc ((full_state 1 [])\<lparr>sc := demo_chans\<rparr>) 3 \<noteq> Return (C1_VIOLATION, None)"
  using fuse_block_skip_forward [of "(full_state 1 [])\<lparr>sc := demo_chans\<rparr>" 3]
  by (simp add: demo_chans_def arr_chan_def)

text \<open>
  The block skip of step 4 can end the scan without recording why: when the skipped range reaches
  the end of the corpus the loop breaks with \<open>stop\<close> still at its initial value.
\<close>

definition stop_chans :: "u32 chan list" where
  "stop_chans =
     [arr_chan 0 False (whole 1) (whole 10)
        [entry_at 0 5, \<lparr>epos = 1, eend = 0xFFFFFFFE, ebound = whole 1, escore = whole 1\<rparr>]]"

lemmas scan_eval = weave_fuse_init_def Let_def arr_chan_def fuse_finite_def fuse_isnan_def
  fuse_sort_scored_def reset_chan_def fmul_whole fadd_whole fadd_fzero_whole weave_fuse_run_def
  fuse_loop.simps fuse_step_def at_end_def fuse_candidate_def fuse_pivot_def fuse_advance_def
  arr_ops_def entry_at_def moved_def fuse_visit_def fuse_live_def live_at_def fuse_bound_doc_def
  fuse_score_doc_def take_score_def arr_at_def bump_score_def fuse_push_def heap_push_def
  fuse_sift_up.simps fuse_sift_down.simps heap_theta_def fuse_repartition_def word_le_nat_alt
  word_less_nat_alt weave_fuse_reference_def ref_loop.simps ref_seek_def ref_accept_def
  weave_fuse_drain_def

theorem fuse_run_stop_unset:
  "\<exists>st st'. weave_fuse_init stop_chans 1 None 2 = Inr st \<and> weave_fuse_run st = Inr st' \<and>
     nblkskip st' = 1 \<and> stop st' = STOP_NONE"
  by (simp add: stop_chans_def scan_eval)

text \<open>
  Finite negative ceilings are accepted by \<open>weave_fuse_init\<close> and then prune wrongly: a document
  that one channel does not carry gets 0 from it, more than that channel's ceiling, so the stop on
  \<open>suffix[0]\<close> loses documents. Here two channels of one block each, every bound exact, return
  position 0 with score -2, where the reference returns position 1 with score -1.
\<close>

definition neg_chans :: "u32 chan list" where
  "neg_chans =
     [arr_chan 0 False (whole 1) (whole (- 1)) [entry_at 1 (- 1)],
      arr_chan 1 False (whole 1) (whole (- 2)) [entry_at 0 (- 2)]]"

theorem fuse_run_negative_ceilings:
  "\<exists>st st'. weave_fuse_init neg_chans 1 None 2 = Inr st \<and> weave_fuse_run st = Inr st' \<and>
     stop st' = STOP_CEILING \<and>
     snd (weave_fuse_drain st') = [\<lparr>hwarp = 0, hscore = whole (- 2)\<rparr>] \<and>
     weave_fuse_reference neg_chans None 2 1 = Inr [\<lparr>hwarp = 1, hscore = whole (- 1)\<rparr>]"
  by (simp add: neg_chans_def scan_eval)

text \<open>
  The prunes compare float sums taken in different orders, which is why the scan theorems ask for
  exact sums: with scores that round, the bound of the unscored channels can sum to less than their
  scores do.
\<close>

lemma bit_length_numeral: "bit_length (Suc 0) = 1" "bit_length (numeral k) = Suc (bit_length (numeral k div 2))"
  by (simp_all add: bit_length_pos)

lemma abandonment_rounds:
  "fle (fadd (Fin 33554436) (csuffix [Fin 3, Fin 3])) (Fin 33554440) \<and>
   flt (Fin 33554440) (fadd (fadd (Fin 33554436) (Fin 3)) (Fin 3))"
  by (simp add: round32_def round_mag_def rne_def bit_length_numeral Let_def)

end
