(* ===== verification/Weave_Gate.thy ===== *)
theory Weave_Gate
  imports Weave_Channel
begin

text \<open>
  The gate shuttle: the cursor over a sorted key array of \<open>include/weave/gate.h\<close>, its shuttle face in
  \<open>src/query/gate.c\<close> and the thunks of \<open>src/am/fuseshuttle.c\<close> that make a shuttle a channel of the
  fused core. A \<open>WeaveShuttle\<close> carries its private state as a type parameter. The cursor keeps its
  indices as 32-bit words; the gallop runs on fuel, one step per bit of \<open>step\<close>, and is shown never to
  run out of it. The interpretation at the end of the theory discharges the shuttle contract for the
  gate behind the thunks.
\<close>

subsection \<open>The cursor\<close>

abbreviation GATE_END :: u32 where
  "GATE_END \<equiv> 0xFFFFFFFF"

datatype gate_error = UNSORTED | DUPLICATE | TOO_WIDE | BACKWARD

record gate_cursor =
  keys :: "u64 list"
  nkeys :: u32
  pos :: u32
  last_ret :: u32
  seeked :: bool

fun check_keys_from :: "u64 list \<Rightarrow> nat \<Rightarrow> u64 option \<Rightarrow> (gate_error \<times> nat) + unit" where
  \<comment> \<open>from index \<open>i\<close> on, \<open>prev\<close> being \<open>keys[i - 1]\<close>\<close>
  "check_keys_from [] i prev = Inr ()"
| "check_keys_from (k # ks) i prev =
     (if ucast GATE_END \<le> k then Inl (TOO_WIDE, i)
      else case prev of
        None \<Rightarrow> check_keys_from ks (Suc i) (Some k)
      | Some q \<Rightarrow>
          if k \<le> q then Inl (if k = q then DUPLICATE else UNSORTED, i)
          else check_keys_from ks (Suc i) (Some k))"

definition weave_gate_check_keys :: "u64 list \<Rightarrow> (gate_error \<times> nat) + unit" where
  "weave_gate_check_keys ks = check_keys_from ks 0 None"

definition weave_gate_init :: "u64 list \<Rightarrow> gate_cursor" where
  "weave_gate_init ks =
     \<lparr>keys = ks, nkeys = of_nat (length ks), pos = 0, last_ret = 0, seeked = False\<rparr>"

definition weave_gate_on_key :: "gate_cursor \<Rightarrow> bool" where
  "weave_gate_on_key c \<longleftrightarrow> pos c < nkeys c"

definition weave_gate_block_may_match :: "gate_cursor \<Rightarrow> bool" where
  "weave_gate_block_may_match c = weave_gate_on_key c"

definition weave_gate_matches :: "gate_cursor \<Rightarrow> u32 \<Rightarrow> bool" where
  "weave_gate_matches c p \<longleftrightarrow> weave_gate_on_key c \<and> keys c ! unat (pos c) = ucast p"

fun gallop :: "nat \<Rightarrow> u64 list \<Rightarrow> u32 \<Rightarrow> u64 \<Rightarrow> u32 \<Rightarrow> u32 \<Rightarrow> u32 \<Rightarrow> (u32 \<times> u32) option" where
  "gallop 0 ks n t lo hi step = None"
| "gallop (Suc fuel) ks n t lo hi step =
     (if hi < n \<and> ks ! unat hi < t
      then gallop fuel ks n t (hi + 1) (if n - hi < step then n else hi + step) (push_bit 1 step)
      else Some (lo, hi))"

function bisect :: "u64 list \<Rightarrow> u64 \<Rightarrow> u32 \<Rightarrow> u32 \<Rightarrow> u32" where
  "bisect ks t lo hi =
     (if lo < hi then
        let mid = lo + (hi - lo) div 2
        in if ks ! unat mid < t then bisect ks t (mid + 1) hi else bisect ks t lo mid
      else lo)"
  by pat_completeness auto

lemma mid_between:
  fixes lo hi :: u32
  assumes "lo < hi"
  shows "unat (lo + (hi - lo) div 2) = unat lo + (unat hi - unat lo) div 2"
    and "lo \<le> lo + (hi - lo) div 2" and "lo + (hi - lo) div 2 < hi"
proof -
  have le: "lo \<le> hi" using assms by simp
  have d: "unat ((hi - lo) div 2) = (unat hi - unat lo) div 2"
    by (simp add: unat_div unat_sub [OF le])
  have lt: "unat lo < unat hi" using assms by (simp add: word_less_nat_alt)
  have "unat lo + (unat hi - unat lo) div 2 < unat hi" using lt by linarith
  moreover from this have "unat lo + (unat hi - unat lo) div 2 < 2 ^ 32" using unat_u32 [of hi] by linarith
  ultimately show *: "unat (lo + (hi - lo) div 2) = unat lo + (unat hi - unat lo) div 2"
    by (simp only: unat_word_ariths(1) d) simp
  show "lo \<le> lo + (hi - lo) div 2" "lo + (hi - lo) div 2 < hi"
    using lt unfolding word_le_nat_alt word_less_nat_alt * by linarith+
qed

termination bisect
proof (relation "measure (\<lambda>(ks, t, lo, hi). unat hi - unat lo)", goal_cases)
  case 1
  show ?case by simp
next
  case (2 ks t lo hi mid)
  then have "unat (mid + 1) = Suc (unat mid)" "unat lo \<le> unat mid" "unat mid < unat hi"
    using mid_between [of lo hi] unat_inc [of mid hi] by (simp_all only: word_less_nat_alt word_le_nat_alt)
  then show ?case by simp
next
  case (3 ks t lo hi mid)
  then have "unat lo < unat hi" "unat mid < unat hi"
    using mid_between [of lo hi] by (simp_all only: word_less_nat_alt)
  then show ?case by simp
qed

declare bisect.simps [simp del]

definition gallop_fuel :: nat where
  "gallop_fuel = 33"

definition weave_gate_seek :: "gate_cursor \<Rightarrow> u32 \<Rightarrow> gate_error + (gate_cursor \<times> u32)" where
  "weave_gate_seek c target =
     (if seeked c \<and> target < last_ret c then Inl BACKWARD
      else
        let t = ucast target;
            (lo, hi) = the (gallop gallop_fuel (keys c) (nkeys c) t (pos c) (pos c) 1);
            lo' = bisect (keys c) t lo hi;
            r = (if nkeys c \<le> lo' then GATE_END else ucast (keys c ! unat lo'))
        in Inr (c\<lparr>seeked := True, pos := lo', last_ret := r\<rparr>, r))"

subsection \<open>Correctness of the search\<close>

lemma bisect_probe:
  assumes "\<forall>i<unat lo. ks ! i < t" and "lo \<le> hi" and "unat hi \<le> length ks"
    and "unat hi = length ks \<or> t \<le> ks ! unat hi" and "sorted_wrt (<) ks"
  shows "lower_bound_at ks t (unat (bisect ks t lo hi))"
  using assms
proof (induction ks t lo hi rule: bisect.induct)
  case (1 ks t lo hi)
  show ?case
  proof (cases "lo < hi")
    case False
    then have "lo = hi" using "1.prems"(2) by simp
    moreover have "lower_bound_at ks t (unat lo)"
      using "1.prems"(3,4) calculation
      by (intro lower_bound_from_probe [OF "1.prems"(5,1)]) (auto simp: le_less)
    ultimately show ?thesis by (subst bisect.simps) simp
  next
    case True
    let ?mid = "lo + (hi - lo) div 2"
    note mid = mid_between [OF True]
    have ml: "unat ?mid < length ks" using mid(3) "1.prems"(3) by (simp add: word_less_nat_alt)
    show ?thesis
    proof (cases "ks ! unat ?mid < t")
      case below: True
      have "\<forall>i<unat (?mid + 1). ks ! i < t"
      proof (intro allI impI)
        fix i assume "i < unat (?mid + 1)"
        then have "i \<le> unat ?mid" using unat_inc [OF mid(3)] by simp
        then show "ks ! i < t" using sorted_wrt_nth_le [OF "1.prems"(5) _ ml] below by (meson order_le_less_trans)
      qed
      then have "lower_bound_at ks t (unat (bisect ks t (?mid + 1) hi))"
        by (intro "1.IH"(1) [OF True refl below]) (use "1.prems" inc_le [OF mid(3)] in auto)
      then show ?thesis using True below by (subst bisect.simps) (simp add: Let_def)
    next
      case False
      then have "lower_bound_at ks t (unat (bisect ks t lo ?mid))"
        by (intro "1.IH"(2) [OF True refl]) (use "1.prems" mid ml in auto)
      then show ?thesis using True False by (subst bisect.simps) (simp add: Let_def)
    qed
  qed
qed

lemma unat_step:
  assumes "hi < n" and "\<not> n - hi < step"
  shows "unat ((hi::u32) + step) = unat hi + unat step" and "hi + step \<le> n"
proof -
  have "unat step \<le> unat n - unat hi"
    using assms(2) by (simp add: word_le_nat_alt unat_sub [OF order_less_imp_le [OF assms(1)]] not_less)
  then have le: "unat hi + unat step \<le> unat n"
    using assms(1) by (simp add: word_less_nat_alt)
  then have "unat hi + unat step < 2 ^ 32" using unat_u32 [of n] by linarith
  then show *: "unat (hi + step) = unat hi + unat step" by (simp add: unat_word_ariths)
  show "hi + step \<le> n" unfolding word_le_nat_alt * by (rule le)
qed

lemma gallop_ok:
  assumes "fuel = 33 - i" and "i \<le> 32" and "step = push_bit i 1"
    and "2 ^ i \<le> Suc (unat hi) \<or> n \<le> hi" and "hi \<le> n" and "lo \<le> hi"
    and "unat n = length ks" and "sorted_wrt (<) ks" and "\<forall>x<unat lo. ks ! x < t"
  shows "\<exists>lo' hi'. gallop fuel ks n t lo hi step = Some (lo', hi') \<and> lo' \<le> hi' \<and> hi' \<le> n \<and>
    (\<forall>x<unat lo'. ks ! x < t) \<and> (hi' = n \<or> t \<le> ks ! unat hi')"
  using assms
proof (induction fuel arbitrary: i lo hi step)
  case 0
  then show ?case by simp
next
  case (Suc fuel)
  show ?case
  proof (cases "hi < n \<and> ks ! unat hi < t")
    case False
    then have "gallop (Suc fuel) ks n t lo hi step = Some (lo, hi)" by auto
    moreover have "hi = n \<or> t \<le> ks ! unat hi" using False Suc.prems(5) by (auto simp: not_less)
    ultimately show ?thesis using Suc.prems(5,6,9) by blast
  next
    case True
    then have hn: "hi < n" by simp
    have i: "i < 32"
    proof (rule ccontr)
      assume "\<not> i < 32"
      then have "2 ^ 32 \<le> Suc (unat hi)" using Suc.prems(2,4) hn by auto
      moreover have "unat hi < unat n" using hn by (simp add: word_less_nat_alt)
      ultimately show False using unat_u32 [of n] by linarith
    qed
    have us: "unat step = 2 ^ i"
      using i unat_shifted_one [of i, where ?'a = 32] unfolding Suc.prems(3) by simp
    let ?hi = "if n - hi < step then n else hi + step"
    have below: "\<forall>x<unat (hi + 1). ks ! x < t"
    proof (intro allI impI)
      fix x assume "x < unat (hi + 1)"
      then have "x \<le> unat hi" using unat_inc [OF hn] by simp
      moreover have "unat hi < length ks" using hn Suc.prems(7) by (simp add: word_less_nat_alt)
      ultimately show "ks ! x < t"
        using sorted_wrt_nth_le [OF Suc.prems(8)] True by (meson order_le_less_trans)
    qed
    have hi': "?hi \<le> n \<and> hi + 1 \<le> ?hi \<and> (2 ^ Suc i \<le> Suc (unat ?hi) \<or> n \<le> ?hi)"
    proof (cases "n - hi < step")
      case True
      then show ?thesis using inc_le [OF hn] by simp
    next
      case False
      note st = unat_step [OF hn False]
      have "(1::nat) \<le> 2 ^ i" by simp
      then have "hi + 1 \<le> hi + step"
        unfolding word_le_nat_alt st(1) unat_inc [OF hn] us by linarith
      moreover have "2 ^ Suc i \<le> Suc (unat (hi + step))"
        using Suc.prems(4) hn us unfolding st(1) by auto
      ultimately show ?thesis using st(2) False by simp
    qed
    have "\<exists>lo' hi'. gallop fuel ks n t (hi + 1) ?hi (push_bit 1 step) = Some (lo', hi') \<and> lo' \<le> hi' \<and>
        hi' \<le> n \<and> (\<forall>x<unat lo'. ks ! x < t) \<and> (hi' = n \<or> t \<le> ks ! unat hi')"
      by (rule Suc.IH [of "Suc i"])
        (use Suc.prems i hi' below in \<open>auto simp: push_bit_push_bit [symmetric]\<close>)
    then show ?thesis using True by simp
  qed
qed

lemma weave_gate_seek_ok:
  assumes srt: "sorted_wrt (<) (keys c)" and small: "\<forall>k\<in>set (keys c). k < ucast GATE_END"
    and n: "unat (nkeys c) = length (keys c)" and p: "pos c \<le> nkeys c"
    and before: "\<forall>i<unat (pos c). keys c ! i < ucast target"
    and fwd: "\<not> (seeked c \<and> target < last_ret c)"
  shows "\<exists>i r. weave_gate_seek c target = Inr (c\<lparr>seeked := True, pos := i, last_ret := r\<rparr>, r) \<and>
    lower_bound_at (keys c) (ucast target) (unat i) \<and> i \<le> nkeys c \<and>
    r = (if i = nkeys c then GATE_END else ucast (keys c ! unat i))"
proof -
  obtain lo hi where g: "gallop gallop_fuel (keys c) (nkeys c) (ucast target) (pos c) (pos c) 1 = Some (lo, hi)"
    "lo \<le> hi" "hi \<le> nkeys c" "\<forall>x<unat lo. keys c ! x < ucast target"
    "hi = nkeys c \<or> ucast target \<le> keys c ! unat hi"
    using gallop_ok [of gallop_fuel 0 1 "pos c" "nkeys c" "pos c" "keys c" "ucast target"]
      srt n p before by (auto simp: gallop_fuel_def)
  let ?i = "bisect (keys c) (ucast target) lo hi"
  have hl: "unat hi \<le> length (keys c)" using g(3) n by (simp add: word_le_nat_alt)
  have lb: "lower_bound_at (keys c) (ucast target) (unat ?i)"
    by (rule bisect_probe [OF g(4,2) hl _ srt]) (use g(5) n in auto)
  then have il: "?i \<le> nkeys c" using n by (simp add: lower_bound_at_def word_le_nat_alt)
  let ?r = "if ?i = nkeys c then GATE_END else ucast (keys c ! unat ?i)"
  have "nkeys c \<le> ?i \<longleftrightarrow> ?i = nkeys c" using il by auto
  then have "weave_gate_seek c target = Inr (c\<lparr>seeked := True, pos := ?i, last_ret := ?r\<rparr>, ?r)"
    using fwd g(1) by (simp add: weave_gate_seek_def Let_def)
  then show ?thesis using lb il by blast
qed

lemma check_keys_from_ok:
  "check_keys_from ks i prev = Inr () \<longleftrightarrow>
     sorted_wrt (<) (case prev of None \<Rightarrow> ks | Some q \<Rightarrow> q # ks) \<and> (\<forall>k\<in>set ks. k < ucast GATE_END)"
proof (induction ks i prev rule: check_keys_from.induct)
  case (1 i prev)
  show ?case by (simp split: option.splits)
next
  case (2 k ks i prev)
  show ?case
  proof (cases prev)
    case None
    then show ?thesis using 2 by (auto simp: not_le)
  next
    case (Some q)
    then show ?thesis using 2 by (auto simp: not_le intro: order_less_trans)
  qed
qed

lemma weave_gate_check_keys_ok:
  "weave_gate_check_keys ks = Inr () \<longleftrightarrow> sorted_wrt (<) ks \<and> (\<forall>k\<in>set ks. k < ucast GATE_END)"
  by (simp add: weave_gate_check_keys_def check_keys_from_ok)

subsection \<open>Shuttles\<close>

datatype channel_kind = CH_LEXICAL | CH_POSITION | CH_VECTOR_SCAN | CH_VECTOR_GRAPH | CH_FUZZY
  | CH_REGEX | CH_DOCVALS | CH_CGRAM | NUM_CHANNEL_KINDS

fun weave_channel_kind_name :: "channel_kind \<Rightarrow> string" where
  "weave_channel_kind_name CH_LEXICAL = ''lexical''"
| "weave_channel_kind_name CH_POSITION = ''position''"
| "weave_channel_kind_name CH_VECTOR_SCAN = ''vector-scan''"
| "weave_channel_kind_name CH_VECTOR_GRAPH = ''vector-graph''"
| "weave_channel_kind_name CH_FUZZY = ''fuzzy''"
| "weave_channel_kind_name CH_REGEX = ''regex''"
| "weave_channel_kind_name CH_DOCVALS = ''docvalues''"
| "weave_channel_kind_name CH_CGRAM = ''cgram''"
| "weave_channel_kind_name NUM_CHANNEL_KINDS = ''unknown''"

record 'x shuttle =
  kind :: channel_kind
  scur :: u32
  sblkend :: u32
  smaxscore :: f32
  sweight :: f32
  srequired :: bool
  sstate :: 'x

record 'x shuttle_ops =
  sh_seek :: "'x shuttle \<Rightarrow> u32 \<Rightarrow> (u32 \<times> 'x shuttle) option"
  sh_block_max :: "'x shuttle \<Rightarrow> f32 \<times> 'x shuttle"
  sh_score :: "'x shuttle \<Rightarrow> f32 \<times> 'x shuttle"

subsection \<open>The gate's shuttle face\<close>

definition gate_shuttle_seek :: "gate_cursor shuttle \<Rightarrow> u32 \<Rightarrow> (u32 \<times> gate_cursor shuttle) option" where
  "gate_shuttle_seek s target =
     (case weave_gate_seek (sstate s) target of
        Inl e \<Rightarrow> None
      | Inr (c, out) \<Rightarrow> Some (out, s\<lparr>sstate := c, scur := out, sblkend := out\<rparr>))"

definition gate_shuttle_block_max :: "gate_cursor shuttle \<Rightarrow> f32 \<times> gate_cursor shuttle" where
  "gate_shuttle_block_max s =
     (if scur s = FUSE_END \<or> \<not> weave_gate_block_may_match (sstate s) then NInf else PInf, s)"

definition gate_shuttle_score :: "gate_cursor shuttle \<Rightarrow> f32 \<times> gate_cursor shuttle" where
  "gate_shuttle_score s =
     (if scur s = FUSE_END \<or> \<not> weave_gate_matches (sstate s) (scur s) then NInf else fzero, s)"

definition gate_shuttle_ops :: "gate_cursor shuttle_ops" where
  "gate_shuttle_ops =
     \<lparr>sh_seek = gate_shuttle_seek, sh_block_max = gate_shuttle_block_max, sh_score = gate_shuttle_score\<rparr>"

datatype begin_error = BAD_KIND channel_kind | BAD_KEYS gate_error nat

definition weave_gate_shuttle_begin :: "channel_kind \<Rightarrow> u64 list \<Rightarrow> begin_error + gate_cursor shuttle" where
  "weave_gate_shuttle_begin k ks =
     (if k \<noteq> CH_FUZZY \<and> k \<noteq> CH_REGEX \<and> k \<noteq> CH_DOCVALS \<and> k \<noteq> CH_CGRAM then Inl (BAD_KIND k)
      else case weave_gate_check_keys ks of
        Inl (e, i) \<Rightarrow> Inl (BAD_KEYS e i)
      | Inr _ \<Rightarrow>
          Inr \<lparr>kind = k, scur = 0, sblkend = 0, smaxscore = (if ks = [] then NInf else PInf),
               sweight = fone, srequired = True, sstate = weave_gate_init ks\<rparr>)"

text \<open>A heap TID is a block number and an offset; \<open>F\<close> is \<open>MaxHeapTuplesPerPage\<close> of the server.\<close>

record tid =
  blk :: u32
  off :: u16

definition weave_tid_to_docid :: "u64 \<Rightarrow> tid \<Rightarrow> u64" where
  "weave_tid_to_docid F t = ucast (blk t) * F + ucast (off t)"

definition weave_docid_to_tid :: "u64 \<Rightarrow> u64 \<Rightarrow> tid" where
  "weave_docid_to_tid F d = \<lparr>blk = ucast (d div F), off = ucast (d mod F)\<rparr>"

definition weave_gate_shuttle_from_tidset ::
  "u64 \<Rightarrow> channel_kind \<Rightarrow> tid list \<Rightarrow> begin_error + gate_cursor shuttle" where
  "weave_gate_shuttle_from_tidset F k ts = weave_gate_shuttle_begin k (map (weave_tid_to_docid F) ts)"

subsection \<open>Shuttles as channels of the fused core\<close>

definition fuse_sh_seek ::
  "'x shuttle_ops \<Rightarrow> 'x shuttle \<Rightarrow> u32 \<Rightarrow> (u32 \<times> u32 option \<times> 'x shuttle) option" where
  "fuse_sh_seek so s target =
     (case sh_seek so s target of None \<Rightarrow> None
      | Some (p, s') \<Rightarrow> Some (p, Some (sblkend s'), s'))"

definition fuse_sh_block_max :: "'x shuttle_ops \<Rightarrow> 'x shuttle \<Rightarrow> f32 \<times> 'x shuttle" where
  "fuse_sh_block_max so s = sh_block_max so s"

definition fuse_sh_score :: "'x shuttle_ops \<Rightarrow> 'x shuttle \<Rightarrow> u32 \<Rightarrow> f32 \<times> 'x shuttle" where
  "fuse_sh_score so s c = sh_score so (s\<lparr>scur := c\<rparr>)"

definition fuse_shuttle_ops :: "'x shuttle_ops \<Rightarrow> 'x shuttle chan_ops" where
  "fuse_shuttle_ops so =
     \<lparr>seek = fuse_sh_seek so, block_max = fuse_sh_block_max so, score = fuse_sh_score so\<rparr>"

datatype wrap_error = TOO_MANY_CHANNELS nat | BAD_CHANNEL_WEIGHT nat channel_kind f32

fun wrap_from ::
  "nat \<Rightarrow> ('x shuttle_ops \<times> 'x shuttle) list \<Rightarrow> wrap_error + 'x shuttle chan list" where
  "wrap_from i [] = Inr []"
| "wrap_from i ((so, s) # ss) =
     (if sweight s \<in> {NaN, NInf, PInf} \<or> fle (sweight s) fzero
      then Inl (BAD_CHANNEL_WEIGHT i (kind s) (sweight s))
      else case wrap_from (Suc i) ss of Inl e \<Rightarrow> Inl e
        | Inr cs \<Rightarrow>
            Inr (\<lparr>ops = fuse_shuttle_ops so, cid = i, cur = 0, blkend = 0, maxscore = smaxscore s,
                  weight = sweight s, required = srequired s, cstate = s,
                  nseek = 0, nscore = 0, nbmax = 0\<rparr> # cs))"

definition weave_fuse_wrap_shuttles ::
  "('x shuttle_ops \<times> 'x shuttle) list \<Rightarrow> wrap_error + 'x shuttle chan list" where
  "weave_fuse_wrap_shuttles ss =
     (if length ss < 1 \<or> FUSE_MAX_CHAN < length ss then Inl (TOO_MANY_CHANNELS (length ss))
      else wrap_from 0 ss)"

subsection \<open>The gate keeps the channel contract\<close>

definition gate_postings :: "u64 list \<Rightarrow> postings" where
  "gate_postings ks p = (if ucast p \<in> set ks then Some fzero else None)"

definition gate_keys_ok :: "u64 list \<Rightarrow> bool" where
  "gate_keys_ok ks \<longleftrightarrow>
     sorted_wrt (<) ks \<and> (\<forall>k\<in>set ks. k < ucast GATE_END) \<and> length ks < 2 ^ 32"

definition gate_fresh :: "u64 list \<Rightarrow> gate_cursor shuttle \<Rightarrow> bool" where
  "gate_fresh ks s \<longleftrightarrow> sstate s = weave_gate_init ks"

definition gate_inv :: "u64 list \<Rightarrow> u32 \<Rightarrow> u32 \<Rightarrow> gate_cursor shuttle \<Rightarrow> bool" where
  "gate_inv ks lo hi s \<longleftrightarrow>
     (let c = sstate s in
        keys c = ks \<and> unat (nkeys c) = length ks \<and> seeked c \<and> last_ret c = lo \<and> pos c \<le> nkeys c \<and>
        scur s = lo \<and> sblkend s = lo \<and> hi = lo \<and>
        (if pos c = nkeys c then lo = FUSE_END else ucast lo = ks ! unat (pos c)))"

lemma gate_seek_step:
  assumes ks: "gate_keys_ok ks" and t: "t \<noteq> FUSE_END"
    and c: "keys (sstate s) = ks" "unat (nkeys (sstate s)) = length ks" "pos (sstate s) \<le> nkeys (sstate s)"
    and before: "\<forall>i<unat (pos (sstate s)). ks ! i < ucast t"
    and fwd: "\<not> (seeked (sstate s) \<and> t < last_ret (sstate s))"
  shows "\<exists>p s'. gate_shuttle_seek s t = Some (p, s') \<and> next_at (gate_postings ks) t p \<and>
    gate_inv ks p p s'"
proof -
  have srt: "sorted_wrt (<) ks" and small: "\<forall>k\<in>set ks. k < ucast GATE_END"
    using ks by (auto simp: gate_keys_ok_def)
  obtain i r where sk: "weave_gate_seek (sstate s) t =
      Inr ((sstate s)\<lparr>seeked := True, pos := i, last_ret := r\<rparr>, r)"
    and lb: "lower_bound_at ks (ucast t) (unat i)" and il: "i \<le> nkeys (sstate s)"
    and r: "r = (if i = nkeys (sstate s) then GATE_END else ucast (ks ! unat i))"
    using weave_gate_seek_ok [of "sstate s" t] srt small c before fwd by auto
  let ?s = "s\<lparr>sstate := (sstate s)\<lparr>seeked := True, pos := i, last_ret := r\<rparr>, scur := r, sblkend := r\<rparr>"
  have "i \<noteq> nkeys (sstate s) \<Longrightarrow> unat i < length ks"
    using il c(2) by (metis order_le_imp_less_or_eq word_less_nat_alt)
  then have key: "ks ! unat i \<in> set ks" "ucast r = ks ! unat i" if "i \<noteq> nkeys (sstate s)"
    using that r small narrow_widen [of "ks ! unat i" GATE_END] by auto
  have none: "gate_postings ks q = None" if q: "t \<le> q" "q < r" for q
  proof -
    have "ucast q \<noteq> ks ! x" if x: "x < length ks" for x
    proof (cases "x < unat i")
      case True
      then have "ks ! x < ucast t" using lb by (auto simp: lower_bound_at_def)
      then show ?thesis using q(1) widen_less by (metis leD)
    next
      case False
      then have "i \<noteq> nkeys (sstate s)" using x c(2) by auto
      moreover have "ks ! unat i \<le> ks ! x" using False x sorted_wrt_nth_le [OF srt] by simp
      ultimately show ?thesis using key(2) q(2) widen_less by (metis leD)
    qed
    then show ?thesis by (metis gate_postings_def in_set_conv_nth)
  qed
  have "t \<le> r"
  proof (cases "i = nkeys (sstate s)")
    case False
    then have "ucast t \<le> (ucast r :: u64)"
      using lb \<open>i \<noteq> nkeys (sstate s) \<Longrightarrow> unat i < length ks\<close> key(2) by (auto simp: lower_bound_at_def)
    then show ?thesis using widen_less [of r t] by (simp add: not_less [symmetric])
  qed (simp add: r)
  moreover have "r = FUSE_END \<or> gate_postings ks r \<noteq> None"
    using key r by (auto simp: gate_postings_def)
  ultimately have "next_at (gate_postings ks) t r" using none by (simp add: next_at_def)
  moreover have "gate_inv ks r r ?s"
    using c il key(2) r by (auto simp: gate_inv_def Let_def)
  ultimately show ?thesis using sk by (auto simp: gate_shuttle_seek_def)
qed

lemma gate_inv_before:
  assumes "gate_keys_ok ks" and "gate_inv ks lo hi s" and "lo \<le> t" and "t \<noteq> FUSE_END"
  shows "\<forall>i<unat (pos (sstate s)). ks ! i < ucast t"
proof (intro allI impI)
  fix i assume i: "i < unat (pos (sstate s))"
  have ne: "pos (sstate s) \<noteq> nkeys (sstate s)"
    using assms(2-4) less_FUSE_END [of t] by (auto simp: gate_inv_def Let_def)
  then have lt: "unat (pos (sstate s)) < length ks" and lo: "ucast lo = ks ! unat (pos (sstate s))"
    using assms(2) by (auto simp: gate_inv_def Let_def word_less_nat_alt [symmetric])
      (metis order_le_imp_less_or_eq word_less_nat_alt)
  have "ks ! i < ks ! unat (pos (sstate s))"
    using assms(1) i lt by (intro sorted_wrt_nth_mono) (auto simp: gate_keys_ok_def)
  also have "\<dots> \<le> ucast t" using lo assms(3) widen_less [of t lo] by (simp add: not_less [symmetric])
  finally show "ks ! i < ucast t" .
qed

lemma gate_shuttle_laws:
  assumes ks: "gate_keys_ok ks"
  shows "shuttle A (fuse_shuttle_ops gate_shuttle_ops) (gate_postings ks) (gate_inv ks) (gate_fresh ks)"
proof
  fix s t
  assume "gate_fresh ks s" and t: "t \<noteq> FUSE_END"
  then have "sstate s = weave_gate_init ks" by (simp add: gate_fresh_def)
  moreover have "unat (of_nat (length ks) :: u32) = length ks"
    using ks by (simp add: gate_keys_ok_def unat_of_nat take_bit_nat_eq_self)
  ultimately obtain p s' where "gate_shuttle_seek s t = Some (p, s')" "next_at (gate_postings ks) t p"
    "gate_inv ks p p s'"
    using gate_seek_step [OF ks t, of s] by (auto simp: weave_gate_init_def)
  moreover from this have "sblkend s' = p" by (simp add: gate_inv_def Let_def)
  ultimately show "\<exists>p be s'. seek (fuse_shuttle_ops gate_shuttle_ops) s t = Some (p, be, s') \<and>
      next_at (gate_postings ks) t p \<and> (be = None \<longrightarrow> p = FUSE_END) \<and> gate_inv ks p (blk_end p be) s'"
    by (auto simp: fuse_shuttle_ops_def fuse_sh_seek_def gate_shuttle_ops_def blk_end_def)
next
  fix lo hi s t
  assume inv: "gate_inv ks lo hi s" and le: "lo \<le> t" and t: "t \<noteq> FUSE_END"
  have "\<not> (seeked (sstate s) \<and> t < last_ret (sstate s))"
    using inv le by (auto simp: gate_inv_def Let_def)
  then obtain p s' where "gate_shuttle_seek s t = Some (p, s')" "next_at (gate_postings ks) t p"
    "gate_inv ks p p s'"
    using gate_seek_step [OF ks t, of s] gate_inv_before [OF ks inv le t] inv
    by (auto simp: gate_inv_def Let_def)
  moreover from this have "sblkend s' = p" by (simp add: gate_inv_def Let_def)
  ultimately show "\<exists>p be s'. seek (fuse_shuttle_ops gate_shuttle_ops) s t = Some (p, be, s') \<and>
      next_at (gate_postings ks) t p \<and> (be = None \<longrightarrow> p = FUSE_END) \<and> gate_inv ks p (blk_end p be) s'"
    by (auto simp: fuse_shuttle_ops_def fuse_sh_seek_def gate_shuttle_ops_def blk_end_def)
next
  fix lo hi s v
  assume inv: "gate_inv ks lo hi s" and v: "gate_postings ks lo = Some v"
  then have "ucast lo \<in> set ks" and vz: "v = fzero"
    by (auto simp: gate_postings_def split: if_splits)
  then have "ucast lo < (ucast FUSE_END :: u64)" using ks by (auto simp: gate_keys_ok_def)
  then have "lo < FUSE_END" by (simp only: widen_less)
  then have on: "lo \<noteq> FUSE_END" "weave_gate_on_key (sstate s)" "keys (sstate s) ! unat (pos (sstate s)) = ucast lo"
    "scur s = lo"
    using inv by (auto simp: gate_inv_def Let_def weave_gate_on_key_def split: if_splits)
  have same: "s\<lparr>scur := lo\<rparr> = s" using on(4) by simp
  show "fst (score (fuse_shuttle_ops gate_shuttle_ops) s lo) = v"
    using on vz by (simp add: fuse_shuttle_ops_def fuse_sh_score_def gate_shuttle_ops_def
        gate_shuttle_score_def weave_gate_matches_def)
  show "gate_inv ks lo hi (snd (score (fuse_shuttle_ops gate_shuttle_ops) s lo))"
    using inv same by (simp add: fuse_shuttle_ops_def fuse_sh_score_def gate_shuttle_ops_def
        gate_shuttle_score_def)
  have "fst (block_max (fuse_shuttle_ops gate_shuttle_ops) s) = PInf"
    using on by (simp add: fuse_shuttle_ops_def fuse_sh_block_max_def gate_shuttle_ops_def
        gate_shuttle_block_max_def weave_gate_block_may_match_def)
  then show "covers A (gate_postings ks) lo hi (fst (block_max (fuse_shuttle_ops gate_shuttle_ops) s))"
    by (simp add: covers_def contrib_at_def gate_postings_def)
  show "gate_inv ks lo hi (snd (block_max (fuse_shuttle_ops gate_shuttle_ops) s))"
    using inv by (simp add: fuse_shuttle_ops_def fuse_sh_block_max_def gate_shuttle_ops_def
        gate_shuttle_block_max_def)
qed

text \<open>
  The key set of a gate is data, so the laws carry it as a premise; the type of the key arrays a gate
  accepts makes them unconditional.
\<close>

typedef gate_keys = "{ks. gate_keys_ok ks}"
  by (rule exI [of _ "[]"]) (simp add: gate_keys_ok_def)

interpretation gate: shuttle A "fuse_shuttle_ops gate_shuttle_ops"
  "gate_postings (Rep_gate_keys K)" "gate_inv (Rep_gate_keys K)" "gate_fresh (Rep_gate_keys K)"
  for A K
  by (rule gate_shuttle_laws) (use Rep_gate_keys in simp)

lemma gate_opens:
  assumes "weave_gate_shuttle_begin k ks = Inr s" and "length ks < 2 ^ 32"
  shows "opens A (fuse_shuttle_ops gate_shuttle_ops) (gate_postings ks) s"
proof -
  have "gate_keys_ok ks" and "gate_fresh ks s"
    using assms weave_gate_check_keys_ok [of ks]
    by (auto simp: weave_gate_shuttle_begin_def gate_keys_ok_def gate_fresh_def
        split: if_splits sum.splits)
  then show ?thesis using gate.fresh_opens [of "Abs_gate_keys ks" s A] by (simp add: Abs_gate_keys_inverse)
qed

lemma gate_refuses_backward:
  assumes "gate_inv ks lo hi s" and "t < lo"
  shows "gate_shuttle_seek s t = None"
  using assms by (simp add: gate_shuttle_seek_def weave_gate_seek_def gate_inv_def Let_def)

subsection \<open>TIDs and docids\<close>

lemma docid_value:
  assumes "F \<le> 2 ^ 16"
  shows "unat (weave_tid_to_docid F t) = unat (blk t) * unat F + unat (off t)"
proof -
  have o: "unat (off t) < 2 ^ 16" using unsigned_less [of "off t", where ?'a = nat] by simp
  then have wo: "unat (ucast (off t) :: u64) = unat (off t)"
    by (simp add: unsigned_ucast_eq take_bit_nat_eq_self)
  have f: "unat F \<le> 2 ^ 16" using assms by (simp add: word_le_nat_alt)
  have "unat (blk t) * unat F \<le> 2 ^ 32 * 2 ^ 16"
    using unat_u32 [of "blk t"] f by (intro mult_le_mono) simp_all
  moreover from this have "unat (blk t) * unat F < 2 ^ 64" by simp
  ultimately show ?thesis using o
    by (simp add: weave_tid_to_docid_def unat_word_ariths wo)
qed

lemma docid_strict_mono:
  assumes "F \<le> 2 ^ 16" and "0 < off u" and "ucast (off t) \<le> F"
    and "blk t < blk u \<or> blk t = blk u \<and> off t < off u"
  shows "weave_tid_to_docid F t < weave_tid_to_docid F u"
proof -
  have o: "unat (off t) \<le> unat F"
  proof -
    have "unat (off t) < 2 ^ 64" using unsigned_less [of "off t", where ?'a = nat] by simp
    then have "unat (ucast (off t) :: u64) = unat (off t)"
      by (simp add: unsigned_ucast_eq take_bit_nat_eq_self)
    then show ?thesis using assms(3) by (simp add: word_le_nat_alt)
  qed
  have pos: "0 < unat (off u)" using assms(2) by (simp add: word_less_nat_alt)
  from assms(4) have "unat (blk t) * unat F + unat (off t) < unat (blk u) * unat F + unat (off u)"
  proof
    assume "blk t < blk u"
    then have "Suc (unat (blk t)) * unat F \<le> unat (blk u) * unat F"
      by (intro mult_le_mono1) (simp add: word_less_nat_alt)
    then show ?thesis using o pos by simp
  next
    assume "blk t = blk u \<and> off t < off u"
    then show ?thesis by (simp add: word_less_nat_alt)
  qed
  then show ?thesis by (simp add: word_less_nat_alt docid_value [OF assms(1)])
qed

lemma docid_split:
  assumes "F \<le> 2 ^ 16" and "unat (off t) < unat F"
  shows "unat (weave_tid_to_docid F t div F) = unat (blk t)"
    and "unat (weave_tid_to_docid F t mod F) = unat (off t)"
  using assms(2) by (simp_all add: unat_div unat_mod docid_value [OF assms(1)] div_mult_self3)

lemma docid_roundtrip:
  assumes "F \<le> 2 ^ 16" and "unat (off t) < unat F"
  shows "weave_docid_to_tid F (weave_tid_to_docid F t) = t"
proof -
  let ?d = "weave_tid_to_docid F t"
  have "unat (ucast (?d div F) :: u32) = unat (blk t)"
    using docid_split(1) [OF assms] unat_u32 [of "blk t"]
    by (simp only: unsigned_ucast_eq) (simp add: take_bit_nat_eq_self)
  moreover have "unat (ucast (?d mod F) :: u16) = unat (off t)"
    using docid_split(2) [OF assms] unsigned_less [of "off t", where ?'a = nat]
    by (simp only: unsigned_ucast_eq) (simp add: take_bit_nat_eq_self)
  ultimately have "ucast (?d div F) = blk t" "ucast (?d mod F) = off t"
    by (simp_all add: word_unat_eq_iff)
  then show ?thesis by (cases t) (simp add: weave_docid_to_tid_def)
qed

subsection \<open>Properties\<close>

text \<open>
  C10: a seek lands on the smallest key at or after its target and publishes it, or the end sentinel
  past the last key; the gallop's fuel of one step per bit never runs out. It moves the cursor
  nowhere else and keeps its bound.
\<close>

theorem weave_gate_seek_lower_bound:
  assumes "weave_gate_check_keys (keys c) = Inr ()"
    and "unat (nkeys c) = length (keys c)" and "pos c \<le> nkeys c"
    and "\<forall>i<unat (pos c). keys c ! i < ucast target"
    and "\<not> (seeked c \<and> target < last_ret c)"
  shows "\<exists>i r. weave_gate_seek c target = Inr (c\<lparr>seeked := True, pos := i, last_ret := r\<rparr>, r) \<and>
    lower_bound_at (keys c) (ucast target) (unat i) \<and> i \<le> nkeys c \<and>
    r = (if i = nkeys c then GATE_END else ucast (keys c ! unat i))"
  by (rule weave_gate_seek_ok) (use assms weave_gate_check_keys_ok [of "keys c"] in simp_all)

theorem weave_gate_seek_lower_bound_witness:
  "\<exists>i r. weave_gate_seek (weave_gate_init [2, 5, 9]) 4 =
       Inr ((weave_gate_init [2, 5, 9])\<lparr>seeked := True, pos := i, last_ret := r\<rparr>, r) \<and>
     lower_bound_at [2, 5, 9] (4 :: u64) (unat i)"
  using weave_gate_seek_lower_bound [of "weave_gate_init [2, 5, 9]" 4]
  by (auto simp: weave_gate_init_def weave_gate_check_keys_def)

text \<open>
  \<open>weave_gate_check_keys\<close> accepts a key array exactly when it is strictly ascending and every key
  is a warp position below the end sentinel; otherwise it reports the first offending index, and
  everything before that index is in order.
\<close>

lemma check_keys_from_error:
  "check_keys_from ks i prev = Inl (e, j) \<Longrightarrow>
     \<exists>d<length ks. j = i + d \<and> check_keys_from (take d ks) i prev = Inr () \<and>
       check_keys_from (take (Suc d) ks) i prev = Inl (e, j)"
proof (induction ks i prev rule: check_keys_from.induct)
  case (2 k ks i prev)
  show ?case
  proof (cases "ucast GATE_END \<le> k \<or> (\<exists>q. prev = Some q \<and> k \<le> q)")
    case True
    then show ?thesis using "2.prems" by (intro exI [of _ 0]) (auto split: option.splits if_splits)
  next
    case False
    then have "check_keys_from ks (Suc i) (Some k) = Inl (e, j)"
      using "2.prems" by (auto split: option.splits)
    then obtain d where "d < length ks" "j = Suc i + d"
        "check_keys_from (take d ks) (Suc i) (Some k) = Inr ()"
        "check_keys_from (take (Suc d) ks) (Suc i) (Some k) = Inl (e, j)"
      using 2 False by (cases prev) auto
    then show ?thesis using False by (intro exI [of _ "Suc d"]) (auto split: option.splits)
  qed
qed simp

theorem weave_gate_check_keys_exact:
  "case weave_gate_check_keys ks of
     Inr _ \<Rightarrow> sorted_wrt (<) ks \<and> list_all (\<lambda>k. k < ucast GATE_END) ks
   | Inl (e, i) \<Rightarrow> i < length ks \<and> weave_gate_check_keys (take i ks) = Inr () \<and>
       \<not> (sorted_wrt (<) (take (Suc i) ks) \<and> list_all (\<lambda>k. k < ucast GATE_END) (take (Suc i) ks))"
proof (cases "weave_gate_check_keys ks")
  case (Inl r)
  obtain e i where r: "r = (e, i)" by (cases r)
  then have "check_keys_from ks 0 None = Inl (e, i)" using Inl by (simp add: weave_gate_check_keys_def)
  then have "i < length ks" "weave_gate_check_keys (take i ks) = Inr ()"
    and "weave_gate_check_keys (take (Suc i) ks) = Inl (e, i)"
    using check_keys_from_error [of ks 0 None e i] by (auto simp: weave_gate_check_keys_def)
  then show ?thesis using Inl r weave_gate_check_keys_ok [of "take (Suc i) ks"] by (simp add: list_all_iff)
qed (use weave_gate_check_keys_ok [of ks] in \<open>simp add: list_all_iff\<close>)

text \<open>
  C8: a gate opened over an accepted key array keeps the whole channel contract behind the thunks of
  the fused core: from a fresh cursor, every forward seek returns the next key, the score at a key is
  0, and the bound covers it.
\<close>

theorem gate_keeps_contract:
  assumes "weave_gate_shuttle_begin k ks = Inr s" and "length ks < 2 ^ 32"
  shows "opens A (fuse_shuttle_ops gate_shuttle_ops) (gate_postings ks) s"
  using gate_opens [OF assms] .

theorem gate_keeps_contract_witness:
  "\<exists>s. weave_gate_shuttle_begin CH_FUZZY [2, 5, 9] = Inr s \<and>
     opens UNIV (fuse_shuttle_ops gate_shuttle_ops) (gate_postings [2, 5, 9]) s"
proof -
  obtain s where "weave_gate_shuttle_begin CH_FUZZY [2, 5, 9] = Inr s"
    by (simp add: weave_gate_shuttle_begin_def weave_gate_check_keys_def)
  then show ?thesis using gate_keeps_contract by fastforce
qed

text \<open>
  A TID's docid orders as the TID does, block first: the smaller TID gets the smaller docid, also
  for the largest offset number, so a sorted TID set is a strictly ascending key array.
\<close>

theorem docids_ordered_as_tids:
  assumes "F \<le> 2 ^ 16" and "0 < off u" and "ucast (off t) \<le> F"
    and "blk t < blk u \<or> blk t = blk u \<and> off t < off u"
  shows "weave_tid_to_docid F t < weave_tid_to_docid F u"
  using docid_strict_mono [OF assms] .

theorem docids_ordered_as_tids_witness:
  "weave_tid_to_docid 291 \<lparr>blk = 3, off = 291\<rparr> < weave_tid_to_docid 291 \<lparr>blk = 4, off = 1\<rparr>"
  using docids_ordered_as_tids [of 291 "\<lparr>blk = 4, off = 1\<rparr>" "\<lparr>blk = 3, off = 291\<rparr>"] by simp

text \<open>
  A docid decodes to the TID it came from for every offset below \<open>MaxHeapTuplesPerPage\<close>.
\<close>

theorem docid_tid_roundtrip:
  assumes "F \<le> 2 ^ 16" and "unat (off t) < unat F"
  shows "weave_docid_to_tid F (weave_tid_to_docid F t) = t"
  using docid_roundtrip [OF assms] .

theorem docid_tid_roundtrip_witness:
  "weave_docid_to_tid 291 (weave_tid_to_docid 291 \<lparr>blk = 7, off = 290\<rparr>) = \<lparr>blk = 7, off = 290\<rparr>"
  using docid_tid_roundtrip [of 291 "\<lparr>blk = 7, off = 290\<rparr>"] by simp

text \<open>
  The offset equal to \<open>MaxHeapTuplesPerPage\<close>, which a full heap page has, does not round-trip: it
  decodes to offset 0 of the next block, which is no TID.
\<close>

lemma narrow_widen_u32: "ucast (ucast (b :: u32) :: u64) = b"
  using unat_u32 [of b]
  by (simp add: word_unat_eq_iff unsigned_ucast_eq [of "ucast b :: u64"] take_bit_nat_eq_self)

theorem docid_last_offset_lost:
  assumes "0 < F" and "F < 2 ^ 16" and "b < 0xFFFFFFFF"
  shows "weave_docid_to_tid F (weave_tid_to_docid F \<lparr>blk = b, off = ucast F\<rparr>) = \<lparr>blk = b + 1, off = 0\<rparr>"
proof -
  let ?t = "\<lparr>blk = b, off = ucast F :: u16\<rparr>"
  have F: "unat F < 2 ^ 16" "0 < unat F" using assms by (simp_all add: word_less_nat_alt)
  then have o: "unat (ucast F :: u16) = unat F" by (simp add: unsigned_ucast_eq take_bit_nat_eq_self)
  have v: "unat (weave_tid_to_docid F ?t) = Suc (unat b) * unat F"
    using docid_value [of F ?t] assms(2) o by simp
  have "unat (weave_tid_to_docid F ?t div F) = Suc (unat b)" "unat (weave_tid_to_docid F ?t mod F) = 0"
    using F by (simp_all add: unat_div unat_mod v)
  moreover have b: "unat (b + 1) = Suc (unat b)" using unat_inc [OF assms(3)] .
  ultimately have "weave_tid_to_docid F ?t div F = ucast (b + 1)" "weave_tid_to_docid F ?t mod F = 0"
    using unat_widen [of "b + 1"] by (simp_all add: word_unat_eq_iff)
  then show ?thesis using narrow_widen_u32 [of "b + 1"] by (simp add: weave_docid_to_tid_def)
qed

theorem docid_last_offset_lost_witness:
  "weave_docid_to_tid 291 (weave_tid_to_docid 291 \<lparr>blk = 7, off = 291\<rparr>) = \<lparr>blk = 8, off = 0\<rparr>"
  using docid_last_offset_lost [of 291 7] by simp

end
