(* ===== verification/Weave_Vecdoc.thy ===== *)
theory Weave_Vecdoc
  imports Weave_Gate
begin

text \<open>
  The docid adapter of \<open>src/am/vecdocmap.c\<close>: a channel over the lanes of one vector weft, relabelled to
  a channel over document ids through the weft's strictly ascending lane-to-docid map. The locale
  states what is assumed of the inner channel; the sublocale shows that the adapter keeps the shuttle
  contract. A document the weft does not carry contributes nothing, so when such documents are
  admissible the contract needs the inner bounds to be at least zero: the parameter \<open>nonneg\<close>.
\<close>

record 's vecdoc =
  inner :: "'s chan"
  docid :: "u64 list"
  nlane :: u32
  lane :: u32

definition weave_vecdoc_lower_bound :: "u64 list \<Rightarrow> u32 \<Rightarrow> u64 \<Rightarrow> u32" where
  "weave_vecdoc_lower_bound ds n t = bisect ds t 0 n"

definition vecdoc_seek :: "'s vecdoc \<Rightarrow> u32 \<Rightarrow> (u32 \<times> u32 option \<times> 's vecdoc) option" where
  "vecdoc_seek a target =
     (let c = inner a; n = nlane a
      in if cur c = FUSE_END then Some (FUSE_END, None, a)
         else let lo = weave_vecdoc_lower_bound (docid a) n (ucast target)
              in if n \<le> lo then Some (FUSE_END, None, a)
                 else case seek (ops c) (cstate c) lo of
                   None \<Rightarrow> None
                 | Some (l, be, s) \<Rightarrow>
                     let c1 = c\<lparr>cstate := s, blkend := (case be of None \<Rightarrow> blkend c | Some b \<Rightarrow> b)\<rparr>
                     in if l = FUSE_END \<or> n \<le> l
                        then Some (FUSE_END, None, a\<lparr>inner := c1\<lparr>cur := FUSE_END\<rparr>\<rparr>)
                        else let last0 = (if n \<le> blkend c1 then n - 1 else blkend c1);
                                 last = (if last0 < l then l else last0)
                             in Some (ucast (docid a ! unat l), Some (ucast (docid a ! unat last)),
                                      a\<lparr>inner := c1\<lparr>cur := l\<rparr>, lane := l\<rparr>))"

definition vecdoc_block_max :: "'s vecdoc \<Rightarrow> f32 \<times> 's vecdoc" where
  "vecdoc_block_max a =
     (let (b, s) = block_max (ops (inner a)) (cstate (inner a))
      in (b, a\<lparr>inner := (inner a)\<lparr>cstate := s\<rparr>\<rparr>))"

definition vecdoc_score :: "'s vecdoc \<Rightarrow> u32 \<Rightarrow> f32 \<times> 's vecdoc" where
  "vecdoc_score a p =
     (let (x, s) = score (ops (inner a)) (cstate (inner a)) (lane a)
      in (x, a\<lparr>inner := (inner a)\<lparr>cstate := s, cur := lane a\<rparr>\<rparr>))"

definition vecdoc_chan_ops :: "'s vecdoc chan_ops" where
  "vecdoc_chan_ops = \<lparr>seek = vecdoc_seek, block_max = vecdoc_block_max, score = vecdoc_score\<rparr>"

datatype vecdoc_error = NO_LANES | NOT_ASCENDING | DOCID_TOO_WIDE

fun ascending :: "u64 list \<Rightarrow> bool" where
  "ascending (x # y # ds) \<longleftrightarrow> \<not> y \<le> x \<and> ascending (y # ds)"
| "ascending ds \<longleftrightarrow> True"

definition weave_vecdoc_chan_init ::
  "nat \<Rightarrow> 's chan \<Rightarrow> u64 list \<Rightarrow> vecdoc_error + 's vecdoc chan" where
  "weave_vecdoc_chan_init i c ds =
     (if ds = [] then Inl NO_LANES
      else if \<not> ascending ds then Inl NOT_ASCENDING
      else if ucast FUSE_END \<le> last ds then Inl DOCID_TOO_WIDE
      else Inr \<lparr>ops = vecdoc_chan_ops, cid = i, cur = 0, blkend = 0, maxscore = maxscore c,
                weight = weight c, required = required c,
                cstate = \<lparr>inner = c, docid = ds, nlane = of_nat (length ds), lane = 0\<rparr>,
                nseek = 0, nscore = 0, nbmax = 0\<rparr>)"

lemma ascending_sorted: "ascending ds \<longleftrightarrow> sorted_wrt (<) ds"
proof (induction ds rule: ascending.induct)
  case (1 x y ds)
  show ?case
  proof (cases "x < y")
    case True
    then show ?thesis using 1 order_less_trans [OF True] by auto
  qed (use 1 in auto)
qed auto

lemma sorted_below_last:
  assumes "sorted_wrt (<) (ds::u64 list)" and "d \<in> set ds"
  shows "d \<le> last ds"
proof -
  obtain i where "i < length ds" "d = ds ! i" using assms(2) by (auto simp: in_set_conv_nth)
  moreover from this have "ds \<noteq> []" by auto
  ultimately show ?thesis
    using sorted_wrt_nth_le [OF assms(1), of i "length ds - 1"] by (simp add: last_conv_nth)
qed

lemma vecdoc_init_ok:
  assumes "weave_vecdoc_chan_init i c ds = Inr d" and "length ds < 2 ^ 32"
  shows "gate_keys_ok ds" and "cstate d = \<lparr>inner = c, docid = ds, nlane = of_nat (length ds), lane = 0\<rparr>"
    and "ops d = vecdoc_chan_ops" and "weight d = weight c" and "maxscore d = maxscore c"
    and "required d = required c"
proof -
  have d: "ds \<noteq> []" "sorted_wrt (<) ds" "last ds < ucast FUSE_END"
    using assms(1) by (auto simp: weave_vecdoc_chan_init_def ascending_sorted split: if_splits)
  then show "gate_keys_ok ds"
    using assms(2) sorted_below_last [OF d(2)] by (auto simp: gate_keys_ok_def intro: order_le_less_trans)
  show "cstate d = \<lparr>inner = c, docid = ds, nlane = of_nat (length ds), lane = 0\<rparr>"
    "ops d = vecdoc_chan_ops" "weight d = weight c" "maxscore d = maxscore c" "required d = required c"
    using assms(1) by (auto simp: weave_vecdoc_chan_init_def split: if_splits)
qed

subsection \<open>Postings under the map\<close>

definition lane_of :: "u64 list \<Rightarrow> u64 \<Rightarrow> nat option" where
  "lane_of ds d =
     (let i = length (takeWhile (\<lambda>x. x < d) ds)
      in if i < length ds \<and> ds ! i = d then Some i else None)"

definition vecdoc_postings :: "u64 list \<Rightarrow> postings \<Rightarrow> postings" where
  "vecdoc_postings ds P p =
     (case lane_of ds (ucast p) of None \<Rightarrow> None | Some l \<Rightarrow> P (of_nat l))"

lemma lane_of_Some: "lane_of ds d = Some l \<Longrightarrow> l < length ds \<and> ds ! l = d"
  by (auto simp: lane_of_def Let_def split: if_splits)

lemma lane_of_nth:
  assumes "sorted_wrt (<) ds" and "l < length ds"
  shows "lane_of ds (ds ! l) = Some l"
proof -
  have "takeWhile (\<lambda>x. x < ds ! l) (take l ds @ drop l ds) = take l ds @ takeWhile (\<lambda>x. x < ds ! l) (drop l ds)"
    by (rule takeWhile_append2)
      (use assms sorted_wrt_nth_mono [OF assms(1)] in \<open>auto simp: in_set_conv_nth\<close>)
  also have "takeWhile (\<lambda>x. x < ds ! l) (drop l ds) = []"
    using assms(2) by (simp add: Cons_nth_drop_Suc [symmetric])
  finally have "length (takeWhile (\<lambda>x. x < ds ! l) ds) = l" using assms(2) by simp
  then show ?thesis using assms(2) by (simp add: lane_of_def)
qed

lemma lower_bound_lane:
  assumes "gate_keys_ok ds" and "unat n = length ds"
  shows "lower_bound_at ds t (unat (weave_vecdoc_lower_bound ds n t))"
  unfolding weave_vecdoc_lower_bound_def
  by (rule bisect_probe) (use assms in \<open>auto simp: gate_keys_ok_def\<close>)

subsection \<open>The adapter keeps the contract\<close>

locale vecdoc_map = lanes: shuttle LA vt P inv fresh
  for LA :: "u32 set" and vt :: "'s chan_ops" and P :: postings
    and inv :: "u32 \<Rightarrow> u32 \<Rightarrow> 's \<Rightarrow> bool" and fresh :: "'s \<Rightarrow> bool" +
  fixes A :: "u32 set" and ds :: "u64 list" and nonneg :: bool
  assumes ds_ok: "gate_keys_ok ds"
    and carried: "\<And>q. q \<in> A \<Longrightarrow>
       case lane_of ds (ucast q) of None \<Rightarrow> nonneg | Some l \<Rightarrow> of_nat l \<in> LA"
    and bound_nonneg: "\<lbrakk>nonneg; inv lo hi s; P lo = Some v\<rbrakk> \<Longrightarrow> fle fzero (fst (block_max vt s))"
begin

definition over :: "'s vecdoc \<Rightarrow> bool" where
  "over a \<longleftrightarrow> docid a = ds \<and> unat (nlane a) = length ds \<and> ops (inner a) = vt"

definition afresh :: "'s vecdoc \<Rightarrow> bool" where
  "afresh a \<longleftrightarrow> over a \<and> cur (inner a) \<noteq> FUSE_END \<and> fresh (cstate (inner a))"

definition ainv :: "u32 \<Rightarrow> u32 \<Rightarrow> 's vecdoc \<Rightarrow> bool" where
  "ainv lo hi a \<longleftrightarrow> over a \<and>
     (lo = FUSE_END \<or>
      (\<exists>lhi m. inv (lane a) lhi (cstate (inner a)) \<and> cur (inner a) = lane a \<and> lane a < nlane a \<and>
         ucast lo = ds ! unat (lane a) \<and> lane a \<le> m \<and> m < nlane a \<and> m \<le> lhi \<and>
         ucast hi = ds ! unat m))"

lemma ainvI:
  "\<lbrakk>over a; inv (lane a) lhi (cstate (inner a)); cur (inner a) = lane a; lane a < nlane a;
    ucast lo = ds ! unat (lane a); lane a \<le> m; m < nlane a; m \<le> lhi; ucast hi = ds ! unat m\<rbrakk>
   \<Longrightarrow> ainv lo hi a"
  unfolding ainv_def by blast

lemma srt: "sorted_wrt (<) ds"
  using ds_ok by (simp add: gate_keys_ok_def)

lemma key_narrow: "i < length ds \<Longrightarrow> ucast (ucast (ds ! i) :: u32) = ds ! i"
  using ds_ok narrow_widen [of "ds ! i" GATE_END] by (auto simp: gate_keys_ok_def)

lemma key_not_END: "i < length ds \<Longrightarrow> (ucast (ds ! i) :: u32) \<noteq> FUSE_END"
proof
  assume i: "i < length ds" and e: "(ucast (ds ! i) :: u32) = FUSE_END"
  have "ds ! i < ucast GATE_END" using ds_ok i by (auto simp: gate_keys_ok_def)
  moreover have "ds ! i = ucast GATE_END" using key_narrow [OF i] e by simp
  ultimately show False by simp
qed

lemma postings_key: "i < length ds \<Longrightarrow> vecdoc_postings ds P (ucast (ds ! i)) = P (of_nat i)"
  by (simp add: vecdoc_postings_def key_narrow lane_of_nth [OF srt])

lemma postings_END: "vecdoc_postings ds P FUSE_END = None"
proof (cases "lane_of ds (ucast FUSE_END)")
  case (Some l)
  then have e: "ds ! l = ucast FUSE_END" and l: "l < length ds" using lane_of_Some by blast+
  have "\<forall>k\<in>set ds. k < ucast GATE_END" using ds_ok by (simp add: gate_keys_ok_def)
  then have "ds ! l < ucast GATE_END" using nth_mem [OF l] by blast
  then show ?thesis using e by simp
qed (simp add: vecdoc_postings_def)

lemma lane_less_END: "(n::u32) \<le> l \<or> l \<noteq> FUSE_END" if "unat n = length ds"
  using less_FUSE_END [of l] by (cases "l = FUSE_END") auto

lemma none_from:
  assumes lb: "lower_bound_at ds (ucast t) (unat lo)" and n: "unat n = length ds"
    and lanes: "\<And>x. lo \<le> x \<Longrightarrow> x < n \<Longrightarrow> ds ! unat x < d \<Longrightarrow> P x = None"
    and q: "t \<le> q" "ucast q < d"
  shows "vecdoc_postings ds P q = None"
proof (cases "lane_of ds (ucast q)")
  case (Some l)
  then have l: "l < length ds" "ds ! l = ucast q" using lane_of_Some by blast+
  have "\<not> ds ! l < ucast t" using l(2) q(1) by (simp add: widen_less not_less)
  then have "unat lo \<le> l" using lb by (auto simp: lower_bound_at_def not_less [symmetric])
  moreover have "unat (of_nat l :: u32) = l"
    using l(1) ds_ok by (simp add: unat_of_nat take_bit_nat_eq_self gate_keys_ok_def)
  ultimately have "P (of_nat l) = None"
    using l q(2) n by (intro lanes) (simp_all add: word_le_nat_alt word_less_nat_alt)
  then show ?thesis using Some by (simp add: vecdoc_postings_def)
qed (simp add: vecdoc_postings_def)

lemma seek_step:
  assumes ov: "over a" and ne: "cur (inner a) \<noteq> FUSE_END" and t: "t \<noteq> FUSE_END"
    and sk: "\<And>lo. \<lbrakk>lower_bound_at ds (ucast t) (unat lo); lo < nlane a\<rbrakk> \<Longrightarrow>
       \<exists>p be s'. seek vt (cstate (inner a)) lo = Some (p, be, s') \<and> next_at P lo p \<and>
         (be = None \<longrightarrow> p = FUSE_END) \<and> inv p (blk_end p be) s'"
  shows "\<exists>p be s'. seek vecdoc_chan_ops a t = Some (p, be, s') \<and> next_at (vecdoc_postings ds P) t p \<and>
      (be = None \<longrightarrow> p = FUSE_END) \<and> ainv p (blk_end p be) s'"
proof -
  let ?n = "nlane a"
  have a: "docid a = ds" "unat ?n = length ds" "ops (inner a) = vt" using ov by (auto simp: over_def)
  let ?lo = "weave_vecdoc_lower_bound ds ?n (ucast t)"
  have lb: "lower_bound_at ds (ucast t) (unat ?lo)" by (rule lower_bound_lane [OF ds_ok a(2)])
  have at_end: "next_at (vecdoc_postings ds P) t FUSE_END"
    if absent: "\<And>x. ?lo \<le> x \<Longrightarrow> x < ?n \<Longrightarrow> P x = None"
  proof -
    have "vecdoc_postings ds P q = None" if q: "t \<le> q" "q < FUSE_END" for q
    proof (rule none_from [OF lb a(2) _ q(1)])
      show "ucast q < (ucast FUSE_END :: u64)" using q(2) by (simp only: widen_less)
      fix x assume "?lo \<le> x" "x < ?n"
      then show "P x = None" by (rule absent)
    qed
    then show ?thesis by (simp add: next_at_def)
  qed
  show ?thesis
  proof (cases "?n \<le> ?lo")
    case True
    then have "seek vecdoc_chan_ops a t = Some (FUSE_END, None, a)"
      using a ne by (simp add: vecdoc_chan_ops_def vecdoc_seek_def Let_def)
    moreover have "ainv FUSE_END (blk_end FUSE_END None) a" using ov by (simp add: ainv_def)
    ultimately show ?thesis using at_end True by auto
  next
    case False
    then have lon: "?lo < ?n" by simp
    obtain l be s' where s: "seek vt (cstate (inner a)) ?lo = Some (l, be, s')" "next_at P ?lo l"
      "be = None \<longrightarrow> l = FUSE_END" "inv l (blk_end l be) s'"
      using sk [OF lb lon] by blast
    let ?c1 = "(inner a)\<lparr>cstate := s', blkend := (case be of None \<Rightarrow> blkend (inner a) | Some b \<Rightarrow> b)\<rparr>"
    show ?thesis
    proof (cases "l = FUSE_END \<or> ?n \<le> l")
      case end': True
      let ?a = "a\<lparr>inner := ?c1\<lparr>cur := FUSE_END\<rparr>\<rparr>"
      have "seek vecdoc_chan_ops a t = Some (FUSE_END, None, ?a)"
        using a ne False s(1) end' by (simp add: vecdoc_chan_ops_def vecdoc_seek_def Let_def)
      moreover have "ainv FUSE_END (blk_end FUSE_END None) ?a" using ov by (simp add: ainv_def over_def)
      moreover have "P x = None" if "?lo \<le> x" "x < ?n" for x
      proof -
        have "x < FUSE_END" using order_less_le_trans [OF that(2) le_FUSE_END] .
        then have "x < l" using end' order_less_le_trans [OF that(2)] by blast
        then show ?thesis using s(2) that(1) unfolding next_at_def by blast
      qed
      ultimately show ?thesis using at_end by auto
    next
      case here: False
      then obtain b where b: "be = Some b" using s(3) by auto
      define last0 where "last0 = (if ?n \<le> b then ?n - 1 else b)"
      define lst where "lst = (if last0 < l then l else last0)"
      let ?a = "a\<lparr>inner := ?c1\<lparr>cur := l\<rparr>, lane := l\<rparr>"
      have ln: "l < ?n" using here by (simp add: not_le)
      then have "?n - 1 < ?n" using unat_dec [OF ln] by (simp add: word_less_nat_alt)
      then have m: "l \<le> lst" "lst < ?n" "lst \<le> max l b"
        using ln by (auto simp: lst_def last0_def max_def split: if_splits)
      have ll: "unat l < length ds" "unat lst < length ds"
        using ln m(2) a(2) by (simp_all add: word_less_nat_alt)
      have sk: "seek vecdoc_chan_ops a t =
          Some (ucast (ds ! unat l), Some (ucast (ds ! unat lst)), ?a)"
        using a ne False s(1) here b by (simp add: vecdoc_chan_ops_def vecdoc_seek_def Let_def lst_def last0_def)
      have le: "ds ! unat l \<le> ds ! unat lst"
        using m(1) ll(2) by (intro sorted_wrt_nth_le [OF srt]) (simp_all add: word_le_nat_alt)
      then have lew: "(ucast (ds ! unat l) :: u32) \<le> ucast (ds ! unat lst)"
        using key_narrow ll by (metis widen_le)
      have "blk_end (ucast (ds ! unat l)) (Some (ucast (ds ! unat lst))) = ucast (ds ! unat lst)"
        using lew by (simp add: blk_end_def max_def)
      moreover have "ainv (ucast (ds ! unat l)) (ucast (ds ! unat lst)) ?a"
        using ov s(4) b ln m key_narrow ll by (auto simp: ainv_def over_def blk_end_def)
      moreover have "next_at (vecdoc_postings ds P) t (ucast (ds ! unat l))"
      proof -
        have "unat ?lo \<le> unat l" using s(2) by (simp add: next_at_def word_le_nat_alt)
        then have "ucast t \<le> ds ! unat l" using lb ll(1) by (auto simp: lower_bound_at_def)
        then have "t \<le> ucast (ds ! unat l)" using key_narrow [OF ll(1)] by (metis widen_le)
        moreover have "vecdoc_postings ds P (ucast (ds ! unat l)) \<noteq> None"
          using s(2) here ll(1) by (simp add: postings_key next_at_def)
        moreover have "vecdoc_postings ds P q = None" if q: "t \<le> q" "q < ucast (ds ! unat l)" for q
        proof (rule none_from [OF lb a(2) _ q(1)])
          show "ucast q < ds ! unat l" using q(2) key_narrow [OF ll(1)] by (metis widen_less)
          fix x assume x: "?lo \<le> x" "x < ?n" "ds ! unat x < ds ! unat l"
          have "unat x < length ds" using x(2) a(2) by (simp add: word_less_nat_alt)
          then have "\<not> unat l \<le> unat x" using x(3) sorted_wrt_nth_le [OF srt] by (metis leD)
          then show "P x = None" using s(2) x(1) by (auto simp: next_at_def word_less_nat_alt)
        qed
        ultimately show ?thesis by (simp add: next_at_def)
      qed
      ultimately show ?thesis using sk by auto
    qed
  qed
qed

end

context vecdoc_map
begin

lemma adapter_laws: "shuttle A vecdoc_chan_ops (vecdoc_postings ds P) ainv afresh"
proof
  fix a t
  assume fr: "afresh a" and t: "t \<noteq> FUSE_END"
  show "\<exists>p be s'. seek vecdoc_chan_ops a t = Some (p, be, s') \<and> next_at (vecdoc_postings ds P) t p \<and>
      (be = None \<longrightarrow> p = FUSE_END) \<and> ainv p (blk_end p be) s'"
  proof (rule seek_step [OF _ _ t])
    fix lo :: u32 assume "lo < nlane a"
    then have "lo \<noteq> FUSE_END" by auto
    then show "\<exists>p be s'. seek vt (cstate (inner a)) lo = Some (p, be, s') \<and> next_at P lo p \<and>
        (be = None \<longrightarrow> p = FUSE_END) \<and> inv p (blk_end p be) s'"
      using fr by (intro lanes.seek_fresh) (auto simp: afresh_def)
  qed (use fr in \<open>auto simp: afresh_def\<close>)
next
  fix lo hi a t
  assume inv: "ainv lo hi a" and le: "lo \<le> t" and t: "t \<noteq> FUSE_END"
  have "lo \<noteq> FUSE_END" using le less_FUSE_END [of t] t by (metis order_le_less_trans order_less_irrefl)
  then obtain lhi where on: "inv (lane a) lhi (cstate (inner a))" "cur (inner a) = lane a" "lane a < nlane a"
    "ucast lo = ds ! unat (lane a)" and ov: "over a"
    using inv unfolding ainv_def by blast
  have n: "unat (nlane a) = length ds" using ov by (simp add: over_def)
  show "\<exists>p be s'. seek vecdoc_chan_ops a t = Some (p, be, s') \<and> next_at (vecdoc_postings ds P) t p \<and>
      (be = None \<longrightarrow> p = FUSE_END) \<and> ainv p (blk_end p be) s'"
  proof (rule seek_step [OF ov _ t])
    show "cur (inner a) \<noteq> FUSE_END" using on(2,3) by auto
    fix x :: u32 assume lb: "lower_bound_at ds (ucast t) (unat x)" and xn: "x < nlane a"
    have "ds ! y < ucast t" if "y < unat (lane a)" for y
    proof -
      have "ds ! y < ds ! unat (lane a)"
        using that on(3) n by (intro sorted_wrt_nth_mono [OF srt]) (simp_all add: word_less_nat_alt)
      then show ?thesis using on(4) le by (metis order_less_le_trans widen_le)
    qed
    moreover have "unat x < length ds" using xn n by (simp add: word_less_nat_alt)
    moreover have "ucast t \<le> ds ! unat x" if "unat x < length ds"
      using lb that by (simp add: lower_bound_at_def)
    ultimately have "\<not> unat x < unat (lane a)" by (metis leD)
    then have "lane a \<le> x" by (simp add: word_le_nat_alt)
    moreover have "x \<noteq> FUSE_END" using xn by auto
    ultimately show "\<exists>p be s'. seek vt (cstate (inner a)) x = Some (p, be, s') \<and> next_at P x p \<and>
        (be = None \<longrightarrow> p = FUSE_END) \<and> inv p (blk_end p be) s'"
      using on(1) by (intro lanes.seek_on)
  qed
next
  fix lo hi a v
  assume inv: "ainv lo hi a" and v: "vecdoc_postings ds P lo = Some v"
  then have "lo \<noteq> FUSE_END" using postings_END by auto
  then obtain lhi m where on: "inv (lane a) lhi (cstate (inner a))" "cur (inner a) = lane a"
    "lane a < nlane a" "ucast lo = ds ! unat (lane a)" "m < nlane a" "m \<le> lhi"
    "ucast hi = ds ! unat m" "lane a \<le> m" and ov: "over a"
    using inv unfolding ainv_def by blast
  have n: "unat (nlane a) = length ds" and o: "ops (inner a) = vt" using ov by (auto simp: over_def)
  have ll: "unat (lane a) < length ds" "unat m < length ds"
    using on(3,5) n by (simp_all add: word_less_nat_alt)
  have lo: "lo = ucast (ds ! unat (lane a))"
    using on(4) key_narrow [OF ll(1)] by (metis widen_inj)
  have pl: "P (lane a) = Some v" using v postings_key [OF ll(1)] lo by simp
  note sc = lanes.score_on [OF on(1) pl] lanes.score_keeps [OF on(1) pl]
  note bm = lanes.bound_on [OF on(1) pl] lanes.bound_keeps [OF on(1) pl]
  show "fst (score vecdoc_chan_ops a lo) = v"
    using sc(1) o by (simp add: vecdoc_chan_ops_def vecdoc_score_def split_beta)
  show "ainv lo hi (snd (score vecdoc_chan_ops a lo))"
    by (rule ainvI [of _ lhi _ m])
      (use sc(2) o ov on in \<open>auto simp: vecdoc_chan_ops_def vecdoc_score_def split_beta over_def\<close>)
  show "ainv lo hi (snd (block_max vecdoc_chan_ops a))"
    by (rule ainvI [of _ lhi _ m])
      (use bm(2) o ov on in \<open>auto simp: vecdoc_chan_ops_def vecdoc_block_max_def split_beta over_def\<close>)
  have b: "fst (block_max vecdoc_chan_ops a) = fst (block_max vt (cstate (inner a)))"
    using o by (simp add: vecdoc_chan_ops_def vecdoc_block_max_def split_beta)
  show "covers A (vecdoc_postings ds P) lo hi (fst (block_max vecdoc_chan_ops a))"
    unfolding covers_def b
  proof (intro conjI ballI impI)
    show "fst (block_max vt (cstate (inner a))) \<noteq> NaN" using bm(1) by (simp add: covers_def)
    fix q assume q: "q \<in> A" "lo \<le> q \<and> q \<le> hi"
    show "fle (contrib_at (vecdoc_postings ds P) q) (fst (block_max vt (cstate (inner a))))"
    proof (cases "lane_of ds (ucast q)")
      case None
      then have "nonneg" using carried [OF q(1)] by simp
      then show ?thesis
        using bound_nonneg [OF _ on(1) pl] None by (simp add: contrib_at_def vecdoc_postings_def)
    next
      case (Some l)
      then have l: "l < length ds" "ds ! l = ucast q" using lane_of_Some by blast+
      have ul: "unat (of_nat l :: u32) = l"
        using l(1) ds_ok by (simp add: unat_of_nat take_bit_nat_eq_self gate_keys_ok_def)
      have "ds ! unat (lane a) \<le> ds ! l" "ds ! l \<le> ds ! unat m"
        using q(2) l(2) on(4,7) widen_le by metis+
      then have "\<not> l < unat (lane a)" "\<not> unat m < l"
        using sorted_wrt_nth_mono [OF srt] l(1) ll by (metis leD)+
      then have "lane a \<le> of_nat l" "of_nat l \<le> lhi"
        using on(6) ul by (simp_all add: word_le_nat_alt)
      moreover have "of_nat l \<in> LA" using carried [OF q(1)] Some by simp
      ultimately have "fle (contrib_at P (of_nat l)) (fst (block_max vt (cstate (inner a))))"
        using bm(1) by (simp add: covers_def)
      then show ?thesis using Some by (simp add: contrib_at_def vecdoc_postings_def)
    qed
  qed
qed

end

sublocale vecdoc_map \<subseteq> adapter: shuttle A vecdoc_chan_ops "vecdoc_postings ds P" ainv afresh
  by (rule adapter_laws)

text \<open>The adapter over a gate, for any two key arrays.\<close>

lemma gate_bound_nonneg:
  "gate_inv ks lo hi s \<Longrightarrow> gate_keys_ok ks \<Longrightarrow> gate_postings ks lo = Some v \<Longrightarrow>
   fle fzero (fst (block_max (fuse_shuttle_ops gate_shuttle_ops) s))"
proof -
  assume i: "gate_inv ks lo hi s" and k: "gate_keys_ok ks" and v: "gate_postings ks lo = Some v"
  have "v = fzero" "hi = lo" using i v by (auto simp: gate_inv_def Let_def gate_postings_def split: if_splits)
  then show ?thesis
    using shuttle.bound_on [OF gate_shuttle_laws [OF k] i v, of "{lo}"] v
    by (simp add: covers_def contrib_at_def)
qed

interpretation vecdoc_gate: vecdoc_map UNIV "fuse_shuttle_ops gate_shuttle_ops"
  "gate_postings (Rep_gate_keys K)" "gate_inv (Rep_gate_keys K)" "gate_fresh (Rep_gate_keys K)"
  A "Rep_gate_keys D" True
  for A K D
proof unfold_locales
  show "gate_keys_ok (Rep_gate_keys D)" using Rep_gate_keys by simp
  show "case lane_of (Rep_gate_keys D) (ucast q) of None \<Rightarrow> True | Some l \<Rightarrow> of_nat l \<in> UNIV" for q
    by (simp split: option.split)
  show "fle fzero (fst (block_max (fuse_shuttle_ops gate_shuttle_ops) s))"
    if "gate_inv (Rep_gate_keys K) lo hi s" "gate_postings (Rep_gate_keys K) lo = Some v" for lo hi s v
    using gate_bound_nonneg [OF that(1) _ that(2)] Rep_gate_keys by simp
qed

text \<open>The adapter over any channel: the contract itself is the invariant.\<close>

lemma contract_is_shuttle: "shuttle LA vt P (standing LA vt P) (opens LA vt P)"
proof
  fix s t assume "opens LA vt P s" "t \<noteq> FUSE_END"
  then show "\<exists>p be s'. seek vt s t = Some (p, be, s') \<and> next_at P t p \<and> (be = None \<longrightarrow> p = FUSE_END) \<and>
      standing LA vt P p (blk_end p be) s'"
    by (simp add: opens_def)
next
  fix lo hi s t assume st: "standing LA vt P lo hi s" and le: "lo \<le> t" and t: "t \<noteq> FUSE_END"
  show "\<exists>p be s'. seek vt s t = Some (p, be, s') \<and> next_at P t p \<and> (be = None \<longrightarrow> p = FUSE_END) \<and>
      standing LA vt P p (blk_end p be) s'"
    by (rule standing_seek [OF st le t]) blast
qed (auto intro: standing_score standing_block_max)

lemma vecdoc_opens:
  assumes "weave_vecdoc_chan_init i c ds = Inr d" and "length ds < 2 ^ 32"
    and "opens LA (ops c) P (cstate c)" and "cur c \<noteq> FUSE_END"
    and "\<forall>q\<in>A. \<exists>l. lane_of ds (ucast q) = Some l \<and> of_nat l \<in> LA"
  shows "opens A (ops d) (vecdoc_postings ds P) (cstate d)"
proof -
  note d = vecdoc_init_ok [OF assms(1,2)]
  have "vecdoc_map LA (ops c) P (standing LA (ops c) P) (opens LA (ops c) P) A ds False"
    by (rule vecdoc_map.intro [OF contract_is_shuttle], unfold_locales)
      (use d(1) assms(5) in \<open>auto split: option.splits\<close>)
  from shuttle.fresh_opens [OF vecdoc_map.adapter_laws [OF this]] show ?thesis
    using assms(2-4) d
    by (simp add: vecdoc_map.afresh_def [OF \<open>vecdoc_map _ _ _ _ _ _ _ _\<close>]
        vecdoc_map.over_def [OF \<open>vecdoc_map _ _ _ _ _ _ _ _\<close>] unat_of_nat take_bit_nat_eq_self)
qed

subsection \<open>Properties\<close>

text \<open>
  The adapter accepts a lane map exactly when it has a lane, is strictly ascending and its last
  document id is a warp position below the end sentinel, and it takes over the inner channel's
  ceiling, weight and mandatoriness unchanged.
\<close>

theorem vecdoc_init_exact:
  "(case weave_vecdoc_chan_init i c ds of
      Inl e \<Rightarrow> \<not> (ds \<noteq> [] \<and> sorted_wrt (<) ds \<and> last ds < ucast FUSE_END)
    | Inr d \<Rightarrow> ds \<noteq> [] \<and> sorted_wrt (<) ds \<and> last ds < ucast FUSE_END \<and> docid (cstate d) = ds \<and>
        maxscore d = maxscore c \<and> weight d = weight c \<and> required d = required c)"
  by (auto simp: weave_vecdoc_chan_init_def ascending_sorted not_le dest: leD)

text \<open>
  C9: the adapter over a channel that keeps the shuttle contract in lane space keeps it in document
  id space: it seeks to the first carried document at or after its target, scores it as the inner
  channel scores its lane, and publishes a bound that covers every carried document of its block.
\<close>

theorem vecdoc_keeps_contract:
  assumes "weave_vecdoc_chan_init i c ds = Inr d" and "length ds < 2 ^ 32"
    and "opens LA (ops c) P (cstate c)" and "cur c \<noteq> FUSE_END"
    and "\<forall>q\<in>A. \<exists>l. lane_of ds (ucast q) = Some l \<and> of_nat l \<in> LA"
  shows "opens A (ops d) (vecdoc_postings ds P) (cstate d)"
  using vecdoc_opens [OF assms] .

theorem vecdoc_keeps_contract_witness:
  "\<exists>s d. weave_gate_shuttle_begin CH_FUZZY [0, 2] = Inr s \<and>
     weave_vecdoc_chan_init 1
       \<lparr>ops = fuse_shuttle_ops gate_shuttle_ops, cid = 0, cur = 0, blkend = 0, maxscore = PInf,
        weight = fone, required = True, cstate = s, nseek = 0, nscore = 0, nbmax = 0\<rparr> [10, 20, 30] = Inr d \<and>
     opens {10, 20, 30} (ops d) (vecdoc_postings [10, 20, 30] (gate_postings [0, 2])) (cstate d)"
proof -
  obtain s where s: "weave_gate_shuttle_begin CH_FUZZY [0, 2] = Inr s"
    by (simp add: weave_gate_shuttle_begin_def weave_gate_check_keys_def)
  let ?c = "\<lparr>ops = fuse_shuttle_ops gate_shuttle_ops, cid = 0, cur = 0, blkend = 0, maxscore = PInf,
        weight = fone, required = True, cstate = s, nseek = 0, nscore = 0, nbmax = 0\<rparr>"
  obtain d where d: "weave_vecdoc_chan_init 1 ?c [10, 20, 30] = Inr d"
    by (simp add: weave_vecdoc_chan_init_def)
  have "opens UNIV (ops ?c) (gate_postings [0, 2]) (cstate ?c)" using gate_opens [OF s] by simp
  from vecdoc_keeps_contract [OF d _ this, of "{10, 20, 30}"] show ?thesis
    using s d by (simp add: lane_of_def Let_def)
qed

end
