(* ===== verification/Weave_Filter.thy ===== *)
theory Weave_Filter
  imports Weave_Scan Weave_Vecdoc
begin

text \<open>
  Gates inside the fused core: shuttles opened over key arrays, wrapped into channels, scanned and
  drained. Where \<open>Weave_Scan\<close> assumes the contract, here every channel is the code's own gate and the
  assumption is discharged by the interpretation of \<open>Weave_Gate\<close>.
\<close>

subsection \<open>Wrapping shuttles\<close>

definition wrapped :: "nat \<Rightarrow> 'x shuttle_ops \<times> 'x shuttle \<Rightarrow> 'x shuttle chan" where
  "wrapped i x =
     \<lparr>ops = fuse_shuttle_ops (fst x), cid = i, cur = 0, blkend = 0, maxscore = smaxscore (snd x),
      weight = sweight (snd x), required = srequired (snd x), cstate = snd x,
      nseek = 0, nscore = 0, nbmax = 0\<rparr>"

lemma wrap_from_Inr:
  "wrap_from i ss = Inr cs \<longleftrightarrow>
     (\<forall>x\<in>set ss. fuse_finite (sweight (snd x)) \<and> \<not> fle (sweight (snd x)) fzero) \<and>
     cs = map (\<lambda>j. wrapped (i + j) (ss ! j)) [0..<length ss]"
proof (induction i ss arbitrary: cs rule: wrap_from.induct)
  case (2 i so s ss)
  have split: "map (\<lambda>j. wrapped (i + j) (((so, s) # ss) ! j)) [0..<length ((so, s) # ss)] =
      wrapped i (so, s) # map (\<lambda>j. wrapped (Suc i + j) (ss ! j)) [0..<length ss]"
    by (simp add: upt_conv_Cons map_Suc_upt [symmetric] comp_def del: upt_Suc)
  have bad: "sweight s \<in> {NaN, NInf, PInf} \<or> fle (sweight s) fzero \<longleftrightarrow>
      \<not> (fuse_finite (sweight s) \<and> \<not> fle (sweight s) fzero)"
    by (auto simp: fuse_finite_def fuse_isnan_def)
  show ?case
  proof (cases "sweight s \<in> {NaN, NInf, PInf} \<or> fle (sweight s) fzero")
    case True
    then show ?thesis using True [unfolded bad] by auto
  next
    case False
    note ih = "2.IH" [OF False]
    have eq: "wrap_from i ((so, s) # ss) = (case wrap_from (Suc i) ss of Inl e \<Rightarrow> Inl e
        | Inr cs \<Rightarrow> Inr (wrapped i (so, s) # cs))"
      using False by (simp add: wrapped_def cong: sum.case_cong)
    show ?thesis
    proof (cases "wrap_from (Suc i) ss")
      case (Inl e)
      then have "\<not> (\<forall>x\<in>set ss. fuse_finite (sweight (snd x)) \<and> \<not> fle (sweight (snd x)) fzero)"
        using ih [of "map (\<lambda>j. wrapped (Suc i + j) (ss ! j)) [0..<length ss]"] by simp
      then show ?thesis unfolding eq using Inl by auto
    next
      case (Inr ds)
      then have ok: "\<forall>x\<in>set ss. fuse_finite (sweight (snd x)) \<and> \<not> fle (sweight (snd x)) fzero"
        and ds: "ds = map (\<lambda>j. wrapped (Suc i + j) (ss ! j)) [0..<length ss]"
        using ih [of ds] by blast+
      have here: "fuse_finite (sweight s) \<and> \<not> fle (sweight s) fzero" using False [unfolded bad] by blast
      show ?thesis unfolding eq split Inr ds [symmetric]
        using ok here by (simp add: eq_commute [of cs])
    qed
  qed
qed auto

text \<open>
  Wrapping checks the shuttles' weights once: a list of shuttles that \<open>weave_fuse_wrap_shuttles\<close>
  accepts is accepted by \<open>weave_fuse_init\<close> for every \<open>k\<close> of at least one, up to the ceilings of the
  shuttles that are scored.
\<close>

theorem wrap_shuttles_then_init:
  assumes "weave_fuse_wrap_shuttles ss = Inr cs" and "1 \<le> k"
    and "\<forall>x\<in>set ss. srequired (snd x) \<or> fuse_finite (smaxscore (snd x))"
  shows "length cs = length ss \<and> (\<exists>st. weave_fuse_init cs k lv n = Inr st)"
proof -
  have cs: "\<forall>x\<in>set ss. fuse_finite (sweight (snd x)) \<and> \<not> fle (sweight (snd x)) fzero"
    "cs = map (\<lambda>j. wrapped j (ss ! j)) [0..<length ss]" "1 \<le> length ss" "length ss \<le> 64"
    using assms(1) by (auto simp: weave_fuse_wrap_shuttles_def wrap_from_Inr Suc_le_eq split: if_splits)
  have "\<exists>p. classify cs = Inr p"
    unfolding classify_accepts using cs(1) assms(3) by (auto simp: cs(2) wrapped_def)
  then show ?thesis using cs(3,4) assms(2) by (auto simp: weave_fuse_init_def Let_def cs(2))
qed

theorem wrap_shuttles_then_init_witness:
  "\<exists>s cs st. weave_gate_shuttle_begin CH_FUZZY [2, 5, 9] = Inr s \<and>
     weave_fuse_wrap_shuttles [(gate_shuttle_ops, s)] = Inr cs \<and> weave_fuse_init cs 3 None 10 = Inr st"
proof -
  obtain s where s: "weave_gate_shuttle_begin CH_FUZZY [2, 5, 9] = Inr s" "srequired s"
    "sweight s = fone"
    by (simp add: weave_gate_shuttle_begin_def weave_gate_check_keys_def)
  moreover from this obtain cs where "weave_fuse_wrap_shuttles [(gate_shuttle_ops, s)] = Inr cs"
    by (simp add: weave_fuse_wrap_shuttles_def)
  ultimately show ?thesis
    using wrap_shuttles_then_init [of "[(gate_shuttle_ops, s)]" cs 3 None 10] by auto
qed

subsection \<open>A conjunction of gates\<close>

definition gate_opened :: "channel_kind \<times> u64 list \<Rightarrow> gate_cursor shuttle \<Rightarrow> bool" where
  "gate_opened g s \<longleftrightarrow> weave_gate_shuttle_begin (fst g) (snd g) = Inr s \<and> length (snd g) < 2 ^ 32"

lemma gate_opened_chan:
  assumes "gate_opened g s"
  shows "opens A (fuse_shuttle_ops gate_shuttle_ops) (gate_postings (snd g)) s"
    and "srequired s" "sweight s = fone"
  using assms gate_opens [of "fst g" "snd g" s A]
  by (simp_all add: gate_opened_def) (auto simp: weave_gate_shuttle_begin_def split: if_splits sum.splits)

lemma spec_doc_gates:
  assumes "\<forall>c\<in>set cs. required c \<and> weight c = fone \<and> (\<exists>g\<in>set gs. post (cid c) = gate_postings (snd g))"
  shows "spec_doc post cs q fzero r =
    (if \<forall>c\<in>set cs. post (cid c) q \<noteq> None then Some (fzero, r) else None)"
  using assms
proof (induction cs arbitrary: r)
  case (Cons c cs)
  have "v = fzero" if "post (cid c) q = Some v" for v
    using that Cons.prems by (auto simp: gate_postings_def split: if_splits)
  moreover have "fadd fzero fzero = fzero" "fmul fone fzero = fzero" by simp_all
  ultimately show ?case using Cons by (cases "post (cid c) q") auto
qed simp

lemma hits_of_const:
  "hits_of (\<lambda>p. if Q p then Some s else None) ps = map (\<lambda>p. \<lparr>hwarp = p, hscore = s\<rparr>) (filter Q ps)"
  by (induction ps) (auto simp: hits_of_def)

lemma best_first_ties:
  assumes "sorted_wrt (<) ps"
  shows "best_first (map (\<lambda>p. \<lparr>hwarp = p, hscore = s\<rparr>) ps) = map (\<lambda>p. \<lparr>hwarp = p, hscore = s\<rparr>) ps"
proof (rule best_first_unique)
  have "sorted_wrt (\<lambda>x y. hkey \<lparr>hwarp = y, hscore = s\<rparr> \<le> hkey \<lparr>hwarp = x, hscore = s\<rparr>) ps"
    by (rule sorted_wrt_mono_rel [OF _ assms]) (auto simp: hkey_def word_less_def)
  then show "sorted (map hkey (rev (map (\<lambda>p. \<lparr>hwarp = p, hscore = s\<rparr>) ps)))"
    by (simp add: sorted_wrt_map sorted_wrt_rev rev_map [symmetric])
qed simp

text \<open>
  C6: a scan whose channels are all gates is the filter it stands for. It returns the \<open>k\<close> lowest live
  warp positions that every key array contains, in ascending order, each with score 0, and nothing
  else, whatever the prunes skip.
\<close>

theorem gate_conjunction_scan:
  assumes "list_all2 gate_opened gs ss"
    and "weave_fuse_wrap_shuttles (map (Pair gate_shuttle_ops) ss) = Inr chans"
    and "weave_fuse_init chans k lv n = Inr st"
  shows "\<exists>st'. weave_fuse_run st = Inr st' \<and>
    snd (weave_fuse_drain st') =
      take (nat k) (map (\<lambda>p. \<lparr>hwarp = p, hscore = fzero\<rparr>)
        (filter (\<lambda>p. live_at lv n p \<and> (\<forall>g\<in>set gs. ucast p \<in> set (snd g))) (positions 0 n)))"
proof -
  let ?post = "\<lambda>i. gate_postings (snd (gs ! i))"
  have len: "length ss = length gs" and op: "\<forall>j<length gs. gate_opened (gs ! j) (ss ! j)"
    using assms(1) by (auto simp: list_all2_conv_all_nth)
  have ch: "chans = map (\<lambda>j. wrapped j (gate_shuttle_ops, ss ! j)) [0..<length gs]"
    using assms(2) len by (auto simp: weave_fuse_wrap_shuttles_def wrap_from_Inr split: if_splits)
  have parts: "\<forall>j<length gs. opens A (fuse_shuttle_ops gate_shuttle_ops) (?post j) (ss ! j) \<and>
      srequired (ss ! j) \<and> sweight (ss ! j) = fone" for A
    using op gate_opened_chan by blast
  have "\<forall>c\<in>set chans. fused_chan ?post A 0 c" for A
    using parts by (auto simp: ch fused_chan_def wrapped_def good_required_def pos_weight_def
        gate_postings_def split: if_splits)
  note result = fused_scan_result(1) [OF assms(3) _ this]
  have rq: "sc st = [] \<and> rq st = map reset_chan chans"
  proof -
    obtain r s where cl: "classify chans = Inr (r, s)" "rq st = r" "sc st = map fst (fuse_sort_scored s)"
      using assms(3) by (auto simp: weave_fuse_init_def Let_def split: if_splits sum.splits)
    have "\<forall>c\<in>set chans. required c" using parts by (auto simp: ch wrapped_def)
    then show ?thesis using classify_parts [OF cl(1)] cl(2,3) by (auto simp: fuse_sort_scored_def)
  qed
  have all: "(\<forall>c\<in>set (rq st). ?post (cid c) q \<noteq> None) \<longleftrightarrow> (\<forall>g\<in>set gs. ucast q \<in> set (snd g))" for q
    by (auto simp: rq ch wrapped_def all_set_conv_all_nth gate_postings_def split: if_splits)
  have "spec_doc ?post (rq st) q fzero False =
      (if \<forall>g\<in>set gs. ucast q \<in> set (snd g) then Some (fzero, False) else None)" for q
    unfolding all [symmetric]
    by (rule spec_doc_gates [of _ gs]) (use parts in \<open>auto simp: rq ch wrapped_def\<close>)
  then have "cand ?post (rq st @ sc st) (length (sc st)) lv n =
      (\<lambda>p. if live_at lv n p \<and> (\<forall>g\<in>set gs. ucast p \<in> set (snd g)) then Some fzero else None)"
    by (auto simp: cand_def rq fun_eq_iff)
  then show ?thesis using result
    by (simp add: hits_of_const best_first_ties sorted_wrt_filter sorted_positions)
qed

theorem gate_conjunction_scan_witness:
  "\<exists>ss chans st st'. list_all2 gate_opened [(CH_FUZZY, [2, 5, 9]), (CH_REGEX, [5, 9, 11])] ss \<and>
     weave_fuse_wrap_shuttles (map (Pair gate_shuttle_ops) ss) = Inr chans \<and>
     weave_fuse_init chans 1 None 16 = Inr st \<and> weave_fuse_run st = Inr st' \<and>
     snd (weave_fuse_drain st') = [\<lparr>hwarp = 5, hscore = fzero\<rparr>]"
proof -
  let ?gs = "[(CH_FUZZY, [2, 5, 9]), (CH_REGEX, [5, 9, 11])] :: (channel_kind \<times> u64 list) list"
  obtain s t where s: "gate_opened (CH_FUZZY, [2, 5, 9]) s" and t: "gate_opened (CH_REGEX, [5, 9, 11]) t"
    by (simp add: gate_opened_def weave_gate_shuttle_begin_def weave_gate_check_keys_def)
  have w: "srequired s" "sweight s = fone" "srequired t" "sweight t = fone"
    using gate_opened_chan [OF s] gate_opened_chan [OF t] by auto
  then obtain chans where c: "weave_fuse_wrap_shuttles (map (Pair gate_shuttle_ops) [s, t]) = Inr chans"
    by (simp add: weave_fuse_wrap_shuttles_def)
  have "fuse_finite fone" "\<not> fle fone fzero" by (simp_all add: fuse_finite_def fuse_isnan_def)
  moreover have "classify chans = Inr (map reset_chan chans, [])"
    using c w calculation by (auto simp: weave_fuse_wrap_shuttles_def)
  ultimately obtain st where st: "weave_fuse_init chans 1 None 16 = Inr st"
    using c w by (auto simp: weave_fuse_wrap_shuttles_def weave_fuse_init_def Let_def)
  have o: "list_all2 gate_opened ?gs [s, t]" using s t by simp
  have "take (nat 1) (map (\<lambda>p. \<lparr>hwarp = p, hscore = fzero\<rparr>)
      (filter (\<lambda>p. live_at None 16 p \<and> (\<forall>g\<in>set ?gs. ucast p \<in> set (snd g))) (positions 0 16))) =
      [\<lparr>hwarp = 5, hscore = fzero\<rparr>]"
    by (simp add: positions_def upt_rec live_at_def)
  with gate_conjunction_scan [OF o c st] obtain st' where
    "weave_fuse_run st = Inr st'" "snd (weave_fuse_drain st') = [\<lparr>hwarp = 5, hscore = fzero\<rparr>]" by auto
  then show ?thesis using o c st by blast
qed

subsection \<open>A document-id adapter with negative bounds\<close>

text \<open>
  A vector channel scores by negated distance, so its bounds are negative. Here its weft carries the
  documents 1 and 3 in one block of bound -2; the other channel carries 0, 1 and 2 with the scores 1,
  2 and 2, its documents 1 and 2 in one block of bound 2. Every bound and both ceilings are exact.
\<close>

definition vecdoc_neg_chans :: "(vecdoc_error + u32 vecdoc chan) list" where
  "vecdoc_neg_chans =
     [weave_vecdoc_chan_init 0
        (arr_chan 0 False (whole 1) (whole 0)
          [\<lparr>epos = 0, eend = 1, ebound = whole (- 2), escore = whole (- 2)\<rparr>,
           \<lparr>epos = 1, eend = 1, ebound = whole (- 2), escore = whole (- 2)\<rparr>]) [1, 3],
      weave_vecdoc_chan_init 1
        (arr_chan 1 False (whole 1) (whole 2)
          [entry_at 0 1, \<lparr>epos = 1, eend = 2, ebound = whole 2, escore = whole 2\<rparr>, entry_at 2 2])
        [0, 1, 2]]"

text \<open>
  The adapter's block bound does not cover the documents of its interval that its weft does not
  carry when it is negative: the block skip at document 1 takes document 2 with it, which only the
  other channel carries, and the scan returns document 0 with score 1 where the reference returns
  document 2 with score 2.
\<close>

theorem fused_vecdoc_negative_bounds:
  "\<exists>c1 c2 st st'. vecdoc_neg_chans = [Inr c1, Inr c2] \<and> weave_fuse_init [c1, c2] 1 None 4 = Inr st \<and>
     weave_fuse_run st = Inr st' \<and>
     snd (weave_fuse_drain st') = [\<lparr>hwarp = 0, hscore = whole 1\<rparr>] \<and>
     weave_fuse_reference [c1, c2] None 4 1 = Inr [\<lparr>hwarp = 2, hscore = whole 2\<rparr>]"
  by (simp add: vecdoc_neg_chans_def scan_eval weave_vecdoc_chan_init_def vecdoc_chan_ops_def
      vecdoc_seek_def vecdoc_block_max_def vecdoc_score_def weave_vecdoc_lower_bound_def bisect.simps)

end
