(* ===== verification/Weave_For.thy ===== *)
theory Weave_For
  imports Weave_Float32
begin

text \<open>
  \<open>include/weave/for.h\<close>: the frame-of-reference bit-packing of a posting block's columns, its random
  access, the one-byte quantization of document lengths, and the gated walk over a doclen block.
  A buffer is a list of bytes. A read outside of it is undefined behaviour in C: here it makes the
  whole operation return \<open>None\<close>, and the theorems show where it does not happen. Values are 64-bit
  words, bit offsets natural numbers. The code computes them in \<open>int\<close>: a column of a posting block has at
  most 128 values, far from the range of \<open>int\<close>; for the one column with no such bound, the positions of a block,
  the writer goes through \<open>int_pack\<close>, which fails where the C arithmetic overflows.
\<close>

subsection \<open>Packing\<close>

function weave_bitwidth :: "u64 \<Rightarrow> nat" where
  "weave_bitwidth maxval = (if maxval \<noteq> 0 then Suc (weave_bitwidth (drop_bit 1 maxval)) else 0)"
  by pat_completeness auto
termination
  by (relation "measure unat") (auto simp: drop_bit_eq_div unat_div word_greater_zero_iff unat_gt_0 div_less_dividend)

declare weave_bitwidth.simps [simp del]

definition set_stream_bit :: "u8 list \<Rightarrow> nat \<Rightarrow> u8 list" where
  "set_stream_bit buf a = buf[1 + a div 8 := (buf ! (1 + a div 8)) OR push_bit (a mod 8) 1]"

definition pack_value :: "nat \<Rightarrow> u64 \<Rightarrow> nat \<Rightarrow> u8 list \<Rightarrow> u8 list" where
  "pack_value width v bitpos buf =
     foldl (\<lambda>buf b. if v AND push_bit b 1 \<noteq> 0 then set_stream_bit buf (bitpos + b) else buf)
       buf [0..<width]"

fun pack_values :: "nat \<Rightarrow> u64 list \<Rightarrow> nat \<Rightarrow> u8 list \<Rightarrow> u8 list" where
  "pack_values width [] bitpos buf = buf"
| "pack_values width (v # vs) bitpos buf =
     pack_values width vs (bitpos + width) (pack_value width v bitpos buf)"

definition max_value :: "u64 list \<Rightarrow> u64" where
  "max_value vals = foldl (\<lambda>m v. if m < v then v else m) 0 vals"

definition weave_for_pack :: "u64 list \<Rightarrow> u8 list" where
  "weave_for_pack vals =
     (let width = weave_bitwidth (max_value vals)
      in if width = 0 then [of_nat width]
         else pack_values width vals 0
                (of_nat width # replicate ((length vals * width + 7) div 8) 0))"

definition int_pack :: "u64 list \<Rightarrow> u8 list option" where
  \<comment> \<open>\<open>weave_for_pack\<close> in the arithmetic of C: \<open>None\<close> where \<open>n\<close>, \<open>n * width\<close> or the byte count is no \<open>int\<close>\<close>
  "int_pack vals =
     (if length vals < 2 ^ 31 \<and> length vals * weave_bitwidth (max_value vals) + 7 < 2 ^ 31
      then Some (weave_for_pack vals) else None)"

subsection \<open>Reading\<close>

definition byte_at :: "u8 list \<Rightarrow> nat \<Rightarrow> u64 option" where
  "byte_at bits k = (if k < length bits then Some (ucast (bits ! k)) else None)"

fun load_le :: "u8 list \<Rightarrow> nat \<Rightarrow> nat \<Rightarrow> u64 option" where
  \<comment> \<open>\<open>nb\<close> bytes from \<open>byte\<close> on, the loop that or-s them into a word\<close>
  "load_le bits byte 0 = Some 0"
| "load_le bits byte (Suc k) =
     (case load_le bits byte k of None \<Rightarrow> None
      | Some w \<Rightarrow>
          (case byte_at bits (byte + k) of None \<Rightarrow> None
           | Some x \<Rightarrow> Some (w OR push_bit (k * 8) x)))"

definition value_mask :: "nat \<Rightarrow> u64" where
  "value_mask width = (if 64 \<le> width then NOT 0 else push_bit width 1 - 1)"

definition unpack_value :: "nat \<Rightarrow> u8 list \<Rightarrow> nat \<Rightarrow> u64 option" where
  \<comment> \<open>the loop body of \<open>weave_for_unpack\<close>\<close>
  "unpack_value width bits bitpos =
     (let byte = bitpos div 8; shift = bitpos mod 8; mask = value_mask width
      in if shift + width \<le> 64
         then map_option (\<lambda>w. drop_bit shift w AND mask) (load_le bits byte ((shift + width + 7) div 8))
         else case load_le bits byte 8 of None \<Rightarrow> None
           | Some lo \<Rightarrow>
               (case byte_at bits (byte + 8) of None \<Rightarrow> None
                | Some hi \<Rightarrow>
                    Some (if shift = 0 then lo AND mask
                          else (drop_bit shift lo OR push_bit (64 - shift) hi) AND mask)))"

fun unpack_from :: "nat \<Rightarrow> u8 list \<Rightarrow> nat \<Rightarrow> nat \<Rightarrow> u64 list option" where
  "unpack_from width bits bitpos 0 = Some []"
| "unpack_from width bits bitpos (Suc n) =
     (case unpack_value width bits bitpos of None \<Rightarrow> None
      | Some v \<Rightarrow> map_option (\<lambda>vs. v # vs) (unpack_from width bits (bitpos + width) n))"

definition weave_for_unpack :: "u8 list \<Rightarrow> nat \<Rightarrow> (u64 list \<times> nat) option" where
  \<comment> \<open>the values and the number of bytes consumed\<close>
  "weave_for_unpack buf n =
     (let width = unat (hd buf)
      in if buf = [] then None
         else if width = 0 then Some (replicate n 0, 1)
         else map_option (\<lambda>vs. (vs, 1 + (n * width + 7) div 8)) (unpack_from width (tl buf) 0 n))"

definition weave_for_bytelen :: "u8 list \<Rightarrow> nat \<Rightarrow> nat" where
  "weave_for_bytelen buf n =
     (let width = unat (hd buf) in if width = 0 then 1 else 1 + (n * width + 7) div 8)"

definition weave_for_get :: "u8 list \<Rightarrow> nat \<Rightarrow> u64 option" where
  "weave_for_get buf i =
     (if buf = [] then None
      else
        let width = unat (hd buf)
        in if width = 0 then Some 0
           else
             let bits = tl buf; bitpos = i * width; byte = bitpos div 8; shift = bitpos mod 8;
                 mask = (if 64 \<le> width then NOT 0 else push_bit width 1 - 1)
             in if shift + width \<le> 64
                then map_option (\<lambda>w. drop_bit shift w AND mask) (load_le bits byte ((shift + width + 7) div 8))
                else case load_le bits byte 8 of None \<Rightarrow> None
                  | Some lo \<Rightarrow>
                      if shift = 0 then Some (lo AND mask)
                      else map_option (\<lambda>hi. (drop_bit shift lo OR push_bit (64 - shift) hi) AND mask)
                             (byte_at bits (byte + 8)))"

subsection \<open>The bit stream\<close>

definition stream_bit :: "u8 list \<Rightarrow> nat \<Rightarrow> bool" where
  "stream_bit bits p \<longleftrightarrow> bit (bits ! (p div 8)) (p mod 8)"

lemma weave_bitwidth_eq: "weave_bitwidth m = bit_length (unat m)"
proof (induction m rule: weave_bitwidth.induct)
  case (1 m)
  show ?case
  proof (cases "m = 0")
    case False
    then have "0 < unat m" by (simp add: unat_gt_0)
    moreover have "unat (drop_bit 1 m) = unat m div 2" by (simp add: drop_bit_eq_div unat_div)
    ultimately show ?thesis
      using 1 False by (subst weave_bitwidth.simps) (simp add: bit_length_pos)
  qed (subst weave_bitwidth.simps, simp)
qed

lemma bitwidth_le_iff: "weave_bitwidth m \<le> b \<longleftrightarrow> unat m < 2 ^ b"
  by (simp add: weave_bitwidth_eq bit_length_le_iff)

lemma bitwidth_64: "weave_bitwidth m \<le> 64"
  using unsigned_less [of m, where ?'a = nat] by (simp add: bitwidth_le_iff)

lemma max_value_ge: "v \<in> set vals \<Longrightarrow> v \<le> max_value vals"
proof -
  have "m \<le> foldl (\<lambda>m v. if m < v then v else m) m vals \<and>
      (\<forall>v\<in>set vals. v \<le> foldl (\<lambda>m v. if m < v then v else m) m vals)" for m :: u64
  proof (induction vals arbitrary: m)
    case (Cons x xs)
    show ?case
    proof (cases "m < x")
      case True
      then have "m \<le> foldl (\<lambda>m v. if m < v then v else m) x xs"
        using Cons.IH [of x] by (meson order_trans order_less_imp_le)
      then show ?thesis using True Cons.IH [of x] by simp
    next
      case False
      then have "x \<le> foldl (\<lambda>m v. if m < v then v else m) m xs"
        using Cons.IH [of m] by (meson order_trans not_less)
      then show ?thesis using False Cons.IH [of m] by simp
    qed
  qed simp
  then show "v \<in> set vals \<Longrightarrow> v \<le> max_value vals" by (simp add: max_value_def)
qed

lemma bit_above_width:
  assumes "unat (v::u64) < 2 ^ w" and "w \<le> b"
  shows "\<not> bit v b"
proof -
  have "unat v < 2 ^ b" using assms power_increasing [OF assms(2), of "2::nat"] by linarith
  then have "\<not> bit (unat v) b" by (simp add: bit_iff_odd)
  then show ?thesis by (simp add: bit_unsigned_iff)
qed

lemma load_le_bits:
  assumes "load_le bits byte nb = Some w" and "nb \<le> 8" and "p < 64"
  shows "bit w p \<longleftrightarrow> p < 8 * nb \<and> bit (bits ! (byte + p div 8)) (p mod 8)"
  using assms(1,2)
proof (induction nb arbitrary: w)
  case 0
  then show ?case by simp
next
  case (Suc k)
  obtain w0 where w0: "load_le bits byte k = Some w0" and len: "byte + k < length bits"
    and w: "w = w0 OR push_bit (k * 8) (ucast (bits ! (byte + k)))"
    using Suc.prems(1) by (auto simp: byte_at_def split: option.splits if_splits)
  have "bit (push_bit (k * 8) (ucast (bits ! (byte + k)) :: u64)) p \<longleftrightarrow>
      k * 8 \<le> p \<and> p < 8 * Suc k \<and> bit (bits ! (byte + k)) (p - k * 8)"
    using assms(3) by (auto simp: bit_push_bit_iff bit_ucast_iff dest: bit_imp_le_length)
  moreover have "p div 8 = k \<and> p mod 8 = p - k * 8" if "k * 8 \<le> p" "p < 8 * Suc k"
  proof -
    have "p div 8 = k" using that by (intro div_nat_eqI) simp_all
    then show ?thesis using that minus_mod_eq_div_mult [of p 8] by (simp add: modulo_nat_def)
  qed
  ultimately show ?case
    using Suc.IH [OF w0] Suc.prems(2) unfolding w bit_or_iff
    by (cases "k * 8 \<le> p \<and> p < 8 * Suc k") (auto simp: not_le)
qed

lemma load_le_Some: "byte + nb \<le> length bits \<Longrightarrow> \<exists>w. load_le bits byte nb = Some w"
  by (induction nb) (auto simp: byte_at_def)

lemma bit_value_mask: "bit (value_mask width) b \<longleftrightarrow> b < width \<and> b < 64"
proof (cases "64 \<le> width")
  case True
  then show ?thesis by (auto simp: value_mask_def dest: bit_imp_le_length)
next
  case False
  then have "value_mask width = mask width" by (simp add: value_mask_def mask_eq_exp_minus_1)
  then show ?thesis by (auto simp: bit_mask_iff dest: bit_imp_le_length)
qed

lemma unpack_value_ok:
  assumes w: "0 < width" "width \<le> 64" and len: "bitpos + width \<le> 8 * length bits"
  shows "\<exists>v. unpack_value width bits bitpos = Some v \<and>
    (\<forall>b. bit v b \<longleftrightarrow> b < width \<and> stream_bit bits (bitpos + b))"
proof -
  let ?byte = "bitpos div 8" and ?sh = "bitpos mod 8"
  have bp: "bitpos = 8 * ?byte + ?sh" and sh: "?sh < 8" by simp_all
  have pos: "(bitpos + b) div 8 = ?byte + (?sh + b) div 8" "(bitpos + b) mod 8 = (?sh + b) mod 8" for b
  proof -
    have "bitpos + b = 8 * ?byte + (?sh + b)" by simp
    then show "(bitpos + b) div 8 = ?byte + (?sh + b) div 8" by (metis div_mult_self4 zero_neq_numeral)
    show "(bitpos + b) mod 8 = (?sh + b) mod 8" by (simp add: mod_add_left_eq)
  qed
  show ?thesis
  proof (cases "?sh + width \<le> 64")
    case True
    let ?nb = "(?sh + width + 7) div 8"
    have nb: "?nb \<le> 8" using True by linarith
    have "?byte + ?nb \<le> length bits" using len bp by linarith
    then obtain x where x: "load_le bits ?byte ?nb = Some x" using load_le_Some by blast
    have "bit (drop_bit ?sh x AND value_mask width) b \<longleftrightarrow> b < width \<and> stream_bit bits (bitpos + b)" for b
    proof (cases "b < width")
      case b: True
      then have "?sh + b < 64" "?sh + b < 8 * ?nb" using True by linarith+
      then show ?thesis
        using load_le_bits [OF x nb, of "?sh + b"] b w(2)
        by (simp add: bit_and_iff bit_drop_bit_eq bit_value_mask stream_bit_def pos)
    qed (simp add: bit_and_iff bit_value_mask)
    then show ?thesis using True x by (simp add: unpack_value_def Let_def)
  next
    case False
    then have sh0: "?sh \<noteq> 0" using w(2) by linarith
    have "?byte + 9 \<le> length bits" using len bp False by linarith
    then obtain lo where lo: "load_le bits ?byte 8 = Some lo" and hi: "?byte + 8 < length bits"
      using load_le_Some [of ?byte 8 bits] by auto
    let ?hi = "ucast (bits ! (?byte + 8)) :: u64"
    have "bit ((drop_bit ?sh lo OR push_bit (64 - ?sh) ?hi) AND value_mask width) b \<longleftrightarrow>
        b < width \<and> stream_bit bits (bitpos + b)" for b
    proof (cases "b < width")
      case b: True
      then have b64: "b < 64" using w(2) by simp
      show ?thesis
      proof (cases "?sh + b < 64")
        case True
        then show ?thesis
          using load_le_bits [OF lo _ True] b b64
          by (auto simp: bit_and_iff bit_or_iff bit_drop_bit_eq bit_push_bit_iff bit_value_mask stream_bit_def pos)
      next
        case no: False
        have d: "(?sh + b) div 8 = 8" "(?sh + b) mod 8 = b - (64 - ?sh)"
          using no b64 sh by (auto intro!: div_nat_eqI mod_nat_eqI)
        have "\<not> bit lo (?sh + b)" using no by (auto dest: bit_imp_le_length)
        moreover have "bit ?hi (b - (64 - ?sh)) \<longleftrightarrow> bit (bits ! (?byte + 8)) (b - (64 - ?sh))"
          using b64 by (auto simp: bit_ucast_iff)
        moreover have "64 - ?sh \<le> b" using no sh by linarith
        ultimately show ?thesis using b b64
          by (simp add: bit_and_iff bit_or_iff bit_drop_bit_eq bit_push_bit_iff bit_value_mask stream_bit_def pos d)
      qed
    qed (simp add: bit_and_iff bit_value_mask)
    then show ?thesis using False lo hi sh0 by (simp add: unpack_value_def Let_def byte_at_def)
  qed
qed

lemma get_unpack_value:
  assumes "0 < unat w" and "unat w \<le> 64"
  shows "weave_for_get (w # bits) i = unpack_value (unat w) bits (i * unat w)"
proof -
  have "(i * unat w) mod 8 + unat w \<le> 64" if "(i * unat w) mod 8 = 0" using assms(2) that by simp
  then show ?thesis
    using assms by (auto simp: weave_for_get_def unpack_value_def Let_def value_mask_def map_option_case
        split: option.splits)
qed

subsection \<open>Packing then reading\<close>

lemma set_stream_bit_length [simp]: "length (set_stream_bit buf a) = length buf"
  by (simp add: set_stream_bit_def)

lemma set_stream_bit_hd: "hd (set_stream_bit buf a) = hd buf"
  by (cases buf) (simp_all add: set_stream_bit_def)

lemma set_stream_bit_ok:
  assumes "1 + a div 8 < length buf"
  shows "stream_bit (tl (set_stream_bit buf a)) p \<longleftrightarrow> p = a \<or> stream_bit (tl buf) p"
proof -
  obtain w bits where buf: "buf = w # bits" and a: "a div 8 < length bits"
    using assms by (cases buf) auto
  have m: "a mod 8 < 8" by simp
  show ?thesis
  proof (cases "p div 8 = a div 8")
    case True
    then have "p = a \<longleftrightarrow> p mod 8 = a mod 8" by (metis div_mult_mod_eq)
    then show ?thesis using True a m
      by (auto simp: buf set_stream_bit_def stream_bit_def bit_or_iff bit_exp_iff)
  next
    case False
    then have "p \<noteq> a" by auto
    then show ?thesis using False by (simp add: buf set_stream_bit_def stream_bit_def)
  qed
qed

lemma pack_value_shape: "length (pack_value w v bp buf) = length buf" "hd (pack_value w v bp buf) = hd buf"
proof -
  have "length (foldl (\<lambda>buf b. if v AND push_bit b 1 \<noteq> 0 then set_stream_bit buf (bp + b) else buf) buf bs) =
      length buf \<and>
    hd (foldl (\<lambda>buf b. if v AND push_bit b 1 \<noteq> 0 then set_stream_bit buf (bp + b) else buf) buf bs) = hd buf" for bs
    by (induction bs arbitrary: buf) (auto simp: set_stream_bit_hd)
  then show "length (pack_value w v bp buf) = length buf" "hd (pack_value w v bp buf) = hd buf"
    by (auto simp: pack_value_def)
qed

lemma pack_value_ok:
  assumes "bp + w \<le> 8 * (length buf - 1)"
  shows "stream_bit (tl (pack_value w v bp buf)) p \<longleftrightarrow>
    stream_bit (tl buf) p \<or> (bp \<le> p \<and> p < bp + w \<and> bit v (p - bp))"
  using assms
proof (induction w)
  case 0
  then show ?case by (auto simp: pack_value_def)
next
  case (Suc w)
  let ?b = "pack_value w v bp buf"
  have step: "pack_value (Suc w) v bp buf =
      (if bit v w then set_stream_bit ?b (bp + w) else ?b)"
    by (simp add: pack_value_def bit_iff_and_push_bit_not_eq_0 [of v w])
  have "1 + (bp + w) div 8 < length ?b"
    using Suc.prems unfolding pack_value_shape by linarith
  note set = set_stream_bit_ok [OF this, of p]
  have IH: "stream_bit (tl ?b) p \<longleftrightarrow> stream_bit (tl buf) p \<or> (bp \<le> p \<and> p < bp + w \<and> bit v (p - bp))"
    using Suc by simp
  show ?case
  proof (cases "p = bp + w")
    case True
    then show ?thesis using IH set by (auto simp: step)
  next
    case False
    then show ?thesis using IH set by (auto simp: step)
  qed
qed

lemma pack_values_shape:
  "length (pack_values w vs bp buf) = length buf \<and> hd (pack_values w vs bp buf) = hd buf"
  by (induction w vs bp buf rule: pack_values.induct) (simp_all add: pack_value_shape)

lemma pack_values_below:
  assumes "bp + length vs * w \<le> 8 * (length buf - 1)" and "p < bp"
  shows "stream_bit (tl (pack_values w vs bp buf)) p = stream_bit (tl buf) p"
  using assms
proof (induction w vs bp buf rule: pack_values.induct)
  case (2 w v vs bp buf)
  have "stream_bit (tl (pack_values w vs (bp + w) (pack_value w v bp buf))) p =
      stream_bit (tl (pack_value w v bp buf)) p"
    by (rule 2(1)) (use 2 in \<open>auto simp: pack_value_shape algebra_simps\<close>)
  then show ?case using 2 pack_value_ok [of bp w buf v p] by auto
qed simp

lemma pack_values_ok:
  assumes "bp + length vs * w \<le> 8 * (length buf - 1)" and "i < length vs" and "b < w"
    and "\<forall>p\<ge>bp. p < 8 * (length buf - 1) \<longrightarrow> \<not> stream_bit (tl buf) p"
  shows "stream_bit (tl (pack_values w vs bp buf)) (bp + i * w + b) \<longleftrightarrow> bit (vs ! i) b"
  using assms
proof (induction w vs bp buf arbitrary: i rule: pack_values.induct)
  case (1 w bp buf)
  then show ?case by simp
next
  case (2 w v vs bp buf)
  let ?b = "pack_value w v bp buf"
  have fit: "bp + w \<le> 8 * (length buf - 1)" "bp + w + length vs * w \<le> 8 * (length ?b - 1)"
    using "2.prems"(1) by (simp_all add: pack_value_shape algebra_simps)
  note pv = pack_value_ok [OF fit(1)]
  show ?case
  proof (cases i)
    case 0
    have "stream_bit (tl (pack_values w vs (bp + w) ?b)) (bp + b) = stream_bit (tl ?b) (bp + b)"
      by (rule pack_values_below) (use fit(2) "2.prems"(3) in auto)
    moreover have "\<not> stream_bit (tl buf) (bp + b)" using "2.prems" fit(1) by simp
    ultimately show ?thesis using 0 pv [of v "bp + b"] "2.prems"(3) by simp
  next
    case (Suc k)
    have "stream_bit (tl (pack_values w vs (bp + w) ?b)) (bp + w + k * w + b) \<longleftrightarrow> bit (vs ! k) b"
      by (rule "2.IH") (use "2.prems" fit(2) Suc pv in \<open>auto simp: pack_value_shape\<close>)
    then show ?thesis using Suc by (simp add: algebra_simps)
  qed
qed

lemma weave_for_pack_get:
  assumes "i < length vals"
  shows "weave_for_get (weave_for_pack vals) i = Some (vals ! i)"
proof -
  let ?w = "weave_bitwidth (max_value vals)"
  have small: "unat (vals ! i) < 2 ^ ?w"
    using max_value_ge [of "vals ! i" vals] bitwidth_le_iff [of "max_value vals" ?w] assms
    by (simp add: word_le_nat_alt)
  show ?thesis
  proof (cases "?w = 0")
    case True
    then have "vals ! i = 0" using small by (simp add: unat_eq_zero)
    then show ?thesis using True by (simp add: weave_for_pack_def weave_for_get_def)
  next
    case False
    let ?n = "(length vals * ?w + 7) div 8"
    let ?buf = "of_nat ?w # replicate ?n (0::u8)"
    let ?p = "pack_values ?w vals 0 ?buf"
    have w64: "?w \<le> 64" by (rule bitwidth_64)
    then have uw: "unat (of_nat ?w :: u8) = ?w" by (simp add: unat_of_nat take_bit_nat_eq_self)
    have shape: "length ?p = Suc ?n" "hd ?p = of_nat ?w"
      using pack_values_shape [of ?w vals 0 ?buf] by simp_all
    then obtain bits where p: "?p = of_nat ?w # bits" and bl: "length bits = ?n" by (cases ?p) auto
    have fit: "0 + length vals * ?w \<le> 8 * (length ?buf - 1)" by simp
    have "Suc i * ?w \<le> length vals * ?w" using assms by (intro mult_le_mono1) simp
    then have "i * ?w + ?w \<le> 8 * length bits" using bl fit by simp
    then obtain v where v: "unpack_value ?w bits (i * ?w) = Some v"
      "\<And>b. bit v b \<longleftrightarrow> b < ?w \<and> stream_bit bits (i * ?w + b)"
      using unpack_value_ok [of ?w "i * ?w" bits] False w64 by auto
    have clear: "\<forall>p\<ge>0. p < 8 * (length ?buf - 1) \<longrightarrow> \<not> stream_bit (tl ?buf) p"
      by (auto simp: stream_bit_def)
    have "stream_bit bits (i * ?w + b) \<longleftrightarrow> bit (vals ! i) b" if "b < ?w" for b
      using pack_values_ok [OF fit assms that clear] p by simp
    then have "bit v b \<longleftrightarrow> bit (vals ! i) b" for b
      using v(2) [of b] bit_above_width [OF small, of b] by (cases "b < ?w") auto
    then have "v = vals ! i" by (intro bit_word_eqI) blast
    moreover have "weave_for_pack vals = ?p" using False by (simp add: weave_for_pack_def Let_def)
    ultimately show ?thesis using v(1) p False w64 uw get_unpack_value [of "of_nat ?w" bits i] by simp
  qed
qed

lemma pack_shape:
  "weave_for_pack vals \<noteq> []" "length (weave_for_pack vals) = weave_for_bytelen (weave_for_pack vals) (length vals)"
  "unat (hd (weave_for_pack vals)) = weave_bitwidth (max_value vals)"
proof -
  let ?w = "weave_bitwidth (max_value vals)"
  let ?buf = "of_nat ?w # replicate ((length vals * ?w + 7) div 8) (0::u8)"
  have uw: "unat (of_nat ?w :: u8) = ?w"
    using bitwidth_64 [of "max_value vals"] by (simp add: unat_of_nat take_bit_nat_eq_self)
  have sh: "length (pack_values ?w vals 0 ?buf) = length ?buf" "hd (pack_values ?w vals 0 ?buf) = of_nat ?w"
    using pack_values_shape [of ?w vals 0 ?buf] by simp_all
  show "weave_for_pack vals \<noteq> []" using sh(1) by (auto simp: weave_for_pack_def Let_def)
  show h: "unat (hd (weave_for_pack vals)) = ?w" using sh(2) uw by (simp add: weave_for_pack_def Let_def)
  show "length (weave_for_pack vals) = weave_for_bytelen (weave_for_pack vals) (length vals)"
    using h sh(1) by (simp add: weave_for_bytelen_def) (simp add: weave_for_pack_def Let_def)
qed

lemma unpack_from_get:
  assumes "0 < unat w" and "unat w \<le> 64"
    and "\<And>k. k < n \<Longrightarrow> weave_for_get (w # bits) (i + k) = Some (vs ! k)" and "length vs = n"
  shows "unpack_from (unat w) bits (i * unat w) n = Some vs"
  using assms(3,4)
proof (induction n arbitrary: i vs)
  case (Suc n)
  obtain v vs' where vs: "vs = v # vs'" using Suc.prems(2) by (cases vs) auto
  have "unpack_value (unat w) bits (i * unat w) = Some v"
    using Suc.prems(1) [of 0] vs get_unpack_value [OF assms(1,2), of bits i] by simp
  moreover have "unpack_from (unat w) bits (Suc i * unat w) n = Some vs'"
    by (rule Suc.IH) (use Suc.prems vs Suc.prems(1) [of "Suc k" for k] in auto)
  ultimately show ?case using vs by (simp add: algebra_simps)
qed simp

lemma weave_for_pack_unpack:
  "weave_for_unpack (weave_for_pack vals) (length vals) = Some (vals, length (weave_for_pack vals))"
proof -
  let ?w = "weave_bitwidth (max_value vals)"
  obtain w bits where p: "weave_for_pack vals = w # bits" using pack_shape(1) by (metis list.exhaust)
  have w: "unat w = ?w" using pack_shape(3) [of vals] p by simp
  show ?thesis
  proof (cases "?w = 0")
    case True
    have "vals ! i = 0" if "i < length vals" for i
      using weave_for_pack_get [OF that] p w True by (simp add: weave_for_get_def)
    then have "vals = replicate (length vals) 0" by (intro nth_equalityI) simp_all
    moreover have "length (weave_for_pack vals) = 1" using True by (simp add: weave_for_pack_def)
    ultimately show ?thesis using p w True by (simp add: weave_for_unpack_def)
  next
    case False
    have "unpack_from (unat w) bits (0 * unat w) (length vals) = Some vals"
      by (rule unpack_from_get)
        (use False w bitwidth_64 [of "max_value vals"] weave_for_pack_get [of _ vals] p in auto)
    then show ?thesis
      using p w False pack_shape(2) [of vals] by (simp add: weave_for_unpack_def weave_for_bytelen_def)
  qed
qed

subsection \<open>Quantized document lengths\<close>

definition clz32 :: "u32 \<Rightarrow> nat" where
  "clz32 x = 32 - bit_length (unat x)"

definition weave_doclen_to_byte :: "u32 \<Rightarrow> u8" where
  "weave_doclen_to_byte len =
     (if len = 0 then 0
      else if len \<le> 7 then ucast len
      else
        let hb = 31 - clz32 len;
            exp = hb - 3;
            mant = drop_bit exp len AND 7;
            e = exp + 1
        in if 31 < e then ucast (push_bit 3 (31::u32) OR 7) else ucast (push_bit 3 (of_nat e) OR mant))"

definition weave_byte_to_doclen :: "u8 \<Rightarrow> u32" where
  "weave_byte_to_doclen b =
     (let mant = ucast (b AND 7) :: u32; e = unat (drop_bit 3 b AND 0x1F)
      in if e = 0 then mant else push_bit (e - 1) (8 OR mant))"

fun doclen_code :: "nat \<Rightarrow> nat" where
  \<comment> \<open>the encoding as arithmetic: exponent field and the three bits below the leading one\<close>
  "doclen_code n = (if n \<le> 7 then n else 8 * (bit_length n - 3) + (n div 2 ^ (bit_length n - 4) - 8))"

definition doclen_value :: "nat \<Rightarrow> nat" where
  "doclen_value c = (if c div 8 = 0 then c mod 8 else (8 + c mod 8) * 2 ^ (c div 8 - 1))"

lemma or_is_sum:
  fixes a b :: "'a::len word"
  shows "push_bit 3 a OR (b AND 7) = push_bit 3 a + (b AND 7)"
proof -
  have m: "mask 3 = (7::'a word)" by (simp add: mask_eq_exp_minus_1)
  have "bit (7::'a word) n \<Longrightarrow> n < 3" for n
    using bit_mask_iff [of 3 n, where ?'a = "'a word"] unfolding m by simp
  then have "\<not> bit (push_bit 3 a) n \<or> \<not> bit (b AND 7) n" for n
    by (fastforce simp: bit_push_bit_iff bit_and_iff)
  then show ?thesis by (simp add: disjunctive_add)
qed

lemma unat_take: "unat (take_bit k (w::'a::len word)) = unat w mod 2 ^ k"
  by (rule trans [OF unsigned_take_bit_eq take_bit_eq_mod])

lemma unat_drop: "unat (drop_bit k (w::'a::len word)) = unat w div 2 ^ k"
  by (rule trans [OF unat_drop_bit_eq drop_bit_eq_div])

lemma unat_push: "unat (push_bit k (w::'a::len word)) = (unat w * 2 ^ k) mod 2 ^ LENGTH('a)"
  by (rule trans [OF unsigned_push_bit_eq]) (simp only: take_bit_eq_mod push_bit_eq_mult)

lemma mod_8_high: "8 \<le> n \<Longrightarrow> n < 16 \<Longrightarrow> n mod 8 = n - (8::nat)"
  by (simp add: le_mod_geq)

lemma unat_and_7: "unat ((b::u32) AND 7) = unat b mod 8"
proof -
  have "(7::u32) = mask 3" by (simp add: mask_eq_exp_minus_1)
  then have "b AND 7 = take_bit 3 b" by (simp add: take_bit_eq_mask)
  show ?thesis unfolding \<open>b AND 7 = _\<close> unat_take by simp
qed

lemma bit_length_ge_4: "7 < n \<Longrightarrow> 4 \<le> bit_length n"
  using bit_length_le_iff [of n 3] by simp

lemma leading_bits:
  assumes "7 < n"
  shows "8 \<le> n div 2 ^ (bit_length n - 4)" and "n div 2 ^ (bit_length n - 4) < 16"
proof -
  have b: "4 \<le> bit_length n" by (rule bit_length_ge_4 [OF assms])
  have "2 ^ (bit_length n - 1) \<le> n" using bit_length_lower assms by simp
  moreover have "(2::nat) ^ (bit_length n - 1) = 8 * 2 ^ (bit_length n - 4)"
    using b power_add [of "2::nat" 3 "bit_length n - 4"] by simp
  ultimately have "8 * 2 ^ (bit_length n - 4) \<le> n" by linarith
  then show "8 \<le> n div 2 ^ (bit_length n - 4)" by (simp add: less_eq_div_iff_mult_less_eq)
  have "n < 2 ^ bit_length n" by (rule bit_length_upper)
  moreover have "(2::nat) ^ bit_length n = 16 * 2 ^ (bit_length n - 4)"
    using b power_add [of "2::nat" 4 "bit_length n - 4"] by simp
  ultimately show "n div 2 ^ (bit_length n - 4) < 16" by (simp add: div_less_iff_less_mult)
qed

lemma doclen_code_less: "n < 2 ^ 32 \<Longrightarrow> doclen_code n < 240"
  using leading_bits [of n] bit_length_le_iff [of n 32] by auto

lemma to_byte_value: "unat (weave_doclen_to_byte len) = doclen_code (unat len)"
proof (cases "len \<le> 7")
  case True
  then have "unat len \<le> 7" by (simp add: word_le_nat_alt)
  then show ?thesis using True
    by (simp add: weave_doclen_to_byte_def unsigned_ucast_eq take_bit_nat_eq_self)
next
  case False
  let ?n = "unat len"
  have n: "7 < ?n" using False by (simp add: word_le_nat_alt)
  have b: "4 \<le> bit_length ?n" "bit_length ?n \<le> 32"
    using bit_length_ge_4 [OF n] bit_length_le_iff [of ?n 32] unat_u32 [of len] by auto
  have hb: "31 - clz32 len - 3 = bit_length ?n - 4" using b by (simp add: clz32_def)
  let ?x = "bit_length ?n - 4" and ?m = "drop_bit (bit_length (unat len) - 4) len AND 7"
  have m: "unat ?m = ?n div 2 ^ ?x - 8"
    unfolding unat_and_7 unat_drop by (rule mod_8_high [OF leading_bits [OF n]])
  have e: "?x + 1 \<le> 31" using b by simp
  have "unat (push_bit 3 (of_nat (?x + 1)) OR ?m) = 8 * (?x + 1) + (?n div 2 ^ ?x - 8)"
  proof -
    have "unat (push_bit 3 (of_nat (?x + 1) :: u32)) = 8 * (?x + 1)"
      using e by (simp only: push_bit_of_nat unsigned_of_nat)
        (simp add: push_bit_eq_mult take_bit_nat_eq_self)
    then show ?thesis
      using m leading_bits [OF n] e unfolding or_is_sum by (simp add: unat_word_ariths)
  qed
  moreover have "8 * (?x + 1) + (?n div 2 ^ ?x - 8) < 2 ^ 8"
    using leading_bits [OF n] e by simp
  ultimately have "unat (ucast (push_bit 3 (of_nat (?x + 1)) OR ?m) :: u8) = 8 * (?x + 1) + (?n div 2 ^ ?x - 8)"
    by (simp only: unsigned_ucast_eq) (simp add: take_bit_nat_eq_self)
  moreover have "\<not> 31 < ?x + 1" using e by simp
  ultimately have "unat (weave_doclen_to_byte len) = 8 * (?x + 1) + (?n div 2 ^ ?x - 8)"
    using False unfolding weave_doclen_to_byte_def Let_def hb by auto
  moreover have "?x + 1 = bit_length ?n - 3" using b by simp
  ultimately show ?thesis using n by simp
qed

lemma from_byte_value:
  assumes "unat b < 240"
  shows "unat (weave_byte_to_doclen b) = doclen_value (unat b)"
proof -
  have m7: "unat (b AND 7) = unat b mod 8"
  proof -
    have "(7::u8) = mask 3" by (simp add: mask_eq_exp_minus_1)
    then have "b AND 7 = take_bit 3 b" by (simp add: take_bit_eq_mask)
    show ?thesis unfolding \<open>b AND 7 = _\<close> unat_take by simp
  qed
  have e: "unat (drop_bit 3 b AND 0x1F) = unat b div 8"
  proof -
    have "(0x1F::u8) = mask 5" by (simp add: mask_eq_exp_minus_1)
    from this have "drop_bit 3 b AND 0x1F = take_bit 5 (drop_bit 3 b)" by (simp add: take_bit_eq_mask)
    show ?thesis unfolding \<open>drop_bit 3 b AND 0x1F = _\<close> unat_take unat_drop using assms by simp
  qed
  let ?m = "ucast (b AND 7) :: u32"
  have m: "unat ?m = unat b mod 8" by (simp add: m7 unsigned_ucast_eq take_bit_nat_eq_self)
  have "?m = ucast b AND 7"
    by (rule bit_word_eqI) (auto simp: bit_ucast_iff bit_and_iff dest: bit_imp_le_length)
  then have sum: "8 OR ?m = 8 + ?m" using or_is_sum [of "1::u32" "ucast b"] by simp
  have um: "unat (8 OR ?m) = 8 + unat b mod 8" unfolding sum using m by (simp add: unat_word_ariths)
  show ?thesis
  proof (cases "unat b div 8 = 0")
    case True
    then show ?thesis using e m by (simp add: weave_byte_to_doclen_def doclen_value_def)
  next
    case False
    have "unat b div 8 - 1 \<le> 28" using assms by linarith
    then have "(8 + unat b mod 8) * 2 ^ (unat b div 8 - 1) \<le> 15 * 2 ^ 28"
      by (intro mult_le_mono power_increasing) simp_all
    then have "(8 + unat b mod 8) * 2 ^ (unat b div 8 - 1) < 2 ^ 32" by simp
    then have "unat (push_bit (unat b div 8 - 1) (8 OR ?m)) = (8 + unat b mod 8) * 2 ^ (unat b div 8 - 1)"
      unfolding unat_push um by simp
    then show ?thesis using False e by (simp add: weave_byte_to_doclen_def doclen_value_def Let_def)
  qed
qed

lemma doclen_decode: "unat (weave_byte_to_doclen (weave_doclen_to_byte len)) = doclen_value (doclen_code (unat len))"
  using from_byte_value [of "weave_doclen_to_byte len"] doclen_code_less [of "unat len"] unat_u32 [of len]
  by (simp only: to_byte_value)

lemma doclen_value_code:
  "7 < n \<Longrightarrow> doclen_value (doclen_code n) = n div 2 ^ (bit_length n - 4) * 2 ^ (bit_length n - 4)"
proof -
  assume n: "7 < n"
  have b: "4 \<le> bit_length n" by (rule bit_length_ge_4 [OF n])
  let ?t = "n div 2 ^ (bit_length n - 4)"
  have t: "8 \<le> ?t" "?t < 16" using leading_bits [OF n] by auto
  define q where "q = ?t - 8"
  have q: "q < 8" using t by (simp add: q_def)
  have "doclen_code n = q + (bit_length n - 3) * 8" using n by (simp add: q_def)
  then have "doclen_code n div 8 = bit_length n - 3" "doclen_code n mod 8 = q" using q by simp_all
  moreover have "8 + q = ?t" using t by (simp add: q_def)
  ultimately show ?thesis using b by (simp add: doclen_value_def)
qed

lemma doclen_value_exact: "n \<le> 7 \<Longrightarrow> doclen_value (doclen_code n) = n"
  by (simp add: doclen_value_def)

lemma doclen_code_mono:
  assumes "m \<le> n"
  shows "doclen_code m \<le> doclen_code n"
proof (cases "7 < m")
  case False
  show ?thesis
  proof (cases "7 < n")
    case True
    then have "8 \<le> 8 * (bit_length n - 3)" using bit_length_ge_4 [OF True] by simp
    then show ?thesis using False True by simp
  qed (use False assms in simp)
next
  case True
  then have n: "7 < n" using assms by simp
  note t = leading_bits [OF True] leading_bits [OF n]
  show ?thesis
  proof (cases "bit_length m = bit_length n")
    case eq: True
    then have "m div 2 ^ (bit_length m - 4) \<le> n div 2 ^ (bit_length n - 4)"
      using assms by (simp add: div_le_mono)
    then show ?thesis using eq True n by (simp add: diff_le_mono)
  next
    case False
    then have "Suc (bit_length m - 3) \<le> bit_length n - 3"
      using bit_length_mono [OF assms] bit_length_ge_4 [OF True] by simp
    then have "8 * (bit_length m - 3) + 8 \<le> 8 * (bit_length n - 3)" by simp
    moreover have "m div 2 ^ (bit_length m - 4) - 8 \<le> 8" using t(2) by simp
    ultimately show ?thesis using True n by simp
  qed
qed

subsection \<open>The walk over a doclen block\<close>

text \<open>
  The two walks differ in how they read the \<open>i\<close>-th docid of the block, so their loops take that read
  as an argument: \<open>rd i\<close> is \<open>None\<close> when the C code would read outside of the block. A walk returns
  the index of the hit, if any; the entry points turn it into the byte and the new hint.
\<close>

abbreviation WALK_WINDOW :: nat where
  "WALK_WINDOW \<equiv> 8"

function walk_window :: "(nat \<Rightarrow> u64 option) \<Rightarrow> u64 \<Rightarrow> nat \<Rightarrow> nat \<Rightarrow> u64 \<Rightarrow> nat option option" where
  "walk_window rd want lim i v =
     (if v = want then Some (Some i)
      else if want < v then Some None
      else if lim \<le> i + 1 then Some None
      else case rd (i + 1) of None \<Rightarrow> None
        | Some v' \<Rightarrow> walk_window rd want lim (i + 1) v')"
  by pat_completeness auto
termination
  by (relation "measure (\<lambda>(rd, want, lim, i, v). lim - i)") auto

function walk_bisect :: "(nat \<Rightarrow> u64 option) \<Rightarrow> u64 \<Rightarrow> int \<Rightarrow> int \<Rightarrow> nat option option" where
  "walk_bisect rd want rlo rhi =
     (if rlo \<le> rhi then
        let mid = (rlo + rhi) div 2
        in case rd (nat mid) of None \<Rightarrow> None
          | Some v \<Rightarrow>
              if v < want then walk_bisect rd want (mid + 1) rhi
              else if want < v then walk_bisect rd want rlo (mid - 1)
              else Some (Some (nat mid))
      else Some None)"
  by pat_completeness auto
termination
  by (relation "measure (\<lambda>(rd, want, rlo, rhi). nat (rhi + 1 - rlo))") auto

declare walk_window.simps [simp del] walk_bisect.simps [simp del]

definition gated_walk :: "(nat \<Rightarrow> u64 option) \<Rightarrow> u64 \<Rightarrow> nat \<Rightarrow> int \<Rightarrow> nat option option" where
  \<comment> \<open>the body both entry points share\<close>
  "gated_walk rd want n hint =
     (let i = (if hint < 0 \<or> int n \<le> hint then 0 else nat hint);
          near = (if 0 < n then
                    (case rd i of None \<Rightarrow> None
                     | Some v \<Rightarrow>
                         if v \<le> want \<and> want - v < of_nat WALK_WINDOW
                         then walk_window rd want (min (i + WALK_WINDOW) n) i v
                         else Some None)
                  else Some None)
      in case near of None \<Rightarrow> None
         | Some (Some k) \<Rightarrow> Some (Some k)
         | Some None \<Rightarrow> walk_bisect rd want 0 (int n - 1))"

definition walk_result :: "u8 list \<Rightarrow> int \<Rightarrow> nat option option \<Rightarrow> (u8 option \<times> int) option" where
  \<comment> \<open>the byte (\<open>None\<close> for -1) and the hint left behind\<close>
  "walk_result bytes hint r =
     (case r of None \<Rightarrow> None
      | Some None \<Rightarrow> Some (None, hint)
      | Some (Some k) \<Rightarrow> if k < length bytes then Some (Some (bytes ! k), int k + 1) else None)"

definition weave_doclen_walk_arr ::
  "u64 list \<Rightarrow> u8 list \<Rightarrow> u64 \<Rightarrow> int \<Rightarrow> (u8 option \<times> int) option" where
  "weave_doclen_walk_arr docids bytes docid hint =
     walk_result bytes hint
       (gated_walk (\<lambda>i. if i < length docids then Some (docids ! i) else None) docid (length docids) hint)"

definition weave_doclen_walk_abs ::
  "u8 list \<Rightarrow> u8 list \<Rightarrow> u64 \<Rightarrow> nat \<Rightarrow> u64 \<Rightarrow> int \<Rightarrow> (u8 option \<times> int) option" where
  "weave_doclen_walk_abs raw rawbyte base n docid hint =
     (if docid < base then Some (None, hint)
      else walk_result rawbyte hint (gated_walk (weave_for_get raw) (docid - base) n hint))"

definition reads :: "(nat \<Rightarrow> u64 option) \<Rightarrow> u64 list \<Rightarrow> bool" where
  "reads rd xs \<longleftrightarrow> (\<forall>i<length xs. rd i = Some (xs ! i))"

definition found_at :: "u64 list \<Rightarrow> u64 \<Rightarrow> nat option \<Rightarrow> bool" where
  "found_at xs x r \<longleftrightarrow>
     (case r of None \<Rightarrow> x \<notin> set xs | Some k \<Rightarrow> k < length xs \<and> xs ! k = x)"

lemma walk_window_ok:
  assumes "reads rd xs" and "i < lim" and "lim \<le> length xs" and "xs ! i = v"
  shows "\<exists>r. walk_window rd want lim i v = Some r \<and> (\<forall>k. r = Some k \<longrightarrow> k < length xs \<and> xs ! k = want)"
  using assms
proof (induction rd want lim i v rule: walk_window.induct)
  case (1 rd want lim i v)
  show ?case
  proof (cases "v = want \<or> want < v \<or> lim \<le> i + 1")
    case True
    then show ?thesis using "1.prems" by (subst walk_window.simps) auto
  next
    case False
    then have rd: "rd (i + 1) = Some (xs ! (i + 1))" using "1.prems" by (simp add: reads_def)
    from "1.IH" [OF _ _ _ rd] show ?thesis
      using False "1.prems" rd by (subst walk_window.simps) auto
  qed
qed

lemma walk_bisect_ok:
  assumes "reads rd xs" and "sorted_wrt (<) xs" and "0 \<le> rlo" and "rhi < int (length xs)"
    and "\<forall>k<length xs. int k < rlo \<or> rhi < int k \<longrightarrow> xs ! k \<noteq> want"
  shows "\<exists>r. walk_bisect rd want rlo rhi = Some r \<and> found_at xs want r"
  using assms
proof (induction rd want rlo rhi rule: walk_bisect.induct)
  case (1 rd want rlo rhi)
  show ?case
  proof (cases "rlo \<le> rhi")
    case False
    then have "want \<notin> set xs" using "1.prems"(5) by (fastforce simp: in_set_conv_nth)
    then show ?thesis using False by (subst walk_bisect.simps) (simp add: found_at_def)
  next
    case True
    let ?m = "(rlo + rhi) div 2"
    have m: "rlo \<le> ?m" "?m \<le> rhi" "0 \<le> ?m" using True "1.prems"(3) by linarith+
    then have ml: "nat ?m < length xs" using "1.prems"(4) by linarith
    then have rd: "rd (nat ?m) = Some (xs ! nat ?m)" using "1.prems"(1) by (simp add: reads_def)
    consider "xs ! nat ?m < want" | "want < xs ! nat ?m" | "xs ! nat ?m = want" by (meson linorder_neqE)
    then show ?thesis
    proof cases
      case 1
      have "xs ! k \<noteq> want" if "k < length xs" "int k < ?m + 1" for k
      proof -
        have "k \<le> nat ?m" using that(2) by linarith
        then have "xs ! k \<le> xs ! nat ?m" using ml by (intro sorted_wrt_nth_le [OF "1.prems"(2)])
        then show ?thesis using 1 by auto
      qed
      then have "\<exists>r. walk_bisect rd want (?m + 1) rhi = Some r \<and> found_at xs want r"
        by (intro "1.IH"(1) [OF True refl rd 1]) (use "1.prems" m in auto)
      then show ?thesis using True rd 1 by (subst walk_bisect.simps) (simp add: Let_def)
    next
      case 2
      have "xs ! k \<noteq> want" if "k < length xs" "?m - 1 < int k" for k
      proof -
        have "nat ?m \<le> k" using that(2) m(3) by linarith
        then have "xs ! nat ?m \<le> xs ! k" using that(1) by (intro sorted_wrt_nth_le [OF "1.prems"(2)])
        then show ?thesis using 2 by auto
      qed
      then have "\<exists>r. walk_bisect rd want rlo (?m - 1) = Some r \<and> found_at xs want r"
        by (intro "1.IH"(2) [OF True refl rd]) (use "1.prems" m 2 in auto)
      then show ?thesis using True rd 2 by (subst walk_bisect.simps) (auto simp: Let_def)
    next
      case 3
      then show ?thesis using True rd ml by (subst walk_bisect.simps) (simp add: Let_def found_at_def)
    qed
  qed
qed

lemma gated_walk_ok:
  assumes rd: "reads rd xs" and srt: "sorted_wrt (<) xs"
  shows "\<exists>r. gated_walk rd want (length xs) hint = Some r \<and> found_at xs want r"
proof -
  define i where "i = (if hint < 0 \<or> int (length xs) \<le> hint then 0 else nat hint)"
  have bis: "\<exists>r. walk_bisect rd want 0 (int (length xs) - 1) = Some r \<and> found_at xs want r"
    by (rule walk_bisect_ok [OF rd srt]) auto
  show ?thesis
  proof (cases "xs = []")
    case True
    then show ?thesis using bis by (simp add: gated_walk_def)
  next
    case False
    then have il: "i < length xs" by (auto simp: i_def)
    then have r: "rd i = Some (xs ! i)" using rd by (simp add: reads_def)
    define lim where "lim = min (i + WALK_WINDOW) (length xs)"
    have "i < lim" "lim \<le> length xs" using il by (simp_all add: lim_def)
    then obtain w where w: "walk_window rd want lim i (xs ! i) = Some w"
      "\<forall>k. w = Some k \<longrightarrow> k < length xs \<and> xs ! k = want"
      using walk_window_ok [OF rd _ _ refl, of i lim want] by blast
    have eq: "gated_walk rd want (length xs) hint =
        (case (if xs ! i \<le> want \<and> want - xs ! i < of_nat WALK_WINDOW then Some w else Some None) of
           None \<Rightarrow> None | Some (Some k) \<Rightarrow> Some (Some k)
         | Some None \<Rightarrow> walk_bisect rd want 0 (int (length xs) - 1))"
      using False r w(1) by (simp add: gated_walk_def Let_def i_def [symmetric] lim_def)
    show ?thesis
    proof (cases "(if xs ! i \<le> want \<and> want - xs ! i < of_nat WALK_WINDOW then w else None)")
      case None
      then show ?thesis using eq bis by (auto split: if_splits)
    next
      case (Some k)
      then show ?thesis using eq w(2) by (auto simp: found_at_def split: if_splits)
    qed
  qed
qed

definition walk_answer :: "u64 list \<Rightarrow> u8 list \<Rightarrow> u64 \<Rightarrow> int \<Rightarrow> u8 option \<times> int \<Rightarrow> bool" where
  \<comment> \<open>the byte of the docid and the position after it, or no byte and the hint as it was\<close>
  "walk_answer xs bytes x hint r \<longleftrightarrow>
     (case r of (None, h) \<Rightarrow> x \<notin> set xs \<and> h = hint
      | (Some b, h) \<Rightarrow> 0 < h \<and> h \<le> int (length xs) \<and> xs ! nat (h - 1) = x \<and> b = bytes ! nat (h - 1))"

lemma walk_result_ok:
  "found_at xs x r \<Longrightarrow> length bytes = length xs \<Longrightarrow>
   \<exists>a. walk_result bytes hint (Some r) = Some a \<and> walk_answer xs bytes x hint a"
  by (cases r) (auto simp: walk_result_def walk_answer_def found_at_def)

lemma walk_arr_ok:
  assumes "sorted_wrt (<) docids" and "length bytes = length docids"
  shows "\<exists>a. weave_doclen_walk_arr docids bytes docid hint = Some a \<and> walk_answer docids bytes docid hint a"
proof -
  have "reads (\<lambda>i. if i < length docids then Some (docids ! i) else None) docids" by (simp add: reads_def)
  then obtain r where "gated_walk (\<lambda>i. if i < length docids then Some (docids ! i) else None) docid
      (length docids) hint = Some r" "found_at docids docid r"
    using gated_walk_ok [OF _ assms(1)] by blast
  then show ?thesis using walk_result_ok [OF _ assms(2)] by (simp add: weave_doclen_walk_arr_def)
qed

lemma walk_abs_ok:
  assumes srt: "sorted_wrt (<) offs" and len: "length bytes = length offs"
    and nowrap: "\<forall>x\<in>set offs. base \<le> base + x"
  shows "\<exists>a. weave_doclen_walk_abs (weave_for_pack offs) bytes base (length offs) docid hint = Some a \<and>
    walk_answer (map (\<lambda>x. base + x) offs) bytes docid hint a"
proof (cases "docid < base")
  case True
  then have "docid \<notin> set (map (\<lambda>x. base + x) offs)" using nowrap by auto
  then show ?thesis using True by (simp add: weave_doclen_walk_abs_def walk_answer_def)
next
  case False
  have "reads (weave_for_get (weave_for_pack offs)) offs" by (simp add: reads_def weave_for_pack_get)
  from gated_walk_ok [OF this srt] obtain r where
    r: "gated_walk (weave_for_get (weave_for_pack offs)) (docid - base) (length offs) hint = Some r"
    "found_at offs (docid - base) r" by blast
  have "found_at (map (\<lambda>x. base + x) offs) docid r"
    using r(2) by (cases r) (auto simp: found_at_def)
  then obtain a where "walk_result bytes hint (Some r) = Some a"
    "walk_answer (map (\<lambda>x. base + x) offs) bytes docid hint a"
    using walk_result_ok [of "map (\<lambda>x. base + x) offs" docid r bytes hint] len by auto
  then show ?thesis using False r(1) by (simp add: weave_doclen_walk_abs_def)
qed

subsection \<open>Properties\<close>

text \<open>
  C11: frame-of-reference packing round-trips: unpacking what \<open>weave_for_pack\<close> wrote returns the
  values, of any width from 0 to 64 bits, and consumes exactly the bytes written, which is the length
  \<open>weave_for_bytelen\<close> computes from the header alone.
\<close>

theorem for_pack_roundtrip:
  "weave_for_unpack (weave_for_pack vals) (length vals) = Some (vals, length (weave_for_pack vals)) \<and>
   length (weave_for_pack vals) = weave_for_bytelen (weave_for_pack vals) (length vals)"
  using weave_for_pack_unpack pack_shape(2) by simp

text \<open>
  C12: random access into a packed array agrees with decoding it: \<open>weave_for_get\<close> returns the value at
  every index and reads no byte outside the buffer \<open>weave_for_pack\<close> wrote, also where a value
  straddles nine bytes.
\<close>

theorem for_get_agrees:
  assumes "i < length vals"
  shows "weave_for_get (weave_for_pack vals) i = Some (vals ! i)"
  using weave_for_pack_get [OF assms] .

theorem for_get_agrees_witness:
  "weave_for_get (weave_for_pack [3, 0xFFFFFFFFFFFFFFFF, 7]) 1 = Some 0xFFFFFFFFFFFFFFFF"
  using for_get_agrees [of 1 "[3, 0xFFFFFFFFFFFFFFFF, 7]"] by simp

text \<open>
  C16: a document length survives its one-byte quantization to within an eighth from below, exactly up
  to seven; and the quantization is monotone, so comparing bytes compares lengths.
\<close>

lemma doclen_below:
  "doclen_value (doclen_code n) \<le> n \<and> 8 * (n - doclen_value (doclen_code n)) \<le> n"
proof (cases "7 < n")
  case True
  let ?e = "bit_length n - 4"
  have v: "doclen_value (doclen_code n) = n div 2 ^ ?e * 2 ^ ?e" by (rule doclen_value_code [OF True])
  have "8 \<le> n div 2 ^ ?e" using leading_bits [OF True] by auto
  then have "8 * 2 ^ ?e \<le> n div 2 ^ ?e * 2 ^ ?e" by (intro mult_le_mono1)
  moreover have "n mod 2 ^ ?e < 2 ^ ?e" by simp
  moreover have "n = n div 2 ^ ?e * 2 ^ ?e + n mod 2 ^ ?e" by (rule div_mult_mod_eq [symmetric])
  ultimately show ?thesis unfolding v by linarith
qed (simp add: doclen_value_exact del: doclen_code.simps)

theorem doclen_quantization:
  "(let v = weave_byte_to_doclen (weave_doclen_to_byte n)
    in unat v \<le> unat n \<and> 8 * (unat n - unat v) \<le> unat n) \<and>
   (if m \<le> n then weave_doclen_to_byte m \<le> weave_doclen_to_byte n else True)"
proof -
  have "weave_doclen_to_byte m \<le> weave_doclen_to_byte n" if "m \<le> n"
    using that doclen_code_mono [of "unat m" "unat n"] by (simp only: word_le_nat_alt to_byte_value)
  then show ?thesis
    using doclen_below [of "unat n"] by (simp add: Let_def doclen_decode del: doclen_code.simps)
qed

text \<open>
  C13: looking a document up in the sorted docid array of a sealed bolt, from any hint whatever, finds
  its length byte if and only if the document is there, leaves the hint just past it, and never reads
  outside either array.
\<close>

theorem doclen_walk_arr_finds:
  assumes "sorted_wrt (<) docids" and "length bytes = length docids"
  shows "\<exists>a. weave_doclen_walk_arr docids bytes docid hint = Some a \<and> walk_answer docids bytes docid hint a"
  using walk_arr_ok [OF assms] .

theorem doclen_walk_arr_finds_witness:
  "\<exists>a. weave_doclen_walk_arr [4, 8, 15, 16] [1, 2, 3, 4] 15 (- 7) = Some a \<and>
     walk_answer [4, 8, 15, 16] [1, 2, 3, 4] 15 (- 7) a"
  using doclen_walk_arr_finds [of "[4, 8, 15, 16]" "[1, 2, 3, 4]" 15 "- 7"] by simp

text \<open>
  The walk over packed offsets gives the same answer as the walk over the docids they encode,
  without unpacking the array.
\<close>

theorem doclen_walk_packed_finds:
  assumes "sorted_wrt (<) offs" and "length bytes = length offs"
    and "\<forall>x\<in>set offs. base \<le> base + x"
  shows "\<exists>a. weave_doclen_walk_abs (weave_for_pack offs) bytes base (length offs) docid hint = Some a \<and>
    walk_answer (map (\<lambda>x. base + x) offs) bytes docid hint a"
  using walk_abs_ok [OF assms] .

theorem doclen_walk_packed_finds_witness:
  "\<exists>a. weave_doclen_walk_abs (weave_for_pack [0, 4, 11]) [1, 2, 3] 100 3 104 0 = Some a \<and>
     walk_answer [100, 104, 111] [1, 2, 3] 104 0 a"
  using doclen_walk_packed_finds [of "[0, 4, 11]" "[1, 2, 3]" 100 104 0]
  by (simp add: word_le_nat_alt numeral_3_eq_3)

end
