(* ===== verification/Weave_Pagekind.thy ===== *)
theory Weave_Pagekind
  imports Weave_Prelude
begin

text \<open>
  Page kinds, \<open>include/weave/pagekind.h\<close>: the two encodings of a page's kind in its opaque area -- the
  legacy one-hot bits of \<open>flags\<close>, and behind the escape bit 15 an id in \<open>kind\<close> -- with the decoder
  that rejects everything else. \<open>WEAVE_PK_EXT_FIRST\<close> is the id 16 and \<open>WEAVE_PK_NKINDS\<close> is 37.
\<close>

definition WEAVE_META :: u16 where "WEAVE_META = 0x0001"
definition WEAVE_DICT :: u16 where "WEAVE_DICT = 0x0002"
definition WEAVE_POSTING :: u16 where "WEAVE_POSTING = 0x0004"
definition WEAVE_PENDING :: u16 where "WEAVE_PENDING = 0x0008"
definition WEAVE_TRGM :: u16 where "WEAVE_TRGM = 0x0010"
definition WEAVE_TRGM_DATA :: u16 where "WEAVE_TRGM_DATA = 0x0020"
definition WEAVE_LIVEDOCS :: u16 where "WEAVE_LIVEDOCS = 0x0040"
definition WEAVE_DICTINDEX :: u16 where "WEAVE_DICTINDEX = 0x0080"
definition WEAVE_FREED :: u16 where "WEAVE_FREED = 0x0100"
definition WEAVE_DOCLEN :: u16 where "WEAVE_DOCLEN = 0x0200"

definition WEAVE_PAGE_KIND_MASK :: u16 where
  "WEAVE_PAGE_KIND_MASK =
     WEAVE_META OR WEAVE_DICT OR WEAVE_POSTING OR WEAVE_PENDING OR WEAVE_TRGM OR WEAVE_TRGM_DATA OR
     WEAVE_LIVEDOCS OR WEAVE_DICTINDEX OR WEAVE_DOCLEN"

definition WEAVE_PAGE_KIND_EXT :: u16 where "WEAVE_PAGE_KIND_EXT = 0x8000"

definition WEAVE_PAGE_STATE_MASK :: u16 where "WEAVE_PAGE_STATE_MASK = WEAVE_FREED"

definition WEAVE_PAGE_RESERVED_MASK :: u16 where
  "WEAVE_PAGE_RESERVED_MASK = NOT (WEAVE_PAGE_KIND_MASK OR WEAVE_PAGE_STATE_MASK OR WEAVE_PAGE_KIND_EXT)"

lemmas page_bits =
  WEAVE_META_def WEAVE_DICT_def WEAVE_POSTING_def WEAVE_PENDING_def WEAVE_TRGM_def WEAVE_TRGM_DATA_def
  WEAVE_LIVEDOCS_def WEAVE_DICTINDEX_def WEAVE_FREED_def WEAVE_DOCLEN_def WEAVE_PAGE_KIND_MASK_def
  WEAVE_PAGE_KIND_EXT_def WEAVE_PAGE_STATE_MASK_def WEAVE_PAGE_RESERVED_MASK_def

declare page_bits [layout_simps]

datatype page_kind = PK_UNKNOWN | PK_META | PK_DICT | PK_POSTING | PK_PENDING | PK_TRGM | PK_TRGM_DATA
  | PK_LIVEDOCS | PK_DICTINDEX | PK_DOCLEN | PK_CHANDESC | PK_VMETA | PK_VCODES | PK_VGRAPH
  | PK_VRERANK | PK_SURF | PK_ULEV | PK_REGEX | PK_FUZZY_SPARE | PK_DOCVALS | PK_CGRAM | PK_VDIR
  | PK_VWARP | PK_PENDING_V9 | PK_CGRAM_DICT | PK_CGRAM_DICTINDEX | PK_CGRAM_POST | PK_PENDING_V10
  | PK_PENDING_V11 | PK_DOCLIST | PK_PENDING_V12

definition ext_kinds :: "page_kind list" where
  \<comment> \<open>the kinds of the extended space, in the order of their ids from 16 on\<close>
  "ext_kinds =
     [PK_CHANDESC, PK_VMETA, PK_VCODES, PK_VGRAPH, PK_VRERANK, PK_SURF, PK_ULEV, PK_REGEX, PK_FUZZY_SPARE,
      PK_DOCVALS, PK_CGRAM, PK_VDIR, PK_VWARP, PK_PENDING_V9, PK_CGRAM_DICT, PK_CGRAM_DICTINDEX,
      PK_CGRAM_POST, PK_PENDING_V10, PK_PENDING_V11, PK_DOCLIST, PK_PENDING_V12]"

definition PK_EXT_FIRST :: nat where "PK_EXT_FIRST = 16"
definition PK_NKINDS :: nat where "PK_NKINDS = 37"

fun pk_id :: "page_kind \<Rightarrow> nat" where
  "pk_id PK_UNKNOWN = 0" | "pk_id PK_META = 1" | "pk_id PK_DICT = 2" | "pk_id PK_POSTING = 3"
| "pk_id PK_PENDING = 4" | "pk_id PK_TRGM = 5" | "pk_id PK_TRGM_DATA = 6" | "pk_id PK_LIVEDOCS = 7"
| "pk_id PK_DICTINDEX = 8" | "pk_id PK_DOCLEN = 9" | "pk_id PK_CHANDESC = 16" | "pk_id PK_VMETA = 17"
| "pk_id PK_VCODES = 18" | "pk_id PK_VGRAPH = 19" | "pk_id PK_VRERANK = 20" | "pk_id PK_SURF = 21"
| "pk_id PK_ULEV = 22" | "pk_id PK_REGEX = 23" | "pk_id PK_FUZZY_SPARE = 24" | "pk_id PK_DOCVALS = 25"
| "pk_id PK_CGRAM = 26" | "pk_id PK_VDIR = 27" | "pk_id PK_VWARP = 28" | "pk_id PK_PENDING_V9 = 29"
| "pk_id PK_CGRAM_DICT = 30" | "pk_id PK_CGRAM_DICTINDEX = 31" | "pk_id PK_CGRAM_POST = 32"
| "pk_id PK_PENDING_V10 = 33" | "pk_id PK_PENDING_V11 = 34" | "pk_id PK_DOCLIST = 35"
| "pk_id PK_PENDING_V12 = 36"

definition weave_page_kind_decode :: "u16 \<Rightarrow> u16 \<Rightarrow> page_kind" where
  "weave_page_kind_decode flags kind =
     (if flags AND WEAVE_PAGE_RESERVED_MASK \<noteq> 0 then PK_UNKNOWN
      else if flags AND WEAVE_PAGE_KIND_EXT \<noteq> 0 then
        (if flags AND WEAVE_PAGE_KIND_MASK \<noteq> 0 then PK_UNKNOWN
         else if unat kind < PK_EXT_FIRST \<or> PK_NKINDS \<le> unat kind then PK_UNKNOWN
         else ext_kinds ! (unat kind - PK_EXT_FIRST))
      else
        (let m = flags AND WEAVE_PAGE_KIND_MASK
         in if m = WEAVE_META then PK_META
            else if m = WEAVE_DICT then PK_DICT
            else if m = WEAVE_POSTING then PK_POSTING
            else if m = WEAVE_PENDING then PK_PENDING
            else if m = WEAVE_TRGM then PK_TRGM
            else if m = WEAVE_TRGM_DATA then PK_TRGM_DATA
            else if m = WEAVE_LIVEDOCS then PK_LIVEDOCS
            else if m = WEAVE_DICTINDEX then PK_DICTINDEX
            else if m = WEAVE_DOCLEN then PK_DOCLEN
            else PK_UNKNOWN))"

fun weave_page_kind_legacy_bit :: "page_kind \<Rightarrow> u16" where
  "weave_page_kind_legacy_bit PK_META = WEAVE_META"
| "weave_page_kind_legacy_bit PK_DICT = WEAVE_DICT"
| "weave_page_kind_legacy_bit PK_POSTING = WEAVE_POSTING"
| "weave_page_kind_legacy_bit PK_PENDING = WEAVE_PENDING"
| "weave_page_kind_legacy_bit PK_TRGM = WEAVE_TRGM"
| "weave_page_kind_legacy_bit PK_TRGM_DATA = WEAVE_TRGM_DATA"
| "weave_page_kind_legacy_bit PK_LIVEDOCS = WEAVE_LIVEDOCS"
| "weave_page_kind_legacy_bit PK_DICTINDEX = WEAVE_DICTINDEX"
| "weave_page_kind_legacy_bit PK_DOCLEN = WEAVE_DOCLEN"
| "weave_page_kind_legacy_bit _ = 0"

definition weave_page_kind_encode :: "page_kind \<Rightarrow> u16 \<times> u16" where
  "weave_page_kind_encode k =
     (let b = weave_page_kind_legacy_bit k
      in if b \<noteq> 0 then (b, 0) else (WEAVE_PAGE_KIND_EXT, of_nat (pk_id k)))"

subsection \<open>The two encodings are inverse and closed\<close>

lemma ext_id: "i < 21 \<Longrightarrow> pk_id (ext_kinds ! i) = i + 16 \<and> weave_page_kind_legacy_bit (ext_kinds ! i) = 0"
proof -
  have "\<forall>i\<in>set [0..<21]. pk_id (ext_kinds ! i) = i + 16 \<and> weave_page_kind_legacy_bit (ext_kinds ! i) = 0"
    by (simp add: ext_kinds_def upt_rec)
  then show "i < 21 \<Longrightarrow> pk_id (ext_kinds ! i) = i + 16 \<and> weave_page_kind_legacy_bit (ext_kinds ! i) = 0"
    by simp
qed

lemma kind_roundtrip:
  assumes "k \<noteq> PK_UNKNOWN"
  shows "weave_page_kind_decode (fst (weave_page_kind_encode k)) (snd (weave_page_kind_encode k)) = k"
  using assms
  by (cases k) (simp_all add: weave_page_kind_encode_def weave_page_kind_decode_def layout_simps
      PK_EXT_FIRST_def PK_NKINDS_def ext_kinds_def)

lemma kind_freed:
  "weave_page_kind_decode (flags OR WEAVE_FREED) kind = weave_page_kind_decode flags kind"
  by (simp add: weave_page_kind_decode_def layout_simps bit.conj_disj_distrib2)

lemma ext_bit: "flags AND WEAVE_PAGE_KIND_EXT \<noteq> 0 \<Longrightarrow> flags AND WEAVE_PAGE_KIND_EXT = WEAVE_PAGE_KIND_EXT"
proof -
  have e: "WEAVE_PAGE_KIND_EXT = push_bit 15 1" by (simp add: layout_simps)
  assume "flags AND WEAVE_PAGE_KIND_EXT \<noteq> 0"
  then have "bit flags 15" by (simp add: e bit_iff_and_push_bit_not_eq_0 [of flags 15])
  moreover have "bit WEAVE_PAGE_KIND_EXT n \<longleftrightarrow> n = 15" for n
    using bit_exp_iff [of 15 n, where ?'a = u16] by (auto simp: e)
  ultimately show ?thesis by (intro bit_word_eqI) (auto simp: bit_and_iff)
qed

lemma flags_split:
  "flags AND NOT WEAVE_FREED =
     (flags AND WEAVE_PAGE_RESERVED_MASK) OR (flags AND WEAVE_PAGE_KIND_EXT) OR (flags AND WEAVE_PAGE_KIND_MASK)"
proof -
  have "NOT WEAVE_FREED = WEAVE_PAGE_RESERVED_MASK OR WEAVE_PAGE_KIND_EXT OR WEAVE_PAGE_KIND_MASK"
    by (simp add: layout_simps)
  then show ?thesis by (simp add: bit.conj_disj_distrib)
qed

lemma kind_decode_encode:
  assumes k: "weave_page_kind_decode flags kind = k" and known: "k \<noteq> PK_UNKNOWN"
  shows "flags AND NOT WEAVE_FREED = fst (weave_page_kind_encode k)"
    and "flags AND WEAVE_PAGE_KIND_EXT \<noteq> 0 \<Longrightarrow> kind = snd (weave_page_kind_encode k)"
proof -
  have r: "flags AND WEAVE_PAGE_RESERVED_MASK = 0"
    by (rule ccontr) (use k known in \<open>simp add: weave_page_kind_decode_def\<close>)
  have "flags AND NOT WEAVE_FREED = fst (weave_page_kind_encode k) \<and>
      (flags AND WEAVE_PAGE_KIND_EXT \<noteq> 0 \<longrightarrow> kind = snd (weave_page_kind_encode k))"
  proof (cases "flags AND WEAVE_PAGE_KIND_EXT = 0")
    case True
    then have m: "flags AND NOT WEAVE_FREED = flags AND WEAVE_PAGE_KIND_MASK" using r by (simp add: flags_split)
    have "flags AND WEAVE_PAGE_KIND_MASK = fst (weave_page_kind_encode k)"
      using k known r True
      by (auto simp: weave_page_kind_decode_def weave_page_kind_encode_def Let_def layout_simps
          split: if_splits)
    then show ?thesis using m True by simp
  next
    case False
    then have m: "flags AND WEAVE_PAGE_KIND_MASK = 0" and i: "16 \<le> unat kind" "unat kind < 37"
      and kk: "k = ext_kinds ! (unat kind - 16)"
      using k known r by (auto simp: weave_page_kind_decode_def PK_EXT_FIRST_def PK_NKINDS_def split: if_splits)
    have "unat kind - 16 < 21" using i by linarith
    then have "pk_id k = unat kind" "weave_page_kind_legacy_bit k = 0"
      using ext_id [of "unat kind - 16"] kk i by auto
    moreover have "flags AND NOT WEAVE_FREED = WEAVE_PAGE_KIND_EXT"
      using r m ext_bit [OF False] by (simp add: flags_split)
    ultimately show ?thesis by (simp add: weave_page_kind_encode_def)
  qed
  then show "flags AND NOT WEAVE_FREED = fst (weave_page_kind_encode k)"
    "flags AND WEAVE_PAGE_KIND_EXT \<noteq> 0 \<Longrightarrow> kind = snd (weave_page_kind_encode k)"
    by auto
qed

lemma ext_fails_closed:
  assumes "weave_page_kind_decode flags kind = k" and "weave_page_kind_legacy_bit k = 0" and "k \<noteq> PK_UNKNOWN"
  shows "flags AND WEAVE_PAGE_KIND_MASK = 0"
proof -
  have "flags AND NOT WEAVE_FREED = WEAVE_PAGE_KIND_EXT"
    using kind_decode_encode(1) [OF assms(1,3)] assms(2) by (simp add: weave_page_kind_encode_def)
  then have "(flags AND NOT WEAVE_FREED) AND WEAVE_PAGE_KIND_MASK = 0" by (simp add: layout_simps)
  moreover have "NOT WEAVE_FREED AND WEAVE_PAGE_KIND_MASK = WEAVE_PAGE_KIND_MASK" by (simp add: layout_simps)
  ultimately show ?thesis by (simp add: and.assoc)
qed

subsection \<open>Properties\<close>

text \<open>
  Every page kind but the unknown one survives encoding into the flags word and the kind word
  and decoding, also on a page marked freed.
\<close>

theorem page_kind_roundtrip:
  assumes "k \<noteq> PK_UNKNOWN"
  shows "weave_page_kind_decode (fst (weave_page_kind_encode k)) (snd (weave_page_kind_encode k)) = k \<and>
    weave_page_kind_decode (fst (weave_page_kind_encode k) OR WEAVE_FREED) (snd (weave_page_kind_encode k)) = k"
  using kind_roundtrip [OF assms] by (simp add: kind_freed)

theorem page_kind_roundtrip_witness:
  "weave_page_kind_decode (fst (weave_page_kind_encode PK_VCODES) OR WEAVE_FREED)
     (snd (weave_page_kind_encode PK_VCODES)) = PK_VCODES"
  using page_kind_roundtrip [of PK_VCODES] by simp

text \<open>
  Decoding is closed: whatever 32 bits a page carries, they decode to a known kind only if they
  are that kind's own encoding up to the freed flag, so no two patterns of kind bits mean one page and
  a page with any stray bit is unknown.
\<close>

theorem page_kind_decode_closed:
  assumes "weave_page_kind_decode flags kind \<noteq> PK_UNKNOWN"
  shows "flags AND NOT WEAVE_FREED = fst (weave_page_kind_encode (weave_page_kind_decode flags kind)) \<and>
    (if flags AND WEAVE_PAGE_KIND_EXT \<noteq> 0
     then kind = snd (weave_page_kind_encode (weave_page_kind_decode flags kind)) else True)"
  using kind_decode_encode [OF refl assms] by simp

theorem page_kind_decode_closed_witness:
  "(0x8000 :: u16) AND NOT WEAVE_FREED = fst (weave_page_kind_encode (weave_page_kind_decode 0x8000 18))"
proof -
  have "weave_page_kind_decode 0x8000 18 \<noteq> PK_UNKNOWN"
    by (simp add: weave_page_kind_decode_def layout_simps PK_EXT_FIRST_def PK_NKINDS_def ext_kinds_def)
  from page_kind_decode_closed [OF this] show ?thesis by (simp add: layout_simps)
qed

end
