(* ===== verification/Weave_Edit.thy ===== *)
theory Weave_Edit
  imports Weave_Prelude
begin

text \<open>
  Edit distance and the two structures that bound it: the Levenshtein automaton of
  \<open>src/query/lev.c\<close> and the byte-trigram sets of \<open>src/query/trgm.c\<close>. The distance is specified by the
  inductive relation \<open>edits\<close>, one rule per edit; \<open>lev\<close> is its executable form and \<open>lev_edits\<close> says that
  it is the least number of edits. The hash of a trigram, PostgreSQL's \<open>hash_bytes\<close>, is a parameter.
\<close>

subsection \<open>The distance\<close>

inductive edits :: "nat \<Rightarrow> 'a list \<Rightarrow> 'a list \<Rightarrow> bool" where
  nil: "edits 0 [] []"
| keep: "edits n xs ys \<Longrightarrow> edits n (x # xs) (x # ys)"
| subst: "edits n xs ys \<Longrightarrow> edits (Suc n) (x # xs) (y # ys)"
| delete: "edits n xs ys \<Longrightarrow> edits (Suc n) (x # xs) ys"
| insert: "edits n xs ys \<Longrightarrow> edits (Suc n) xs (y # ys)"

lemmas edits_intros = edits.intros

inductive_cases edits_NilE: "edits n [] ys"
inductive_cases edits_Nil2E: "edits n xs []"
inductive_cases edits_ConsE: "edits n (x # xs) (y # ys)"

fun lev :: "'a list \<Rightarrow> 'a list \<Rightarrow> nat" where
  "lev [] ys = length ys"
| "lev xs [] = length xs"
| "lev (x # xs) (y # ys) =
     min (lev xs ys + (if x = y then 0 else 1)) (min (lev xs (y # ys) + 1) (lev (x # xs) ys + 1))"

lemma lev_Nil2 [simp]: "lev xs [] = length xs"
  by (cases xs) auto

lemma edits_delete_all: "edits (length xs) xs []"
  by (induction xs) (auto intro: edits_intros)

lemma edits_insert_all: "edits (length ys) [] ys"
  by (induction ys) (auto intro: edits_intros)

lemma lev_sound: "edits (lev xs ys) xs ys"
proof (induction xs ys rule: lev.induct)
  case (3 x xs y ys)
  have min3: "min a (min b c) \<in> {a, b, c}" for a b c :: nat by (simp add: min_def)
  from min3 [of "lev xs ys + (if x = y then 0 else 1)" "lev xs (y # ys) + 1" "lev (x # xs) ys + 1"]
  consider "lev (x # xs) (y # ys) = lev xs ys" "x = y" | "lev (x # xs) (y # ys) = Suc (lev xs ys)"
    | "lev (x # xs) (y # ys) = Suc (lev xs (y # ys))" | "lev (x # xs) (y # ys) = Suc (lev (x # xs) ys)"
    unfolding lev.simps(3) [of x xs y ys] by (cases "x = y") auto
  then show ?case using 3 by cases (auto intro: edits_intros simp del: lev.simps)
qed (auto simp: edits_insert_all edits_delete_all[of "_ # _", simplified])

lemma lev_Cons_le: "lev (x # xs) ys \<le> Suc (lev xs ys)" "lev xs (y # ys) \<le> Suc (lev xs ys)"
  by (cases ys; auto) (cases xs; auto)

lemma lev_complete: "edits n xs ys \<Longrightarrow> lev xs ys \<le> n"
proof (induction rule: edits.induct)
  case (delete n xs ys x)
  then show ?case using lev_Cons_le(1) [of x xs ys] by linarith
next
  case (insert n xs ys y)
  then show ?case using lev_Cons_le(2) [of xs y ys] by linarith
qed auto

lemma lev_edits: "lev xs ys \<le> n \<longleftrightarrow> (\<exists>m\<le>n. edits m xs ys)"
  using lev_sound lev_complete le_trans by blast

lemma edits_append: "edits m xs ys \<Longrightarrow> edits n us vs \<Longrightarrow> edits (m + n) (xs @ us) (ys @ vs)"
  by (induction rule: edits.induct) (auto intro: edits_intros)

lemma edits_rev: "edits n xs ys \<Longrightarrow> edits n (rev xs) (rev ys)"
proof (induction rule: edits.induct)
  case (keep n xs ys x)
  then show ?case using edits_append [OF keep.IH edits.keep [OF edits.nil, of x]] by simp
next
  case (subst n xs ys x y)
  then show ?case using edits_append [OF subst.IH edits.subst [OF edits.nil, of x y]] by simp
next
  case (delete n xs ys x)
  then show ?case using edits_append [OF delete.IH edits.delete [OF edits.nil, of x]] by simp
next
  case (insert n xs ys y)
  then show ?case using edits_append [OF insert.IH edits.insert [OF edits.nil, of y]] by simp
qed (simp add: edits.nil)

lemma lev_rev [simp]: "lev (rev xs) (rev ys) = lev xs ys"
proof (rule antisym)
  show "lev (rev xs) (rev ys) \<le> lev xs ys" using lev_sound edits_rev lev_complete by blast
  show "lev xs ys \<le> lev (rev xs) (rev ys)"
    using lev_complete [OF edits_rev [OF lev_sound [of "rev xs" "rev ys"]]] by simp
qed

lemma lev_snoc:
  "lev (xs @ [x]) (ys @ [y]) =
     min (lev xs ys + (if x = y then 0 else 1)) (min (lev xs (ys @ [y]) + 1) (lev (xs @ [x]) ys + 1))"
proof -
  have "lev (xs @ [x]) (ys @ [y]) = lev (x # rev xs) (y # rev ys)"
    using lev_rev [of "xs @ [x]" "ys @ [y]"] by simp
  moreover have "lev (rev xs) (y # rev ys) = lev xs (ys @ [y])" "lev (x # rev xs) (rev ys) = lev (xs @ [x]) ys"
    using lev_rev [of xs "ys @ [y]"] lev_rev [of "xs @ [x]" ys] by simp_all
  ultimately show ?thesis by simp
qed


lemma edits_split_Nil:
  "edits n xs es \<Longrightarrow> \<exists>j m l. edits m (take j xs) [] \<and> edits l (drop j xs) es \<and> n = m + l \<and> j \<le> length xs"
  by (rule exI [of _ 0], rule exI [of _ 0], rule exI [of _ n]) (simp add: edits.nil)

lemma edits_split:
  "edits n xs (ps @ es) \<Longrightarrow> \<exists>j m l. edits m (take j xs) ps \<and> edits l (drop j xs) es \<and> n = m + l \<and> j \<le> length xs"
proof (induction n xs "ps @ es" arbitrary: ps es rule: edits.induct)
  case nil
  then have eq: "ps = []" "es = []" by simp_all
  show ?case unfolding eq by (rule edits_split_Nil [OF edits.nil])
next
  case (keep n xs ys x)
  show ?case
  proof (cases ps)
    case Nil
    then have "edits n (x # xs) es" using keep by (auto intro: edits.keep)
    then show ?thesis using edits_split_Nil Nil by blast
  next
    case (Cons y qs)
    then have "ys = qs @ es" using keep.hyps(3) by simp
    from keep.hyps(2) [OF this] obtain j m l where
      "edits m (take j xs) qs" "edits l (drop j xs) es" "n = m + l" "j \<le> length xs" by blast
    then show ?thesis using Cons keep.hyps(3)
      by (intro exI [of _ "Suc j"] exI [of _ m] exI [of _ l]) (auto intro: edits.keep)
  qed
next
  case (subst n xs ys x y)
  show ?case
  proof (cases ps)
    case Nil
    then have "edits (Suc n) (x # xs) es" using subst by (auto intro: edits.subst)
    then show ?thesis using edits_split_Nil Nil by blast
  next
    case (Cons z qs)
    then have "ys = qs @ es" using subst.hyps(3) by simp
    from subst.hyps(2) [OF this] obtain j m l where
      "edits m (take j xs) qs" "edits l (drop j xs) es" "n = m + l" "j \<le> length xs" by blast
    then show ?thesis using Cons subst.hyps(3)
      by (intro exI [of _ "Suc j"] exI [of _ "Suc m"] exI [of _ l]) (auto intro: edits.subst)
  qed
next
  case (delete n xs x)
  then obtain j m l where "edits m (take j xs) ps" "edits l (drop j xs) es" "n = m + l" "j \<le> length xs"
    by blast
  then show ?case
    by (intro exI [of _ "Suc j"] exI [of _ "Suc m"] exI [of _ l]) (auto intro: edits.delete)
next
  case (insert n xs ys y)
  show ?case
  proof (cases ps)
    case Nil
    then have "edits (Suc n) xs es" using insert by (auto intro: edits.insert)
    then show ?thesis using edits_split_Nil Nil by blast
  next
    case (Cons z qs)
    then have "ys = qs @ es" using insert.hyps(3) by simp
    from insert.hyps(2) [OF this] obtain j m l where
      "edits m (take j xs) qs" "edits l (drop j xs) es" "n = m + l" "j \<le> length xs" by blast
    then show ?thesis using Cons insert.hyps(3)
      by (intro exI [of _ j] exI [of _ "Suc m"] exI [of _ l]) (auto intro: edits.insert)
  qed
qed

subsection \<open>The automaton\<close>

text \<open>
  A row holds the distances of the query's prefixes to the text consumed, clamped to \<open>k + 1\<close>; its
  cells are C \<open>int16\<close>, so every store goes through \<open>int16\<close>.
\<close>

record lev_aut =
  aq :: "u8 list"
  ak :: int

definition int16 :: "int \<Rightarrow> int" where
  "int16 x = signed_take_bit 15 x"

definition weave_lev_start :: "lev_aut \<Rightarrow> int list" where
  "weave_lev_start a = map (\<lambda>j. int16 (min (int j) (ak a + 1))) [0..<Suc (length (aq a))]"

definition lev_cell :: "int \<Rightarrow> bool \<Rightarrow> int \<Rightarrow> int \<Rightarrow> int \<Rightarrow> int" where
  \<comment> \<open>the loop body: \<open>v\<close> from \<open>prev[j - 1]\<close>, \<open>prev[j]\<close> and \<open>next[j - 1]\<close>\<close>
  "lev_cell k same diag up left =
     (let sub = diag + (if same then 0 else 1); ins = left + 1; del = up + 1;
          v = min sub (min ins del)
      in if k + 1 < v then k + 1 else v)"

primrec step_cells :: "int \<Rightarrow> u8 \<Rightarrow> u8 list \<Rightarrow> int list \<Rightarrow> int \<Rightarrow> int \<Rightarrow> int list \<times> int" where
  \<comment> \<open>the loop over \<open>j\<close>: the query from \<open>j\<close> on, \<open>prev\<close> from \<open>j - 1\<close> on, \<open>next[j - 1]\<close> and the minimum so far\<close>
  "step_cells k c [] prev left rowmin = ([], rowmin)"
| "step_cells k c (x # q) prev left rowmin =
     (let v = lev_cell k (x = c) (hd prev) (hd (tl prev)) left;
          r = step_cells k c q (tl prev) (int16 v) (if v < rowmin then v else rowmin)
      in (int16 v # fst r, snd r))"

definition weave_lev_step :: "lev_aut \<Rightarrow> int list \<Rightarrow> u8 \<Rightarrow> int list \<times> int" where
  "weave_lev_step a prev c =
     (let n0 = int16 (min (hd prev + 1) (ak a + 1));
          (cells, m) = step_cells (ak a) c (aq a) prev n0 n0
      in (n0 # cells, m))"

definition weave_lev_accept :: "lev_aut \<Rightarrow> int list \<Rightarrow> bool" where
  "weave_lev_accept a row \<longleftrightarrow> row ! length (aq a) \<le> ak a"

fun match_from :: "lev_aut \<Rightarrow> int list \<Rightarrow> nat \<Rightarrow> u8 list \<Rightarrow> bool \<times> nat" where
  "match_from a row i [] = (weave_lev_accept a row, i)"
| "match_from a row i (c # cs) =
     (let (row', rmin) = weave_lev_step a row c
      in if ak a < rmin then (False, Suc i) else match_from a row' (Suc i) cs)"

abbreviation WEAVE_LEV_MAXQ :: nat where
  "WEAVE_LEV_MAXQ \<equiv> 255"

definition weave_lev_match_prefix :: "lev_aut \<Rightarrow> u8 list \<Rightarrow> (bool \<times> nat) option" where
  \<comment> \<open>the rows are arrays of \<open>WEAVE_LEV_MAXQ + 2\<close> cells; \<open>None\<close> where the query's cells run past them\<close>
  "weave_lev_match_prefix a cand =
     (if WEAVE_LEV_MAXQ + 2 < length (aq a) + 1 then None else Some (match_from a (weave_lev_start a) 0 cand))"

definition lev_row :: "lev_aut \<Rightarrow> u8 list \<Rightarrow> int list" where
  "lev_row a pre = map (\<lambda>j. min (int (lev (take j (aq a)) pre)) (ak a + 1)) [0..<Suc (length (aq a))]"

definition aut_ok :: "lev_aut \<Rightarrow> bool" where
  "aut_ok a \<longleftrightarrow> 0 \<le> ak a \<and> ak a < 2 ^ 15 - 1"

lemma int16_id: "0 \<le> x \<Longrightarrow> x < 2 ^ 15 \<Longrightarrow> int16 x = x"
  unfolding int16_def by (rule signed_take_bit_int_eq_self) auto

lemma cell_id: "aut_ok a \<Longrightarrow> 0 \<le> x \<Longrightarrow> x \<le> ak a + 1 \<Longrightarrow> int16 x = x"
  by (rule int16_id) (auto simp: aut_ok_def)

lemma lev_start_row: "aut_ok a \<Longrightarrow> weave_lev_start a = lev_row a []"
  by (auto simp: weave_lev_start_def lev_row_def intro!: cell_id) (auto simp: aut_ok_def)

abbreviation clamped :: "lev_aut \<Rightarrow> nat \<Rightarrow> int" where
  "clamped a n \<equiv> min (int n) (ak a + 1)"

lemma lev_cell_clamped:
  "0 \<le> k \<Longrightarrow> lev_cell k same (min (int d) (k + 1)) (min (int u) (k + 1)) (min (int l) (k + 1)) =
     min (int (min (d + (if same then 0 else 1)) (min (l + 1) (u + 1)))) (k + 1)"
  by (auto simp: lev_cell_def Let_def min_def)

lemma step_cells_row:
  assumes ok: "aut_ok a"
  shows "aq a = pre @ q \<Longrightarrow>
    step_cells (ak a) c q (map (\<lambda>j. clamped a (lev (pre @ take j q) s)) [0..<Suc (length q)])
        (clamped a (lev pre (s @ [c]))) rowmin =
      (map (\<lambda>j. clamped a (lev (pre @ take (Suc j) q) (s @ [c]))) [0..<length q],
       Min (insert rowmin ((\<lambda>j. clamped a (lev (pre @ take (Suc j) q) (s @ [c]))) ` {0..<length q})))"
proof (induction q arbitrary: pre rowmin)
  case (Cons x q)
  let ?v = "clamped a (lev (pre @ [x]) (s @ [c]))"
  let ?prev = "\<lambda>j. clamped a (lev (pre @ take j (x # q)) s)"
  define PR where "PR = map (\<lambda>j. clamped a (lev ((pre @ [x]) @ take j q) s)) [0..<Suc (length q)]"
  have hdp: "hd PR = clamped a (lev (pre @ [x]) s)"
    unfolding PR_def by (simp add: upt_conv_Cons del: upt_Suc)
  have prev: "map ?prev [0..<Suc (length (x # q))] = clamped a (lev pre s) # PR"
    unfolding PR_def by (simp add: upt_conv_Cons map_Suc_upt [symmetric] comp_def del: upt_Suc)
  have v: "lev_cell (ak a) (x = c) (clamped a (lev pre s)) (clamped a (lev (pre @ [x]) s))
      (clamped a (lev pre (s @ [c]))) = ?v"
    using ok by (simp add: lev_snoc aut_ok_def lev_cell_clamped)
  have i16: "int16 ?v = ?v" using ok by (intro cell_id) (auto simp: aut_ok_def)
  have ih: "step_cells (ak a) c q PR ?v (if ?v < rowmin then ?v else rowmin) =
      (map (\<lambda>j. clamped a (lev ((pre @ [x]) @ take (Suc j) q) (s @ [c]))) [0..<length q],
       Min (insert (if ?v < rowmin then ?v else rowmin)
         ((\<lambda>j. clamped a (lev ((pre @ [x]) @ take (Suc j) q) (s @ [c]))) ` {0..<length q})))"
    unfolding PR_def by (rule Cons.IH) (use Cons.prems in simp)
  have tl: "map (\<lambda>j. clamped a (lev (pre @ take (Suc j) (x # q)) (s @ [c]))) [0..<length (x # q)] =
      ?v # map (\<lambda>j. clamped a (lev ((pre @ [x]) @ take (Suc j) q) (s @ [c]))) [0..<length q]"
    by (simp add: upt_conv_Cons map_Suc_upt [symmetric] comp_def del: upt_Suc)
  have im: "insert rowmin ((\<lambda>j. clamped a (lev (pre @ take (Suc j) (x # q)) (s @ [c]))) ` {0..<length (x # q)}) =
      insert rowmin (insert ?v ((\<lambda>j. clamped a (lev ((pre @ [x]) @ take (Suc j) q) (s @ [c]))) ` {0..<length q}))"
    using arg_cong [OF tl, of set] by (simp only: set_map set_upt list.set)
  have mn: "Min (insert (if ?v < rowmin then ?v else rowmin) S) = Min (insert rowmin (insert ?v S))"
    if "finite S" for S using that by (cases "S = {}") (auto simp: min_def)
  show ?case
    unfolding prev tl im
    by (simp only: step_cells.simps(2) list.sel hdp v i16 Let_def ih fst_conv snd_conv mn
        finite_imageI finite_atLeastLessThan)
qed simp


lemma lev_step_row:
  assumes ok: "aut_ok a"
  shows "fst (weave_lev_step a (lev_row a s) c) = lev_row a (s @ [c])"
    and "snd (weave_lev_step a (lev_row a s) c) = Min (set (lev_row a (s @ [c])))"
proof -
  let ?row = "\<lambda>j. clamped a (lev (take j (aq a)) (s @ [c]))"
  have n0: "int16 (min (clamped a (lev [] s) + 1) (ak a + 1)) = clamped a (lev [] (s @ [c]))"
    using ok by (subst cell_id) (auto simp: aut_ok_def)
  have hd: "hd (lev_row a s) = clamped a (lev [] s)"
    unfolding lev_row_def by (simp add: upt_conv_Cons del: upt_Suc)
  have cells: "step_cells (ak a) c (aq a) (lev_row a s) (?row 0) (?row 0) =
      (map (\<lambda>j. ?row (Suc j)) [0..<length (aq a)], Min (insert (?row 0) ((\<lambda>j. ?row (Suc j)) ` {0..<length (aq a)})))"
    using step_cells_row [OF ok, of "[]" "aq a" c s "?row 0"] by (simp add: lev_row_def)
  have row: "lev_row a (s @ [c]) = ?row 0 # map (\<lambda>j. ?row (Suc j)) [0..<length (aq a)]"
    unfolding lev_row_def by (simp add: upt_conv_Cons map_Suc_upt [symmetric] comp_def del: upt_Suc)
  have step: "weave_lev_step a (lev_row a s) c =
      (?row 0 # map (\<lambda>j. ?row (Suc j)) [0..<length (aq a)],
       Min (insert (?row 0) ((\<lambda>j. ?row (Suc j)) ` {0..<length (aq a)})))"
    unfolding weave_lev_step_def Let_def hd n0 using cells by simp
  show "fst (weave_lev_step a (lev_row a s) c) = lev_row a (s @ [c])"
    unfolding step row by simp
  show "snd (weave_lev_step a (lev_row a s) c) = Min (set (lev_row a (s @ [c])))"
    unfolding step row by simp
qed

lemma lev_row_accept:
  "0 \<le> ak a \<Longrightarrow> weave_lev_accept a (lev_row a s) \<longleftrightarrow> int (lev (aq a) s) \<le> ak a"
  by (auto simp: weave_lev_accept_def lev_row_def nth_append min_def simp del: upt_Suc)

lemma lev_row_dead:
  assumes "aut_ok a" and "ak a < Min (set (lev_row a s))"
  shows "ak a < int (lev (aq a) (s @ es))"
proof (rule ccontr)
  assume "\<not> ?thesis"
  then have le: "int (lev (aq a) (s @ es)) \<le> ak a" by simp
  obtain j m l where e: "edits m (take j (aq a)) s" "lev (aq a) (s @ es) = m + l" "j \<le> length (aq a)"
    using edits_split [OF lev_sound] by metis
  have "clamped a (lev (take j (aq a)) s) \<in> set (lev_row a s)"
    using e(3) by (auto simp: lev_row_def intro!: image_eqI [of _ _ j] simp del: upt_Suc)
  then have "Min (set (lev_row a s)) \<le> clamped a (lev (take j (aq a)) s)" by (rule Min_le [OF finite_set])
  moreover have "lev (take j (aq a)) s \<le> m" using lev_complete [OF e(1)] .
  ultimately show False using le e(2) assms(2) by linarith
qed

lemma match_from_ok:
  assumes ok: "aut_ok a"
  shows "match_from a (lev_row a s) (length s) cs = (r, d) \<Longrightarrow>
    (r \<longleftrightarrow> int (lev (aq a) (s @ cs)) \<le> ak a) \<and> d \<le> length (s @ cs) \<and>
    (d < length (s @ cs) \<longrightarrow> (\<forall>es. ak a < int (lev (aq a) (take d (s @ cs) @ es))))"
proof (induction cs arbitrary: s)
  case Nil
  then show ?case using lev_row_accept [of a s] ok by (auto simp: aut_ok_def)
next
  case (Cons c cs)
  obtain row rmin where st: "weave_lev_step a (lev_row a s) c = (row, rmin)" by fastforce
  then have row: "row = lev_row a (s @ [c])" "rmin = Min (set (lev_row a (s @ [c])))"
    using lev_step_row [OF ok, of s c] by simp_all
  show ?case
  proof (cases "ak a < rmin")
    case True
    then have "r = False" "d = Suc (length s)" using Cons.prems st by simp_all
    moreover have "ak a < int (lev (aq a) ((s @ [c]) @ es))" for es
      using lev_row_dead [OF ok, of "s @ [c]"] True row(2) by simp
    from this [of cs] this have "ak a < int (lev (aq a) (s @ c # cs))"
      "\<forall>es. ak a < int (lev (aq a) (s @ c # es))" by simp_all
    ultimately show ?thesis by (simp add: not_le)
  next
    case False
    then have "match_from a (lev_row a (s @ [c])) (length (s @ [c])) cs = (r, d)"
      using Cons.prems st row by simp
    from Cons.IH [OF this] show ?thesis by simp
  qed
qed

text \<open>
  C17: matching a candidate term against the automaton of a query of at most \<open>WEAVE_LEV_MAXQ\<close> bytes stays inside
  the two row arrays and decides whether the term is within \<open>k\<close> edits of the query, exactly, whatever the clamping
  and the 16-bit cells; and a dead prefix it reports short of the whole candidate is dead: no term that starts with
  it is within \<open>k\<close> edits, so a walk over a sorted dictionary may skip them all.
\<close>

theorem lev_match_prefix_exact:
  assumes "length (aq a) \<le> WEAVE_LEV_MAXQ" and "0 \<le> ak a" and "ak a < 2 ^ 15 - 1"
  shows "\<exists>r d. weave_lev_match_prefix a cand = Some (r, d) \<and> (r \<longleftrightarrow> int (lev (aq a) cand) \<le> ak a) \<and>
    d \<le> length cand \<and> (d < length cand \<longrightarrow> (\<forall>es. ak a < int (lev (aq a) (take d cand @ es))))"
proof -
  have ok: "aut_ok a" using assms(2,3) by (simp add: aut_ok_def)
  obtain r d where m: "match_from a (weave_lev_start a) 0 cand = (r, d)" by fastforce
  then show ?thesis
    using match_from_ok [OF ok, of "[]" cand r d] assms(1) lev_start_row [OF ok]
    by (simp add: weave_lev_match_prefix_def)
qed

theorem lev_match_prefix_exact_witness:
  "\<exists>d. weave_lev_match_prefix \<lparr>aq = [1, 2, 3], ak = 1\<rparr> [1, 3] = Some (True, d)"
  using lev_match_prefix_exact [of "\<lparr>aq = [1, 2, 3], ak = 1\<rparr>" "[1, 3]"] by auto

subsection \<open>Byte trigrams\<close>

abbreviation (input) MAX_TRIGRAMS :: nat where
  "MAX_TRIGRAMS \<equiv> 64"

definition windows :: "u8 list \<Rightarrow> u8 list list" where
  \<comment> \<open>the three bytes at every \<open>i\<close> with \<open>i + 3 <= len\<close>\<close>
  "windows s = map (\<lambda>i. take 3 (drop i s)) [0..<length s - 2]"

definition add_trigram :: "nat \<Rightarrow> u32 list \<Rightarrow> u32 \<Rightarrow> u32 list" where
  "add_trigram maxout out h = (if h \<notin> set out \<and> length out < maxout then out @ [h] else out)"

definition weave_trigrams :: "(u8 list \<Rightarrow> u32) \<Rightarrow> u8 list \<Rightarrow> nat \<Rightarrow> u32 list" where
  "weave_trigrams hb s maxout =
     (if s = [] then []
      else if length s < 3 then
        (if 0 < maxout then [hb (s @ replicate (3 - length s) 0x20)] else [])
      else foldl (add_trigram maxout) [] (map hb (windows s)))"

definition weave_trigrams_overlap :: "u32 list \<Rightarrow> u32 list \<Rightarrow> bool" where
  "weave_trigrams_overlap a b \<longleftrightarrow> list_ex (\<lambda>x. list_ex (\<lambda>y. x = y) b) a"

lemma overlap_iff: "weave_trigrams_overlap a b \<longleftrightarrow> set a \<inter> set b \<noteq> {}"
  by (auto simp: weave_trigrams_overlap_def list_ex_iff)

lemma add_trigrams_mono: "set out \<subseteq> set (foldl (add_trigram n) out hs)"
proof (induction hs arbitrary: out)
  case (Cons h hs)
  have "set out \<subseteq> set (add_trigram n out h)" by (auto simp: add_trigram_def)
  then show ?case using Cons [of "add_trigram n out h"] by auto
qed simp

lemma add_trigrams_length: "length (foldl (add_trigram n) out hs) \<le> length out + length hs"
proof (induction hs arbitrary: out)
  case (Cons h hs)
  have "length (add_trigram n out h) \<le> Suc (length out)" by (simp add: add_trigram_def)
  then show ?case using Cons [of "add_trigram n out h"] by simp
qed simp

lemma add_trigrams_first:
  "i < length hs \<Longrightarrow> length out + i < n \<Longrightarrow> hs ! i \<in> set (foldl (add_trigram n) out hs)"
proof (induction hs arbitrary: out i)
  case (Cons h hs)
  show ?case
  proof (cases i)
    case 0
    then have "h \<in> set (add_trigram n out h)" using Cons.prems by (auto simp: add_trigram_def)
    then show ?thesis using 0 add_trigrams_mono [of "add_trigram n out h" n hs] by auto
  next
    case (Suc j)
    have "length (add_trigram n out h) \<le> Suc (length out)" by (simp add: add_trigram_def)
    then show ?thesis using Cons.IH [of j "add_trigram n out h"] Cons.prems Suc by simp
  qed
qed simp

definition shares_window :: "nat \<Rightarrow> 'a list \<Rightarrow> 'a list \<Rightarrow> bool" where
  \<comment> \<open>a common window of three, at or before position \<open>b\<close> in both\<close>
  "shares_window b xs ys \<longleftrightarrow> (\<exists>i j. i \<le> b \<and> j \<le> b \<and> i + 3 \<le> length xs \<and> j + 3 \<le> length ys \<and>
     take 3 (drop i xs) = take 3 (drop j ys))"

lemma shares_window_front: "length as = 3 \<Longrightarrow> shares_window b (as @ xs) (as @ ys)"
  unfolding shares_window_def by (intro exI [of _ 0]) simp

lemma shares_window_shift:
  assumes "shares_window b xs ys" and "length us \<le> 3" and "length vs \<le> 3"
  shows "shares_window (b + 3) (us @ xs) (vs @ ys)"
proof -
  obtain i j where "i \<le> b" "j \<le> b" "i + 3 \<le> length xs" "j + 3 \<le> length ys"
    "take 3 (drop i xs) = take 3 (drop j ys)"
    using assms(1) by (auto simp: shares_window_def)
  then show ?thesis unfolding shares_window_def
    by (intro exI [of _ "length us + i"] exI [of _ "length vs + j"]) (use assms(2,3) in auto)
qed

lemma kept_window:
  "edits n xs ys \<Longrightarrow> length as \<le> 3 \<Longrightarrow> 3 * n + 3 \<le> length (as @ xs) \<Longrightarrow>
   shares_window (3 * n) (as @ xs) (as @ ys)"
  \<comment> \<open>\<open>as\<close> are the characters kept since the last edit\<close>
proof (induction arbitrary: as rule: edits.induct)
  case nil
  then show ?case using shares_window_front [of as 0 "[]" "[]"] by simp
next
  case (keep n xs ys x)
  show ?case
  proof (cases "length as = 3")
    case False
    then show ?thesis using keep.IH [of "as @ [x]"] keep.prems by simp
  qed (rule shares_window_front)
next
  case (subst n xs ys x y)
  show ?case
  proof (cases "length as = 3")
    case False
    then show ?thesis
      using shares_window_shift [of "3 * n" xs ys "as @ [x]" "as @ [y]"] subst.IH [of "[]"] subst.prems
      by (simp add: add.commute)
  qed (rule shares_window_front)
next
  case (delete n xs ys x)
  show ?case
  proof (cases "length as = 3")
    case False
    then show ?thesis
      using shares_window_shift [of "3 * n" xs ys "as @ [x]" as] delete.IH [of "[]"] delete.prems
      by (simp add: add.commute)
  qed (rule shares_window_front)
next
  case (insert n xs ys y)
  show ?case
  proof (cases "length as = 3")
    case False
    then show ?thesis
      using shares_window_shift [of "3 * n" xs ys as "as @ [y]"] insert.IH [of "[]"] insert.prems
      by (simp add: add.commute)
  qed (rule shares_window_front)
qed

lemma windows_length: "length (windows s) = length s - 2"
  by (simp add: windows_def)

lemma trigrams_window:
  assumes "i + 3 \<le> length s" and "i < n"
  shows "hb (take 3 (drop i s)) \<in> set (weave_trigrams hb s n)"
proof -
  have i: "i < length (windows s)" using assms(1) by (simp add: windows_length)
  then have "windows s ! i = take 3 (drop i s)" by (simp add: windows_def)
  then show ?thesis
    using add_trigrams_first [of i "map hb (windows s)" "[]" n] i assms
    by (auto simp: weave_trigrams_def)
qed

lemma trigrams_count: "length (weave_trigrams hb s n) \<le> max 1 (length s - 2)" "length (weave_trigrams hb s n) \<le> n"
proof -
  show "length (weave_trigrams hb s n) \<le> max 1 (length s - 2)"
    using add_trigrams_length [of n "[]" "map hb (windows s)"]
    by (auto simp: weave_trigrams_def windows_length)
  have "length (foldl (add_trigram n) out hs) \<le> n" if "length out \<le> n" for out hs
    using that by (induction hs arbitrary: out) (auto simp: add_trigram_def)
  from this [of "[]"] show "length (weave_trigrams hb s n) \<le> n" by (auto simp: weave_trigrams_def)
qed

text \<open>
  C18: the trigram pre-filter loses no match: when a query has more than \<open>3 k\<close> distinct trigrams, every
  string within \<open>k\<close> edits of it shares one with it, also among the first \<open>WEAVE_MAX_TRIGRAMS\<close> that
  are extracted from each, and whatever the hash.
\<close>

theorem trigram_filter_sound:
  assumes "lev q s \<le> k" and "3 * k < length (weave_trigrams hb q 64)" and "q \<noteq> []"
  shows "weave_trigrams_overlap (weave_trigrams hb q 64) (weave_trigrams hb s 64)"
proof (cases "k = 0")
  case True
  then have "edits 0 q s" using lev_sound [of q s] assms(1) by simp
  then have "q = s" by (induction "0::nat" q s rule: edits.induct) auto
  then show ?thesis using assms(2) by (cases "weave_trigrams hb s 64") (auto simp: overlap_iff)
next
  case False
  then have len: "3 * k + 3 \<le> length q" and k: "3 * k < 64"
    using assms(2) trigrams_count [of hb q 64] by auto
  have "shares_window (3 * lev q s) q s"
    using kept_window [OF lev_sound [of q s], of "[]"] len assms(1) by simp
  then obtain i j where "i \<le> 3 * k" "j \<le> 3 * k" "i + 3 \<le> length q" "j + 3 \<le> length s"
    "take 3 (drop i q) = take 3 (drop j s)"
    using assms(1) unfolding shares_window_def
    by (meson le_trans mult_le_mono2)
  then show ?thesis
    using trigrams_window [of i q 64 hb] trigrams_window [of j s 64 hb] k by (auto simp: overlap_iff)
qed

theorem trigram_filter_sound_witness:
  "weave_trigrams_overlap (weave_trigrams (\<lambda>w. ucast (hd w)) [97, 98, 99, 100, 101, 102] 64)
     (weave_trigrams (\<lambda>w. ucast (hd w)) [97, 98, 120, 100, 101, 102] 64)"
proof -
  have "length (weave_trigrams (\<lambda>w. ucast (hd w)) [97, 98, 99, 100, 101, 102] 64) = 4"
    by (simp add: weave_trigrams_def windows_def add_trigram_def upt_rec)
  moreover have "lev [97, 98, 99, 100, 101, 102 :: u8] [97, 98, 120, 100, 101, 102] \<le> 1"
    by simp
  ultimately show ?thesis by (intro trigram_filter_sound [of _ _ 1]) auto
qed

end
