(* ===== verification/Weave_Postfix.thy ===== *)
theory Weave_Postfix
  imports Weave_Prelude
begin

text \<open>
  Postfix lists and the stack machines that run over them. The validator, the evaluator and the stopword
  elision of queries (\<open>src/query/parse.c\<close>, \<open>src/query/match.c\<close>) all walk such lists; the locale
  \<open>stack_machine\<close> states when a machine computes the value of the list's operator tree.
\<close>

subsection \<open>Postfix lists and stack machines\<close>

datatype 'a qtree = QT 'a "'a qtree list"

primrec postfix :: "'a qtree \<Rightarrow> 'a list" where
  "postfix (QT a ts) = concat (map postfix ts) @ [a]"

primrec tree_ok :: "('a \<Rightarrow> nat) \<Rightarrow> 'a qtree \<Rightarrow> bool" where
  "tree_ok ar (QT a ts) \<longleftrightarrow> length ts = ar a \<and> list_all (tree_ok ar) ts"

primrec tree_value :: "('a \<Rightarrow> 'v list \<Rightarrow> 'v) \<Rightarrow> 'a qtree \<Rightarrow> 'v" where
  "tree_value g (QT a ts) = g a (map (tree_value g) ts)"

primrec run_items :: "('a \<Rightarrow> 'v list \<Rightarrow> 'v list option) \<Rightarrow> 'a list \<Rightarrow> 'v list \<Rightarrow> 'v list option" where
  \<comment> \<open>the stack with its top first\<close>
  "run_items f [] st = Some st"
| "run_items f (x # xs) st = Option.bind (f x st) (run_items f xs)"

lemma run_items_append: "run_items f (xs @ ys) st = Option.bind (run_items f xs st) (run_items f ys)"
  by (induction xs arbitrary: st) (auto simp: bind_eq_Some_conv split: bind_split)

locale stack_machine =
  fixes arity :: "'a \<Rightarrow> nat"
    and step :: "'a \<Rightarrow> 'v list \<Rightarrow> 'v list option"
    and op :: "'a \<Rightarrow> 'v list \<Rightarrow> 'v"
  assumes step_op: "length vs = arity a \<Longrightarrow> step a (rev vs @ st) = Some (op a vs # st)"
    and step_short: "length st < arity a \<Longrightarrow> step a st = None"
begin

lemma run_postfix: "tree_ok arity t \<Longrightarrow> run_items step (postfix t) st = Some (tree_value op t # st)"
proof (induction t arbitrary: st)
  case (QT a ts)
  have args: "run_items step (concat (map postfix us)) st = Some (rev (map (tree_value op) us) @ st)"
    if "set us \<subseteq> set ts" for us
    using that
  proof (induction us arbitrary: st)
    case (Cons u us)
    then have "run_items step (postfix u) st = Some (tree_value op u # st)" for st
      using QT.IH [of u] QT.prems by (simp add: list_all_iff)
    then show ?case using Cons by (simp add: run_items_append)
  qed simp
  show ?case
    using args [of ts] QT.prems step_op [of "map (tree_value op) ts" a st] by (simp add: run_items_append)
qed

lemma step_enough:
  assumes "step a st = Some st'"
  shows "arity a \<le> length st \<and> st' = op a (rev (take (arity a) st)) # drop (arity a) st"
proof -
  have ge: "arity a \<le> length st" using assms step_short [of st a] by force
  have "step a (rev (rev (take (arity a) st)) @ drop (arity a) st) =
      Some (op a (rev (take (arity a) st)) # drop (arity a) st)"
    by (rule step_op) (use ge in simp)
  then show ?thesis using assms ge by simp
qed

lemma run_trees:
  "run_items step xs (rev (map (tree_value op) ts)) = Some st \<Longrightarrow> list_all (tree_ok arity) ts \<Longrightarrow>
   \<exists>us. concat (map postfix ts) @ xs = concat (map postfix us) \<and> list_all (tree_ok arity) us \<and>
        st = rev (map (tree_value op) us)"
proof (induction xs arbitrary: ts)
  case (Cons x xs)
  let ?st = "rev (map (tree_value op) ts)"
  obtain st1 where st1: "step x ?st = Some st1" "run_items step xs st1 = Some st"
    using Cons.prems(1) by (auto simp: bind_eq_Some_conv)
  let ?n = "arity x" and ?m = "length ts - arity x"
  have n: "?n \<le> length ts" and st1': "st1 = op x (rev (take ?n ?st)) # drop ?n ?st"
    using step_enough [OF st1(1)] by auto
  let ?ts' = "take ?m ts @ [QT x (drop ?m ts)]"
  have "rev (take ?n ?st) = map (tree_value op) (drop ?m ts)" "drop ?n ?st = rev (map (tree_value op) (take ?m ts))"
    by (simp_all add: take_rev drop_rev drop_map take_map)
  then have "run_items step xs (rev (map (tree_value op) ?ts')) = Some st"
    using st1(2) st1' by simp
  moreover have "list_all (tree_ok arity) ?ts'"
    using Cons.prems(2) n by (auto simp: list_all_iff dest: in_set_takeD in_set_dropD)
  ultimately obtain us where us: "concat (map postfix ?ts') @ xs = concat (map postfix us)"
      "list_all (tree_ok arity) us" "st = rev (map (tree_value op) us)"
    using Cons.IH [of ?ts'] by blast
  have "concat (map postfix ts) = concat (map postfix (take ?m ts)) @ concat (map postfix (drop ?m ts))"
    by (metis append_take_drop_id concat_append map_append)
  then have "concat (map postfix ?ts') @ xs = concat (map postfix ts) @ x # xs" by simp
  then show ?case using us by metis
qed auto

lemma run_single:
  assumes "run_items step xs [] = Some [v]"
  shows "\<exists>t. xs = postfix t \<and> tree_ok arity t \<and> v = tree_value op t"
proof -
  have "\<exists>us. xs = concat (map postfix us) \<and> list_all (tree_ok arity) us \<and> [v] = rev (map (tree_value op) us)"
    using run_trees [of xs "[]" "[v]"] assms by simp
  then obtain us where "xs = concat (map postfix us)" "list_all (tree_ok arity) us" "[v] = rev (map (tree_value op) us)"
    by blast
  moreover from this have "\<exists>t. us = [t]" by (cases us) auto
  ultimately show ?thesis by auto
qed

end

end
