(* ===== verification/Weave_Bytes.thy ===== *)
theory Weave_Bytes
  imports Weave_Prelude
begin

text \<open>
  Bytes of on-disk images: little-endian fields, reads that leave the buffer as \<open>None\<close>, and the alignment
  macro that \<open>include/weave/docvalid.h\<close> and \<open>include/weave/docvals.h\<close> share.
\<close>

subsection \<open>Fields\<close>

primrec le_bytes :: "nat \<Rightarrow> nat \<Rightarrow> u8 list" where
  "le_bytes 0 x = []"
| "le_bytes (Suc n) x = of_nat (x mod 256) # le_bytes n (x div 256)"

primrec le_value :: "u8 list \<Rightarrow> nat" where
  "le_value [] = 0"
| "le_value (b # bs) = unat b + 256 * le_value bs"

abbreviation r64 :: "u8 list \<Rightarrow> nat \<Rightarrow> u64" where
  "r64 buf i \<equiv> of_nat (le_value (take 8 (drop i buf)))"

abbreviation r32 :: "u8 list \<Rightarrow> nat \<Rightarrow> u32" where
  "r32 buf i \<equiv> of_nat (le_value (take 4 (drop i buf)))"

abbreviation r16 :: "u8 list \<Rightarrow> nat \<Rightarrow> u16" where
  "r16 buf i \<equiv> of_nat (le_value (take 2 (drop i buf)))"

definition rd32 :: "u8 list \<Rightarrow> nat \<Rightarrow> u32 option" where
  \<comment> \<open>a read that leaves the buffer is \<open>None\<close>\<close>
  "rd32 buf i = (if i + 4 \<le> length buf then Some (r32 buf i) else None)"

definition rd16 :: "u8 list \<Rightarrow> nat \<Rightarrow> u16 option" where
  "rd16 buf i = (if i + 2 \<le> length buf then Some (r16 buf i) else None)"

definition rd64 :: "u8 list \<Rightarrow> nat \<Rightarrow> u64 option" where
  "rd64 buf i = (if i + 8 \<le> length buf then Some (r64 buf i) else None)"

definition rd8 :: "u8 list \<Rightarrow> nat \<Rightarrow> u8 option" where
  "rd8 buf i = (if i < length buf then Some (buf ! i) else None)"

definition WEAVE_DV_MAXALIGN :: "u64 \<Rightarrow> u64" where
  "WEAVE_DV_MAXALIGN n = (n + 7) AND NOT 7"

definition MAXALIGN :: "nat \<Rightarrow> nat" where
  "MAXALIGN n = (n + 7) div 8 * 8"

lemma le_bytes_length [simp]: "length (le_bytes n x) = n"
  by (induction n arbitrary: x) auto

lemma le_value_bytes: "le_value (le_bytes n x) = x mod 256 ^ n"
proof (induction n arbitrary: x)
  case (Suc n)
  have "x mod (256 * 256 ^ n) = x mod 256 + 256 * (x div 256 mod 256 ^ n)"
    by (subst mod_mult2_eq) simp
  then show ?case using Suc by (simp add: unat_of_nat)
qed simp

lemma val32 [simp]: "(of_nat (le_value (le_bytes 4 (unat w))) :: u32) = w"
  using unat_u32 [of w] by (simp add: le_value_bytes)

subsection \<open>Alignment and widened sums\<close>

lemma maxalign_ge: "n \<le> MAXALIGN n"
  by (simp add: MAXALIGN_def)

lemma unat_maxalign:
  assumes "unat n < 2 ^ 63"
  shows "unat (WEAVE_DV_MAXALIGN n) = MAXALIGN (unat n)"
proof -
  let ?a = "n + 7"
  have s: "unat ?a = unat n + 7"
    using assms by (simp add: unat_word_ariths)
  have "?a AND NOT 7 = ?a AND NOT (take_bit 3 ?a)"
  proof -
    have "7 = (mask 3 :: u64)" by (simp add: mask_numeral)
    then have "?a AND NOT 7 = ?a AND NOT (mask 3)" by (rule arg_cong)
    also have "\<dots> = ?a AND NOT (take_bit 3 ?a)"
      by (rule bit_eqI) (auto simp: bit_simps)
    finally show ?thesis .
  qed
  also have "\<dots> = ?a - take_bit 3 ?a"
    by (rule disjunctive_diff_eq_and_not [symmetric], rule bit_eqI) (auto simp: bit_simps)
  finally have eq: "WEAVE_DV_MAXALIGN n = ?a - take_bit 3 ?a" by (simp add: WEAVE_DV_MAXALIGN_def)
  have tb: "unat (take_bit 3 ?a) = unat ?a mod 8"
    by (simp add: take_bit_eq_mod unat_mod)
  have "unat (?a - take_bit 3 ?a) = unat ?a - unat ?a mod 8"
    by (subst unat_sub) (simp_all add: tb word_le_nat_alt)
  then show ?thesis unfolding eq MAXALIGN_def s by (simp add: minus_mod_eq_div_mult)
qed

lemma unat_ucast32 [simp]: "unat (ucast (a :: u32) :: u64) = unat a"
  by (rule unat_widen)

lemma sum64: "unat ((ucast (a :: u32) :: u64) + ucast (b :: u32)) = unat a + unat b"
  using unat_u32 [of a] unat_u32 [of b] by (simp add: unat_word_ariths)

end
