(* ===== verification/Weave_Doc.thy ===== *)
theory Weave_Doc
  imports Weave_Edit Weave_Bytes "HOL-Library.List_Lexorder" "HOL-Library.Sublist" "HOL-Library.Multiset"
begin

text \<open>
  Documents: the \<open>wdoc\<close> value of \<open>include/weave/weave.h\<close>, its assembly \<open>weave_doc_build\<close> and the lookups of
  \<open>src/query/doc.c\<close>. A document is the record of its varlena's regions. The macros that slice it
  (\<open>WEAVE_DOC_TERMTEXT\<close>, \<open>WEAVE_DOC_TERMPOS\<close>) are \<open>term_text\<close> and \<open>term_pos\<close>. PostgreSQL's encoding
  functions and its bounded Levenshtein distance are parameters of the fuzzy test.
\<close>

subsection \<open>Positions\<close>

definition WEAVE_POS_ORD :: "u32 \<Rightarrow> u32" where
  "WEAVE_POS_ORD p = p AND 0x3FFFFFFF"

definition WEAVE_POS_LABEL :: "u32 \<Rightarrow> u8" where
  "WEAVE_POS_LABEL p = ucast (drop_bit 30 p)"

abbreviation (input) POS_UNKNOWN :: u32 where
  "POS_UNKNOWN \<equiv> 0"

subsection \<open>The value\<close>

record term_entry =
  eoff :: u32
  elen :: u32
  etf :: u32
  eposoff :: u32

record wdoc =
  dflags :: u16
  ddoclen :: u32
  dentries :: "term_entry list"
  dlexemes :: "u8 list"
  dpositions :: "u32 list"

definition DOCF_POSITIONS :: u16 where "DOCF_POSITIONS = 1"
definition DOCF_WEIGHTS :: u16 where "DOCF_WEIGHTS = 2"

definition WEAVE_DOC_HAS_POS :: "wdoc \<Rightarrow> bool" where
  "WEAVE_DOC_HAS_POS d \<longleftrightarrow> dflags d AND DOCF_POSITIONS \<noteq> 0"

definition term_text :: "wdoc \<Rightarrow> term_entry \<Rightarrow> u8 list" where
  "term_text d e = take (unat (elen e)) (drop (unat (eoff e)) (dlexemes d))"

definition term_pos :: "wdoc \<Rightarrow> term_entry \<Rightarrow> u32 list" where
  "term_pos d e = take (unat (etf e)) (drop (unat (eposoff e)) (dpositions d))"

subsection \<open>Comparing terms\<close>

fun memcmp :: "u8 list \<Rightarrow> u8 list \<Rightarrow> int" where
  "memcmp (a # as) (b # bs) = (if a < b then - 1 else if b < a then 1 else memcmp as bs)"
| "memcmp _ _ = 0"

definition term_cmp :: "u8 list \<Rightarrow> u8 list \<Rightarrow> int" where
  \<comment> \<open>\<open>memcmp\<close> over the shorter length, then the lengths\<close>
  "term_cmp a b =
     (let n = min (length a) (length b); c = memcmp (take n a) (take n b)
      in if c = 0 then int (length a) - int (length b) else c)"

lemma term_cmp_Cons [simp]:
  "term_cmp (a # as) (b # bs) = (if a < b then - 1 else if b < a then 1 else term_cmp as bs)"
  by (simp add: term_cmp_def Let_def)

lemma term_cmp_Nil [simp]: "term_cmp [] bs = - int (length bs)" "term_cmp as [] = int (length as)"
  by (simp_all add: term_cmp_def)

lemma term_cmp_order: "term_cmp a b < 0 \<longleftrightarrow> a < b" "term_cmp a b = 0 \<longleftrightarrow> a = b"
proof -
  have "(term_cmp a b < 0 \<longleftrightarrow> a < b) \<and> (term_cmp a b = 0 \<longleftrightarrow> a = b)"
    by (induction a b rule: list_induct2') (auto simp: Cons_less_Cons)
  then show "term_cmp a b < 0 \<longleftrightarrow> a < b" "term_cmp a b = 0 \<longleftrightarrow> a = b" by blast+
qed

subsection \<open>The default length\<close>

fun count_ords :: "u32 option \<Rightarrow> u32 list \<Rightarrow> nat" where
  \<comment> \<open>the counting loop over the sorted positions, after the previous one\<close>
  "count_ords prev [] = 0"
| "count_ords prev (p # ps) =
     (if WEAVE_POS_ORD p = POS_UNKNOWN \<or> prev = None \<or> Some (WEAVE_POS_ORD p) \<noteq> map_option WEAVE_POS_ORD prev
      then 1 else 0) + count_ords (Some p) ps"

definition weave_doc_default_len :: "u32 list \<Rightarrow> u32 list option \<Rightarrow> nat" where
  "weave_doc_default_len tfs ps =
     (let npos = sum_list (map unat tfs)
      in case ps of None \<Rightarrow> npos
         | Some ps \<Rightarrow> if npos = 0 then npos else count_ords None (sort_key WEAVE_POS_ORD (take npos ps)))"

definition weave_doc_default_len_of :: "wdoc \<Rightarrow> nat" where
  "weave_doc_default_len_of d =
     (if \<not> WEAVE_DOC_HAS_POS d then sum_list (map (unat \<circ> etf) (dentries d))
      else weave_doc_default_len (map etf (dentries d)) (Some (dpositions d)))"

subsection \<open>Assembly\<close>

datatype build_error = TF_ZERO | NOT_SORTED | LENGTH_RANGE | LENGTH_LIMIT | POSITIONS_ORDER | TOO_LARGE

fun check_terms :: "u8 list option \<Rightarrow> (u8 list \<times> u32) list \<Rightarrow> build_error + unit" where
  "check_terms prev [] = Inr ()"
| "check_terms prev ((t, tf) # ts) =
     (if tf < 1 then Inl TF_ZERO
      else if (case prev of None \<Rightarrow> False | Some q \<Rightarrow>
                 let c = memcmp (take (min (length q) (length t)) q) (take (min (length q) (length t)) t)
                 in 0 < c \<or> c = 0 \<and> length t \<le> length q)
        then Inl NOT_SORTED
      else check_terms (Some t) ts)"

fun run_ok :: "u32 list \<Rightarrow> bool" where
  "run_ok (x # y # ps) \<longleftrightarrow>
     \<not> (WEAVE_POS_ORD y < WEAVE_POS_ORD x \<or>
        WEAVE_POS_ORD y = WEAVE_POS_ORD x \<and> WEAVE_POS_ORD y \<noteq> POS_UNKNOWN) \<and> run_ok (y # ps)"
| "run_ok ps \<longleftrightarrow> True"

fun runs_ok :: "u32 list \<Rightarrow> u32 list \<Rightarrow> bool" where
  "runs_ok [] ps \<longleftrightarrow> True"
| "runs_ok (tf # tfs) ps \<longleftrightarrow> run_ok (take (unat tf) ps) \<and> runs_ok tfs (drop (unat tf) ps)"

fun layout :: "u32 \<Rightarrow> u32 \<Rightarrow> (u8 list \<times> u32) list \<Rightarrow> term_entry list" where
  "layout off pidx [] = []"
| "layout off pidx ((t, tf) # ts) =
     \<lparr>eoff = off, elen = of_nat (length t), etf = tf, eposoff = pidx\<rparr> #
     layout (off + of_nat (length t)) (pidx + tf) ts"

abbreviation INT32_MAX :: int where
  "INT32_MAX \<equiv> 2 ^ 31 - 1"

abbreviation (input) DOC_HDRSIZE :: nat where
  "DOC_HDRSIZE \<equiv> 20"

definition doc_total :: "nat \<Rightarrow> nat \<Rightarrow> nat \<Rightarrow> bool \<Rightarrow> nat" where
  "doc_total nterms lexbytes npos has_pos =
     (let posbase = MAXALIGN (DOC_HDRSIZE + nterms * 16 + lexbytes)
      in if has_pos then posbase + npos * 4 else posbase)"

definition weave_doc_build ::
  "nat \<Rightarrow> (u8 list \<times> u32) list \<Rightarrow> u32 list option \<Rightarrow> int \<Rightarrow> build_error + wdoc" where
  \<comment> \<open>the first argument is PostgreSQL's \<open>MaxAllocSize\<close>; a term is a list, so the check for negative lengths is moot\<close>
  "weave_doc_build maxalloc ts ps doclen_in =
     (case check_terms None ts of Inl e \<Rightarrow> Inl e
      | Inr _ \<Rightarrow>
          let tfs = map snd ts;
              maxtf = foldl max 0 tfs;
              npos = sum_list (map unat tfs);
              lexbytes = sum_list (map (length \<circ> fst) ts);
              doclen = (if 0 \<le> doclen_in then doclen_in
                        else if ts = [] then 0 else int (weave_doc_default_len tfs ps))
          in if 0 \<le> doclen_in \<and> (doclen_in < uint maxtf \<or> INT32_MAX < doclen_in) then Inl LENGTH_RANGE
             else if doclen_in < 0 \<and> INT32_MAX < doclen then Inl LENGTH_LIMIT
             else
               let ps' = (if ts = [] then Some [] else ps)
               in if (case ps' of None \<Rightarrow> False | Some q \<Rightarrow> \<not> runs_ok tfs q) then Inl POSITIONS_ORDER
                  else if maxalloc < doc_total (length ts) lexbytes npos (ps' \<noteq> None) then Inl TOO_LARGE
                  else Inr \<lparr>dflags = (case ps' of None \<Rightarrow> 0
                              | Some q \<Rightarrow> if \<exists>p\<in>set (take npos q). WEAVE_POS_LABEL p \<noteq> 0
                                         then DOCF_POSITIONS OR DOCF_WEIGHTS else DOCF_POSITIONS),
                            ddoclen = word_of_int doclen, dentries = layout 0 0 ts,
                            dlexemes = concat (map fst ts),
                            dpositions = (case ps' of None \<Rightarrow> [] | Some q \<Rightarrow> take npos q)\<rparr>)"


subsection \<open>Looking a term up\<close>

function lookup_loop :: "wdoc \<Rightarrow> u8 list \<Rightarrow> int \<Rightarrow> int \<Rightarrow> term_entry option" where
  "lookup_loop d t lo hi =
     (if lo \<le> hi then
        let mid = (lo + hi) div 2; e = dentries d ! nat mid; c = term_cmp (term_text d e) t
        in if c = 0 then Some e
           else if c < 0 then lookup_loop d t (mid + 1) hi
           else lookup_loop d t lo (mid - 1)
      else None)"
  by pat_completeness auto
termination by (relation "measure (\<lambda>(d, t, lo, hi). nat (hi - lo + 1))") auto

declare lookup_loop.simps [simp del]

definition weave_doc_lookup :: "wdoc \<Rightarrow> u8 list \<Rightarrow> term_entry option" where
  "weave_doc_lookup d t = lookup_loop d t 0 (int (length (dentries d)) - 1)"

function prefix_loop :: "wdoc \<Rightarrow> u8 list \<Rightarrow> nat \<Rightarrow> nat \<Rightarrow> nat" where
  "prefix_loop d p lo hi =
     (if lo < hi then
        let mid = (lo + hi) div 2
        in if term_cmp (term_text d (dentries d ! mid)) p < 0 then prefix_loop d p (mid + 1) hi
           else prefix_loop d p lo mid
      else lo)"
  by pat_completeness auto
termination by (relation "measure (\<lambda>(d, p, lo, hi). hi - lo)") auto

declare prefix_loop.simps [simp del]

definition weave_doc_has_prefix :: "wdoc \<Rightarrow> u8 list \<Rightarrow> bool" where
  "weave_doc_has_prefix d p =
     (if p = [] then dentries d \<noteq> []
      else let lo = prefix_loop d p 0 (length (dentries d))
           in if lo < length (dentries d) then
                let m = term_text d (dentries d ! lo)
                in length p \<le> length m \<and> memcmp (take (length p) m) p = 0
              else False)"

definition doc_terms :: "wdoc \<Rightarrow> u8 list list" where
  "doc_terms d = map (term_text d) (dentries d)"

definition doc_sorted :: "wdoc \<Rightarrow> bool" where
  "doc_sorted d \<longleftrightarrow> sorted_wrt (<) (doc_terms d)"

lemma doc_terms_nth: "i < length (dentries d) \<Longrightarrow> doc_terms d ! i = term_text d (dentries d ! i)"
  by (simp add: doc_terms_def)

lemma doc_terms_length [simp]: "length (doc_terms d) = length (dentries d)"
  by (simp add: doc_terms_def)

lemma doc_terms_less:
  assumes "doc_sorted d" and "i < length (dentries d)" and "j < length (dentries d)"
  shows "doc_terms d ! i < doc_terms d ! j \<longleftrightarrow> i < j"
proof
  assume less: "doc_terms d ! i < doc_terms d ! j"
  show "i < j"
  proof (rule ccontr)
    assume "\<not> i < j"
    then have "doc_terms d ! j \<le> doc_terms d ! i"
      using sorted_wrt_nth_le [of "doc_terms d" j i] assms by (simp add: doc_sorted_def)
    then show False using less by simp
  qed
next
  assume "i < j"
  then show "doc_terms d ! i < doc_terms d ! j"
    using sorted_wrt_nth_mono [of "doc_terms d" i j] assms by (simp add: doc_sorted_def)
qed

lemma doc_terms_inj:
  assumes "doc_sorted d" and "i < length (dentries d)" and "j < length (dentries d)"
    and "doc_terms d ! i = doc_terms d ! j"
  shows "i = j"
  using doc_terms_less [of d i j] doc_terms_less [of d j i] assms by (metis less_irrefl linorder_neqE_nat)

lemma lookup_loop_finds:
  assumes "doc_sorted d" and "t = doc_terms d ! i" and "0 \<le> lo" and "hi < int (length (dentries d))"
    and "lo \<le> int i" and "int i \<le> hi"
  shows "lookup_loop d t lo hi = Some (dentries d ! i)"
  using assms
proof (induction d t lo hi rule: lookup_loop.induct)
  case (1 d t lo hi)
  let ?mid = "(lo + hi) div 2"
  have mid: "lo \<le> ?mid" "?mid \<le> hi" "nat ?mid < length (dentries d)" "i < length (dentries d)"
    using 1(5-8) by auto
  have tt: "term_text d (dentries d ! nat ?mid) = doc_terms d ! nat ?mid"
    using doc_terms_nth [OF mid(3)] by simp
  show ?case
  proof (cases "term_cmp (doc_terms d ! nat ?mid) t" "0 :: int" rule: linorder_cases)
    case equal
    then have "nat ?mid = i"
      using doc_terms_inj [OF 1(3) mid(3,4)] 1(4) by (simp add: term_cmp_order)
    then have "dentries d ! nat ?mid = dentries d ! i" by simp
    moreover have "lookup_loop d t lo hi = Some (dentries d ! nat ?mid)"
      using equal mid by (subst lookup_loop.simps) (simp add: Let_def tt)
    ultimately show ?thesis by simp
  next
    case less
    then have "nat ?mid < i"
      using doc_terms_less [OF 1(3) mid(3,4)] 1(4) by (simp add: term_cmp_order)
    then have "lookup_loop d t (?mid + 1) hi = Some (dentries d ! i)"
      using 1(1) [OF _ refl refl refl] less 1(3-8) mid by (simp add: tt)
    then show ?thesis using less mid by (subst lookup_loop.simps) (simp add: Let_def tt)
  next
    case greater
    then have "\<not> nat ?mid \<le> i"
      using doc_terms_less [OF 1(3) mid(3,4)] 1(4) term_cmp_order [of "doc_terms d ! nat ?mid" t]
      by (metis antisym_conv1 less_irrefl not_less_iff_gr_or_eq)
    then have "lookup_loop d t lo (?mid - 1) = Some (dentries d ! i)"
      using 1(2) [OF _ refl refl refl] greater 1(3-8) mid by (simp add: tt)
    then show ?thesis using greater mid by (subst lookup_loop.simps) (simp add: Let_def tt)
  qed
qed

lemma lookup_loop_sound:
  assumes "lookup_loop d t lo hi = Some e" and "0 \<le> lo" and "hi < int (length (dentries d))"
  shows "e \<in> set (dentries d) \<and> term_text d e = t"
  using assms
proof (induction d t lo hi rule: lookup_loop.induct)
  case (1 d t lo hi)
  let ?mid = "(lo + hi) div 2"
  have lohi: "lo \<le> hi" using 1(3) by (subst (asm) lookup_loop.simps) (simp split: if_splits)
  then have mid: "lo \<le> ?mid" "?mid \<le> hi" "nat ?mid < length (dentries d)" using 1(4,5) by auto
  let ?c = "term_cmp (term_text d (dentries d ! nat ?mid)) t"
  consider "?c = 0" | "?c \<noteq> 0" "?c < 0" | "?c \<noteq> 0" "\<not> ?c < 0" by blast
  then show ?case
  proof cases
    case 1
    then show ?thesis
      using \<open>lookup_loop d t lo hi = Some e\<close> lohi mid
      by (subst (asm) lookup_loop.simps) (auto simp: Let_def term_cmp_order)
  next
    case 2
    then have "lookup_loop d t (?mid + 1) hi = Some e"
      using 1(3) lohi by (subst (asm) lookup_loop.simps) (simp add: Let_def)
    then show ?thesis using 1(1) [OF lohi refl refl refl 2] 1(4,5) mid by simp
  next
    case 3
    then have "lookup_loop d t lo (?mid - 1) = Some e"
      using 1(3) lohi by (subst (asm) lookup_loop.simps) (simp add: Let_def)
    then show ?thesis using 1(2) [OF lohi refl refl refl 3] 1(4,5) mid by simp
  qed
qed

lemma lookup_exact:
  assumes "doc_sorted d"
  shows "weave_doc_lookup d t = find (\<lambda>e. term_text d e = t) (dentries d)"
proof (cases "find (\<lambda>e. term_text d e = t) (dentries d)")
  case None
  then have "t \<notin> set (doc_terms d)" by (auto simp: find_None_iff doc_terms_def)
  then have "weave_doc_lookup d t \<noteq> Some e" for e
    using lookup_loop_sound [of d t 0 "int (length (dentries d)) - 1" e]
    by (auto simp: weave_doc_lookup_def doc_terms_def)
  then show ?thesis using None by (cases "weave_doc_lookup d t") auto
next
  case (Some e)
  then obtain i where "i < length (dentries d)" "e = dentries d ! i" "term_text d (dentries d ! i) = t"
    by (auto simp: find_Some_iff)
  then show ?thesis
    using lookup_loop_finds [OF assms, of t i 0 "int (length (dentries d)) - 1"] Some
    by (simp add: weave_doc_lookup_def doc_terms_nth)
qed

lemma prefix_loop_bounds:
  "lo \<le> hi \<Longrightarrow> lo \<le> prefix_loop d p lo hi \<and> prefix_loop d p lo hi \<le> hi"
proof (induction d p lo hi rule: prefix_loop.induct)
  case (1 d p lo hi)
  let ?mid = "(lo + hi) div 2"
  show ?case
  proof (cases "lo < hi")
    case True
    then have "lo \<le> ?mid" "?mid + 1 \<le> hi" by auto
    then show ?thesis
      using 1(1) [OF True refl] 1(2) [OF True refl] True prefix_loop.simps [of d p lo hi]
      by (cases "term_cmp (term_text d (dentries d ! ?mid)) p < 0") (simp_all add: Let_def)
  next
    case False
    then show ?thesis using 1(3) prefix_loop.simps [of d p lo hi] by simp
  qed
qed

lemma prefix_loop_lower:
  assumes "doc_sorted d" and "lo \<le> hi" and "hi \<le> length (dentries d)"
    and "\<forall>j<lo. doc_terms d ! j < p" and "\<forall>j. hi \<le> j \<longrightarrow> j < length (dentries d) \<longrightarrow> p \<le> doc_terms d ! j"
  shows "lower_bound_at (doc_terms d) p (prefix_loop d p lo hi)"
  using assms
proof (induction d p lo hi rule: prefix_loop.induct)
  case (1 d p lo hi)
  let ?mid = "(lo + hi) div 2"
  show ?case
  proof (cases "lo < hi")
    case False
    then have "lo = hi" using 1(4) by simp
    then show ?thesis
      using 1(5-7) by (subst prefix_loop.simps) (simp add: lower_bound_at_def)
  next
    case True
    then have mid: "lo \<le> ?mid" "?mid < hi" "?mid < length (dentries d)" using 1(5) by auto
    have tt: "term_text d (dentries d ! ?mid) = doc_terms d ! ?mid"
      using doc_terms_nth [OF mid(3)] by simp
    have srt: "sorted_wrt (<) (doc_terms d)" using 1(3) by (simp add: doc_sorted_def)
    show ?thesis
    proof (cases "doc_terms d ! ?mid < p")
      case less: True
      have "\<forall>j<?mid + 1. doc_terms d ! j < p"
        using sorted_wrt_nth_le [OF srt, of _ ?mid] less mid by (fastforce simp: less_Suc_eq_le)
      then have "lower_bound_at (doc_terms d) p (prefix_loop d p (?mid + 1) hi)"
        using 1(1) [OF True refl] less 1(3,5,7) mid by (simp add: tt term_cmp_order)
      then show ?thesis
        using True less by (subst prefix_loop.simps) (simp add: Let_def tt term_cmp_order)
    next
      case ge: False
      have "\<forall>j. ?mid \<le> j \<longrightarrow> j < length (dentries d) \<longrightarrow> p \<le> doc_terms d ! j"
        using sorted_wrt_nth_le [OF srt, of ?mid] ge by (fastforce simp: not_less)
      then have "lower_bound_at (doc_terms d) p (prefix_loop d p lo ?mid)"
        using 1(2) [OF True refl] ge 1(3,5,6) mid by (simp add: tt term_cmp_order)
      then show ?thesis
        using True ge by (subst prefix_loop.simps) (simp add: Let_def tt term_cmp_order)
    qed
  qed
qed

lemma memcmp_0: "length a = length b \<Longrightarrow> memcmp a b = 0 \<longleftrightarrow> a = b"
  by (induction a b rule: list_induct2) auto

lemma prefix_ge: "prefix p (t :: u8 list) \<Longrightarrow> p \<le> t"
proof (induction p arbitrary: t)
  case (Cons a p)
  then show ?case by (cases t) auto
qed simp

lemma prefix_between:
  assumes "p \<le> u" and "u \<le> t" and "prefix p (t :: u8 list)"
  shows "prefix p u"
  using assms
proof (induction p arbitrary: u t)
  case (Cons a p)
  obtain t' where t: "t = a # t'" "prefix p t'" using Cons.prems(3) by (cases t) auto
  show ?case
  proof (cases u)
    case (Cons b u')
    then have "b = a" "p \<le> u'" "u' \<le> t'" using Cons.prems t by auto
    then show ?thesis using Cons.IH [of u' t'] t(2) Cons by simp
  qed (use Cons.prems in simp)
qed simp

lemma prefix_memcmp: "length p \<le> length m \<and> memcmp (take (length p) m) p = 0 \<longleftrightarrow> prefix p m"
  by (auto simp: memcmp_0 prefix_def) (metis append_take_drop_id)

lemma has_prefix_exact:
  assumes "doc_sorted d"
  shows "weave_doc_has_prefix d p \<longleftrightarrow> (\<exists>t\<in>set (doc_terms d). prefix p t)"
proof (cases "p = []")
  case True
  then show ?thesis by (cases "dentries d") (auto simp: weave_doc_has_prefix_def doc_terms_def)
next
  case False
  let ?lo = "prefix_loop d p 0 (length (dentries d))"
  have lb: "lower_bound_at (doc_terms d) p ?lo"
    by (rule prefix_loop_lower) (use assms in auto)
  have eq: "weave_doc_has_prefix d p \<longleftrightarrow> ?lo < length (dentries d) \<and> prefix p (doc_terms d ! ?lo)"
    using False by (auto simp: weave_doc_has_prefix_def Let_def doc_terms_nth prefix_memcmp)
  have "prefix p (doc_terms d ! ?lo) \<and> ?lo < length (dentries d)"
    if j: "j < length (dentries d)" and pre: "prefix p (doc_terms d ! j)" for j
  proof -
    have "?lo \<le> j"
      using lb prefix_ge [OF pre] by (meson leD lower_bound_at_def not_le)
    then have "doc_terms d ! ?lo \<le> doc_terms d ! j"
      using sorted_wrt_nth_le [of "doc_terms d" ?lo j] assms j by (simp add: doc_sorted_def)
    moreover have "p \<le> doc_terms d ! ?lo"
      using lb \<open>?lo \<le> j\<close> j by (simp add: lower_bound_at_def)
    ultimately show ?thesis using prefix_between [OF _ _ pre] \<open>?lo \<le> j\<close> j by simp
  qed
  then show ?thesis unfolding eq by (fastforce simp: in_set_conv_nth)
qed


subsection \<open>Fuzzy terms\<close>

definition int32 :: "int \<Rightarrow> int" where
  "int32 x = signed_take_bit 31 x"

lemma int32_id: "- (2 ^ 31) \<le> x \<Longrightarrow> x < 2 ^ 31 \<Longrightarrow> int32 x = x"
  by (simp add: int32_def signed_take_bit_int_eq_self)

definition weave_all_ascii :: "u8 list \<Rightarrow> bool" where
  "weave_all_ascii s \<longleftrightarrow> list_all (\<lambda>c. \<not> 0x80 \<le> c) s"

definition weave_doc_has_fuzzy ::
  "(u8 list \<Rightarrow> u32) \<Rightarrow> bool \<Rightarrow> (u8 list \<Rightarrow> int) \<Rightarrow> (u8 list \<Rightarrow> u8 list \<Rightarrow> int \<Rightarrow> int) \<Rightarrow>
   wdoc \<Rightarrow> u8 list \<Rightarrow> int \<Rightarrow> bool" where
  \<comment> \<open>the hash of a trigram, whether the encoding is single-byte, \<open>pg_mbstrlen_with_len\<close> and
      \<open>varstr_levenshtein_less_equal\<close> at unit costs are parameters\<close>
  "weave_doc_has_fuzzy hb single mblen vlle d term k =
     (let q_ascii = (single \<or> weave_all_ascii term);
          qchars = (if single then int (length term) else mblen term);
          qtrg = weave_trigrams hb term 64;
          use_trgm = (q_ascii \<and> int32 (3 * k) < int (length qtrg))
      in list_ex (\<lambda>e.
           let cand = term_text d e;
               candchars = (if single then int (length cand) else mblen cand)
           in \<not> k < \<bar>candchars - qchars\<bar> \<and>
              \<not> (use_trgm \<and> (single \<or> weave_all_ascii cand) \<and>
                 \<not> weave_trigrams_overlap qtrg (weave_trigrams hb cand 64)) \<and>
              vlle term cand k \<le> k) (dentries d))"

lemma lev_map_inj: "inj f \<Longrightarrow> lev (map f xs) (map f ys) = lev xs ys"
  by (induction xs ys rule: lev.induct) (auto simp: inj_eq)

lemma edits_length: "edits n xs ys \<Longrightarrow> \<bar>int (length xs) - int (length ys)\<bar> \<le> int n"
  by (induction rule: edits.induct) auto

lemma lev_length: "\<bar>int (length xs) - int (length ys)\<bar> \<le> int (lev xs ys)"
  by (rule edits_length [OF lev_sound])

lemma has_fuzzy_exact:
  fixes chars :: "u8 list \<Rightarrow> 'c list"
  assumes k: "0 \<le> k" "3 * k < 2 ^ 31"
    and mblen: "\<And>s. mblen s = int (length (chars s))"
    and vlle: "\<And>s t. vlle s t k \<le> k \<longleftrightarrow> int (lev (chars s) (chars t)) \<le> k"
    and one: "inj one" "\<And>s. single \<or> weave_all_ascii s \<Longrightarrow> chars s = map one s"
  shows "weave_doc_has_fuzzy hb single mblen vlle d term k \<longleftrightarrow>
    (\<exists>t\<in>set (doc_terms d). int (lev (chars term) (chars t)) \<le> k)"
proof -
  let ?n = "\<lambda>s. if single then int (length s) else mblen s"
  have len: "?n s = int (length (chars s))" for s
    using mblen one(2) [of s] by auto
  have diff: "\<not> k < \<bar>?n t - ?n term\<bar>" if "int (lev (chars term) (chars t)) \<le> k" for t
    using lev_length [of "chars term" "chars t"] that unfolding len by linarith
  have overlap: "weave_trigrams_overlap (weave_trigrams hb term 64) (weave_trigrams hb t 64)"
    if lev: "int (lev (chars term) (chars t)) \<le> k"
      and q: "single \<or> weave_all_ascii term" and c: "single \<or> weave_all_ascii t"
      and use: "int32 (3 * k) < int (length (weave_trigrams hb term 64))" for t
  proof (rule trigram_filter_sound [of _ _ "nat k"])
    show "lev term t \<le> nat k"
      using lev by (simp add: one(2) [OF q] one(2) [OF c] lev_map_inj [OF one(1)])
    have i: "int32 (3 * k) = 3 * k" using k by (simp add: int32_id)
    show n: "3 * nat k < length (weave_trigrams hb term 64)"
      using use k(1) unfolding i by linarith
    show "term \<noteq> []" using n by (auto simp: weave_trigrams_def)
  qed
  have "(\<not> k < \<bar>?n t - ?n term\<bar> \<and>
      \<not> (((single \<or> weave_all_ascii term) \<and> int32 (3 * k) < int (length (weave_trigrams hb term 64))) \<and>
         (single \<or> weave_all_ascii t) \<and>
         \<not> weave_trigrams_overlap (weave_trigrams hb term 64) (weave_trigrams hb t 64)) \<and>
      vlle term t k \<le> k) \<longleftrightarrow> int (lev (chars term) (chars t)) \<le> k" for t
    using diff [of t] overlap [of t] vlle [of "term" t] by blast
  then show ?thesis
    unfolding weave_doc_has_fuzzy_def Let_def list_ex_iff doc_terms_def by simp
qed

subsection \<open>What a document's length counts\<close>

lemma count_ords_sorted:
  assumes "sorted (map WEAVE_POS_ORD ps)" and "\<forall>p\<in>set ps. WEAVE_POS_ORD q \<le> WEAVE_POS_ORD p"
  shows "count_ords (Some q) ps =
    card (WEAVE_POS_ORD ` set ps - {0, WEAVE_POS_ORD q}) + length (filter (\<lambda>p. WEAVE_POS_ORD p = 0) ps)"
  using assms
proof (induction ps arbitrary: q)
  case (Cons p ps)
  have IH: "count_ords (Some p) ps = card (WEAVE_POS_ORD ` set ps - {0, WEAVE_POS_ORD p}) +
      length (filter (\<lambda>p. WEAVE_POS_ORD p = 0) ps)"
    using Cons by auto
  have le: "WEAVE_POS_ORD q \<le> WEAVE_POS_ORD p" "\<forall>r\<in>set ps. WEAVE_POS_ORD p \<le> WEAVE_POS_ORD r"
    using Cons.prems by auto
  show ?case
  proof (cases "WEAVE_POS_ORD p = 0 \<or> WEAVE_POS_ORD p = WEAVE_POS_ORD q")
    case True
    then have "WEAVE_POS_ORD ` set (p # ps) - {0, WEAVE_POS_ORD q} = WEAVE_POS_ORD ` set ps - {0, WEAVE_POS_ORD p}"
      using le(1) by auto
    then show ?thesis using IH True by auto
  next
    case False
    have "WEAVE_POS_ORD ` set (p # ps) - {0, WEAVE_POS_ORD q} =
      insert (WEAVE_POS_ORD p) (WEAVE_POS_ORD ` set ps - {0, WEAVE_POS_ORD p})"
      using False le by force
    then show ?thesis using IH False by auto
  qed
qed simp

lemma count_ords_sort:
  "count_ords None (sort_key WEAVE_POS_ORD ps) =
    card (WEAVE_POS_ORD ` set ps - {0}) + length (filter (\<lambda>p. WEAVE_POS_ORD p = 0) ps)"
proof (cases "sort_key WEAVE_POS_ORD ps")
  case Nil
  then have "ps = []" by (metis length_0_conv length_sort)
  then show ?thesis by simp
next
  case (Cons p qs)
  have srt: "sorted (map WEAVE_POS_ORD (p # qs))" using sorted_sort_key [of WEAVE_POS_ORD ps] Cons by simp
  have "mset (p # qs) = mset ps" using Cons by (metis mset_sort)
  then have img: "WEAVE_POS_ORD ` set ps = WEAVE_POS_ORD ` set (p # qs)"
    and len: "length (filter (\<lambda>p. WEAVE_POS_ORD p = 0) ps) = length (filter (\<lambda>p. WEAVE_POS_ORD p = 0) (p # qs))"
    by (metis mset_eq_setD, metis mset_filter size_mset)
  have "count_ords (Some p) qs = card (WEAVE_POS_ORD ` set qs - {0, WEAVE_POS_ORD p}) +
      length (filter (\<lambda>p. WEAVE_POS_ORD p = 0) qs)"
    by (rule count_ords_sorted) (use srt in auto)
  moreover have "card (insert (WEAVE_POS_ORD p) (WEAVE_POS_ORD ` set qs) - {0}) =
      (if WEAVE_POS_ORD p = 0 then 0 else 1) + card (WEAVE_POS_ORD ` set qs - {0, WEAVE_POS_ORD p})"
  proof (cases "WEAVE_POS_ORD p = 0")
    case False
    then have "insert (WEAVE_POS_ORD p) (WEAVE_POS_ORD ` set qs) - {0} =
      insert (WEAVE_POS_ORD p) (WEAVE_POS_ORD ` set qs - {0, WEAVE_POS_ORD p})" by auto
    then show ?thesis using False by simp
  qed (simp add: insert_Diff_if)
  ultimately show ?thesis by (simp add: Cons img len)
qed


subsection \<open>A built document\<close>

definition text_before :: "(u8 list \<times> u32) list \<Rightarrow> nat \<Rightarrow> nat" where
  "text_before ts i = sum_list (map (length \<circ> fst) (take i ts))"

definition pos_before :: "(u8 list \<times> u32) list \<Rightarrow> nat \<Rightarrow> nat" where
  "pos_before ts i = sum_list (map (unat \<circ> snd) (take i ts))"

lemma layout_length [simp]: "length (layout off pidx ts) = length ts"
  by (induction off pidx ts rule: layout.induct) auto

lemma layout_nth:
  "i < length ts \<Longrightarrow> layout off pidx ts ! i =
    \<lparr>eoff = off + of_nat (text_before ts i), elen = of_nat (length (fst (ts ! i))), etf = snd (ts ! i),
     eposoff = pidx + of_nat (pos_before ts i)\<rparr>"
proof (induction off pidx ts arbitrary: i rule: layout.induct)
  case (2 off pidx t tf ts)
  then show ?case
    by (cases i) (simp_all add: text_before_def pos_before_def algebra_simps)
qed simp

lemma concat_slice:
  "i < length xss \<Longrightarrow>
   take (length (xss ! i)) (drop (sum_list (map length (take i xss))) (concat xss)) = xss ! i"
proof (induction xss arbitrary: i)
  case (Cons xs xss)
  then show ?case by (cases i) simp_all
qed simp

lemma sum_take_le: "sum_list (take i (xs :: nat list)) \<le> sum_list xs"
  by (metis append_take_drop_id le_add1 sum_list_append)

lemma check_terms_sorted:
  "check_terms prev ts = Inr () \<Longrightarrow>
   sorted_wrt (<) (map fst ts) \<and> (\<forall>q. prev = Some q \<longrightarrow> (\<forall>t\<in>set (map fst ts). q < t)) \<and>
   (\<forall>tf\<in>set (map snd ts). tf \<noteq> 0)"
proof (induction prev ts rule: check_terms.induct)
  case (2 prev t tf ts)
  have tf: "\<not> tf < 1" and
    prev: "\<not> (case prev of None \<Rightarrow> False | Some q \<Rightarrow>
              let c = memcmp (take (min (length q) (length t)) q) (take (min (length q) (length t)) t)
              in 0 < c \<or> c = 0 \<and> length t \<le> length q)" and
    rest: "check_terms (Some t) ts = Inr ()"
    using 2(2) by (simp_all split: if_splits)
  have IH: "sorted_wrt (<) (map fst ts)" "\<forall>u\<in>set (map fst ts). t < u" "\<forall>tf\<in>set (map snd ts). tf \<noteq> 0"
    using 2(1) [OF tf prev rest] by auto
  have qt: "q < t" if "prev = Some q" for q
  proof -
    define c where "c = memcmp (take (min (length q) (length t)) q) (take (min (length q) (length t)) t)"
    have "\<not> (0 < c \<or> c = 0 \<and> length t \<le> length q)"
      using prev unfolding that c_def Let_def option.case .
    moreover have "term_cmp q t = (if c = 0 then int (length q) - int (length t) else c)"
      unfolding term_cmp_def Let_def c_def ..
    ultimately have "term_cmp q t < 0" by (simp split: if_splits)
    then show ?thesis by (simp add: term_cmp_order)
  qed
  have "tf \<noteq> 0" using tf by auto
  moreover have "q < u" if "prev = Some q" "u \<in> set (map fst ts)" for q u
    using less_trans [OF qt [OF that(1)]] IH(2) that(2) by blast
  ultimately show ?case using IH qt by simp
qed simp

lemma runs_ok_nth:
  "runs_ok (map snd ts) ps \<Longrightarrow> i < length ts \<Longrightarrow>
   run_ok (take (unat (snd (ts ! i))) (drop (pos_before ts i) ps))"
proof (induction ts arbitrary: ps i)
  case (Cons t ts)
  show ?case
  proof (cases i)
    case (Suc j)
    then show ?thesis
      using Cons.IH [of "drop (unat (snd t)) ps" j] Cons.prems by (simp add: pos_before_def add.commute)
  qed (use Cons.prems in \<open>simp add: pos_before_def\<close>)
qed simp

lemma build_layout:
  assumes "weave_doc_build maxalloc ts ps n = Inr d" and "maxalloc < 2 ^ 32"
  shows "dentries d = layout 0 0 ts" and "dlexemes d = concat (map fst ts)"
    and "check_terms None ts = Inr ()"
    and "sum_list (map (length \<circ> fst) ts) < 2 ^ 32"
    and "ps = Some q \<Longrightarrow> ts \<noteq> [] \<Longrightarrow> dpositions d = take (sum_list (map (unat \<circ> snd) ts)) q \<and>
      runs_ok (map snd ts) q \<and> sum_list (map (unat \<circ> snd) ts) < 2 ^ 32 \<and> WEAVE_DOC_HAS_POS d"
proof -
  let ?ps = "if ts = [] then Some [] else ps"
  show chk: "check_terms None ts = Inr ()"
    using assms(1) by (auto simp: weave_doc_build_def split: sum.splits)
  show "dentries d = layout 0 0 ts" "dlexemes d = concat (map fst ts)"
    using assms(1) chk by (auto simp: weave_doc_build_def Let_def split: if_splits)
  have total: "doc_total (length ts) (sum_list (map (length \<circ> fst) ts)) (sum_list (map unat (map snd ts))) (?ps \<noteq> None) \<le> maxalloc"
    using assms(1) chk by (simp add: weave_doc_build_def Let_def not_less split: if_splits)
  have align: "m \<le> MAXALIGN m" for m unfolding MAXALIGN_def by linarith
  show "sum_list (map (length \<circ> fst) ts) < 2 ^ 32"
    using total assms(2) align [of "20 + length ts * 16 + sum_list (map (length \<circ> fst) ts)"]
    by (simp add: doc_total_def Let_def split: if_splits)
  show "dpositions d = take (sum_list (map (unat \<circ> snd) ts)) q \<and> runs_ok (map snd ts) q \<and>
      sum_list (map (unat \<circ> snd) ts) < 2 ^ 32 \<and> WEAVE_DOC_HAS_POS d"
    if q: "ps = Some q" "ts \<noteq> []"
  proof (intro conjI)
    show "dpositions d = take (sum_list (map (unat \<circ> snd) ts)) q" "runs_ok (map snd ts) q"
      using assms(1) chk q by (auto simp: weave_doc_build_def Let_def split: if_splits)
    show "sum_list (map (unat \<circ> snd) ts) < 2 ^ 32"
      using total assms(2) q by (simp add: doc_total_def Let_def)
    show "WEAVE_DOC_HAS_POS d"
      using assms(1) chk q
      by (auto simp: weave_doc_build_def Let_def WEAVE_DOC_HAS_POS_def DOCF_POSITIONS_def DOCF_WEIGHTS_def
          split: if_splits)
  qed
qed

lemma built_terms:
  assumes "weave_doc_build maxalloc ts ps n = Inr d" and "maxalloc < 2 ^ 32"
  shows "doc_terms d = map fst ts" and "doc_sorted d"
proof -
  note b = build_layout [OF assms]
  have "doc_terms d ! i = fst (ts ! i)" if i: "i < length ts" for i
  proof -
    have "text_before ts i \<le> sum_list (map (length \<circ> fst) ts)"
      unfolding text_before_def take_map [symmetric] by (rule sum_take_le)
    then have off: "unat (of_nat (text_before ts i) :: u32) = text_before ts i"
      using b(4) by (simp add: unat_of_nat)
    have "length (fst (ts ! i)) \<le> sum_list (map (length \<circ> fst) ts)"
      using i by (intro member_le_sum_list) auto
    then have len: "unat (of_nat (length (fst (ts ! i))) :: u32) = length (fst (ts ! i))"
      using b(4) by (simp add: unat_of_nat)
    have "text_before ts i = sum_list (map length (take i (map fst ts)))"
      by (simp add: text_before_def take_map [symmetric])
    then show ?thesis
      using concat_slice [of i "map fst ts"] i off
      by (simp add: doc_terms_nth b(1,2) term_text_def layout_nth len)
  qed
  then show eq: "doc_terms d = map fst ts" by (intro nth_equalityI) (simp_all add: b(1))
  show "doc_sorted d" unfolding doc_sorted_def eq using check_terms_sorted [OF b(3)] by simp
qed

lemma built_positions:
  assumes "weave_doc_build maxalloc ts (Some q) n = Inr d" and "maxalloc < 2 ^ 32" and i: "i < length ts"
  shows "term_pos d (dentries d ! i) = take (unat (snd (ts ! i))) (drop (pos_before ts i) q)"
proof -
  have b: "dpositions d = take (sum_list (map (unat \<circ> snd) ts)) q"
    "sum_list (map (unat \<circ> snd) ts) < 2 ^ 32"
    using build_layout(5) [OF assms(1,2) refl] i by (cases ts; simp)+
  have split: "sum_list (map (unat \<circ> snd) ts) = pos_before ts i + (unat (snd (ts ! i)) + sum_list (map (unat \<circ> snd) (drop (Suc i) ts)))"
    unfolding pos_before_def by (subst id_take_nth_drop [OF i]) simp
  have "unat (of_nat (pos_before ts i) :: u32) = pos_before ts i"
    using b(2) split by (simp add: unat_of_nat)
  then show ?thesis
    unfolding term_pos_def build_layout(1) [OF assms(1,2)] layout_nth [OF i] b(1) split
    by (simp add: drop_take)
qed


subsection \<open>Properties\<close>

text \<open>
  C19: a document that \<open>weave_doc_build\<close> accepts holds exactly the given terms: a lookup of a given term
  finds an entry with its frequency and its own run of positions, in order, and a lookup of any other
  string finds nothing. The size limit keeps every 32-bit offset exact.
\<close>

theorem doc_build_lookup:
  assumes "weave_doc_build maxalloc ts ps n = Inr d" and "maxalloc < 2 ^ 32"
  shows "(\<forall>i<length ts. \<exists>e. weave_doc_lookup d (fst (ts ! i)) = Some e \<and> etf e = snd (ts ! i) \<and>
           (\<forall>q. ps = Some q \<longrightarrow>
              term_pos d e = take (unat (snd (ts ! i))) (drop (pos_before ts i) q) \<and> run_ok (term_pos d e))) \<and>
    (\<forall>t. t \<notin> set (map fst ts) \<longrightarrow> weave_doc_lookup d t = None)"
proof (intro conjI allI impI)
  note built = built_terms [OF assms]
  have len: "length (dentries d) = length ts" by (simp add: build_layout(1) [OF assms])
  show "weave_doc_lookup d t = None" if "t \<notin> set (map fst ts)" for t
    using that unfolding lookup_exact [OF built(2)] built(1) [symmetric]
    by (auto simp: find_None_iff doc_terms_def)
  fix i assume i: "i < length ts"
  have "weave_doc_lookup d (fst (ts ! i)) = Some (dentries d ! i)"
    unfolding weave_doc_lookup_def
    by (rule lookup_loop_finds [OF built(2)]) (use i len built(1) in auto)
  moreover have "etf (dentries d ! i) = snd (ts ! i)"
    using layout_nth [OF i] by (simp add: build_layout(1) [OF assms])
  moreover have "term_pos d (dentries d ! i) = take (unat (snd (ts ! i))) (drop (pos_before ts i) q) \<and>
      run_ok (term_pos d (dentries d ! i))" if q: "ps = Some q" for q
  proof -
    have pos: "term_pos d (dentries d ! i) = take (unat (snd (ts ! i))) (drop (pos_before ts i) q)"
      using built_positions [OF _ assms(2) i] assms(1) q by simp
    have "ts \<noteq> []" using i by auto
    then show ?thesis
      unfolding pos using runs_ok_nth [OF _ i] build_layout(5) [OF assms q] by blast
  qed
  ultimately show "\<exists>e. weave_doc_lookup d (fst (ts ! i)) = Some e \<and> etf e = snd (ts ! i) \<and>
      (\<forall>q. ps = Some q \<longrightarrow>
         term_pos d e = take (unat (snd (ts ! i))) (drop (pos_before ts i) q) \<and> run_ok (term_pos d e))"
    by blast
qed

theorem doc_build_lookup_witness:
  "\<exists>d e. weave_doc_build 1000 [([97], 2), ([98, 99], 1)] (Some [1, 4, 2]) (- 1) = Inr d \<and>
     weave_doc_lookup d [97] = Some e \<and> term_pos d e = [1, 4] \<and> weave_doc_lookup d [98] = None"
proof -
  let ?ts = "[([97], 2), ([98, 99], 1)] :: (u8 list \<times> u32) list"
  obtain d where d: "weave_doc_build 1000 ?ts (Some [1, 4, 2]) (- 1) = Inr d"
    by (simp add: weave_doc_build_def weave_doc_default_len_def WEAVE_POS_ORD_def WEAVE_POS_LABEL_def
        doc_total_def MAXALIGN_def)
  obtain e where "weave_doc_lookup d [97] = Some e" "term_pos d e = [1, 4]"
    using doc_build_lookup [OF d] by (auto simp: pos_before_def)
  moreover have "weave_doc_lookup d [98] = None"
    using doc_build_lookup [OF d] by simp
  ultimately show ?thesis using d by blast
qed

text \<open>
  On a document whose terms are strictly ascending, the two binary searches answer as a scan of all
  entries would: the lookup finds the term's entry, and the prefix test whether some term starts with the
  prefix, the empty prefix included.
\<close>

theorem doc_searches_exact:
  assumes "doc_sorted d"
  shows "weave_doc_lookup d t = find (\<lambda>e. term_text d e = t) (dentries d) \<and>
    (weave_doc_has_prefix d p \<longleftrightarrow> (\<exists>e\<in>set (dentries d). prefix p (term_text d e)))"
  using lookup_exact [OF assms] has_prefix_exact [OF assms] by (auto simp: doc_terms_def)

theorem doc_searches_exact_witness:
  "weave_doc_has_prefix \<lparr>dflags = 0, ddoclen = 2,
     dentries = [\<lparr>eoff = 0, elen = 1, etf = 1, eposoff = 0\<rparr>, \<lparr>eoff = 1, elen = 2, etf = 1, eposoff = 1\<rparr>],
     dlexemes = [97, 98, 99], dpositions = []\<rparr> [98]"
  by (subst doc_searches_exact [THEN conjunct2]) (simp_all add: doc_sorted_def doc_terms_def term_text_def)

text \<open>
  C20: \<open>weave_doc_has_fuzzy\<close> holds exactly when some term of the document is within \<open>k\<close> character edits of the
  query term: its length filter and its trigram filter lose nothing, in single-byte encodings and, for
  strings with bytes above 127, in multi-byte ones. \<open>chars\<close> is the decoding PostgreSQL's functions work on.
  The bound on \<open>k\<close> keeps \<open>3 * k\<close> from overflowing.
\<close>

theorem doc_fuzzy_exact:
  fixes chars :: "u8 list \<Rightarrow> 'c list"
  assumes "0 \<le> k" and "3 * k < 2 ^ 31"
    and "\<And>s. mblen s = int (length (chars s))"
    and "\<And>s t. vlle s t k \<le> k \<longleftrightarrow> int (lev (chars s) (chars t)) \<le> k"
    and "inj one" and "\<And>s. single \<or> weave_all_ascii s \<Longrightarrow> chars s = map one s"
  shows "weave_doc_has_fuzzy hb single mblen vlle d query k \<longleftrightarrow>
    (\<exists>e\<in>set (dentries d). int (lev (chars query) (chars (term_text d e))) \<le> k)"
  by (subst has_fuzzy_exact [where chars = chars and one = one]) (use assms in \<open>auto simp: doc_terms_def\<close>)

abbreviation (input) bytes_vlle :: "u8 list \<Rightarrow> u8 list \<Rightarrow> int \<Rightarrow> int" where
  "bytes_vlle s t k \<equiv> min (int (lev s t)) (k + 1)"

theorem doc_fuzzy_exact_witness:
  "weave_doc_has_fuzzy (\<lambda>w. ucast (hd w)) True (\<lambda>s. int (length s)) bytes_vlle
     \<lparr>dflags = 0, ddoclen = 1, dentries = [\<lparr>eoff = 0, elen = 4, etf = 1, eposoff = 0\<rparr>],
      dlexemes = [97, 98, 120, 100], dpositions = []\<rparr> [97, 98, 99, 100] 1"
  by (subst doc_fuzzy_exact [where chars = "\<lambda>s. s" and one = "\<lambda>c. c"]) (auto simp: term_text_def)

text \<open>
  Past that bound \<open>3 * k\<close> wraps: for \<open>k = 1000000000\<close>, which the parser and the validator accept, the
  trigram filter acts although it must not, and a document whose term is three edits from the query term is
  not found.
\<close>

theorem doc_fuzzy_bound_overflows:
  "lev [97, 98, 99 :: u8] [120, 121, 122] = 3 \<and>
   \<not> weave_doc_has_fuzzy (\<lambda>w. ucast (hd w)) True (\<lambda>s. int (length s)) bytes_vlle
     \<lparr>dflags = 0, ddoclen = 1, dentries = [\<lparr>eoff = 0, elen = 3, etf = 1, eposoff = 0\<rparr>],
      dlexemes = [120, 121, 122], dpositions = []\<rparr> [97, 98, 99] 1000000000"
  by (simp add: weave_doc_has_fuzzy_def int32_def weave_trigrams_def windows_def add_trigram_def
      weave_trigrams_overlap_def term_text_def signed_take_bit_eq_if_negative)

text \<open>
  A document's default length counts its distinct known position ordinals once each, whatever terms and
  labels they carry, and every unknown position by itself.
\<close>

theorem doc_default_length_counts:
  "weave_doc_default_len tfs (Some ps) =
     (let run = take (sum_list (map unat tfs)) ps
      in card (WEAVE_POS_ORD ` set run - {0}) + length (filter (\<lambda>p. WEAVE_POS_ORD p = 0) run))"
proof (cases "sum_list (map unat tfs) = 0")
  case True
  then show ?thesis unfolding weave_doc_default_len_def Let_def by (simp only: True) simp
next
  case False
  then show ?thesis unfolding weave_doc_default_len_def Let_def by (simp only: False) (simp add: count_ords_sort)
qed

end
