(* ===== verification/Weave_Docvalid.thy ===== *)
theory Weave_Docvalid
  imports Weave_Doc "HOL-Library.Monad_Syntax"
begin

text \<open>
  The validator of document images, \<open>weave_doc_check\<close> of \<open>include/weave/docvalid.h\<close>, over bytes: a read outside
  the buffer is \<open>None\<close>. \<open>image_ok\<close> is what it accepts, \<open>doc_image\<close> the layout that \<open>weave_doc_build\<close> of
  \<open>src/query/doc.c\<close> stores on a little-endian machine.
\<close>

subsection \<open>Images\<close>

fun check_slices :: "u8 list \<Rightarrow> u32 \<Rightarrow> nat list \<Rightarrow> u64 \<Rightarrow> u64 option option" where
  "check_slices buf lexbytes [] sumtf = Some (Some sumtf)"
| "check_slices buf lexbytes (i # is) sumtf = do {
     off \<leftarrow> rd32 buf (20 + 16 * i);
     len \<leftarrow> rd32 buf (20 + 16 * i + 4);
     if (ucast off :: u64) + ucast len < ucast off \<or> ucast lexbytes < (ucast off :: u64) + ucast len
     then Some None
     else do {
       tf \<leftarrow> rd32 buf (20 + 16 * i + 8);
       check_slices buf lexbytes is (sumtf + ucast tf)
     }
   }"

fun check_runs :: "u8 list \<Rightarrow> u64 \<Rightarrow> nat list \<Rightarrow> bool option" where
  "check_runs buf sumtf [] = Some True"
| "check_runs buf sumtf (i # is) = do {
     posoff \<leftarrow> rd32 buf (20 + 16 * i + 12);
     tf \<leftarrow> rd32 buf (20 + 16 * i + 8);
     if sumtf < (ucast posoff :: u64) + ucast tf then Some False else check_runs buf sumtf is
   }"

definition weave_doc_check :: "u8 list \<Rightarrow> u32 \<Rightarrow> bool option" where
  "weave_doc_check buf varsize =
     (let hdrsize = (20 :: u64); sz = (ucast varsize :: u64)
      in if (of_nat (length buf) :: u64) < hdrsize then Some False
         else if (of_nat (length buf) :: u64) < sz then Some False
         else do {
           version \<leftarrow> rd16 buf 4;
           if version \<noteq> 4 \<and> version \<noteq> 3 then Some False
           else do {
             nterms \<leftarrow> rd32 buf 8;
             let need = hdrsize + ucast nterms * 16;
             if need < hdrsize \<or> sz < need then Some False
             else do {
               lexbytes \<leftarrow> rd32 buf 16;
               if need + ucast lexbytes < need \<or> sz < need + ucast lexbytes then Some False
               else do {
                 r \<leftarrow> check_slices buf lexbytes [0..<unat nterms] 0;
                 case r of None \<Rightarrow> Some False
                 | Some sumtf \<Rightarrow> do {
                     flags \<leftarrow> rd16 buf 6;
                     if flags AND 1 \<noteq> 0 then
                       let posbase = WEAVE_DV_MAXALIGN (need + ucast lexbytes)
                       in if sz < posbase then Some False
                          else if (sz - posbase) div 4 < sumtf then Some False
                          else check_runs buf sumtf [0..<unat nterms]
                     else Some True
                   }
               }
             }
           }
         })"

subsection \<open>What the validator accepts\<close>

definition entry_at :: "u8 list \<Rightarrow> nat \<Rightarrow> term_entry" where
  "entry_at buf i = \<lparr>eoff = r32 buf (20 + 16 * i), elen = r32 buf (20 + 16 * i + 4),
     etf = r32 buf (20 + 16 * i + 8), eposoff = r32 buf (20 + 16 * i + 12)\<rparr>"

definition entries_at :: "u8 list \<Rightarrow> term_entry list" where
  "entries_at buf = map (entry_at buf) [0..<unat (r32 buf 8)]"

definition slice_ok :: "u32 \<Rightarrow> term_entry \<Rightarrow> bool" where
  "slice_ok lx e \<longleftrightarrow> unat (eoff e) + unat (elen e) \<le> unat lx"

definition image_ok :: "u8 list \<Rightarrow> u32 \<Rightarrow> bool" where
  "image_ok buf varsize \<longleftrightarrow>
     20 \<le> length buf \<and> unat varsize \<le> length buf \<and> r16 buf 4 \<in> {3, 4} \<and>
     (let es = entries_at buf; lx = r32 buf 16; npos = sum_list (map (unat \<circ> etf) es)
      in 20 + 16 * length es + unat lx \<le> unat varsize \<and> (\<forall>e\<in>set es. slice_ok lx e) \<and>
         (r16 buf 6 AND 1 \<noteq> 0 \<longrightarrow>
            MAXALIGN (20 + 16 * length es + unat lx) + 4 * npos \<le> unat varsize \<and>
            (\<forall>e\<in>set es. unat (eposoff e) + unat (etf e) \<le> npos)))"

lemma check_slices_spec:
  assumes "\<forall>i\<in>set is. 36 + 16 * i \<le> length buf"
    and "unat s + sum_list (map (\<lambda>i. unat (etf (entry_at buf i))) is) < 2 ^ 64"
  shows "check_slices buf lx is s =
    Some (if \<forall>i\<in>set is. slice_ok lx (entry_at buf i)
          then Some (of_nat (unat s + sum_list (map (\<lambda>i. unat (etf (entry_at buf i))) is))) else None)"
  using assms
proof (induction "is" arbitrary: s)
  case (Cons i "is")
  let ?e = "entry_at buf i"
  have b: "36 + 16 * i \<le> length buf" using Cons.prems(1) by simp
  have u: "unat (s + ucast (etf ?e)) = unat s + unat (etf ?e)"
    using Cons.prems(2) by (simp add: unat_word_ariths)
  have IH: "check_slices buf lx is (s + ucast (etf ?e)) =
    Some (if \<forall>i\<in>set is. slice_ok lx (entry_at buf i)
          then Some (of_nat (unat s + unat (etf ?e) + sum_list (map (\<lambda>i. unat (etf (entry_at buf i))) is))) else None)"
    using Cons.IH [of "s + ucast (etf ?e)"] Cons.prems unfolding u by simp
  have bad: "((ucast (eoff ?e) :: u64) + ucast (elen ?e) < ucast (eoff ?e) \<or> ucast lx < (ucast (eoff ?e) :: u64) + ucast (elen ?e)) \<longleftrightarrow>
    \<not> slice_ok lx ?e"
    by (auto simp: word_less_nat_alt sum64 slice_ok_def)
  have step: "check_slices buf lx (i # is) s =
     (if (ucast (eoff ?e) :: u64) + ucast (elen ?e) < ucast (eoff ?e) \<or> ucast lx < (ucast (eoff ?e) :: u64) + ucast (elen ?e)
      then Some None else check_slices buf lx is (s + ucast (etf ?e)))"
    using b by (simp add: rd32_def entry_at_def)
  show ?case unfolding step bad IH by (simp add: add.assoc)
qed simp

lemma check_runs_spec:
  assumes "\<forall>i\<in>set is. 36 + 16 * i \<le> length buf"
  shows "check_runs buf s is =
    Some (\<forall>i\<in>set is. unat (eposoff (entry_at buf i)) + unat (etf (entry_at buf i)) \<le> unat s)"
  using assms
proof (induction "is")
  case (Cons i "is")
  let ?e = "entry_at buf i"
  have "36 + 16 * i \<le> length buf" using Cons.prems by simp
  then have "check_runs buf s (i # is) =
     (if s < (ucast (eposoff ?e) :: u64) + ucast (etf ?e) then Some False else check_runs buf s is)"
    by (simp add: rd32_def entry_at_def)
  then show ?case using Cons by (simp add: word_less_nat_alt sum64)
qed simp

lemma doc_check_spec:
  assumes len: "length buf < 2 ^ 64"
  shows "weave_doc_check buf varsize = Some (image_ok buf varsize)"
proof -
  let ?n = "r32 buf 8" and ?lx = "r32 buf 16" and ?es = "entries_at buf"
  let ?sz = "ucast varsize :: u64"
  let ?need = "20 + ucast ?n * 16 :: u64"
  let ?npos = "sum_list (map (unat \<circ> etf) ?es)"
  have ul: "unat (of_nat (length buf) :: u64) = length buf"
    using len by (simp add: unat_of_nat)
  have un: "unat ?need = 20 + 16 * unat ?n"
    using unat_u32 [of ?n] by (simp add: unat_word_ariths)
  have unl: "unat (?need + ucast ?lx) = 20 + 16 * unat ?n + unat ?lx"
    using unat_u32 [of ?n] unat_u32 [of ?lx] by (simp add: unat_word_ariths)
  have les: "length ?es = unat ?n" by (simp add: entries_at_def)
  show ?thesis
  proof (cases "20 \<le> length buf \<and> unat varsize \<le> length buf \<and> (r16 buf 4 = 4 \<or> r16 buf 4 = 3) \<and>
      20 + 16 * unat ?n + unat ?lx \<le> unat varsize")
    case False
    then show ?thesis
      by (auto simp: weave_doc_check_def Let_def word_less_nat_alt ul un unl rd16_def rd32_def image_ok_def les)
  next
    case True
    have inb: "\<forall>i\<in>set [0..<unat ?n]. 36 + 16 * i \<le> length buf" using True by auto
    have tfs: "sum_list (map (\<lambda>i. unat (etf (entry_at buf i))) [0..<unat ?n]) = ?npos"
      by (simp add: entries_at_def comp_def)
    have "?npos \<le> sum_list (map (\<lambda>e. 2 ^ 32 - 1) ?es)"
      unfolding comp_def by (rule sum_list_mono) (use unat_u32 in \<open>simp add: less_eq_Suc_le\<close>)
    also have "\<dots> = unat ?n * (2 ^ 32 - 1)" by (simp add: sum_list_triv les)
    also have "\<dots> \<le> 2 ^ 32 * (2 ^ 32 - 1)" using unat_u32 [of ?n] by (intro mult_le_mono1) simp
    finally have np: "?npos < 2 ^ 64" by simp
    have upos: "unat (of_nat ?npos :: u64) = ?npos" using np by (simp add: unat_of_nat)
    have slices: "check_slices buf ?lx [0..<unat ?n] 0 =
      Some (if \<forall>e\<in>set ?es. slice_ok ?lx e then Some (of_nat ?npos) else None)"
      using check_slices_spec [OF inb, of 0 ?lx] np unfolding tfs by (simp add: entries_at_def)
    have runs: "check_runs buf (of_nat ?npos) [0..<unat ?n] =
      Some (\<forall>e\<in>set ?es. unat (eposoff e) + unat (etf e) \<le> ?npos)"
      using check_runs_spec [OF inb, of "of_nat ?npos"] unfolding upos by (simp add: entries_at_def)
    have ma: "unat (WEAVE_DV_MAXALIGN (?need + ucast ?lx)) = MAXALIGN (20 + 16 * unat ?n + unat ?lx)"
      using unat_u32 [of ?n] unat_u32 [of ?lx] by (simp add: unat_maxalign unl)
    have room: "(?sz < WEAVE_DV_MAXALIGN (?need + ucast ?lx) \<or>
        (?sz - WEAVE_DV_MAXALIGN (?need + ucast ?lx)) div 4 < of_nat ?npos) \<longleftrightarrow>
      \<not> MAXALIGN (20 + 16 * unat ?n + unat ?lx) + 4 * ?npos \<le> unat varsize"
    proof (cases "?sz < WEAVE_DV_MAXALIGN (?need + ucast ?lx)")
      case True
      then show ?thesis by (simp add: word_less_nat_alt ma)
    next
      case False
      then have "unat (?sz - WEAVE_DV_MAXALIGN (?need + ucast ?lx)) = unat varsize - MAXALIGN (20 + 16 * unat ?n + unat ?lx)"
        by (subst unat_sub) (simp_all add: ma word_less_nat_alt word_le_nat_alt)
      then show ?thesis using False
        by (auto simp: word_less_nat_alt ma upos unat_div)
    qed
    have ver: "(r16 buf 4 \<noteq> 4 \<and> r16 buf 4 \<noteq> 3) = False" using True by blast
    have "weave_doc_check buf varsize =
      (if \<forall>e\<in>set ?es. slice_ok ?lx e then
         if r16 buf 6 AND 1 \<noteq> 0 then
           if ?sz < WEAVE_DV_MAXALIGN (?need + ucast ?lx) \<or>
              (?sz - WEAVE_DV_MAXALIGN (?need + ucast ?lx)) div 4 < of_nat ?npos then Some False
           else check_runs buf (of_nat ?npos) [0..<unat ?n]
         else Some True
       else Some False)"
      using True
      by (simp add: weave_doc_check_def ver Let_def word_less_nat_alt ul un unl rd16_def rd32_def slices)
    then show ?thesis unfolding room runs using True by (auto simp: image_ok_def Let_def les)
  qed
qed


subsection \<open>The image of a document\<close>

definition entry_bytes :: "term_entry \<Rightarrow> u8 list" where
  "entry_bytes e = le_bytes 4 (unat (eoff e)) @ le_bytes 4 (unat (elen e)) @ le_bytes 4 (unat (etf e)) @
     le_bytes 4 (unat (eposoff e))"

definition image_size :: "wdoc \<Rightarrow> nat" where
  "image_size d = doc_total (length (dentries d)) (length (dlexemes d)) (length (dpositions d)) (WEAVE_DOC_HAS_POS d)"

definition doc_header :: "wdoc \<Rightarrow> u8 list" where
  \<comment> \<open>the varlena length word of a little-endian machine, then the fields\<close>
  "doc_header d =
     le_bytes 4 (4 * image_size d) @ le_bytes 2 4 @ le_bytes 2 (unat (dflags d)) @
     le_bytes 4 (length (dentries d)) @ le_bytes 4 (unat (ddoclen d)) @ le_bytes 4 (length (dlexemes d))"

definition doc_image :: "wdoc \<Rightarrow> u8 list" where
  "doc_image d =
     (let used = 20 + 16 * length (dentries d) + length (dlexemes d)
      in doc_header d @ concat (map entry_bytes (dentries d)) @ dlexemes d @ replicate (MAXALIGN used - used) 0 @
         (if WEAVE_DOC_HAS_POS d then concat (map (le_bytes 4 \<circ> unat) (dpositions d)) else []))"

lemma entry_bytes_length [simp]: "length (entry_bytes e) = 16"
  by (simp add: entry_bytes_def)

lemma concat_block:
  "\<forall>x\<in>set xs. length (f x) = n \<Longrightarrow> i < length xs \<Longrightarrow> j + m \<le> n \<Longrightarrow>
   take m (drop (n * i + j) (concat (map f xs) @ ys)) = take m (drop j (f (xs ! i)))"
proof (induction xs arbitrary: i)
  case (Cons x xs)
  then show ?case by (cases i) (auto simp: algebra_simps)
qed simp

lemma concat_length: "\<forall>x\<in>set xs. length (f x) = n \<Longrightarrow> length (concat (map f xs)) = n * length xs"
  by (induction xs) auto

lemma doc_header_length [simp]: "length (doc_header d) = 20"
  by (simp add: doc_header_def)

lemma doc_image_length: "length (doc_image d) = image_size d"
proof -
  have "n \<le> MAXALIGN n" for n unfolding MAXALIGN_def by linarith
  from this [of "20 + 16 * length (dentries d) + length (dlexemes d)"] show ?thesis
    using concat_length [of "dentries d" entry_bytes 16]
      concat_length [of "dpositions d" "le_bytes 4 \<circ> unat" 4]
    by (auto simp: doc_image_def Let_def image_size_def doc_total_def mult.commute)
qed

lemma doc_image_split: "\<exists>t. doc_image d = doc_header d @ concat (map entry_bytes (dentries d)) @ t"
  by (auto simp: doc_image_def Let_def)

lemma entry_at_image:
  assumes "i < length (dentries d)"
  shows "entry_at (doc_image d) i = dentries d ! i"
proof -
  have blk: "take 4 (drop (20 + 16 * i + j) (doc_image d)) = take 4 (drop j (entry_bytes (dentries d ! i)))"
    if "j + 4 \<le> 16" for j
  proof -
    obtain t where img: "doc_image d = doc_header d @ concat (map entry_bytes (dentries d)) @ t"
      using doc_image_split by blast
    have "drop (20 + 16 * i + j) (doc_image d) = drop (16 * i + j) (concat (map entry_bytes (dentries d)) @ t)"
      unfolding img by simp
    then show ?thesis using concat_block [of "dentries d" entry_bytes 16 i j 4 t] assms that by simp
  qed
  show ?thesis
    using blk [of 0] blk [of 4] blk [of 8] blk [of 12]
    by (simp add: entry_at_def entry_bytes_def)
qed

lemma header_at_image:
  assumes "length (dentries d) < 2 ^ 32" and "length (dlexemes d) < 2 ^ 32"
  shows "r16 (doc_image d) 4 = 4" and "r16 (doc_image d) 6 = dflags d"
    and "unat (r32 (doc_image d) 8) = length (dentries d)" and "unat (r32 (doc_image d) 16) = length (dlexemes d)"
proof -
  obtain t where img: "doc_image d = doc_header d @ t" using doc_image_split by blast
  have "unat (dflags d) < 65536" using unsigned_less [of "dflags d"] by simp
  then show "r16 (doc_image d) 6 = dflags d"
    by (simp add: img doc_header_def le_value_bytes)
  show "r16 (doc_image d) 4 = 4" by (simp add: img doc_header_def le_value_bytes)
  show "unat (r32 (doc_image d) 8) = length (dentries d)" "unat (r32 (doc_image d) 16) = length (dlexemes d)"
    using assms by (simp_all add: img doc_header_def le_value_bytes unat_of_nat)
qed

lemma build_total:
  assumes build: "weave_doc_build maxalloc ts ps n = Inr d"
    and npos: "\<And>q. ps = Some q \<Longrightarrow> length q = sum_list (map (unat \<circ> snd) ts)"
  shows "WEAVE_DOC_HAS_POS d \<longleftrightarrow> ts = [] \<or> ps \<noteq> None"
    and "WEAVE_DOC_HAS_POS d \<Longrightarrow> length (dpositions d) = sum_list (map (unat \<circ> snd) ts)"
    and "image_size d \<le> maxalloc"
proof -
  let ?ps = "if ts = [] then Some [] else ps"
  have chk: "check_terms None ts = Inr ()"
    using build by (auto simp: weave_doc_build_def split: sum.splits)
  have d: "dflags d = (case ?ps of None \<Rightarrow> 0
            | Some q \<Rightarrow> if \<exists>p\<in>set (take (sum_list (map unat (map snd ts))) q). WEAVE_POS_LABEL p \<noteq> 0
                       then DOCF_POSITIONS OR DOCF_WEIGHTS else DOCF_POSITIONS)"
    "dpositions d = (case ?ps of None \<Rightarrow> [] | Some q \<Rightarrow> take (sum_list (map unat (map snd ts))) q)"
    "dentries d = layout 0 0 ts" "dlexemes d = concat (map fst ts)"
    using build chk by (auto simp: weave_doc_build_def Let_def split: if_splits)
  have size: "\<not> maxalloc < doc_total (length ts) (sum_list (map (length \<circ> fst) ts))
      (sum_list (map unat (map snd ts))) (?ps \<noteq> None)"
    using build chk by (simp add: weave_doc_build_def Let_def split: if_splits)
  show pos: "WEAVE_DOC_HAS_POS d \<longleftrightarrow> ts = [] \<or> ps \<noteq> None"
    by (cases ps) (auto simp: d WEAVE_DOC_HAS_POS_def DOCF_POSITIONS_def DOCF_WEIGHTS_def split: if_splits)
  show len: "length (dpositions d) = sum_list (map (unat \<circ> snd) ts)" if "WEAVE_DOC_HAS_POS d"
    using that npos unfolding pos by (auto simp: d)
  have "length (dlexemes d) = sum_list (map (length \<circ> fst) ts)" "length (dentries d) = length ts"
    by (simp_all add: d length_concat comp_def)
  then have "image_size d = doc_total (length ts) (sum_list (map (length \<circ> fst) ts))
      (sum_list (map unat (map snd ts))) (?ps \<noteq> None)"
    using len pos by (auto simp: image_size_def doc_total_def)
  then show "image_size d \<le> maxalloc" using size by simp
qed

lemma before_le:
  assumes "i < length ts"
  shows "text_before ts i + length (fst (ts ! i)) \<le> sum_list (map (length \<circ> fst) ts)"
    and "pos_before ts i + unat (snd (ts ! i)) \<le> sum_list (map (unat \<circ> snd) ts)"
  unfolding text_before_def pos_before_def
  by (subst (3) id_take_nth_drop [OF assms], simp)+

lemma built_image_ok:
  assumes build: "weave_doc_build maxalloc ts ps n = Inr d" and maxalloc: "maxalloc < 2 ^ 32"
    and npos: "\<And>q. ps = Some q \<Longrightarrow> length q = sum_list (map (unat \<circ> snd) ts)"
  shows "image_ok (doc_image d) (of_nat (image_size d))"
proof -
  note b = build_layout [OF build maxalloc] and t = build_total [OF build npos]
  have len: "length (dentries d) = length ts" "length (dlexemes d) = sum_list (map (length \<circ> fst) ts)"
    by (simp_all add: b(1,2) length_concat comp_def)
  have align: "m \<le> MAXALIGN m" for m unfolding MAXALIGN_def by linarith
  have used: "20 + 16 * length ts + length (dlexemes d) \<le> image_size d"
    using align [of "20 + 16 * length ts + length (dlexemes d)"]
    by (auto simp: image_size_def doc_total_def Let_def len mult.commute)
  have small: "image_size d < 2 ^ 32" using t(3) maxalloc by simp
  have un: "unat (of_nat (image_size d) :: u32) = image_size d" using small by (simp add: unat_of_nat)
  have hd: "r16 (doc_image d) 4 = 4" "r16 (doc_image d) 6 = dflags d"
    "unat (r32 (doc_image d) 8) = length (dentries d)" "unat (r32 (doc_image d) 16) = length (dlexemes d)"
    using header_at_image [of d] used small len by auto
  have es: "entries_at (doc_image d) = dentries d"
    by (intro nth_equalityI) (simp_all add: entries_at_def hd(3) entry_at_image)
  have nth: "dentries d ! i = \<lparr>eoff = of_nat (text_before ts i), elen = of_nat (length (fst (ts ! i))),
      etf = snd (ts ! i), eposoff = of_nat (pos_before ts i)\<rparr>" if "i < length ts" for i
    using layout_nth [OF that, of 0 0] by (simp add: b(1))
  have slices: "slice_ok (r32 (doc_image d) 16) e" if e: "e \<in> set (dentries d)" for e
  proof -
    obtain i where "i < length (dentries d)" "dentries d ! i = e" using e by (auto simp: in_set_conv_nth)
    then have i: "i < length ts" "e = dentries d ! i" using len(1) by auto
    then show ?thesis
      using before_le(1) [OF i(1)] used small hd(4) len(2)
      by (simp add: slice_ok_def nth unat_of_nat)
  qed
  have "map etf (dentries d) = map snd ts" by (intro nth_equalityI) (simp_all add: len nth)
  then have tfs: "sum_list (map (unat \<circ> etf) (dentries d)) = sum_list (map (unat \<circ> snd) ts)"
    by (metis map_map)
  have runs: "unat (eposoff e) + unat (etf e) \<le> sum_list (map (unat \<circ> snd) ts)"
    if e: "e \<in> set (dentries d)" and pos: "WEAVE_DOC_HAS_POS d" for e
  proof -
    obtain i where "i < length (dentries d)" "dentries d ! i = e" using e by (auto simp: in_set_conv_nth)
    then have i: "i < length ts" "e = dentries d ! i" using len(1) by auto
    have "length (dpositions d) \<le> image_size d" using pos by (simp add: image_size_def doc_total_def Let_def)
    then have "sum_list (map (unat \<circ> snd) ts) < 2 ^ 32" using t(2) pos small by simp
    then show ?thesis
      using before_le(2) [OF i(1)] i by (simp add: nth unat_of_nat)
  qed
  have room: "MAXALIGN (20 + 16 * length ts + length (dlexemes d)) + 4 * sum_list (map (unat \<circ> snd) ts) = image_size d"
    if "WEAVE_DOC_HAS_POS d"
    using that t(2) by (simp add: image_size_def doc_total_def Let_def len mult.commute)
  have flag: "dflags d AND 1 \<noteq> 0 \<longleftrightarrow> WEAVE_DOC_HAS_POS d"
    by (simp add: WEAVE_DOC_HAS_POS_def DOCF_POSITIONS_def)
  show ?thesis
    unfolding image_ok_def es hd Let_def un tfs flag doc_image_length
    using used slices runs room by (simp add: len(1))
qed

subsection \<open>Properties\<close>

text \<open>
  C21: the document validator reads nothing outside its buffer and accepts exactly the images that
  \<open>image_ok\<close> describes: a known version, every entry and lexeme slice inside the declared size, and with
  positions the whole region and every term's run inside it. No sum of the test overflows.
\<close>

theorem doc_check_exact:
  assumes "length buf < 2 ^ 64"
  shows "weave_doc_check buf varsize = Some (image_ok buf varsize)"
  by (rule doc_check_spec [OF assms])

theorem doc_check_exact_witness:
  "weave_doc_check [80, 0, 0, 0, 4, 0, 0, 0, 0, 0, 0, 0, 0, 0, 0, 0, 0, 0, 0, 0] 20 =
     Some (image_ok [80, 0, 0, 0, 4, 0, 0, 0, 0, 0, 0, 0, 0, 0, 0, 0, 0, 0, 0, 0] 20) \<and>
   weave_doc_check [80, 0, 0, 0, 4, 0, 0, 0, 0, 0, 0, 0, 0, 0, 0, 0, 0, 0, 0, 0] 20 = Some True"
proof
  show "weave_doc_check [80, 0, 0, 0, 4, 0, 0, 0, 0, 0, 0, 0, 0, 0, 0, 0, 0, 0, 0, 0] 20 =
     Some (image_ok [80, 0, 0, 0, 4, 0, 0, 0, 0, 0, 0, 0, 0, 0, 0, 0, 0, 0, 0, 0] 20)"
    by (rule doc_check_exact) simp
  show "weave_doc_check [80, 0, 0, 0, 4, 0, 0, 0, 0, 0, 0, 0, 0, 0, 0, 0, 0, 0, 0, 0] 20 = Some True"
    by (simp add: weave_doc_check_def rd16_def rd32_def)
qed

text \<open>
  C22: the image of every document \<open>weave_doc_build\<close> assembles, laid out as its stores do, passes the validator.
\<close>

theorem doc_built_image_valid:
  assumes "weave_doc_build maxalloc ts ps n = Inr d" and "maxalloc < 2 ^ 32"
    and "\<And>q. ps = Some q \<Longrightarrow> length q = sum_list (map (unat \<circ> snd) ts)"
  shows "length (doc_image d) \<le> maxalloc \<and>
    weave_doc_check (doc_image d) (of_nat (length (doc_image d))) = Some True"
proof -
  have small: "length (doc_image d) \<le> maxalloc"
    using build_total(3) [OF assms(1,3)] by (simp add: doc_image_length)
  then have "length (doc_image d) < 2 ^ 64" using assms(2) by simp
  then show ?thesis
    using built_image_ok [OF assms] small by (simp add: doc_check_spec doc_image_length)
qed

theorem doc_built_image_valid_witness:
  "\<exists>d. weave_doc_build 1000 [([97], 2), ([98, 99], 1)] (Some [1, 4, 2]) (- 1) = Inr d \<and>
     weave_doc_check (doc_image d) (of_nat (length (doc_image d))) = Some True"
proof -
  let ?ts = "[([97], 2), ([98, 99], 1)] :: (u8 list \<times> u32) list"
  obtain d where d: "weave_doc_build 1000 ?ts (Some [1, 4, 2]) (- 1) = Inr d"
    by (simp add: weave_doc_build_def weave_doc_default_len_def WEAVE_POS_ORD_def WEAVE_POS_LABEL_def
        doc_total_def MAXALIGN_def)
  then show ?thesis using doc_built_image_valid [OF d] by auto
qed

end
