(* ===== verification/Weave_Query.thy ===== *)
theory Weave_Query
  imports Weave_Postfix Weave_Docvalid
begin

text \<open>
  Queries: the postfix item lists of \<open>include/weave/weave.h\<close>, the validator \<open>weave_query_validate\<close> of
  \<open>src/query/parse.c\<close> and the stack evaluator of \<open>src/query/match.c\<close>. Both are stack machines over
  postfix lists (\<open>Weave_Postfix\<close>). What a query means is \<open>mean_op\<close>, over the operator tree of its list.
\<close>

subsection \<open>Items\<close>

record query_item =
  itype :: u8
  iop :: u8
  iflags :: u16
  idist :: u32
  itermoff :: u32
  itermlen :: u32

record wquery =
  qitems :: "query_item list"
  qtext :: "u8 list"

definition QI_VAL :: u8 where "QI_VAL = 1"
definition QI_OPR :: u8 where "QI_OPR = 2"
definition OP_NOT :: u8 where "OP_NOT = 1"
definition OP_AND :: u8 where "OP_AND = 2"
definition OP_OR :: u8 where "OP_OR = 3"
definition OP_PHRASE :: u8 where "OP_PHRASE = 4"
definition QF_PREFIX :: u16 where "QF_PREFIX = 1"
definition QF_FUZZY :: u16 where "QF_FUZZY = 2"
definition QF_REGEX :: u16 where "QF_REGEX = 4"
definition QF_WEIGHTED :: u16 where "QF_WEIGHTED = 8"
definition QF_PHRASE_EXACT :: u16 where "QF_PHRASE_EXACT = 0x10"

lemmas query_consts = QI_VAL_def QI_OPR_def OP_NOT_def OP_AND_def OP_OR_def OP_PHRASE_def QF_PREFIX_def
  QF_FUZZY_def QF_REGEX_def QF_WEIGHTED_def QF_PHRASE_EXACT_def

definition item_text :: "wquery \<Rightarrow> query_item \<Rightarrow> u8 list" where
  "item_text q it = take (unat (itermlen it)) (drop (unat (itermoff it)) (qtext q))"

definition item_arity :: "query_item \<Rightarrow> nat" where
  "item_arity it = (if itype it = QI_VAL then 0 else if iop it = OP_NOT then 1 else 2)"

definition query_op_width :: "query_item \<Rightarrow> int \<Rightarrow> int \<Rightarrow> int" where
  "query_op_width it wl wr =
     (if iop it \<noteq> OP_PHRASE then max wl wr
      else if iflags it AND QF_PHRASE_EXACT \<noteq> 0 then uint (idist it) + wl
      else uint (idist it) + wl + wr)"

subsection \<open>The validator\<close>

datatype query_error =
    OperatorOnTerm | FuzzyBudget | WeightMask | TermFlags | GapOnTerm | EmptyTerm | SlashInRegex | BadEncoding
  | NotWithoutOperand | FlagsOnNot | WithoutTwoOperands | FlagsOnAndOr | PhraseFlags | ExactGapShort

definition bad_term :: "(u8 list \<Rightarrow> bool) \<Rightarrow> u8 list \<Rightarrow> query_item \<Rightarrow> query_error option" where
  \<comment> \<open>\<open>pg_verifymbstr\<close> is the parameter\<close>
  "bad_term verify t it =
     (let bad = (if iop it \<noteq> 0 then Some OperatorOnTerm
                 else if iflags it = QF_FUZZY then
                   if idist it < 1 \<or> INT32_MAX < uint (idist it) then Some FuzzyBudget else None
                 else if iflags it = QF_WEIGHTED then
                   if idist it < 1 \<or> 0xF < idist it then Some WeightMask else None
                 else if iflags it \<noteq> 0 \<and> iflags it \<noteq> QF_PREFIX \<and> iflags it \<noteq> QF_REGEX then Some TermFlags
                 else if idist it \<noteq> 0 then Some GapOnTerm else None);
          bad = (if bad = None \<and> itermlen it = 0 \<and> iflags it \<noteq> QF_REGEX then Some EmptyTerm else bad);
          bad = (if bad = None \<and> iflags it AND QF_REGEX \<noteq> 0 \<and> 47 \<in> set t then Some SlashInRegex else bad)
      in if bad = None \<and> \<not> verify t then Some BadEncoding else bad)"

definition bad_binary :: "query_item \<Rightarrow> int \<Rightarrow> query_error option" where
  \<comment> \<open>the tests of a binary operator that has its operands; the width of the right one\<close>
  "bad_binary it wr =
     (if iop it \<noteq> OP_PHRASE \<and> (iflags it \<noteq> 0 \<or> idist it \<noteq> 0) then Some FlagsOnAndOr
      else if iop it = OP_PHRASE \<and> iflags it AND NOT QF_PHRASE_EXACT \<noteq> 0 then Some PhraseFlags
      else if iop it = OP_PHRASE \<and> iflags it AND QF_PHRASE_EXACT \<noteq> 0 \<and> uint (idist it) < wr
      then Some ExactGapShort else None)"

definition validate_item ::
  "(u8 list \<Rightarrow> bool) \<Rightarrow> wquery \<Rightarrow> query_item \<Rightarrow> int list \<Rightarrow> query_error + int list" where
  \<comment> \<open>the stack of widths, top first\<close>
  "validate_item verify q it width =
     (if itype it = QI_VAL then
        case bad_term verify (item_text q it) it of Some e \<Rightarrow> Inl e | None \<Rightarrow> Inr (0 # width)
      else if iop it = OP_NOT then
        if width = [] then Inl NotWithoutOperand
        else if iflags it \<noteq> 0 \<or> idist it \<noteq> 0 then Inl FlagsOnNot else Inr width
      else case width of
        wr # wl # rest \<Rightarrow>
          (case bad_binary it wr of Some e \<Rightarrow> Inl e | None \<Rightarrow> Inr (query_op_width it wl wr # rest))
      | _ \<Rightarrow> Inl WithoutTwoOperands)"

fun validate_items ::
  "(u8 list \<Rightarrow> bool) \<Rightarrow> wquery \<Rightarrow> nat \<Rightarrow> query_item list \<Rightarrow> int list \<Rightarrow> (query_error \<times> nat) + int list" where
  "validate_items verify q i [] width = Inr width"
| "validate_items verify q i (it # its) width =
     (case validate_item verify q it width of
        Inl e \<Rightarrow> Inl (e, i + 1)
      | Inr width' \<Rightarrow> validate_items verify q (i + 1) its width')"

datatype validate_result = Valid | BadItem query_error nat | LeftOver nat

definition weave_query_validate :: "(u8 list \<Rightarrow> bool) \<Rightarrow> wquery \<Rightarrow> validate_result" where
  "weave_query_validate verify q =
     (case validate_items verify q 0 (qitems q) [] of
        Inl (e, i) \<Rightarrow> BadItem e i
      | Inr width \<Rightarrow> if qitems q \<noteq> [] \<and> length width \<noteq> 1 then LeftOver (length width) else Valid)"


subsection \<open>Matching\<close>

record match_val =
  present :: bool
  mpos :: "u32 list option"
  pos_lossy_prefix :: bool

definition absent :: match_val where
  "absent = \<lparr>present = False, mpos = None, pos_lossy_prefix = False\<rparr>"

definition in_zone :: "u32 \<Rightarrow> u32 \<Rightarrow> bool" where
  "in_zone wmask p \<longleftrightarrow> wmask AND push_bit (unat (WEAVE_POS_LABEL p)) 1 \<noteq> 0 \<and> WEAVE_POS_ORD p \<noteq> POS_UNKNOWN"

definition term_positions ::
  "(wdoc \<Rightarrow> u8 list \<Rightarrow> bool) \<Rightarrow> (wdoc \<Rightarrow> u8 list \<Rightarrow> int \<Rightarrow> bool) \<Rightarrow> wdoc \<Rightarrow> u8 list \<Rightarrow> u16 \<Rightarrow> u32 \<Rightarrow> match_val" where
  \<comment> \<open>the regex test and the fuzzy test are arguments\<close>
  "term_positions has_regex has_fuzzy d t flags distance =
     (let wmask = (if flags AND QF_WEIGHTED \<noteq> 0 then distance else 0)
      in if flags AND QF_REGEX \<noteq> 0 then absent\<lparr>present := has_regex d t\<rparr>
         else if flags AND QF_FUZZY \<noteq> 0 then absent\<lparr>present := has_fuzzy d t (sint distance)\<rparr>
         else if flags AND QF_PREFIX \<noteq> 0 then
           absent\<lparr>present := weave_doc_has_prefix d t, pos_lossy_prefix := True\<rparr>
         else case weave_doc_lookup d t of
           None \<Rightarrow> absent
         | Some e \<Rightarrow>
             let v = absent\<lparr>present := True, mpos := if WEAVE_DOC_HAS_POS d then Some (term_pos d e) else None\<rparr>
             in if wmask = 0 then v
                else if \<not> WEAVE_DOC_HAS_POS d then v\<lparr>present := False\<rparr>
                else if list_ex (in_zone wmask) (term_pos d e)
                then v\<lparr>present := True, mpos := Some (filter (in_zone wmask) (term_pos d e))\<rparr>
                else v\<lparr>present := False, mpos := None, pos_lossy_prefix := False\<rparr>)"

fun phrase_loop :: "u32 list \<Rightarrow> u32 list \<Rightarrow> u32 \<Rightarrow> bool \<Rightarrow> u32 list" where
  \<comment> \<open>the left positions from \<open>li\<close> on, the right ones from \<open>ri\<close> on\<close>
  "phrase_loop left [] distance exact = []"
| "phrase_loop left (r # right) distance exact =
     (let p = WEAVE_POS_ORD r
      in if p = POS_UNKNOWN then phrase_loop left right distance exact
         else
           let left' = dropWhile (\<lambda>l. (ucast (WEAVE_POS_ORD l) :: u64) + ucast distance < ucast p) left
           in case left' of
             [] \<Rightarrow> phrase_loop left' right distance exact
           | l # _ \<Rightarrow>
               if (if exact then (ucast (WEAVE_POS_ORD l) :: u64) + ucast distance = ucast p
                   else WEAVE_POS_ORD l < p \<and> p - WEAVE_POS_ORD l \<le> distance)
               then r # phrase_loop left' right distance exact
               else phrase_loop left' right distance exact)"

definition weave_phrase_step_pos :: "u32 list \<Rightarrow> u32 list \<Rightarrow> u32 \<Rightarrow> bool \<Rightarrow> u32 list" where
  "weave_phrase_step_pos left right distance exact =
     phrase_loop (dropWhile (\<lambda>l. WEAVE_POS_ORD l = POS_UNKNOWN) left) right distance exact"

definition phrase_step :: "match_val \<Rightarrow> match_val \<Rightarrow> u32 \<Rightarrow> bool \<Rightarrow> match_val" where
  "phrase_step left right distance exact =
     (case (mpos left, mpos right) of
        (Some ls, Some rs) \<Rightarrow>
          (let out = weave_phrase_step_pos ls rs distance exact
           in absent\<lparr>present := out \<noteq> [], mpos := Some out\<rparr>)
      | _ \<Rightarrow>
          (let lossy = (mpos left = None \<and> pos_lossy_prefix left \<or> mpos right = None \<and> pos_lossy_prefix right);
               unknowable = (mpos left = None \<and> \<not> pos_lossy_prefix left \<or>
                             mpos right = None \<and> \<not> pos_lossy_prefix right)
           in if unknowable then absent
              else if lossy then absent\<lparr>present := present left \<and> present right\<rparr>
              else absent))"

definition boolean_val :: "bool \<Rightarrow> match_val" where
  "boolean_val b = absent\<lparr>present := b\<rparr>"

fun match_step ::
  "(wdoc \<Rightarrow> u8 list \<Rightarrow> bool) \<Rightarrow> (wdoc \<Rightarrow> u8 list \<Rightarrow> int \<Rightarrow> bool) \<Rightarrow> wdoc \<Rightarrow> wquery \<Rightarrow> query_item \<Rightarrow>
   match_val list \<Rightarrow> match_val list option" where
  \<comment> \<open>the stack with its top first; an access below the stack is \<open>None\<close>\<close>
  "match_step has_regex has_fuzzy d q it st =
     (if itype it = QI_VAL then
        Some (term_positions has_regex has_fuzzy d (item_text q it) (iflags it) (idist it) # st)
      else if iop it = OP_NOT then
        (case st of v # st' \<Rightarrow> Some (boolean_val (\<not> present v) # st') | [] \<Rightarrow> None)
      else
        (case st of
           r # l # st' \<Rightarrow>
             Some ((if iop it = OP_PHRASE then phrase_step l r (idist it) (iflags it AND QF_PHRASE_EXACT \<noteq> 0)
                    else if iop it = OP_AND then boolean_val (present l \<and> present r)
                    else boolean_val (present l \<or> present r)) # st')
         | _ \<Rightarrow> None))"

declare match_step.simps [simp del]

definition weave_doc_matches ::
  "(wdoc \<Rightarrow> u8 list \<Rightarrow> bool) \<Rightarrow> (wdoc \<Rightarrow> u8 list \<Rightarrow> int \<Rightarrow> bool) \<Rightarrow> wdoc \<Rightarrow> wquery \<Rightarrow> bool option" where
  \<comment> \<open>the result is the bottom of the stack\<close>
  "weave_doc_matches has_regex has_fuzzy d q =
     (if qitems q = [] then Some False
      else case run_items (match_step has_regex has_fuzzy d q) (qitems q) [] of
        None \<Rightarrow> None
      | Some st \<Rightarrow> if st = [] then None else Some (present (last st)))"

subsection \<open>What a phrase step keeps\<close>

definition adjacent :: "u32 \<Rightarrow> bool \<Rightarrow> nat \<Rightarrow> nat \<Rightarrow> bool" where
  \<comment> \<open>\<open>p\<close> follows \<open>l\<close> by exactly, or by at most, \<open>distance\<close>; the ordinal 0 is adjacent to nothing\<close>
  "adjacent distance exact l p \<longleftrightarrow> l \<noteq> 0 \<and> p \<noteq> 0 \<and>
     (if exact then l + unat distance = p else l < p \<and> p \<le> l + unat distance)"

abbreviation ord_of :: "u32 \<Rightarrow> nat" where
  "ord_of p \<equiv> unat (WEAVE_POS_ORD p)"

abbreviation ascending :: "u32 list \<Rightarrow> bool" where
  "ascending ps \<equiv> sorted (map ord_of ps)"

lemma wide_less: "(ucast a :: u64) + ucast b < ucast p \<longleftrightarrow> unat (a :: u32) + unat (b :: u32) < unat (p :: u32)"
  by (simp add: word_less_nat_alt sum64)

lemma wide_eq: "(ucast a :: u64) + ucast b = ucast p \<longleftrightarrow> unat (a :: u32) + unat (b :: u32) = unat (p :: u32)"
  by (simp add: word_unat_eq_iff sum64)

lemma near_iff: "(a :: u32) < p \<and> p - a \<le> b \<longleftrightarrow> unat a < unat p \<and> unat p \<le> unat a + unat b"
  by (cases "a < p") (auto simp: word_less_nat_alt word_le_nat_alt unat_sub)

lemma zero_iff: "WEAVE_POS_ORD p = 0 \<longleftrightarrow> ord_of p = 0"
  by (simp add: unat_eq_0)

lemma phrase_loop_nat:
  "phrase_loop left (r # right) distance exact =
     (if ord_of r = 0 then phrase_loop left right distance exact
      else case dropWhile (\<lambda>l. ord_of l + unat distance < ord_of r) left of
        [] \<Rightarrow> phrase_loop [] right distance exact
      | l # ls \<Rightarrow>
          if if exact then ord_of l + unat distance = ord_of r
             else ord_of l < ord_of r \<and> ord_of r \<le> ord_of l + unat distance
          then r # phrase_loop (l # ls) right distance exact
          else phrase_loop (l # ls) right distance exact)"
  unfolding phrase_loop.simps Let_def zero_iff wide_less wide_eq near_iff
  by (cases "dropWhile (\<lambda>l. ord_of l + unat distance < ord_of r) left") (simp_all del: dropWhile_eq_Nil_conv)

lemma first_suffices:
  assumes "ascending (l # ls)" and "ord_of l \<noteq> 0" and "p \<le> ord_of l + unat distance"
  shows "(\<exists>x\<in>set (l # ls). adjacent distance exact (ord_of x) p) \<longleftrightarrow> adjacent distance exact (ord_of l) p"
proof -
  have "ord_of l \<le> ord_of x" if "x \<in> set ls" for x using assms(1) that by simp
  then show ?thesis using assms(2,3) by (fastforce simp: adjacent_def)
qed

lemma phrase_loop_filter:
  assumes "ascending left" and "ascending right" and "\<forall>l\<in>set left. ord_of l \<noteq> 0"
  shows "phrase_loop left right distance exact =
    filter (\<lambda>r. \<exists>l\<in>set left. adjacent distance exact (ord_of l) (ord_of r)) right"
  using assms
proof (induction right arbitrary: left)
  case (Cons r right)
  let ?p = "ord_of r"
  let ?left' = "dropWhile (\<lambda>l. ord_of l + unat distance < ?p) left"
  have asc': "ascending ?left'" using Cons.prems(1)
    by (simp add: dropWhile_eq_drop drop_map [symmetric] sorted_wrt_drop)
  have sub: "set ?left' \<subseteq> set left" by (rule set_dropWhileD [THEN subsetI])
  have gone: "ord_of l + unat distance < ?p" if "l \<in> set left" "l \<notin> set ?left'" for l
    using that by (metis set_takeWhileD Un_iff set_append takeWhile_dropWhile_id)
  have later: "?p \<le> ord_of x" if "x \<in> set right" for x using Cons.prems(2) that by simp
  have same: "(\<exists>l\<in>set left. adjacent distance exact (ord_of l) (ord_of x)) \<longleftrightarrow>
      (\<exists>l\<in>set ?left'. adjacent distance exact (ord_of l) (ord_of x))" if "x \<in> set (r # right)" for x
  proof -
    have "?p \<le> ord_of x" using later [of x] that by auto
    then have "\<not> adjacent distance exact (ord_of l) (ord_of x)" if "l \<in> set left" "l \<notin> set ?left'" for l
      using gone [OF that] by (auto simp: adjacent_def)
    then show ?thesis using sub by blast
  qed
  have IH: "phrase_loop ?left' right distance exact =
      filter (\<lambda>r. \<exists>l\<in>set left. adjacent distance exact (ord_of l) (ord_of r)) right"
  proof -
    have "phrase_loop ?left' right distance exact =
        filter (\<lambda>r. \<exists>l\<in>set ?left'. adjacent distance exact (ord_of l) (ord_of r)) right"
      by (rule Cons.IH) (use asc' Cons.prems sub in auto)
    also have "\<dots> = filter (\<lambda>r. \<exists>l\<in>set left. adjacent distance exact (ord_of l) (ord_of r)) right"
      by (rule filter_cong) (use same in auto)
    finally show ?thesis .
  qed
  show ?case
  proof (cases "?p = 0")
    case True
    have "filter (\<lambda>r. \<exists>l\<in>set left. adjacent distance exact (ord_of l) (ord_of r)) right =
        phrase_loop left right distance exact"
      using Cons.IH [of left] Cons.prems by simp
    then show ?thesis unfolding phrase_loop_nat using True by (simp add: adjacent_def)
  next
    case False
    have r: "(\<exists>l\<in>set left. adjacent distance exact (ord_of l) ?p) \<longleftrightarrow>
        (\<exists>l\<in>set ?left'. adjacent distance exact (ord_of l) ?p)"
      using same [of r] by simp
    show ?thesis
    proof (cases ?left')
      case Nil
      then show ?thesis using IH False r unfolding phrase_loop_nat Nil by simp
    next
      case (Cons l ls)
      have "ord_of l \<noteq> 0" using Cons sub Cons.prems(3) by force
      moreover have "?p \<le> ord_of l + unat distance"
        using Cons hd_dropWhile [of "\<lambda>l. ord_of l + unat distance < ?p" left] by auto
      ultimately have "(\<exists>l\<in>set left. adjacent distance exact (ord_of l) ?p) \<longleftrightarrow> adjacent distance exact (ord_of l) ?p"
        using first_suffices [of l ls ?p distance exact] asc' r Cons by simp
      moreover have "(if exact then ord_of l + unat distance = ?p else ord_of l < ?p \<and> ?p \<le> ord_of l + unat distance) \<longleftrightarrow>
          adjacent distance exact (ord_of l) ?p"
        using \<open>ord_of l \<noteq> 0\<close> False by (simp add: adjacent_def)
      ultimately show ?thesis using IH False unfolding phrase_loop_nat Cons by simp
    qed
  qed
qed simp

lemma phrase_step_pos_filter:
  assumes "ascending left" and "ascending right"
  shows "weave_phrase_step_pos left right distance exact =
    filter (\<lambda>r. \<exists>l\<in>set left. adjacent distance exact (ord_of l) (ord_of r)) right"
proof -
  let ?left = "dropWhile (\<lambda>l. WEAVE_POS_ORD l = 0) left"
  have asc: "ascending ?left" using assms(1)
    by (simp add: dropWhile_eq_drop drop_map [symmetric] sorted_wrt_drop)
  have known: "ord_of l \<noteq> 0" if l: "l \<in> set ?left" for l
  proof -
    obtain a as where Cons: "?left = a # as" using l by (cases ?left) (auto simp del: dropWhile_eq_Nil_conv)
    then have "ord_of a \<noteq> 0" using hd_dropWhile [of "\<lambda>l. WEAVE_POS_ORD l = 0" left] by (auto simp: zero_iff)
    then show ?thesis using asc l unfolding Cons by auto
  qed
  have "(\<exists>l\<in>set ?left. adjacent distance exact (ord_of l) p) \<longleftrightarrow>
      (\<exists>l\<in>set left. adjacent distance exact (ord_of l) p)" for p
  proof
    assume "\<exists>l\<in>set left. adjacent distance exact (ord_of l) p"
    then obtain l where l: "l \<in> set left" "adjacent distance exact (ord_of l) p" by blast
    then have "l \<notin> set (takeWhile (\<lambda>l. WEAVE_POS_ORD l = 0) left)"
      by (auto simp: adjacent_def zero_iff dest: set_takeWhileD)
    then have "l \<in> set ?left" using l(1) by (metis Un_iff set_append takeWhile_dropWhile_id)
    then show "\<exists>l\<in>set ?left. adjacent distance exact (ord_of l) p" using l(2) by blast
  qed (use set_dropWhileD in fast)
  then show ?thesis
    unfolding weave_phrase_step_pos_def using phrase_loop_filter [OF asc assms(2)] known by simp
qed


subsection \<open>The evaluator as a stack machine\<close>

definition match_op ::
  "(wdoc \<Rightarrow> u8 list \<Rightarrow> bool) \<Rightarrow> (wdoc \<Rightarrow> u8 list \<Rightarrow> int \<Rightarrow> bool) \<Rightarrow> wdoc \<Rightarrow> wquery \<Rightarrow> query_item \<Rightarrow>
   match_val list \<Rightarrow> match_val" where
  "match_op has_regex has_fuzzy d q it vs =
     (if itype it = QI_VAL then term_positions has_regex has_fuzzy d (item_text q it) (iflags it) (idist it)
      else if iop it = OP_NOT then boolean_val (\<not> present (vs ! 0))
      else if iop it = OP_PHRASE then
        phrase_step (vs ! 0) (vs ! 1) (idist it) (iflags it AND QF_PHRASE_EXACT \<noteq> 0)
      else if iop it = OP_AND then boolean_val (present (vs ! 0) \<and> present (vs ! 1))
      else boolean_val (present (vs ! 0) \<or> present (vs ! 1)))"

lemma length2: "length vs = 2 \<longleftrightarrow> (\<exists>l r. vs = [l, r])"
  by (auto simp: numeral_2_eq_2 length_Suc_conv)

interpretation matcher: stack_machine item_arity "match_step has_regex has_fuzzy d q"
    "match_op has_regex has_fuzzy d q" for has_regex has_fuzzy d q
proof
  fix vs st :: "match_val list" and it :: query_item
  show "match_step has_regex has_fuzzy d q it (rev vs @ st) = Some (match_op has_regex has_fuzzy d q it vs # st)"
    if len: "length vs = item_arity it"
  proof -
    consider "itype it = QI_VAL" "vs = []" | v where "itype it \<noteq> QI_VAL" "iop it = OP_NOT" "vs = [v]"
      | l r where "itype it \<noteq> QI_VAL" "iop it \<noteq> OP_NOT" "vs = [l, r]"
      using len by (auto simp: item_arity_def length2 length_Suc_conv split: if_splits)
    then show ?thesis by cases (simp_all add: match_step.simps match_op_def)
  qed
  show "match_step has_regex has_fuzzy d q it st = None" if "length st < item_arity it"
    using that by (auto simp: item_arity_def match_step.simps split: if_splits list.splits)
qed

lemma validated_depth:
  "validate_items verify q i its width = Inr width' \<Longrightarrow> length st = length width \<Longrightarrow>
   \<exists>st'. run_items (match_step has_regex has_fuzzy d q) its st = Some st' \<and> length st' = length width'"
proof (induction its arbitrary: i width st)
  case (Cons it its)
  obtain w where w: "validate_item verify q it width = Inr w" "validate_items verify q (i + 1) its w = Inr width'"
    using Cons.prems(1) by (auto split: sum.splits)
  have "item_arity it \<le> length width \<and> Suc (length w) = length width + 2 - item_arity it"
    using w(1)
    by (auto simp: validate_item_def item_arity_def Suc_le_eq split: if_splits option.splits list.splits)
  then have ar: "item_arity it \<le> length st" and len: "length w = Suc (length st - item_arity it)"
    using Cons.prems(2) by auto
  have "match_step has_regex has_fuzzy d q it (rev (rev (take (item_arity it) st)) @ drop (item_arity it) st) =
      Some (match_op has_regex has_fuzzy d q it (rev (take (item_arity it) st)) # drop (item_arity it) st)"
    by (rule matcher.step_op) (use ar in simp)
  then have "match_step has_regex has_fuzzy d q it st =
      Some (match_op has_regex has_fuzzy d q it (rev (take (item_arity it) st)) # drop (item_arity it) st)"
    by simp
  then show ?case
    using Cons.IH [OF w(2), of "match_op has_regex has_fuzzy d q it (rev (take (item_arity it) st)) # drop (item_arity it) st"]
      len by simp
qed simp

lemma validated_run:
  assumes "weave_query_validate verify q = Valid" and "qitems q \<noteq> []"
  shows "\<exists>t. qitems q = postfix t \<and> tree_ok item_arity t \<and>
    run_items (match_step has_regex has_fuzzy d q) (qitems q) [] =
      Some [tree_value (match_op has_regex has_fuzzy d q) t]"
proof -
  obtain w where w: "validate_items verify q 0 (qitems q) [] = Inr w" "length w = 1"
    using assms by (auto simp: weave_query_validate_def split: sum.splits if_splits)
  obtain st where st: "run_items (match_step has_regex has_fuzzy d q) (qitems q) [] = Some st" "length st = 1"
    using validated_depth [OF w(1), of "[]" has_regex has_fuzzy d] w(2) by auto
  then obtain v where v: "st = [v]" by (auto simp: length_Suc_conv)
  show ?thesis using matcher.run_single [OF st(1) [unfolded v]] st(1) v by auto
qed

subsection \<open>What a query means\<close>

type_synonym meaning = "bool \<times> nat set option \<times> bool"

definition mean_term ::
  "(wdoc \<Rightarrow> u8 list \<Rightarrow> bool) \<Rightarrow> (wdoc \<Rightarrow> u8 list \<Rightarrow> int \<Rightarrow> bool) \<Rightarrow> wdoc \<Rightarrow> u8 list \<Rightarrow> u16 \<Rightarrow> u32 \<Rightarrow> meaning" where
  \<comment> \<open>whether it holds, the known ordinals where it ends if positions are tracked, and whether they are missing for a prefix\<close>
  "mean_term has_regex has_fuzzy d t flags distance =
     (if flags AND QF_REGEX \<noteq> 0 then (has_regex d t, None, False)
      else if flags AND QF_FUZZY \<noteq> 0 then (has_fuzzy d t (sint distance), None, False)
      else if flags AND QF_PREFIX \<noteq> 0 then (\<exists>u\<in>set (doc_terms d). prefix t u, None, True)
      else case find (\<lambda>e. term_text d e = t) (dentries d) of
        None \<Rightarrow> (False, None, False)
      | Some e \<Rightarrow>
          (let weighted = (flags AND QF_WEIGHTED \<noteq> 0 \<and> distance \<noteq> 0);
               ps = {p \<in> set (term_pos d e). weighted \<longrightarrow> in_zone distance p}
           in if \<not> WEAVE_DOC_HAS_POS d then (\<not> weighted, None, False)
              else if weighted \<and> ps = {} then (False, None, False)
              else (True, Some (ord_of ` ps - {0}), False)))"

definition mean_phrase :: "u32 \<Rightarrow> bool \<Rightarrow> meaning \<Rightarrow> meaning \<Rightarrow> meaning" where
  "mean_phrase distance exact l r =
     (case (l, r) of
        ((_, Some ls, _), (_, Some rs, _)) \<Rightarrow>
          (let out = {p \<in> rs. \<exists>x\<in>ls. adjacent distance exact x p} in (out \<noteq> {}, Some out, False))
      | ((pl, ls, prel), (pr, rs, prer)) \<Rightarrow>
          ((ls = None \<longrightarrow> prel) \<and> (rs = None \<longrightarrow> prer) \<and> pl \<and> pr, None, False))"

definition mean_op ::
  "(wdoc \<Rightarrow> u8 list \<Rightarrow> bool) \<Rightarrow> (wdoc \<Rightarrow> u8 list \<Rightarrow> int \<Rightarrow> bool) \<Rightarrow> wdoc \<Rightarrow> wquery \<Rightarrow> query_item \<Rightarrow>
   meaning list \<Rightarrow> meaning" where
  "mean_op has_regex has_fuzzy d q it vs =
     (if itype it = QI_VAL then mean_term has_regex has_fuzzy d (item_text q it) (iflags it) (idist it)
      else if iop it = OP_NOT then (\<not> fst (vs ! 0), None, False)
      else if iop it = OP_PHRASE then mean_phrase (idist it) (iflags it AND QF_PHRASE_EXACT \<noteq> 0) (vs ! 0) (vs ! 1)
      else if iop it = OP_AND then (fst (vs ! 0) \<and> fst (vs ! 1), None, False)
      else (fst (vs ! 0) \<or> fst (vs ! 1), None, False))"

definition meaning_of :: "match_val \<Rightarrow> meaning" where
  "meaning_of v = (present v, map_option (\<lambda>ps. ord_of ` set ps - {0}) (mpos v), pos_lossy_prefix v)"

definition val_ok :: "match_val \<Rightarrow> bool" where
  "val_ok v \<longleftrightarrow> (\<forall>ps. mpos v = Some ps \<longrightarrow> ascending ps)"

lemma run_ok_ascending: "run_ok ps \<Longrightarrow> ascending ps"
proof (induction ps rule: run_ok.induct)
  case (1 x y ps)
  then show ?case by (auto simp: not_less word_le_nat_alt intro: order_trans)
qed auto

lemma ascending_filter: "ascending ps \<Longrightarrow> ascending (filter P ps)"
  by (induction ps) auto

lemma term_positions_meaning:
  assumes "doc_sorted d" and "\<forall>e\<in>set (dentries d). run_ok (term_pos d e)"
  shows "meaning_of (term_positions has_regex has_fuzzy d t flags dist) = mean_term has_regex has_fuzzy d t flags dist \<and>
    val_ok (term_positions has_regex has_fuzzy d t flags dist)"
proof (cases "find (\<lambda>e. term_text d e = t) (dentries d)")
  case None
  then show ?thesis
    by (auto simp: term_positions_def mean_term_def meaning_of_def val_ok_def absent_def Let_def
        lookup_exact [OF assms(1)] has_prefix_exact [OF assms(1)])
next
  case (Some e)
  then have asc: "ascending (term_pos d e)"
    using assms(2) run_ok_ascending by (auto simp: find_Some_iff)
  have "list_ex P (term_pos d e) \<longleftrightarrow> {p \<in> set (term_pos d e). P p} \<noteq> {}" for P
    by (auto simp: list_ex_iff)
  then show ?thesis using Some asc
    by (auto simp: term_positions_def mean_term_def meaning_of_def val_ok_def absent_def Let_def
        lookup_exact [OF assms(1)] has_prefix_exact [OF assms(1)] ascending_filter)
qed

lemma phrase_step_meaning:
  assumes "val_ok l" and "val_ok r"
  shows "meaning_of (phrase_step l r distance exact) = mean_phrase distance exact (meaning_of l) (meaning_of r) \<and>
    val_ok (phrase_step l r distance exact)"
proof (cases "mpos l"; cases "mpos r")
  fix ls rs assume pos: "mpos l = Some ls" "mpos r = Some rs"
  let ?out = "weave_phrase_step_pos ls rs distance exact"
  have asc: "ascending ls" "ascending rs" using assms pos by (auto simp: val_ok_def)
  have out: "?out = filter (\<lambda>r. \<exists>l\<in>set ls. adjacent distance exact (ord_of l) (ord_of r)) rs"
    by (rule phrase_step_pos_filter [OF asc])
  have "ord_of ` set ?out - {0} =
      {p \<in> ord_of ` set rs - {0}. \<exists>x\<in>ord_of ` set ls - {0}. adjacent distance exact x p}"
    unfolding out by (auto simp: adjacent_def)
  moreover have "ord_of ` set ?out - {0} = ord_of ` set ?out"
    unfolding out by (fastforce simp: adjacent_def)
  then have "?out \<noteq> [] \<longleftrightarrow> ord_of ` set ?out - {0} \<noteq> {}" by simp
  moreover have "ascending ?out" unfolding out by (rule ascending_filter [OF asc(2)])
  ultimately show ?thesis
    by (simp add: phrase_step_def mean_phrase_def meaning_of_def val_ok_def absent_def Let_def pos)
qed (auto simp: phrase_step_def mean_phrase_def meaning_of_def val_ok_def absent_def Let_def)

lemma match_op_cases:
  "itype it = QI_VAL \<Longrightarrow> match_op has_regex has_fuzzy d q it vs =
     term_positions has_regex has_fuzzy d (item_text q it) (iflags it) (idist it)"
  "itype it \<noteq> QI_VAL \<Longrightarrow> iop it = OP_NOT \<Longrightarrow> match_op has_regex has_fuzzy d q it vs =
     boolean_val (\<not> present (vs ! 0))"
  "itype it \<noteq> QI_VAL \<Longrightarrow> iop it \<noteq> OP_NOT \<Longrightarrow> match_op has_regex has_fuzzy d q it vs =
     (if iop it = OP_PHRASE then
        phrase_step (vs ! 0) (vs ! 1) (idist it) (iflags it AND QF_PHRASE_EXACT \<noteq> 0)
      else if iop it = OP_AND then boolean_val (present (vs ! 0) \<and> present (vs ! 1))
      else boolean_val (present (vs ! 0) \<or> present (vs ! 1)))"
  by (simp_all add: match_op_def)

lemma mean_op_cases:
  "itype it = QI_VAL \<Longrightarrow> mean_op has_regex has_fuzzy d q it vs =
     mean_term has_regex has_fuzzy d (item_text q it) (iflags it) (idist it)"
  "itype it \<noteq> QI_VAL \<Longrightarrow> iop it = OP_NOT \<Longrightarrow> mean_op has_regex has_fuzzy d q it vs =
     (\<not> fst (vs ! 0), None, False)"
  "itype it \<noteq> QI_VAL \<Longrightarrow> iop it \<noteq> OP_NOT \<Longrightarrow> mean_op has_regex has_fuzzy d q it vs =
     (if iop it = OP_PHRASE then mean_phrase (idist it) (iflags it AND QF_PHRASE_EXACT \<noteq> 0) (vs ! 0) (vs ! 1)
      else if iop it = OP_AND then (fst (vs ! 0) \<and> fst (vs ! 1), None, False)
      else (fst (vs ! 0) \<or> fst (vs ! 1), None, False))"
  by (simp_all add: mean_op_def)

lemma tree_meaning:
  assumes "doc_sorted d" and "\<forall>e\<in>set (dentries d). run_ok (term_pos d e)"
  shows "tree_ok item_arity t \<Longrightarrow>
    meaning_of (tree_value (match_op has_regex has_fuzzy d q) t) = tree_value (mean_op has_regex has_fuzzy d q) t \<and>
    val_ok (tree_value (match_op has_regex has_fuzzy d q) t)"
proof (induction t)
  case (QT it ts)
  let ?v = "tree_value (match_op has_regex has_fuzzy d q)" and ?m = "tree_value (mean_op has_regex has_fuzzy d q)"
  have sub: "meaning_of (?v t) = ?m t" "val_ok (?v t)" if "t \<in> set ts" for t
    using QT that by (auto simp: list_all_iff)
  have fst_m: "fst (?m t) = present (?v t)" if "t \<in> set ts" for t
    using sub(1) [OF that] by (metis fst_conv meaning_of_def)
  have bool: "meaning_of (boolean_val b) = (b, None, False) \<and> val_ok (boolean_val b)" for b
    by (simp add: boolean_val_def meaning_of_def val_ok_def absent_def)
  consider "itype it = QI_VAL" "ts = []" | t where "itype it \<noteq> QI_VAL" "iop it = OP_NOT" "ts = [t]"
    | l r where "itype it \<noteq> QI_VAL" "iop it \<noteq> OP_NOT" "ts = [l, r]"
    using QT.prems by (auto simp: item_arity_def length2 length_Suc_conv split: if_splits)
  then show ?case
  proof cases
    case 1
    then show ?thesis using term_positions_meaning [OF assms] by (simp add: match_op_cases mean_op_cases)
  next
    case 2
    then show ?thesis using bool fst_m by (simp add: match_op_cases mean_op_cases)
  next
    case 3
    then show ?thesis
      using bool fst_m sub phrase_step_meaning [of "?v l" "?v r" "idist it" "iflags it AND QF_PHRASE_EXACT \<noteq> 0"]
      by (simp add: match_op_cases mean_op_cases)
  qed
qed


subsection \<open>What the validator accepts\<close>

definition width_op :: "query_item \<Rightarrow> int list \<Rightarrow> int" where
  "width_op it ws =
     (if itype it = QI_VAL then 0 else if iop it = OP_NOT then ws ! 0 else query_op_width it (ws ! 0) (ws ! 1))"

abbreviation tree_width :: "query_item qtree \<Rightarrow> int" where
  "tree_width \<equiv> tree_value width_op"

definition op_legal :: "(u8 list \<Rightarrow> bool) \<Rightarrow> wquery \<Rightarrow> query_item \<Rightarrow> int list \<Rightarrow> bool" where
  "op_legal verify q it ws \<longleftrightarrow>
     (if itype it = QI_VAL then bad_term verify (item_text q it) it = None
      else if iop it = OP_NOT then iflags it = 0 \<and> idist it = 0
      else bad_binary it (ws ! 1) = None)"

primrec tree_legal :: "(u8 list \<Rightarrow> bool) \<Rightarrow> wquery \<Rightarrow> query_item qtree \<Rightarrow> bool" where
  "tree_legal verify q (QT it ts) \<longleftrightarrow>
     list_all (tree_legal verify q) ts \<and> op_legal verify q it (map tree_width ts)"

lemma validate_item_op:
  assumes "length ws = item_arity it"
  shows "op_legal verify q it ws \<Longrightarrow> validate_item verify q it (rev ws @ width) = Inr (width_op it ws # width)"
    and "\<not> op_legal verify q it ws \<Longrightarrow> \<exists>e. validate_item verify q it (rev ws @ width) = Inl e"
proof -
  consider "itype it = QI_VAL" "ws = []" | w where "itype it \<noteq> QI_VAL" "iop it = OP_NOT" "ws = [w]"
    | l r where "itype it \<noteq> QI_VAL" "iop it \<noteq> OP_NOT" "ws = [l, r]"
    using assms by (auto simp: item_arity_def length2 length_Suc_conv split: if_splits)
  then have "(op_legal verify q it ws \<longrightarrow> validate_item verify q it (rev ws @ width) = Inr (width_op it ws # width)) \<and>
      (\<not> op_legal verify q it ws \<longrightarrow> (\<exists>e. validate_item verify q it (rev ws @ width) = Inl e))"
    by cases (auto simp: validate_item_def op_legal_def width_op_def split: option.splits)
  then show "op_legal verify q it ws \<Longrightarrow> validate_item verify q it (rev ws @ width) = Inr (width_op it ws # width)"
    and "\<not> op_legal verify q it ws \<Longrightarrow> \<exists>e. validate_item verify q it (rev ws @ width) = Inl e" by blast+
qed

lemma validate_tree:
  "tree_ok item_arity t \<Longrightarrow>
   (tree_legal verify q t \<longrightarrow> (\<exists>j. validate_items verify q i (postfix t @ rest) width =
      validate_items verify q j rest (tree_width t # width))) \<and>
   (\<not> tree_legal verify q t \<longrightarrow> (\<exists>e. validate_items verify q i (postfix t @ rest) width = Inl e))"
proof (induction t arbitrary: i rest width)
  case (QT it ts)
  have args: "(list_all (tree_legal verify q) us \<longrightarrow>
        (\<exists>j. validate_items verify q i (concat (map postfix us) @ rest) width =
           validate_items verify q j rest (rev (map tree_width us) @ width))) \<and>
      (\<not> list_all (tree_legal verify q) us \<longrightarrow>
        (\<exists>e. validate_items verify q i (concat (map postfix us) @ rest) width = Inl e))"
    if "set us \<subseteq> set ts" for us i rest width
    using that
  proof (induction us arbitrary: i width)
    case (Cons u us)
    have u: "tree_ok item_arity u" using Cons.prems QT.prems by (auto simp: list_all_iff)
    show ?case
    proof (cases "tree_legal verify q u")
      case True
      then obtain j where j: "validate_items verify q i (postfix u @ concat (map postfix us) @ rest) width =
          validate_items verify q j (concat (map postfix us) @ rest) (tree_width u # width)"
        using QT.IH [of u i "concat (map postfix us) @ rest" width] Cons.prems u by auto
      then show ?thesis
        using Cons.IH [of j "tree_width u # width"] Cons.prems True by simp
    next
      case False
      then show ?thesis
        using QT.IH [of u i "concat (map postfix us) @ rest" width] Cons.prems u by auto
    qed
  qed auto
  have len: "length (map tree_width ts) = item_arity it" using QT.prems by simp
  show ?case
  proof (cases "list_all (tree_legal verify q) ts")
    case True
    then obtain j where j: "validate_items verify q i (concat (map postfix ts) @ [it] @ rest) width =
        validate_items verify q j ([it] @ rest) (rev (map tree_width ts) @ width)"
      using args [of ts i "[it] @ rest" width] by blast
    show ?thesis
      using validate_item_op [OF len, of verify q width] True j by auto
  next
    case False
    then show ?thesis using args [of ts i "[it] @ rest" width] by auto
  qed
qed

lemma validate_valid:
  "weave_query_validate verify q = Valid \<longleftrightarrow>
    qitems q = [] \<or> (\<exists>t. qitems q = postfix t \<and> tree_ok item_arity t \<and> tree_legal verify q t)"
proof (cases "qitems q = []")
  case True
  then show ?thesis by (simp add: weave_query_validate_def)
next
  case False
  show ?thesis
  proof
    assume valid: "weave_query_validate verify q = Valid"
    obtain t where t: "qitems q = postfix t" "tree_ok item_arity t"
      using validated_run [OF valid False, of "\<lambda>_ _. False" "\<lambda>_ _ _. False"
          "\<lparr>dflags = 0, ddoclen = 0, dentries = [], dlexemes = [], dpositions = []\<rparr>"] by blast
    have "tree_legal verify q t"
      using valid validate_tree [OF t(2), of verify q 0 "[]" "[]"] t(1)
      by (auto simp: weave_query_validate_def)
    then show "qitems q = [] \<or> (\<exists>t. qitems q = postfix t \<and> tree_ok item_arity t \<and> tree_legal verify q t)"
      using t by blast
  next
    assume "qitems q = [] \<or> (\<exists>t. qitems q = postfix t \<and> tree_ok item_arity t \<and> tree_legal verify q t)"
    then obtain t where t: "qitems q = postfix t" "tree_ok item_arity t" "tree_legal verify q t"
      using False by blast
    then show "weave_query_validate verify q = Valid"
      using validate_tree [OF t(2), of verify q 0 "[]" "[]"] by (auto simp: weave_query_validate_def)
  qed
qed

text \<open>
  The language of queries, stated without the validator's tests: the five kinds of terms a parser produces, negation,
  boolean operators, and the two kinds of phrases. An exact phrase may not be nearer than its right operand is wide.
\<close>

fun phrase_width :: "query_item qtree \<Rightarrow> nat" where
  \<comment> \<open>the distance from the end of a match's first word to the end of its last, at most\<close>
  "phrase_width (QT it []) = 0"
| "phrase_width (QT it [t]) = phrase_width t"
| "phrase_width (QT it (l # r # _)) =
     (if iop it = 4
      then unat (idist it) + phrase_width l + (if iflags it = 0x10 then 0 else phrase_width r)
      else max (phrase_width l) (phrase_width r))"

inductive legal_term :: "u16 \<Rightarrow> nat \<Rightarrow> u8 list \<Rightarrow> u32 \<Rightarrow> bool" where
  \<comment> \<open>the flags, the distance, the text and its length in the item\<close>
  plain: "len \<noteq> 0 \<Longrightarrow> legal_term 0 0 t len"
| prefix: "len \<noteq> 0 \<Longrightarrow> legal_term 1 0 t len"
| fuzzy: "len \<noteq> 0 \<Longrightarrow> 1 \<le> k \<Longrightarrow> k < 2 ^ 31 \<Longrightarrow> legal_term 2 k t len"
| regex: "47 \<notin> set t \<Longrightarrow> legal_term 4 0 t len"
| weighted: "len \<noteq> 0 \<Longrightarrow> 1 \<le> m \<Longrightarrow> m \<le> 15 \<Longrightarrow> legal_term 8 m t len"

inductive legal_query :: "(u8 list \<Rightarrow> bool) \<Rightarrow> wquery \<Rightarrow> query_item qtree \<Rightarrow> bool" for verify q where
  leaf: "itype it = 1 \<Longrightarrow> iop it = 0 \<Longrightarrow> verify (item_text q it) \<Longrightarrow>
    legal_term (iflags it) (unat (idist it)) (item_text q it) (itermlen it) \<Longrightarrow> legal_query verify q (QT it [])"
| negation: "itype it \<noteq> 1 \<Longrightarrow> iop it = 1 \<Longrightarrow> iflags it = 0 \<Longrightarrow> idist it = 0 \<Longrightarrow>
    legal_query verify q t \<Longrightarrow> legal_query verify q (QT it [t])"
| boolean: "itype it \<noteq> 1 \<Longrightarrow> iop it \<notin> {1, 4} \<Longrightarrow> iflags it = 0 \<Longrightarrow> idist it = 0 \<Longrightarrow>
    legal_query verify q l \<Longrightarrow> legal_query verify q r \<Longrightarrow> legal_query verify q (QT it [l, r])"
| near: "itype it \<noteq> 1 \<Longrightarrow> iop it = 4 \<Longrightarrow> iflags it = 0 \<Longrightarrow>
    legal_query verify q l \<Longrightarrow> legal_query verify q r \<Longrightarrow> legal_query verify q (QT it [l, r])"
| exact: "itype it \<noteq> 1 \<Longrightarrow> iop it = 4 \<Longrightarrow> iflags it = 0x10 \<Longrightarrow> phrase_width r \<le> unat (idist it) \<Longrightarrow>
    legal_query verify q l \<Longrightarrow> legal_query verify q r \<Longrightarrow> legal_query verify q (QT it [l, r])"

inductive_simps legal_term_simps: "legal_term fl k t len"
inductive_simps legal_query_simps: "legal_query verify q (QT it ts)"

lemma bad_term_legal:
  "bad_term verify t it = None \<longleftrightarrow> iop it = 0 \<and> verify t \<and> legal_term (iflags it) (unat (idist it)) t (itermlen it)"
proof -
  have d: "idist it = 0 \<longleftrightarrow> unat (idist it) = 0" "idist it < 1 \<longleftrightarrow> \<not> 1 \<le> unat (idist it)"
      "INT32_MAX < uint (idist it) \<longleftrightarrow> \<not> unat (idist it) < 2 ^ 31" "0xF < idist it \<longleftrightarrow> \<not> unat (idist it) \<le> 15"
  proof -
    show "idist it = 0 \<longleftrightarrow> unat (idist it) = 0" by (simp add: unat_eq_0)
    show "idist it < 1 \<longleftrightarrow> \<not> 1 \<le> unat (idist it)" "0xF < idist it \<longleftrightarrow> \<not> unat (idist it) \<le> 15"
      unfolding word_less_nat_alt by (simp_all add: not_le)
    have "INT32_MAX < uint (idist it) \<longleftrightarrow> int (2 ^ 31 - 1) < int (unat (idist it))" by simp
    then show "INT32_MAX < uint (idist it) \<longleftrightarrow> \<not> unat (idist it) < 2 ^ 31" unfolding of_nat_less_iff by auto
  qed
  consider "iflags it = 0" | "iflags it = 1" | "iflags it = 2" | "iflags it = 4" | "iflags it = 8"
    | "iflags it \<notin> {0, 1, 2, 4, 8}" by blast
  then show ?thesis
    unfolding bad_term_def Let_def d query_consts legal_term_simps by cases simp_all
qed

lemma exact_flags: "(fl :: u16) AND NOT 0x10 = 0 \<longleftrightarrow> fl = 0 \<or> fl = 0x10"
proof
  assume z: "fl AND NOT 0x10 = 0"
  have off: "\<not> bit fl n" if "n \<noteq> 4" "n < 16" for n
  proof -
    have "\<not> bit (fl AND NOT 0x10) n" using z by simp
    moreover have "bit (2 ^ 4 :: u16) n \<longleftrightarrow> n = 4" unfolding bit_exp_iff using that(2) by auto
    then have "bit (0x10 :: u16) n \<longleftrightarrow> n = 4" by simp
    ultimately show ?thesis using that by (simp add: bit_simps)
  qed
  show "fl = 0 \<or> fl = 0x10"
  proof (cases "bit fl 4")
    case True
    have "fl = 2 ^ 4"
    proof (rule bit_word_eqI)
      fix n assume "n < LENGTH(16)"
      then show "bit fl n \<longleftrightarrow> bit (2 ^ 4 :: u16) n" unfolding bit_exp_iff using off [of n] True by (cases "n = 4") auto
    qed
    then show ?thesis by simp
  next
    case False
    have "fl = 0"
    proof (rule bit_word_eqI)
      fix n assume "n < LENGTH(16)"
      then show "bit fl n \<longleftrightarrow> bit (0 :: u16) n" using off [of n] False by (cases "n = 4") auto
    qed
    then show ?thesis by simp
  qed
qed auto

lemma bad_binary_legal:
  "bad_binary it wr = None \<longleftrightarrow>
    (if iop it = 4 then iflags it = 0 \<or> iflags it = 0x10 \<and> wr \<le> int (unat (idist it)) else iflags it = 0 \<and> idist it = 0)"
proof -
  have "(0x10 :: u16) AND 0x10 \<noteq> 0" "(0 :: u16) AND 0x10 = 0" by simp_all
  then show ?thesis
    unfolding bad_binary_def query_consts exact_flags uint_nat by auto
qed

lemma le_uint: "int n \<le> uint w \<longleftrightarrow> n \<le> unat w"
  unfolding uint_nat [of w] by (rule of_nat_le_iff)

lemma legal_width: "legal_query verify q t \<Longrightarrow> tree_width t = int (phrase_width t)"
  by (induction rule: legal_query.induct) (simp_all add: width_op_def query_op_width_def query_consts of_nat_max)

lemma legal_sound: "legal_query verify q t \<Longrightarrow> tree_ok item_arity t \<and> tree_legal verify q t"
proof (induction rule: legal_query.induct)
  case (leaf it)
  then show ?case by (simp add: item_arity_def op_legal_def bad_term_legal QI_VAL_def)
qed (simp_all add: item_arity_def op_legal_def bad_binary_legal legal_width query_consts le_uint)

lemma legal_complete: "tree_ok item_arity t \<Longrightarrow> tree_legal verify q t \<Longrightarrow> legal_query verify q t"
proof (induction t)
  case (QT it ts)
  have sub: "legal_query verify q u" if "u \<in> set ts" for u
    using QT.IH [OF that] QT.prems that by (auto simp: list_all_iff)
  consider "itype it = 1" "ts = []" | t where "itype it \<noteq> 1" "iop it = 1" "ts = [t]"
    | l r where "itype it \<noteq> 1" "iop it \<noteq> 1" "ts = [l, r]"
    using QT.prems(1) by (auto simp: item_arity_def length2 length_Suc_conv query_consts split: if_splits)
  then show ?case
  proof cases
    case 1
    then show ?thesis using QT.prems(2) by (auto simp: op_legal_def bad_term_legal QI_VAL_def intro: legal_query.leaf)
  next
    case 2
    then show ?thesis using QT.prems(2) sub by (auto simp: op_legal_def query_consts intro: legal_query.negation)
  next
    case 3
    have "bad_binary it (tree_width r) = None" using QT.prems(2) 3 by (simp add: op_legal_def query_consts)
    moreover have "legal_query verify q r" using sub 3 by simp
    then have "tree_width r = int (phrase_width r)" by (rule legal_width)
    ultimately have b: "if iop it = 4 then iflags it = 0 \<or> iflags it = 0x10 \<and> phrase_width r \<le> unat (idist it)
        else iflags it = 0 \<and> idist it = 0" by (simp only: bad_binary_legal of_nat_le_iff)
    show ?thesis using b 3 sub by (auto intro: legal_query.intros split: if_splits)
  qed
qed

lemma legal_tree_iff: "tree_ok item_arity t \<and> tree_legal verify q t \<longleftrightarrow> legal_query verify q t"
  using legal_sound legal_complete by blast

lemma built_runs:
  assumes "weave_doc_build maxalloc ts ps n = Inr d" and "maxalloc < 2 ^ 32"
  shows "\<forall>e\<in>set (dentries d). run_ok (term_pos d e)"
proof (cases "ps = None \<or> ts = []")
  case True
  have "check_terms None ts = Inr ()" by (rule build_layout(3) [OF assms])
  then have "dpositions d = []"
    using assms(1) True by (auto simp: weave_doc_build_def Let_def split: if_splits)
  then show ?thesis by (simp add: term_pos_def)
next
  case False
  then obtain q where q: "ps = Some q" "ts \<noteq> []" by auto
  have "run_ok (term_pos d (dentries d ! i))" if "i < length ts" for i
    using built_positions [OF _ assms(2) that] runs_ok_nth [OF _ that] build_layout(5) [OF assms q] assms(1) q(1)
    by simp
  then show ?thesis by (auto simp: in_set_conv_nth build_layout(1) [OF assms])
qed

subsection \<open>Properties\<close>

text \<open>
  C23: a query that \<open>weave_query_validate\<close> accepts is the postfix form of an operator tree, and evaluating it
  on a built document never reads below the stack and gives the meaning of that tree: terms, prefixes and
  weight zones over the document's entries and positions, the boolean connectives, and phrases as sets of
  known end positions with a gap of exactly or at most the distance.
\<close>

theorem doc_matches_reference:
  assumes "weave_doc_build maxalloc ts ps n = Inr d" and "maxalloc < 2 ^ 32"
    and "weave_query_validate verify q = Valid" and "qitems q \<noteq> []"
  shows "\<exists>t. qitems q = postfix t \<and> tree_ok item_arity t \<and>
    weave_doc_matches has_regex has_fuzzy d q = Some (fst (tree_value (mean_op has_regex has_fuzzy d q) t))"
proof -
  obtain t where t: "qitems q = postfix t" "tree_ok item_arity t"
    "run_items (match_step has_regex has_fuzzy d q) (qitems q) [] = Some [tree_value (match_op has_regex has_fuzzy d q) t]"
    using validated_run [OF assms(3,4)] by blast
  have "meaning_of (tree_value (match_op has_regex has_fuzzy d q) t) = tree_value (mean_op has_regex has_fuzzy d q) t"
    using tree_meaning [OF built_terms(2) [OF assms(1,2)] built_runs [OF assms(1,2)] t(2)] by blast
  then have "present (tree_value (match_op has_regex has_fuzzy d q) t) = fst (tree_value (mean_op has_regex has_fuzzy d q) t)"
    by (metis fst_conv meaning_of_def)
  then have "weave_doc_matches has_regex has_fuzzy d q = Some (fst (tree_value (mean_op has_regex has_fuzzy d q) t))"
    using t(3) assms(4) by (simp add: weave_doc_matches_def)
  then show ?thesis using t(1,2) by blast
qed

abbreviation (input) demo_query :: wquery where
  \<comment> \<open>the phrase \<open>a <-> bc\<close>\<close>
  "demo_query \<equiv> \<lparr>qitems =
     [\<lparr>itype = 1, iop = 0, iflags = 0, idist = 0, itermoff = 0, itermlen = 1\<rparr>,
      \<lparr>itype = 1, iop = 0, iflags = 0, idist = 0, itermoff = 1, itermlen = 2\<rparr>,
      \<lparr>itype = 2, iop = 4, iflags = 0x10, idist = 1, itermoff = 0, itermlen = 0\<rparr>],
     qtext = [97, 98, 99]\<rparr>"

lemma demo_query_valid: "weave_query_validate (\<lambda>_. True) demo_query = Valid"
  by (simp add: weave_query_validate_def validate_item_def bad_term_def bad_binary_def query_op_width_def
      item_text_def query_consts)

theorem doc_matches_reference_witness:
  "\<exists>d. weave_doc_build 1000 [([97], 2), ([98, 99], 1)] (Some [1, 4, 2]) (- 1) = Inr d \<and>
     (\<exists>t. qitems demo_query = postfix t \<and> weave_doc_matches (\<lambda>_ _. False) (\<lambda>_ _ _. False) d demo_query =
        Some (fst (tree_value (mean_op (\<lambda>_ _. False) (\<lambda>_ _ _. False) d demo_query) t)))"
proof -
  let ?ts = "[([97], 2), ([98, 99], 1)] :: (u8 list \<times> u32) list"
  obtain d where d: "weave_doc_build 1000 ?ts (Some [1, 4, 2]) (- 1) = Inr d"
    by (simp add: weave_doc_build_def weave_doc_default_len_def WEAVE_POS_ORD_def WEAVE_POS_LABEL_def
        doc_total_def MAXALIGN_def)
  then show ?thesis using doc_matches_reference [OF d _ demo_query_valid] by fastforce
qed

text \<open>
  C24: \<open>weave_query_validate\<close> accepts exactly the empty query and the postfix lists of the trees of \<open>legal_query\<close>:
  plain, prefix, fuzzy, regex and weighted terms with the distance, mask, text and encoding each of them allows, no
  flag or distance on negation and the boolean operators, phrases, and exact phrases no nearer than the width of
  their right operand. Every other list, one that underflows the stack or leaves operands over included, is rejected.
\<close>

theorem query_validate_exact:
  "weave_query_validate verify q = Valid \<longleftrightarrow>
    qitems q = [] \<or> (\<exists>t. qitems q = postfix t \<and> legal_query verify q t)"
  unfolding validate_valid legal_tree_iff by (rule refl)

text \<open>
  The two-pointer phrase step keeps exactly the right positions with a known ordinal that some known left
  position precedes by exactly, or by at most, the distance. Sums are exact, so no distance wraps.
\<close>

theorem phrase_step_pos_exact:
  assumes "ascending left" and "ascending right"
  shows "weave_phrase_step_pos left right distance exact =
    filter (\<lambda>r. \<exists>l\<in>set left. adjacent distance exact (ord_of l) (ord_of r)) right"
  by (rule phrase_step_pos_filter [OF assms])

theorem phrase_step_pos_exact_witness:
  "weave_phrase_step_pos [0, 1, 5] [2, 4, 6] 1 True = [2, 6]"
  by (subst phrase_step_pos_exact) (simp_all add: WEAVE_POS_ORD_def adjacent_def)

end
