(* ===== verification/Weave_Docvals.thy ===== *)
theory Weave_Docvals
  imports Weave_Bytes "HOL-Library.Monad_Syntax"
begin

text \<open>
  The scalar store of one facet column, \<open>include/weave/docvals.h\<close>, over the bytes of its image: the
  validator, the readers, the two dictionary searches and the two evaluators. Headers are copied out of
  the image as the code copies them; a read outside the image, or one past an asserted bound, is \<open>None\<close>.
  The comparator of the dictionary searches is a parameter, as it is in the code.
\<close>

subsection \<open>Header\<close>

record dv_header =
  dmagic :: u32
  dversion :: u16
  dkind :: u16
  dndocs :: u32
  dnull_off :: u32
  dzonemap_off :: u32
  dvalues_off :: u32
  ddocids_off :: u32
  ddict_off :: u32

definition WEAVE_DOCVALS_MAGIC :: u32 where "WEAVE_DOCVALS_MAGIC = 0x57445631"
definition DV_KIND_INT8 :: u16 where "DV_KIND_INT8 = 1"
definition DV_KIND_TEXT :: u16 where "DV_KIND_TEXT = 2"

definition dv_header_at :: "u8 list \<Rightarrow> dv_header" where
  "dv_header_at img = \<lparr>dmagic = r32 img 0, dversion = r16 img 4, dkind = r16 img 6, dndocs = r32 img 8,
     dnull_off = r32 img 12, dzonemap_off = r32 img 16, dvalues_off = r32 img 20, ddocids_off = r32 img 24,
     ddict_off = r32 img 28\<rparr>"

definition read_header :: "u8 list \<Rightarrow> dv_header option" where
  "read_header img = (if 32 \<le> length img then Some (dv_header_at img) else None)"

datatype dv_strat = DV_LT | DV_LE | DV_EQ | DV_GE | DV_GT

subsection \<open>The validator\<close>

datatype dv_reason =
    ShorterThanHeader | BadMagic | BadVersion | BadTextKind | BadInt8Kind | BadValuesOff | BadZonemapOff
  | BadDocidsOff | TooShortForDocs | NullsInV1 | BadNullOff | TooShortForNulls | NoDictionary | BadDictOff
  | TooShortForDictHeader | TooShortForDictOffsets | FirstOffsetNonzero | OffsetsDecrease | TooShortForBlob
  | DocidsNotAscending | OrdinalOutOfRange

fun check_offs :: "u8 list \<Rightarrow> nat \<Rightarrow> nat list \<Rightarrow> u32 \<Rightarrow> (dv_reason + u32) option" where
  "check_offs img base [] prevo = Some (Inr prevo)"
| "check_offs img base (j # js) prevo = do {
     o' \<leftarrow> rd32 img (base + j * 4);
     if o' < prevo then Some (Inl OffsetsDecrease) else check_offs img base js o'
   }"

definition check_dict :: "u8 list \<Rightarrow> dv_header \<Rightarrow> u64 \<Rightarrow> u64 \<Rightarrow> (dv_reason + u32) option" where
  \<comment> \<open>the dictionary region; the number of entries when it is sound\<close>
  "check_dict img h len region_end =
     (let dict_need = WEAVE_DV_MAXALIGN region_end
      in if ddict_off h = 0 then Some (Inl NoDictionary)
         else if (ucast (ddict_off h) :: u64) \<noteq> dict_need then Some (Inl BadDictOff)
         else
           let offs_base = (ucast (ddict_off h) :: u64) + 4
           in if len < offs_base then Some (Inl TooShortForDictHeader)
              else do {
                ndict \<leftarrow> rd32 img (unat (ddict_off h));
                let offs_end = offs_base + (ucast ndict + 1) * 4;
                if len < offs_end then Some (Inl TooShortForDictOffsets)
                else do {
                  prevo \<leftarrow> rd32 img (unat offs_base);
                  if prevo \<noteq> 0 then Some (Inl FirstOffsetNonzero)
                  else do {
                    r \<leftarrow> check_offs img (unat offs_base) [1..<Suc (unat ndict)] prevo;
                    case r of Inl e \<Rightarrow> Some (Inl e)
                    | Inr last' \<Rightarrow>
                        if len < offs_end + ucast last' then Some (Inl TooShortForBlob) else Some (Inr ndict)
                  }
                }
              })"

fun check_docids :: "u8 list \<Rightarrow> nat \<Rightarrow> nat list \<Rightarrow> u64 option \<Rightarrow> bool option" where
  \<comment> \<open>the previous docid, none before the first\<close>
  "check_docids img off [] prev = Some True"
| "check_docids img off (i # is) prev = do {
     d \<leftarrow> rd64 img (off + i * 8);
     if (case prev of None \<Rightarrow> False | Some p \<Rightarrow> d \<le> p) then Some False else check_docids img off is (Some d)
   }"

definition null_bit :: "u8 list \<Rightarrow> nat \<Rightarrow> u32 \<Rightarrow> bool option" where
  "null_bit img off i = do {
     b \<leftarrow> rd8 img (off + unat (drop_bit 3 i));
     Some (drop_bit (unat (i AND 7)) b AND 1 \<noteq> 0)
   }"

fun check_ords :: "u8 list \<Rightarrow> dv_header \<Rightarrow> u32 \<Rightarrow> nat list \<Rightarrow> bool option" where
  "check_ords img h ndict [] = Some True"
| "check_ords img h ndict (i # is) = do {
     isnull \<leftarrow> (if dnull_off h \<noteq> 0 then null_bit img (unat (dnull_off h)) (of_nat i) else Some False);
     if isnull then check_ords img h ndict is
     else do {
       v \<leftarrow> rd64 img (unat (dvalues_off h) + i * 8);
       if sint v < 0 \<or> ucast ndict \<le> v then Some False else check_ords img h ndict is
     }
   }"

definition check_kind :: "dv_header \<Rightarrow> dv_reason option" where
  "check_kind h =
     (if dmagic h \<noteq> WEAVE_DOCVALS_MAGIC then Some BadMagic
      else if dversion h \<noteq> 1 \<and> dversion h \<noteq> 2 \<and> dversion h \<noteq> 3 then Some BadVersion
      else if dversion h = 3 \<and> dkind h \<noteq> DV_KIND_TEXT then Some BadTextKind
      else if dversion h \<noteq> 3 \<and> dkind h \<noteq> DV_KIND_INT8 then Some BadInt8Kind
      else if dvalues_off h \<noteq> ucast (WEAVE_DV_MAXALIGN 32) then Some BadValuesOff
      else if dzonemap_off h \<noteq> 0 then Some BadZonemapOff else None)"

definition check_nulls :: "dv_header \<Rightarrow> u64 \<Rightarrow> u64 \<Rightarrow> dv_reason + u64" where
  \<comment> \<open>the end of the last region so far\<close>
  "check_nulls h len total_need =
     (if dnull_off h \<noteq> 0 then
        let null_need = WEAVE_DV_MAXALIGN total_need
        in if dversion h = 1 then Inl NullsInV1
           else if (ucast (dnull_off h) :: u64) \<noteq> null_need then Inl BadNullOff
           else
             let bitmap_end = ucast (dnull_off h) + (ucast (dndocs h) + 7) div 8
             in if len < bitmap_end then Inl TooShortForNulls else Inr bitmap_end
      else Inr total_need)"

definition weave_docvals_validate :: "u8 list \<Rightarrow> dv_reason option option" where
  \<comment> \<open>\<open>Some None\<close> accepts, \<open>Some (Some r)\<close> gives a reason, \<open>None\<close> has read outside the image\<close>
  "weave_docvals_validate img =
     (let len = (of_nat (length img) :: u64)
      in if len < 32 then Some (Some ShorterThanHeader)
         else do {
           h \<leftarrow> read_header img;
           case check_kind h of Some r \<Rightarrow> Some (Some r)
           | None \<Rightarrow>
               let docids_need = ucast (dvalues_off h) + ucast (dndocs h) * (8 :: u64)
               in if ucast (ddocids_off h) \<noteq> docids_need then Some (Some BadDocidsOff)
                  else
                    let total_need = ucast (ddocids_off h) + ucast (dndocs h) * (8 :: u64)
                    in if len < total_need then Some (Some TooShortForDocs)
                       else case check_nulls h len total_need of Inl r \<Rightarrow> Some (Some r)
                       | Inr region_end \<Rightarrow> do {
                           d \<leftarrow> (if dversion h = 3 then check_dict img h len region_end else Some (Inr 0));
                           case d of Inl r \<Rightarrow> Some (Some r)
                           | Inr ndict \<Rightarrow> do {
                               ascending \<leftarrow> check_docids img (unat (ddocids_off h)) [0..<unat (dndocs h)] None;
                               if \<not> ascending then Some (Some DocidsNotAscending)
                               else if dversion h = 3 then do {
                                 ok \<leftarrow> check_ords img h ndict [0..<unat (dndocs h)];
                                 Some (if ok then None else Some OrdinalOutOfRange)
                               }
                               else Some None
                             }
                         }
         })"

subsection \<open>Readers\<close>

definition weave_docvals_int8 :: "u8 list \<Rightarrow> u32 \<Rightarrow> u64 option" where
  "weave_docvals_int8 img idx = do {
     h \<leftarrow> read_header img;
     if idx < dndocs h then rd64 img (unat (dvalues_off h) + unat idx * 8) else None
   }"

definition weave_docvals_docid :: "u8 list \<Rightarrow> u32 \<Rightarrow> u64 option" where
  "weave_docvals_docid img idx = do {
     h \<leftarrow> read_header img;
     if idx < dndocs h then rd64 img (unat (ddocids_off h) + unat idx * 8) else None
   }"

definition weave_docvals_isnull :: "u8 list \<Rightarrow> u32 \<Rightarrow> bool option" where
  "weave_docvals_isnull img idx = do {
     h \<leftarrow> read_header img;
     if \<not> idx < dndocs h then None
     else if dnull_off h = 0 then Some False else null_bit img (unat (dnull_off h)) idx
   }"

definition weave_docvals_ndict :: "u8 list \<Rightarrow> u32 option" where
  "weave_docvals_ndict img = do {
     h \<leftarrow> read_header img;
     if dversion h \<noteq> 3 then Some 0 else rd32 img (unat (ddict_off h))
   }"

definition weave_docvals_dict_entry :: "u8 list \<Rightarrow> u32 \<Rightarrow> u8 list option" where
  "weave_docvals_dict_entry img ord = do {
     h \<leftarrow> read_header img;
     if dversion h \<noteq> 3 then None
     else do {
       ndict \<leftarrow> rd32 img (unat (ddict_off h));
       if \<not> ord < ndict then None
       else do {
         let offs = unat (ddict_off h) + 4;
         a \<leftarrow> rd32 img (offs + unat ord * 4);
         b \<leftarrow> rd32 img (offs + (unat ord + 1) * 4);
         let start = offs + (unat ndict + 1) * 4 + unat a;
         if start + unat (b - a) \<le> length img then Some (take (unat (b - a)) (drop start img)) else None
       }
     }
   }"

subsection \<open>Evaluators\<close>

fun dv_eval_loop ::
  "u8 list \<Rightarrow> (int \<Rightarrow> bool) \<Rightarrow> u32 \<Rightarrow> u32 list \<Rightarrow> u64 list \<Rightarrow> u32 \<Rightarrow> (u64 list \<times> u32) option" where
  \<comment> \<open>the output so far and the count\<close>
  "dv_eval_loop img matches outcap [] out count = Some (out, count)"
| "dv_eval_loop img matches outcap (i # is) out count = do {
     isnull \<leftarrow> weave_docvals_isnull img i;
     if isnull then dv_eval_loop img matches outcap is out count
     else do {
       v \<leftarrow> weave_docvals_int8 img i;
       if matches (sint v) then
         if count < outcap then do {
           d \<leftarrow> weave_docvals_docid img i;
           dv_eval_loop img matches outcap is (out @ [d]) (count + 1)
         }
         else dv_eval_loop img matches outcap is out (count + 1)
       else dv_eval_loop img matches outcap is out count
     }
   }"

fun int8_matches :: "dv_strat \<Rightarrow> 'a::linorder \<Rightarrow> 'a \<Rightarrow> bool" where
  "int8_matches DV_LT c v \<longleftrightarrow> v < c"
| "int8_matches DV_LE c v \<longleftrightarrow> v \<le> c"
| "int8_matches DV_EQ c v \<longleftrightarrow> v = c"
| "int8_matches DV_GE c v \<longleftrightarrow> v \<ge> c"
| "int8_matches DV_GT c v \<longleftrightarrow> v > c"

definition weave_dv_eval_int8 :: "u8 list \<Rightarrow> dv_strat \<Rightarrow> u64 \<Rightarrow> u32 \<Rightarrow> (u64 list \<times> u32) option" where
  "weave_dv_eval_int8 img op c outcap = do {
     h \<leftarrow> read_header img;
     if dversion h = 3 then None
     else dv_eval_loop img (int8_matches op (sint c)) outcap (map of_nat [0..<unat (dndocs h)]) [] 0
   }"

fun ord_matches :: "dv_strat \<Rightarrow> int \<Rightarrow> int \<Rightarrow> int \<Rightarrow> bool" where
  "ord_matches DV_LT slo shi v \<longleftrightarrow> v < slo"
| "ord_matches DV_LE slo shi v \<longleftrightarrow> v < shi"
| "ord_matches DV_EQ slo shi v \<longleftrightarrow> v \<ge> slo \<and> v < shi"
| "ord_matches DV_GE slo shi v \<longleftrightarrow> v \<ge> slo"
| "ord_matches DV_GT slo shi v \<longleftrightarrow> v \<ge> shi"

definition weave_dv_eval_ord :: "u8 list \<Rightarrow> dv_strat \<Rightarrow> u32 \<Rightarrow> u32 \<Rightarrow> u32 \<Rightarrow> (u64 list \<times> u32) option" where
  "weave_dv_eval_ord img op lo hi outcap = do {
     h \<leftarrow> read_header img;
     if dversion h \<noteq> 3 then None
     else dv_eval_loop img (ord_matches op (uint lo) (uint hi)) outcap (map of_nat [0..<unat (dndocs h)]) [] 0
   }"

lemma mid_less:
  assumes "lo < (hi :: u32)"
  shows "unat (lo + (hi - lo) div 2) = unat lo + (unat hi - unat lo) div 2"
proof -
  have "unat (hi - lo) = unat hi - unat lo" using assms by (simp add: unat_sub word_le_nat_alt word_less_nat_alt)
  moreover have "unat lo + (unat hi - unat lo) div 2 < 2 ^ 32" using unat_u32 [of hi] assms by (simp add: word_less_nat_alt)
  ultimately show ?thesis by (simp add: unat_word_ariths unat_div)
qed

lemma dict_mid_between:
  assumes "lo < (hi :: u32)"
  shows "lo \<le> lo + (hi - lo) div 2" "lo + (hi - lo) div 2 < hi"
  using assms by (simp_all add: word_less_nat_alt word_le_nat_alt mid_less)

lemma mid_step:
  assumes "lo < (hi :: u32)"
  shows "unat (lo + (hi - lo) div 2 + 1) = Suc (unat lo + (unat hi - unat lo) div 2)"
  using unat_inc [OF dict_mid_between(2) [OF assms]] mid_less [OF assms] by simp

function dict_search :: "u8 list \<Rightarrow> (u8 list \<Rightarrow> bool) \<Rightarrow> u32 \<Rightarrow> u32 \<Rightarrow> u32 option" where
  \<comment> \<open>the loop of both boundary searches; the test moves the lower end\<close>
  "dict_search img below lo hi =
     (if lo < hi then
        let mid = lo + (hi - lo) div 2
        in case weave_docvals_dict_entry img mid of
          None \<Rightarrow> None
        | Some e \<Rightarrow> if below e then dict_search img below (mid + 1) hi else dict_search img below lo mid
      else Some lo)"
  by pat_completeness auto
termination
  by (relation "measure (\<lambda>(img, below, lo, hi). unat hi - unat lo)")
    (auto simp: mid_less mid_step word_less_nat_alt)

declare dict_search.simps [simp del]

definition weave_dv_dict_lower_bound :: "(u8 list \<Rightarrow> u8 list \<Rightarrow> int) \<Rightarrow> u8 list \<Rightarrow> u8 list \<Rightarrow> u32 option" where
  "weave_dv_dict_lower_bound cmp img key = do {
     n \<leftarrow> weave_docvals_ndict img;
     dict_search img (\<lambda>e. cmp e key < 0) 0 n
   }"

definition weave_dv_dict_upper_bound :: "(u8 list \<Rightarrow> u8 list \<Rightarrow> int) \<Rightarrow> u8 list \<Rightarrow> u8 list \<Rightarrow> u32 option" where
  "weave_dv_dict_upper_bound cmp img key = do {
     n \<leftarrow> weave_docvals_ndict img;
     dict_search img (\<lambda>e. cmp e key \<le> 0) 0 n
   }"

subsection \<open>What the validator accepts\<close>

definition dv_ndocs :: "u8 list \<Rightarrow> nat" where
  "dv_ndocs img = unat (dndocs (dv_header_at img))"

definition dv_docids :: "u8 list \<Rightarrow> u64 list" where
  "dv_docids img = map (\<lambda>i. r64 img (unat (ddocids_off (dv_header_at img)) + i * 8)) [0..<dv_ndocs img]"

definition dv_values :: "u8 list \<Rightarrow> u64 list" where
  "dv_values img = map (\<lambda>i. r64 img (unat (dvalues_off (dv_header_at img)) + i * 8)) [0..<dv_ndocs img]"

definition dv_null :: "u8 list \<Rightarrow> nat \<Rightarrow> bool" where
  "dv_null img i \<longleftrightarrow> dnull_off (dv_header_at img) \<noteq> 0 \<and>
     bit (img ! (unat (dnull_off (dv_header_at img)) + i div 8)) (i mod 8)"

definition dv_dict_off :: "u8 list \<Rightarrow> nat" where
  "dv_dict_off img = unat (ddict_off (dv_header_at img))"

definition dv_ndict :: "u8 list \<Rightarrow> nat" where
  "dv_ndict img = unat (r32 img (dv_dict_off img))"

definition dv_offsets :: "u8 list \<Rightarrow> u32 list" where
  "dv_offsets img = map (\<lambda>j. r32 img (dv_dict_off img + 4 + j * 4)) [0..<Suc (dv_ndict img)]"

definition dv_blob :: "u8 list \<Rightarrow> nat" where
  "dv_blob img = dv_dict_off img + 4 + (dv_ndict img + 1) * 4"

definition dv_region_end :: "u8 list \<Rightarrow> nat" where
  "dv_region_end img =
     (if dnull_off (dv_header_at img) = 0 then 32 + 16 * dv_ndocs img
      else MAXALIGN (32 + 16 * dv_ndocs img) + (dv_ndocs img + 7) div 8)"

definition dict_ok :: "u8 list \<Rightarrow> bool" where
  "dict_ok img \<longleftrightarrow>
     dv_dict_off img = MAXALIGN (dv_region_end img) \<and> dv_dict_off img + 4 \<le> length img \<and>
     dv_blob img \<le> length img \<and> hd (dv_offsets img) = 0 \<and> sorted (dv_offsets img) \<and>
     dv_blob img + unat (last (dv_offsets img)) \<le> length img"

definition header_ok :: "dv_header \<Rightarrow> bool" where
  \<comment> \<open>the magic number, a text store in version 3 and an integer store before, values right behind the header\<close>
  "header_ok h \<longleftrightarrow> dmagic h = 0x57445631 \<and> unat (dvalues_off h) = 32 \<and> dzonemap_off h = 0 \<and>
     (dversion h = 3 \<and> dkind h = 2 \<or> dversion h \<in> {1, 2} \<and> dkind h = 1)"

definition docvals_ok :: "u8 list \<Rightarrow> bool" where
  "docvals_ok img \<longleftrightarrow>
     (let h = dv_header_at img; n = dv_ndocs img
      in 32 + 16 * n \<le> length img \<and> header_ok h \<and> unat (ddocids_off h) = 32 + 8 * n \<and>
         (dnull_off h \<noteq> 0 \<longrightarrow> dversion h \<noteq> 1 \<and> unat (dnull_off h) = MAXALIGN (32 + 16 * n) \<and>
            dv_region_end img \<le> length img) \<and>
         (dversion h = 3 \<longrightarrow> dict_ok img) \<and> sorted_wrt (<) (dv_docids img) \<and>
         (dversion h = 3 \<longrightarrow>
            (\<forall>i<n. \<not> dv_null img i \<longrightarrow>
               0 \<le> sint (dv_values img ! i) \<and> sint (dv_values img ! i) < int (dv_ndict img))))"

lemma check_kind_header: "check_kind h = None \<longleftrightarrow> header_ok h"
proof -
  have v: "dvalues_off h = ucast (WEAVE_DV_MAXALIGN 32) \<longleftrightarrow> unat (dvalues_off h) = 32"
    by (simp add: WEAVE_DV_MAXALIGN_def word_unat_eq_iff)
  show ?thesis unfolding check_kind_def v header_ok_def WEAVE_DOCVALS_MAGIC_def DV_KIND_TEXT_def DV_KIND_INT8_def by auto
qed

lemma docvals_ok_kind:
  "docvals_ok img \<longleftrightarrow>
     (let h = dv_header_at img; n = dv_ndocs img
      in 32 + 16 * n \<le> length img \<and> check_kind h = None \<and> unat (ddocids_off h) = 32 + 8 * n \<and>
         (dnull_off h \<noteq> 0 \<longrightarrow> dversion h \<noteq> 1 \<and> unat (dnull_off h) = MAXALIGN (32 + 16 * n) \<and>
            dv_region_end img \<le> length img) \<and>
         (dversion h = 3 \<longrightarrow> dict_ok img) \<and> sorted_wrt (<) (dv_docids img) \<and>
         (dversion h = 3 \<longrightarrow>
            (\<forall>i<n. \<not> dv_null img i \<longrightarrow>
               0 \<le> sint (dv_values img ! i) \<and> sint (dv_values img ! i) < int (dv_ndict img))))"
  by (simp only: docvals_ok_def check_kind_header)

lemma check_kind_values: "check_kind h = None \<Longrightarrow> unat (dvalues_off h) = 32"
proof -
  assume "check_kind h = None"
  then have "dvalues_off h = ucast (WEAVE_DV_MAXALIGN 32)" by (simp add: check_kind_def split: if_splits)
  moreover have "unat (WEAVE_DV_MAXALIGN 32) = 32" by (simp add: unat_maxalign MAXALIGN_def)
  then have "WEAVE_DV_MAXALIGN 32 = 32" by (simp add: word_unat_eq_iff)
  ultimately show ?thesis by simp
qed

lemma maxalign_less: "MAXALIGN n \<le> n + 7"
  unfolding MAXALIGN_def by linarith

lemma check_offs_spec:
  "\<forall>j\<in>set js. base + j * 4 + 4 \<le> length img \<Longrightarrow>
   check_offs img base js p =
     Some (if sorted (p # map (\<lambda>j. r32 img (base + j * 4)) js)
           then Inr (last (p # map (\<lambda>j. r32 img (base + j * 4)) js)) else Inl OffsetsDecrease)"
proof (induction js arbitrary: p)
  case (Cons j js)
  then show ?case by (auto simp: rd32_def)
qed simp

lemma check_docids_spec:
  "\<forall>i\<in>set is. off + i * 8 + 8 \<le> length img \<Longrightarrow>
   check_docids img off is prev =
     Some (sorted_wrt (<) ((case prev of None \<Rightarrow> [] | Some p \<Rightarrow> [p]) @ map (\<lambda>i. r64 img (off + i * 8)) is))"
proof (induction "is" arbitrary: prev)
  case (Cons i "is")
  then have "check_docids img off (i # is) prev =
      (if (case prev of None \<Rightarrow> False | Some p \<Rightarrow> r64 img (off + i * 8) \<le> p) then Some False
       else check_docids img off is (Some (r64 img (off + i * 8))))"
    by (simp add: rd64_def)
  then show ?case
    using Cons.IH [of "Some (r64 img (off + i * 8))"] Cons.prems
    by (auto split: option.splits intro: less_trans)
qed (simp split: option.split)

lemma null_bit_spec:
  assumes "off + i div 8 < length img" and "i < 2 ^ 32"
  shows "null_bit img off (of_nat i) = Some (bit (img ! (off + i div 8)) (i mod 8))"
proof -
  have i: "unat (of_nat i :: u32) = i" using assms(2) by (simp add: unat_of_nat)
  then have "unat (drop_bit 3 (of_nat i :: u32)) = i div 8"
    by (simp add: drop_bit_eq_div unat_div i)
  moreover have "unat ((of_nat i :: u32) AND 7) = i mod 8"
  proof -
    have "7 = (mask 3 :: u32)" by (simp add: mask_numeral)
    then have "(of_nat i :: u32) AND 7 = take_bit 3 (of_nat i)" by (simp add: take_bit_eq_mask)
    then show ?thesis by (simp add: take_bit_eq_mod unat_mod i)
  qed
  moreover have "drop_bit m b AND 1 \<noteq> 0 \<longleftrightarrow> bit b m" for b :: u8 and m
    by (simp add: and_one_eq bit_iff_odd_drop_bit odd_iff_mod_2_eq_one)
  ultimately show ?thesis using assms(1) by (simp add: null_bit_def rd8_def)
qed


lemma header_read: "32 \<le> length img \<Longrightarrow> read_header img = Some (dv_header_at img)"
  by (simp add: read_header_def)

lemma ndocs_less: "dv_ndocs img < 2 ^ 32"
  unfolding dv_ndocs_def by (rule unat_u32)

lemma check_nulls_spec:
  fixes img defines "h \<equiv> dv_header_at img"
  assumes tot: "unat tot = 32 + 16 * dv_ndocs img" and len: "unat len = length img"
    and fit: "32 + 16 * dv_ndocs img \<le> length img"
  shows "check_nulls h len tot = Inr e \<longleftrightarrow>
    (dnull_off h \<noteq> 0 \<longrightarrow> dversion h \<noteq> 1 \<and> unat (dnull_off h) = MAXALIGN (32 + 16 * dv_ndocs img) \<and>
       dv_region_end img \<le> length img) \<and> unat e = dv_region_end img"
proof (cases "dnull_off h = 0")
  case True
  then show ?thesis using tot by (auto simp: check_nulls_def dv_region_end_def h_def word_unat_eq_iff)
next
  case False
  have need: "unat (WEAVE_DV_MAXALIGN tot) = MAXALIGN (32 + 16 * dv_ndocs img)"
    using tot ndocs_less [of img] by (simp add: unat_maxalign)
  have eq: "(ucast (dnull_off h) :: u64) = WEAVE_DV_MAXALIGN tot \<longleftrightarrow>
      unat (dnull_off h) = MAXALIGN (32 + 16 * dv_ndocs img)"
    by (simp add: word_unat_eq_iff need)
  have bm: "unat ((ucast (dnull_off h) :: u64) + (ucast (dndocs h) + 7) div 8) = unat (dnull_off h) + (dv_ndocs img + 7) div 8"
    using unat_u32 [of "dnull_off h"] unat_u32 [of "dndocs h"]
    by (simp add: unat_word_ariths unat_div dv_ndocs_def h_def)
  let ?stop = "(ucast (dnull_off h) :: u64) + (ucast (dndocs h) + 7) div 8"
  have "check_nulls h len tot =
      (if dversion h = 1 then Inl NullsInV1
       else if unat (dnull_off h) \<noteq> MAXALIGN (32 + 16 * dv_ndocs img) then Inl BadNullOff
       else if length img < unat (dnull_off h) + (dv_ndocs img + 7) div 8 then Inl TooShortForNulls else Inr ?stop)"
    using False by (simp add: check_nulls_def Let_def eq word_less_nat_alt bm len)
  moreover have "?stop = e \<longleftrightarrow> unat e = unat (dnull_off h) + (dv_ndocs img + 7) div 8"
    using bm by (auto simp: word_unat_eq_iff)
  ultimately show ?thesis using False by (auto simp: dv_region_end_def h_def)
qed

lemma dv_offsets_hd_last:
  "hd (dv_offsets img) = r32 img (dv_dict_off img + 4)"
  "last (dv_offsets img) = r32 img (dv_dict_off img + 4 + dv_ndict img * 4)"
  "length (dv_offsets img) = Suc (dv_ndict img)"
  by (simp_all add: dv_offsets_def hd_map del: upt_Suc) (simp add: last_map)

lemma region_end_less: "dv_region_end img < 2 ^ 38"
  using ndocs_less [of img] maxalign_less [of "32 + 16 * dv_ndocs img"] by (auto simp: dv_region_end_def)

lemma check_dict_spec:
  fixes img defines "h \<equiv> dv_header_at img"
  assumes re: "unat re = dv_region_end img" and len: "unat len = length img"
  shows "\<exists>r. check_dict img h len re = Some r \<and> (\<forall>nd. r = Inr nd \<longleftrightarrow> dict_ok img \<and> nd = r32 img (dv_dict_off img))"
proof -
  let ?off = "dv_dict_off img" and ?nd = "r32 img (dv_dict_off img)"
  have off: "unat (ddict_off h) = ?off" by (simp add: dv_dict_off_def h_def)
  have off_less: "?off < 2 ^ 32" unfolding dv_dict_off_def by (rule unat_u32)
  have need: "unat (WEAVE_DV_MAXALIGN re) = MAXALIGN (dv_region_end img)"
    using re region_end_less [of img] by (simp add: unat_maxalign)
  have eq: "(ucast (ddict_off h) :: u64) = WEAVE_DV_MAXALIGN re \<longleftrightarrow> ?off = MAXALIGN (dv_region_end img)"
    by (simp add: word_unat_eq_iff need off)
  have nz: "ddict_off h = 0 \<Longrightarrow> ?off \<noteq> MAXALIGN (dv_region_end img)"
    using maxalign_ge [of "dv_region_end img"] maxalign_ge [of "32 + 16 * dv_ndocs img"] off
    by (auto simp: dv_region_end_def split: if_splits)
  have ob: "unat ((ucast (ddict_off h) :: u64) + 4) = ?off + 4"
    using off_less by (simp add: unat_word_ariths off)
  have oe: "unat ((ucast (ddict_off h) :: u64) + 4 + (ucast nd + 1) * 4) = ?off + 4 + (unat nd + 1) * 4" for nd :: u32
    using off_less unat_u32 [of nd] by (simp add: unat_word_ariths off)
  have bl: "unat ((ucast (ddict_off h) :: u64) + 4 + (ucast nd + 1) * 4 + ucast x) =
      ?off + 4 + (unat nd + 1) * 4 + unat x" for nd x :: u32
    using off_less unat_u32 [of nd] unat_u32 [of x] by (simp add: unat_word_ariths off)
  have main: "check_dict img h len re =
     (if ddict_off h = 0 then Some (Inl NoDictionary)
      else if ?off \<noteq> MAXALIGN (dv_region_end img) then Some (Inl BadDictOff)
      else if length img < ?off + 4 then Some (Inl TooShortForDictHeader)
      else do {
        nd \<leftarrow> rd32 img ?off;
        if length img < ?off + 4 + (unat nd + 1) * 4 then Some (Inl TooShortForDictOffsets)
        else do {
          prevo \<leftarrow> rd32 img (?off + 4);
          if prevo \<noteq> 0 then Some (Inl FirstOffsetNonzero)
          else do {
            r \<leftarrow> check_offs img (?off + 4) [1..<Suc (unat nd)] prevo;
            case r of Inl e \<Rightarrow> Some (Inl e)
            | Inr last' \<Rightarrow>
                if length img < ?off + 4 + (unat nd + 1) * 4 + unat last' then Some (Inl TooShortForBlob)
                else Some (Inr nd)
          }
        }
      })"
    unfolding check_dict_def Let_def eq word_less_nat_alt len ob off oe bl by (rule refl)
  have blob: "?off + 4 + (unat ?nd + 1) * 4 = dv_blob img" by (simp add: dv_blob_def dv_ndict_def)
  show ?thesis
  proof (cases "?off = MAXALIGN (dv_region_end img) \<and> ?off + 4 \<le> length img \<and> dv_blob img \<le> length img")
    case False
    then have "\<not> dict_ok img" by (auto simp: dict_ok_def)
    moreover have "\<exists>e. check_dict img h len re = Some (Inl e)"
      unfolding main rd32_def using False blob by (auto simp: not_le)
    ultimately show ?thesis by auto
  next
    case True
    have "1 \<le> unat ?nd + 1" by simp
    then have in8: "?off + 8 \<le> length img" using True by (simp add: dv_blob_def)
    let ?rest = "map (\<lambda>j. r32 img (?off + 4 + j * 4)) [1..<Suc (unat ?nd)]"
    have all: "dv_offsets img = r32 img (?off + 4) # ?rest"
      unfolding dv_offsets_def dv_ndict_def by (subst upt_conv_Cons) simp_all
    have inb: "\<forall>j\<in>set [1..<Suc (unat ?nd)]. (?off + 4) + j * 4 + 4 \<le> length img"
      using True by (auto simp: dv_blob_def dv_ndict_def)
    have offs: "check_offs img (?off + 4) [1..<Suc (unat ?nd)] (r32 img (?off + 4)) =
        Some (if sorted (dv_offsets img) then Inr (last (dv_offsets img)) else Inl OffsetsDecrease)"
      using check_offs_spec [OF inb] unfolding all .
    have "check_dict img h len re =
      (if hd (dv_offsets img) \<noteq> 0 then Some (Inl FirstOffsetNonzero)
       else if \<not> sorted (dv_offsets img) then Some (Inl OffsetsDecrease)
       else if length img < dv_blob img + unat (last (dv_offsets img)) then Some (Inl TooShortForBlob)
       else Some (Inr ?nd))"
    proof -
      have d0: "ddict_off h \<noteq> 0" using nz True by blast
      have rd: "rd32 img ?off = Some ?nd" "rd32 img (?off + 4) = Some (hd (dv_offsets img))"
        using True in8 by (simp_all add: rd32_def dv_offsets_hd_last)
      have h0: "r32 img (?off + 4) = hd (dv_offsets img)" by (simp add: dv_offsets_hd_last)
      have fits: "(length img < dv_blob img) = False" "(length img < ?off + 4) = False"
          "(?off \<noteq> MAXALIGN (dv_region_end img)) = False" "(ddict_off h = 0) = False"
        using True d0 by auto
      show ?thesis
        unfolding main rd Option.bind.simps blob fits if_False offs [unfolded h0]
        by (simp split: sum.split)
    qed
    then show ?thesis using True by (auto simp: dict_ok_def)
  qed
qed

lemma sint_nonneg: "0 \<le> sint (v :: u64) \<Longrightarrow> sint v = uint v"
proof -
  assume "0 \<le> sint v"
  moreover have "sint v < 2 ^ 63" using sint_less [of v] by simp
  ultimately show ?thesis using uint_sint [of v] by (simp add: take_bit_int_eq_self)
qed

lemma check_ords_spec:
  fixes img defines "h \<equiv> dv_header_at img"
  assumes "\<forall>i\<in>set is. i < dv_ndocs img"
    and nulls: "dnull_off h \<noteq> 0 \<Longrightarrow> unat (dnull_off h) + (dv_ndocs img + 7) div 8 \<le> length img"
    and vals: "unat (dvalues_off h) + 8 * dv_ndocs img \<le> length img"
  shows "check_ords img h nd is = Some (\<forall>i\<in>set is. \<not> dv_null img i \<longrightarrow>
     0 \<le> sint (dv_values img ! i) \<and> sint (dv_values img ! i) < int (unat nd))"
  using assms(2)
proof (induction "is")
  case (Cons i "is")
  let ?v = "r64 img (unat (dvalues_off h) + i * 8)"
  have i: "i < dv_ndocs img" using Cons.prems by simp
  have "(if dnull_off h \<noteq> 0 then null_bit img (unat (dnull_off h)) (of_nat i) else Some False) = Some (dv_null img i)"
  proof (cases "dnull_off h = 0")
    case False
    have "i div 8 < (dv_ndocs img + 7) div 8" using i by linarith
    then have "unat (dnull_off h) + i div 8 < length img" using nulls [OF False] by linarith
    then show ?thesis
      using null_bit_spec [of "unat (dnull_off h)" i img] i ndocs_less [of img] False
      by (simp add: dv_null_def h_def)
  qed (simp add: dv_null_def h_def)
  moreover have "rd64 img (unat (dvalues_off h) + i * 8) = Some ?v"
    using vals i by (simp add: rd64_def)
  moreover have "dv_values img ! i = ?v" using i by (simp add: dv_values_def h_def)
  moreover have "(sint v < 0 \<or> ucast nd \<le> v) \<longleftrightarrow> \<not> (0 \<le> sint v \<and> sint v < int (unat nd))" for v :: u64
  proof (cases "sint v < 0")
    case False
    then have "sint v = int (unat v)" using sint_nonneg [of v] by simp
    moreover have "ucast nd \<le> v \<longleftrightarrow> int (unat nd) \<le> int (unat v)" unfolding word_le_nat_alt by (simp only: unat_ucast32 of_nat_le_iff)
    ultimately show ?thesis using False by linarith
  qed simp
  ultimately show ?case using Cons by auto
qed simp


lemma validate_spec:
  assumes "length img < 2 ^ 64"
  shows "\<exists>r. weave_docvals_validate img = Some r \<and> (r = None \<longleftrightarrow> docvals_ok img)"
proof (cases "32 \<le> length img \<and> check_kind (dv_header_at img) = None \<and>
    unat (ddocids_off (dv_header_at img)) = 32 + 8 * dv_ndocs img \<and> 32 + 16 * dv_ndocs img \<le> length img")
  case False
  let ?h = "dv_header_at img"
  have len: "unat (of_nat (length img) :: u64) = length img" using assms by (simp add: unat_of_nat)
  have n: "unat (dndocs ?h) = dv_ndocs img" by (simp add: dv_ndocs_def)
  have tot: "unat ((ucast (ddocids_off ?h) :: u64) + ucast (dndocs ?h) * 8) = unat (ddocids_off ?h) + 8 * dv_ndocs img"
    using unat_u32 [of "ddocids_off ?h"] unat_u32 [of "dndocs ?h"] by (simp add: unat_word_ariths n)
  have voff: "unat ((ucast (dvalues_off ?h) :: u64) + ucast (dndocs ?h) * 8) = 32 + 8 * dv_ndocs img"
    if "check_kind ?h = None"
    using check_kind_values [OF that] unat_u32 [of "dndocs ?h"] by (simp add: unat_word_ariths n)
  have "\<not> docvals_ok img" using False by (auto simp: docvals_ok_kind Let_def)
  moreover have "\<exists>e. weave_docvals_validate img = Some (Some e)"
  proof (cases "32 \<le> length img \<and> check_kind ?h = None")
    case True
    then have "(ucast (ddocids_off ?h) :: u64) = ucast (dvalues_off ?h) + ucast (dndocs ?h) * 8 \<longleftrightarrow>
        unat (ddocids_off ?h) = 32 + 8 * dv_ndocs img"
      using voff by (simp add: word_unat_eq_iff)
    then show ?thesis using True False
      by (auto simp: weave_docvals_validate_def Let_def word_less_nat_alt len header_read tot)
  next
    case False
    then show ?thesis
      by (auto simp: weave_docvals_validate_def Let_def word_less_nat_alt len header_read split: option.splits)
  qed
  ultimately show ?thesis by auto
next
  case True
  let ?h = "dv_header_at img" and ?n = "dv_ndocs img"
  let ?total = "(ucast (ddocids_off ?h) :: u64) + ucast (dndocs ?h) * 8"
  have len: "unat (of_nat (length img) :: u64) = length img" using assms by (simp add: unat_of_nat)
  have n: "unat (dndocs ?h) = ?n" by (simp add: dv_ndocs_def)
  have tot: "unat ?total = 32 + 16 * ?n"
    using unat_u32 [of "ddocids_off ?h"] unat_u32 [of "dndocs ?h"] True by (simp add: unat_word_ariths n)
  have "unat ((ucast (dvalues_off ?h) :: u64) + ucast (dndocs ?h) * 8) = 32 + 8 * ?n"
    using check_kind_values [of ?h] True unat_u32 [of "dndocs ?h"] by (simp add: unat_word_ariths n)
  then have off: "(ucast (ddocids_off ?h) :: u64) = ucast (dvalues_off ?h) + ucast (dndocs ?h) * 8"
    using True by (simp add: word_unat_eq_iff)
  have enough: "\<not> of_nat (length img) < (32 :: u64)" "\<not> of_nat (length img) < ?total"
    using True by (simp_all add: word_less_nat_alt len tot)
  have nulls: "check_nulls ?h (of_nat (length img)) ?total = Inr e \<longleftrightarrow>
      (dnull_off ?h \<noteq> 0 \<longrightarrow> dversion ?h \<noteq> 1 \<and> unat (dnull_off ?h) = MAXALIGN (32 + 16 * ?n) \<and>
         dv_region_end img \<le> length img) \<and> unat e = dv_region_end img" for e
    by (rule check_nulls_spec [OF tot len]) (use True in simp)
  have docids: "check_docids img (unat (ddocids_off ?h)) [0..<unat (dndocs ?h)] None = Some (sorted_wrt (<) (dv_docids img))"
    using check_docids_spec [of "[0..<?n]" "unat (ddocids_off ?h)" img None] True by (simp add: n dv_docids_def)
  have start: "weave_docvals_validate img =
      (case check_nulls ?h (of_nat (length img)) ?total of Inl r \<Rightarrow> Some (Some r)
       | Inr region_end \<Rightarrow> do {
           d \<leftarrow> (if dversion ?h = 3 then check_dict img ?h (of_nat (length img)) region_end else Some (Inr 0));
           case d of Inl r \<Rightarrow> Some (Some r)
           | Inr ndict \<Rightarrow>
               if \<not> sorted_wrt (<) (dv_docids img) then Some (Some DocidsNotAscending)
               else if dversion ?h = 3 then do {
                 ok \<leftarrow> check_ords img ?h ndict [0..<?n];
                 Some (if ok then None else Some OrdinalOutOfRange)
               }
               else Some None
         })"
  proof -
    have conds: "(of_nat (length img) < (32 :: u64)) = False" "(of_nat (length img) < ?total) = False"
        "((ucast (ddocids_off ?h) :: u64) \<noteq> ucast (dvalues_off ?h) + ucast (dndocs ?h) * 8) = False"
        "check_kind ?h = None" "read_header img = Some ?h"
      using enough off True header_read by auto
    show ?thesis
      unfolding weave_docvals_validate_def Let_def conds if_False Option.bind.simps option.case docids
      unfolding n by (rule refl)
  qed
  show ?thesis
  proof (cases "check_nulls ?h (of_nat (length img)) ?total")
    case (Inl e)
    then have "\<not> docvals_ok img"
      using nulls [of "of_nat (dv_region_end img)"] region_end_less [of img]
      by (auto simp: docvals_ok_kind Let_def unat_of_nat)
    then show ?thesis unfolding start Inl by simp
  next
    case (Inr e)
    then have e: "unat e = dv_region_end img" and
      nl: "dnull_off ?h \<noteq> 0 \<longrightarrow> dversion ?h \<noteq> 1 \<and> unat (dnull_off ?h) = MAXALIGN (32 + 16 * ?n) \<and>
         dv_region_end img \<le> length img"
      using nulls [of e] by auto
    have ok: "docvals_ok img \<longleftrightarrow> (dversion ?h = 3 \<longrightarrow> dict_ok img) \<and> sorted_wrt (<) (dv_docids img) \<and>
         (dversion ?h = 3 \<longrightarrow> (\<forall>i<?n. \<not> dv_null img i \<longrightarrow>
            0 \<le> sint (dv_values img ! i) \<and> sint (dv_values img ! i) < int (dv_ndict img)))"
      using True nl by (simp add: docvals_ok_kind Let_def)
    obtain d where d: "check_dict img ?h (of_nat (length img)) e = Some d"
        "\<And>nd. d = Inr nd \<longleftrightarrow> dict_ok img \<and> nd = r32 img (dv_dict_off img)"
      using check_dict_spec [OF e len] by blast
    have ords: "check_ords img ?h nd [0..<?n] = Some (\<forall>i\<in>set [0..<?n]. \<not> dv_null img i \<longrightarrow>
        0 \<le> sint (dv_values img ! i) \<and> sint (dv_values img ! i) < int (unat nd))" for nd
      by (rule check_ords_spec) (use True nl check_kind_values [of ?h] in \<open>auto simp: dv_region_end_def\<close>)
    show ?thesis
    proof (cases "dversion ?h = 3")
      case False
      then show ?thesis unfolding start Inr using ok by simp
    next
      case v3: True
      show ?thesis
      proof (cases d)
        case (Inl r)
        then have "\<not> dict_ok img" using d(2) by auto
        then show ?thesis unfolding start Inr using v3 d(1) Inl ok by simp
      next
        case (Inr nd)
        then have dk: "dict_ok img" "unat nd = dv_ndict img" using d(2) by (auto simp: dv_ndict_def)
        show ?thesis
          unfolding start \<open>check_nulls ?h (of_nat (length img)) ?total = Inr e\<close>
          using v3 d(1) Inr ok dk ords [of nd] by auto
      qed
    qed
  qed
qed

end
