(* ===== verification/Weave_Docvals_Gate.thy ===== *)
theory Weave_Docvals_Gate
  imports Weave_Docvals "HOL-Library.List_Lexorder"
begin

text \<open>
  Facet gates: the readers and evaluators of \<open>include/weave/docvals.h\<close> on an image the validator has accepted, and
  the dictionary searches under a collation, which is any comparator that orders strings as their keys.
\<close>

subsection \<open>Readers and evaluators on an accepted image\<close>

lemma ok_header:
  assumes "docvals_ok img"
  shows "read_header img = Some (dv_header_at img)" and "32 + 16 * dv_ndocs img \<le> length img"
    and "unat (dvalues_off (dv_header_at img)) = 32" and "unat (ddocids_off (dv_header_at img)) = 32 + 8 * dv_ndocs img"
    and "check_kind (dv_header_at img) = None"
  using assms check_kind_values by (auto simp: docvals_ok_kind Let_def header_read)

lemma ok_reads:
  assumes ok: "docvals_ok img" and i: "i < dv_ndocs img"
  shows "weave_docvals_int8 img (of_nat i) = Some (dv_values img ! i)"
    and "weave_docvals_docid img (of_nat i) = Some (dv_docids img ! i)"
    and "weave_docvals_isnull img (of_nat i) = Some (dv_null img i)"
proof -
  note h = ok_header [OF ok]
  have u: "unat (of_nat i :: u32) = i" using i ndocs_less [of img] by (simp add: unat_of_nat)
  have less: "of_nat i < dndocs (dv_header_at img)" using i by (simp add: word_less_nat_alt u dv_ndocs_def)
  show "weave_docvals_int8 img (of_nat i) = Some (dv_values img ! i)"
    using h less i by (simp add: weave_docvals_int8_def u rd64_def dv_values_def)
  show "weave_docvals_docid img (of_nat i) = Some (dv_docids img ! i)"
    using h less i by (simp add: weave_docvals_docid_def u rd64_def dv_docids_def)
  show "weave_docvals_isnull img (of_nat i) = Some (dv_null img i)"
  proof (cases "dnull_off (dv_header_at img) = 0")
    case False
    have "i div 8 < (dv_ndocs img + 7) div 8" using i by linarith
    then have "unat (dnull_off (dv_header_at img)) + i div 8 < length img"
      using ok False by (auto simp: docvals_ok_kind Let_def dv_region_end_def)
    then show ?thesis
      using null_bit_spec [of "unat (dnull_off (dv_header_at img))" i img] i ndocs_less [of img] False less h
      by (simp add: weave_docvals_isnull_def dv_null_def)
  qed (use h less in \<open>simp add: weave_docvals_isnull_def dv_null_def\<close>)
qed

definition dv_selected :: "u8 list \<Rightarrow> (int \<Rightarrow> bool) \<Rightarrow> nat list" where
  \<comment> \<open>the dense indexes whose value is not null and passes the test\<close>
  "dv_selected img P = filter (\<lambda>i. \<not> dv_null img i \<and> P (sint (dv_values img ! i))) [0..<dv_ndocs img]"

lemma eval_loop_spec:
  assumes "docvals_ok img"
  shows "\<forall>i\<in>set is. i < dv_ndocs img \<Longrightarrow> length out = min (unat count) (unat outcap) \<Longrightarrow>
    unat count + length is < 2 ^ 32 \<Longrightarrow>
    dv_eval_loop img P outcap (map of_nat is) out count =
      (let ms = map (\<lambda>i. dv_docids img ! i) (filter (\<lambda>i. \<not> dv_null img i \<and> P (sint (dv_values img ! i))) is)
       in Some (out @ take (unat outcap - unat count) ms, count + of_nat (length ms)))"
proof (induction "is" arbitrary: out count)
  case (Cons i "is")
  have i: "i < dv_ndocs img" using Cons.prems(1) by simp
  note r = ok_reads [OF assms i]
  let ?sel = "\<not> dv_null img i \<and> P (sint (dv_values img ! i))"
  have step: "dv_eval_loop img P outcap (map of_nat (i # is)) out count =
      (if ?sel then
         dv_eval_loop img P outcap (map of_nat is) (if count < outcap then out @ [dv_docids img ! i] else out) (count + 1)
       else dv_eval_loop img P outcap (map of_nat is) out count)"
    by (simp add: r)
  show ?case
  proof (cases ?sel)
    case False
    then show ?thesis unfolding step using Cons by (auto simp add: Let_def)
  next
    case True
    have inc: "unat (count + 1) = Suc (unat count)"
      using Cons.prems(3) by (simp add: unat_word_ariths)
    have "dv_eval_loop img P outcap (map of_nat is) (if count < outcap then out @ [dv_docids img ! i] else out) (count + 1) =
      (let ms = map (\<lambda>i. dv_docids img ! i) (filter (\<lambda>i. \<not> dv_null img i \<and> P (sint (dv_values img ! i))) is)
       in Some ((if count < outcap then out @ [dv_docids img ! i] else out) @ take (unat outcap - unat (count + 1)) ms,
            count + 1 + of_nat (length ms)))"
      by (rule Cons.IH) (use Cons.prems in \<open>auto simp: inc word_less_nat_alt\<close>)
    then show ?thesis unfolding step using True
      by (cases "count < outcap") (simp_all add: Let_def inc word_less_nat_alt Suc_diff_Suc [symmetric])
  qed
qed (simp add: Let_def)

lemma eval_all:
  assumes "docvals_ok img" and "dv_ndocs img \<le> unat outcap"
  shows "dv_eval_loop img P outcap (map of_nat [0..<unat (dndocs (dv_header_at img))]) [] 0 =
    Some (map (\<lambda>i. dv_docids img ! i) (dv_selected img P), of_nat (length (dv_selected img P)))"
proof -
  have n: "unat (dndocs (dv_header_at img)) = dv_ndocs img" by (simp add: dv_ndocs_def)
  have len: "length (dv_selected img P) \<le> unat outcap"
    using assms(2) length_filter_le [of _ "[0..<dv_ndocs img]"] unfolding dv_selected_def by (metis diff_zero le_trans length_upt)
  show ?thesis
    unfolding n using eval_loop_spec [OF assms(1), of "[0..<dv_ndocs img]" "[]" 0 outcap P] len ndocs_less [of img]
    by (simp add: Let_def dv_selected_def)
qed

lemma selected_ascending:
  assumes "docvals_ok img"
  shows "sorted_wrt (<) (map (\<lambda>i. dv_docids img ! i) (dv_selected img P))"
proof -
  have "sorted_wrt (<) (dv_docids img)" using assms by (simp add: docvals_ok_kind Let_def)
  moreover have "length (dv_docids img) = dv_ndocs img" by (simp add: dv_docids_def)
  ultimately have "sorted_wrt (\<lambda>i j. dv_docids img ! i < dv_docids img ! j) (filter Q [0..<dv_ndocs img])" for Q
    by (intro sorted_wrt_filter) (auto simp: sorted_wrt_iff_nth_less)
  then show ?thesis by (simp add: dv_selected_def sorted_wrt_map)
qed

subsection \<open>The dictionary\<close>

definition dv_dict :: "u8 list \<Rightarrow> u8 list list" where
  "dv_dict img = map (\<lambda>j. take (unat (dv_offsets img ! Suc j) - unat (dv_offsets img ! j))
     (drop (dv_blob img + unat (dv_offsets img ! j)) img)) [0..<dv_ndict img]"

lemma ok_dict:
  assumes "docvals_ok img" and "dversion (dv_header_at img) = 3"
  shows "dict_ok img" and "weave_docvals_ndict img = Some (of_nat (dv_ndict img))"
proof -
  show d: "dict_ok img" using assms by (simp add: docvals_ok_kind Let_def)
  then show "weave_docvals_ndict img = Some (of_nat (dv_ndict img))"
    using ok_header [OF assms(1)] assms(2)
    by (simp add: weave_docvals_ndict_def rd32_def dict_ok_def dv_dict_off_def dv_ndict_def)
qed

lemma ok_entry:
  assumes ok: "docvals_ok img" "dversion (dv_header_at img) = 3" and j: "unat ord < dv_ndict img"
  shows "weave_docvals_dict_entry img ord = Some (dv_dict img ! unat ord)"
proof -
  note d = ok_dict [OF ok]
  have off: "unat (ddict_off (dv_header_at img)) = dv_dict_off img" by (simp add: dv_dict_off_def)
  have nd: "rd32 img (dv_dict_off img) = Some (r32 img (dv_dict_off img))" "unat (r32 img (dv_dict_off img)) = dv_ndict img"
    using d(1) by (simp_all add: rd32_def dict_ok_def dv_ndict_def)
  have less: "ord < r32 img (dv_dict_off img)" using j by (simp add: word_less_nat_alt nd(2))
  have read: "rd32 img (dv_dict_off img + 4 + k * 4) = Some (dv_offsets img ! k)" if "k \<le> dv_ndict img" for k
  proof -
    have "dv_dict_off img + 4 + k * 4 + 4 \<le> length img" using d(1) that by (simp add: dict_ok_def dv_blob_def)
    moreover have "dv_offsets img ! k = r32 img (dv_dict_off img + 4 + k * 4)"
      unfolding dv_offsets_def using that by (subst nth_map) (simp_all del: upt_Suc)
    ultimately show ?thesis by (simp add: rd32_def)
  qed
  have srt: "sorted (dv_offsets img)" using d(1) by (simp add: dict_ok_def)
  let ?a = "dv_offsets img ! unat ord" and ?b = "dv_offsets img ! Suc (unat ord)"
  have ab: "?a \<le> ?b" using sorted_nth_mono [OF srt, of "unat ord" "Suc (unat ord)"] j by (simp add: dv_offsets_hd_last)
  then have sub: "unat (?b - ?a) = unat ?b - unat ?a" "unat ?a \<le> unat ?b"
    by (simp_all add: unat_sub word_le_nat_alt)
  have "?b \<le> last (dv_offsets img)"
    using sorted_nth_mono [OF srt, of "Suc (unat ord)" "dv_ndict img"] j dv_offsets_hd_last(3) [of img]
    by (metis Suc_leI diff_Suc_1 last_conv_nth length_0_conv lessI nat.distinct(1))
  then have fits: "dv_blob img + unat ?b \<le> length img"
    using d(1) by (auto simp: dict_ok_def word_le_nat_alt)
  have entry: "dv_dict img ! unat ord = take (unat ?b - unat ?a) (drop (dv_blob img + unat ?a) img)"
    using j by (simp add: dv_dict_def)
  show ?thesis
    unfolding weave_docvals_dict_entry_def ok_header(1) [OF ok(1)] Option.bind.simps off nd(1) Let_def
    using read [of "unat ord"] read [of "Suc (unat ord)"] less j ok(2) sub fits entry
    by (simp add: nd(2) dv_blob_def)
qed

abbreviation cut_at :: "'a list \<Rightarrow> ('a \<Rightarrow> bool) \<Rightarrow> nat \<Rightarrow> bool" where
  \<comment> \<open>the entries that pass are the first \<open>r\<close>\<close>
  "cut_at D below r \<equiv> r \<le> length D \<and> (\<forall>i<length D. below (D ! i) \<longleftrightarrow> i < r)"

lemma dict_search_spec:
  "docvals_ok img \<Longrightarrow> dversion (dv_header_at img) = 3 \<Longrightarrow>
   (\<forall>j<dv_ndict img. \<forall>i<j. below (dv_dict img ! j) \<longrightarrow> below (dv_dict img ! i)) \<Longrightarrow>
   lo \<le> hi \<Longrightarrow> unat hi \<le> dv_ndict img \<Longrightarrow> (\<forall>i<unat lo. below (dv_dict img ! i)) \<Longrightarrow>
   (\<forall>i<dv_ndict img. unat hi \<le> i \<longrightarrow> \<not> below (dv_dict img ! i)) \<Longrightarrow>
   \<exists>r. dict_search img below lo hi = Some r \<and> cut_at (dv_dict img) below (unat r)"
proof (induction img below lo hi rule: dict_search.induct)
  case (1 img below lo hi)
  let ?mid = "lo + (hi - lo) div 2"
  have len: "length (dv_dict img) = dv_ndict img" by (simp add: dv_dict_def)
  show ?case
  proof (cases "lo < hi")
    case False
    then have "lo = hi" using 1(6) by simp
    then have "dict_search img below lo hi = Some lo" by (subst dict_search.simps) simp
    then show ?thesis using 1(7-9) \<open>lo = hi\<close> len by (auto simp: not_less)
  next
    case True
    note mid = dict_mid_between [OF True] mid_step [OF True] mid_less [OF True]
    have lt: "unat ?mid < dv_ndict img" using mid(2) 1(7) by (simp add: word_less_nat_alt)
    have e: "weave_docvals_dict_entry img ?mid = Some (dv_dict img ! unat ?mid)"
      by (rule ok_entry [OF 1(3,4) lt])
    show ?thesis
    proof (cases "below (dv_dict img ! unat ?mid)")
      case b: True
      have "\<forall>i<unat (?mid + 1). below (dv_dict img ! i)"
        using 1(5) lt b mid(3,4) by (auto simp: less_Suc_eq)
      moreover have "?mid + 1 \<le> hi" using mid(2) by (rule inc_le)
      ultimately have "\<exists>r. dict_search img below (?mid + 1) hi = Some r \<and> cut_at (dv_dict img) below (unat r)"
        using 1(1) [OF True refl e b 1(3,4,5) _ 1(7) _ 1(9)] by blast
      then show ?thesis using True e b by (subst dict_search.simps) (simp add: Let_def)
    next
      case nb: False
      have "\<forall>i<dv_ndict img. unat ?mid \<le> i \<longrightarrow> \<not> below (dv_dict img ! i)"
        using 1(5) nb by (metis le_neq_implies_less)
      then have "\<exists>r. dict_search img below lo ?mid = Some r \<and> cut_at (dv_dict img) below (unat r)"
        using 1(2) [OF True refl e nb 1(3,4,5) mid(1) _ 1(8)] lt by simp
      then show ?thesis using True e nb by (subst dict_search.simps) (simp add: Let_def)
    qed
  qed
qed

lemma dict_bound:
  assumes ok: "docvals_ok img" "dversion (dv_header_at img) = 3"
    and mono: "\<forall>j<dv_ndict img. \<forall>i<j. below (dv_dict img ! j) \<longrightarrow> below (dv_dict img ! i)"
  shows "\<exists>r. Option.bind (weave_docvals_ndict img) (dict_search img below 0) = Some r \<and> cut_at (dv_dict img) below (unat r)"
proof -
  have "dv_ndict img < 2 ^ 32" unfolding dv_ndict_def by (rule unat_u32)
  then have u: "unat (of_nat (dv_ndict img) :: u32) = dv_ndict img" by (simp add: unat_of_nat)
  show ?thesis
    unfolding ok_dict(2) [OF ok] Option.bind.simps
    by (rule dict_search_spec [OF ok mono]) (use u in auto)
qed

lemma text_gate:
  fixes key_of :: "u8 list \<Rightarrow> 'k::linorder"
  assumes ok: "docvals_ok img" "dversion (dv_header_at img) = 3"
    and cmp: "\<And>a b. cmp a b < 0 \<longleftrightarrow> key_of a < key_of b" "\<And>a b. cmp a b = 0 \<longleftrightarrow> key_of a = key_of b"
    and asc: "sorted_wrt (<) (map key_of (dv_dict img))"
    and cap: "dv_ndocs img \<le> unat outcap"
  shows "\<exists>lo hi. weave_dv_dict_lower_bound cmp img k = Some lo \<and> weave_dv_dict_upper_bound cmp img k = Some hi \<and>
    weave_dv_eval_ord img op lo hi outcap =
      (let is = filter (\<lambda>i. \<not> dv_null img i \<and>
             int8_matches op (key_of k) (key_of (dv_dict img ! unat (dv_values img ! i)))) [0..<dv_ndocs img]
       in Some (map (\<lambda>i. dv_docids img ! i) is, of_nat (length is)))"
proof -
  let ?D = "dv_dict img"
  have len: "length ?D = dv_ndict img" by (simp add: dv_dict_def)
  have less: "key_of (?D ! i) < key_of (?D ! j)" if "i < j" "j < dv_ndict img" for i j
    using sorted_wrt_nth_less [OF asc, of i j] that len by simp
  have le0: "cmp a b \<le> 0 \<longleftrightarrow> key_of a \<le> key_of b" for a b
    using cmp [of a b] by (auto simp: order_le_less)
  obtain lo where lo: "weave_dv_dict_lower_bound cmp img k = Some lo" "cut_at ?D (\<lambda>e. key_of e < key_of k) (unat lo)"
    using dict_bound [OF ok, of "\<lambda>e. cmp e k < 0"] less unfolding weave_dv_dict_lower_bound_def cmp(1)
    by (blast intro: less_trans)
  obtain hi where hi: "weave_dv_dict_upper_bound cmp img k = Some hi" "cut_at ?D (\<lambda>e. key_of e \<le> key_of k) (unat hi)"
    using dict_bound [OF ok, of "\<lambda>e. cmp e k \<le> 0"] less unfolding weave_dv_dict_upper_bound_def le0
    by (blast intro: less_le_trans less_imp_le)
  have sel: "dv_selected img (ord_matches op (uint lo) (uint hi)) =
      filter (\<lambda>i. \<not> dv_null img i \<and> int8_matches op (key_of k) (key_of (?D ! unat (dv_values img ! i)))) [0..<dv_ndocs img]"
    unfolding dv_selected_def
  proof (rule filter_cong [OF refl])
    fix i assume "i \<in> set [0..<dv_ndocs img]"
    then have i: "i < dv_ndocs img" by simp
    show "(\<not> dv_null img i \<and> ord_matches op (uint lo) (uint hi) (sint (dv_values img ! i))) \<longleftrightarrow>
        (\<not> dv_null img i \<and> int8_matches op (key_of k) (key_of (?D ! unat (dv_values img ! i))))"
    proof (cases "dv_null img i")
      case False
      let ?o = "unat (dv_values img ! i)"
      have v: "0 \<le> sint (dv_values img ! i)" "sint (dv_values img ! i) < int (dv_ndict img)"
        using ok i False by (auto simp: docvals_ok_kind Let_def)
      have so: "sint (dv_values img ! i) = int ?o" using sint_nonneg [OF v(1)] by simp
      then have o: "?o < length ?D" using v(2) unfolding len by (simp only: of_nat_less_iff)
      have "int ?o < uint lo \<longleftrightarrow> key_of (?D ! ?o) < key_of k"
        using lo(2) o by (metis of_nat_less_iff of_nat_unat)
      moreover have "int ?o < uint hi \<longleftrightarrow> key_of (?D ! ?o) \<le> key_of k"
        using hi(2) o by (metis of_nat_less_iff of_nat_unat)
      ultimately show ?thesis unfolding so by (cases op) auto
    qed simp
  qed
  show ?thesis
    using lo(1) hi(1) eval_all [OF ok(1) cap, of "ord_matches op (uint lo) (uint hi)"] ok ok_header [OF ok(1)]
    by (simp add: weave_dv_eval_ord_def sel Let_def)
qed

definition demo_store :: "u8 list" where
  \<comment> \<open>two documents, 5 and 9, with the values \<open>bc\<close> and \<open>a\<close>\<close>
  "demo_store =
     [0x31, 0x56, 0x44, 0x57, 3, 0, 2, 0, 2, 0, 0, 0, 0, 0, 0, 0, 0, 0, 0, 0, 32, 0, 0, 0, 48, 0, 0, 0, 64, 0, 0, 0] @
     [1, 0, 0, 0, 0, 0, 0, 0] @ [0, 0, 0, 0, 0, 0, 0, 0] @ [5, 0, 0, 0, 0, 0, 0, 0] @ [9, 0, 0, 0, 0, 0, 0, 0] @
     [2, 0, 0, 0, 0, 0, 0, 0, 1, 0, 0, 0, 3, 0, 0, 0, 97, 98, 99]"

lemma demo_header: "length demo_store = 83" "dv_header_at demo_store = \<lparr>dmagic = 0x57445631, dversion = 3, dkind = 2, dndocs = 2,
    dnull_off = 0, dzonemap_off = 0, dvalues_off = 32, ddocids_off = 48, ddict_off = 64\<rparr>"
  by (simp_all add: dv_header_at_def demo_store_def)

lemma demo_ok: "docvals_ok demo_store" "dv_ndocs demo_store = 2"
proof -
  have 1: "dv_ndocs demo_store = 2" "dv_dict_off demo_store = 64"
    by (simp_all add: dv_ndocs_def dv_dict_off_def demo_header)
  have 2: "dv_ndict demo_store = 2" unfolding dv_ndict_def 1 by (simp add: demo_store_def)
  have 3: "dv_docids demo_store = [5, 9]" "dv_values demo_store = [1, 0]"
    by (simp_all add: dv_docids_def dv_values_def 1 demo_header upt_rec) (simp_all add: demo_store_def)
  have 4: "dv_offsets demo_store = [0, 1, 3]"
    by (simp add: dv_offsets_def 1 2 upt_rec) (simp add: demo_store_def)
  have 5: "dv_region_end demo_store = 64" "dv_blob demo_store = 80"
    by (simp_all add: dv_region_end_def demo_header 1 2 dv_blob_def)
  have kind: "check_kind (dv_header_at demo_store) = None"
    by (simp add: check_kind_def demo_header WEAVE_DOCVALS_MAGIC_def DV_KIND_TEXT_def WEAVE_DV_MAXALIGN_def)
  have "dict_ok demo_store" by (simp add: dict_ok_def 1 4 5 MAXALIGN_def demo_header)
  then show "docvals_ok demo_store" "dv_ndocs demo_store = 2"
    using kind by (simp_all add: docvals_ok_kind Let_def 1 2 3 demo_header less_2_cases_iff)
qed


lemma demo_dict: "dv_dict demo_store = [[97], [98, 99]]" "dversion (dv_header_at demo_store) = 3"
proof -
  have 1: "dv_dict_off demo_store = 64" by (simp add: dv_dict_off_def demo_header)
  have 2: "dv_ndict demo_store = 2" unfolding dv_ndict_def 1 by (simp add: demo_store_def)
  have 4: "dv_offsets demo_store = [0, 1, 3]"
    by (simp add: dv_offsets_def 1 2 upt_rec) (simp add: demo_store_def)
  have 5: "dv_blob demo_store = 80" by (simp add: dv_blob_def 1 2)
  show "dv_dict demo_store = [[97], [98, 99]]"
    by (simp add: dv_dict_def 2 4 5 upt_rec) (simp add: demo_store_def)
qed (simp add: demo_header)

subsection \<open>Properties\<close>

text \<open>
  C25: the validator of a facet store reads nothing outside the image, whatever its bytes, and accepts exactly
  the images \<open>docvals_ok\<close> describes: the magic number, a known version with the kind that goes with it, no zone map,
  the one legal offset of every region, each region inside the image, strictly ascending docids, non-decreasing dictionary offsets, and every non-null ordinal below the number
  of dictionary entries. No 64-bit sum wraps.
\<close>

theorem docvals_validate_exact:
  assumes "length img < 2 ^ 64"
  shows "\<exists>r. weave_docvals_validate img = Some r \<and> (r = None \<longleftrightarrow> docvals_ok img)"
  by (rule validate_spec [OF assms])

theorem docvals_validate_exact_witness: "weave_docvals_validate demo_store = Some None"
  using docvals_validate_exact [of demo_store] demo_ok(1) demo_header(1) by auto


definition demo_numbers :: "u8 list" where
  \<comment> \<open>two documents, 5 and 9, with the values 7 and null\<close>
  "demo_numbers =
     [0x31, 0x56, 0x44, 0x57, 2, 0, 1, 0, 2, 0, 0, 0, 64, 0, 0, 0, 0, 0, 0, 0, 32, 0, 0, 0, 48, 0, 0, 0, 0, 0, 0, 0] @
     [7, 0, 0, 0, 0, 0, 0, 0] @ [0, 0, 0, 0, 0, 0, 0, 0] @ [5, 0, 0, 0, 0, 0, 0, 0] @ [9, 0, 0, 0, 0, 0, 0, 0] @ [2]"


text \<open>
  C27: over an accepted text store whose dictionary ascends strictly under the collation, resolving a constant
  to its two ordinal bounds and evaluating on ordinals returns exactly the documents whose string compares to
  the constant as asked, for all five operators and whether or not the constant is in the dictionary. The
  collation's comparator is any function that orders strings as their keys.
\<close>

theorem docvals_text_gate_exact:
  fixes key_of :: "u8 list \<Rightarrow> 'k::linorder"
  assumes "weave_docvals_validate img = Some None" and "length img < 2 ^ 64"
    and "dversion (dv_header_at img) = 3" and "dv_ndocs img \<le> unat outcap"
    and "\<And>a b. cmp a b < 0 \<longleftrightarrow> key_of a < key_of b" and "\<And>a b. cmp a b = 0 \<longleftrightarrow> key_of a = key_of b"
    and "sorted_wrt (<) (map key_of (dv_dict img))"
  shows "\<exists>lo hi. weave_dv_dict_lower_bound cmp img k = Some lo \<and> weave_dv_dict_upper_bound cmp img k = Some hi \<and>
    weave_dv_eval_ord img op lo hi outcap =
      (let is = filter (\<lambda>i. \<not> dv_null img i \<and>
             int8_matches op (key_of k) (key_of (dv_dict img ! unat (dv_values img ! i)))) [0..<dv_ndocs img]
       in Some (map (\<lambda>i. dv_docids img ! i) is, of_nat (length is)))"
proof -
  have "docvals_ok img" using validate_spec [OF assms(2)] assms(1) by auto
  then show ?thesis by (rule text_gate [OF _ assms(3,5-7,4)])
qed

abbreviation (input) byte_cmp :: "u8 list \<Rightarrow> u8 list \<Rightarrow> int" where
  "byte_cmp a b \<equiv> (if a < b then - 1 else if a = b then 0 else 1)"

theorem docvals_text_gate_exact_witness:
  "\<exists>lo hi. weave_dv_dict_lower_bound byte_cmp demo_store [98] = Some lo \<and>
     weave_dv_dict_upper_bound byte_cmp demo_store [98] = Some hi \<and>
     weave_dv_eval_ord demo_store DV_GT lo hi 2 = Some ([5], 1)"
proof -
  have valid: "weave_docvals_validate demo_store = Some None"
    using validate_spec [of demo_store] demo_ok(1) demo_header(1) by auto
  have "dv_null demo_store i = False" for i by (simp add: dv_null_def demo_header)
  moreover have "dv_docids demo_store = [5, 9]" "dv_values demo_store = [1, 0]"
    by (simp_all add: dv_docids_def dv_values_def demo_ok demo_header upt_rec) (simp_all add: demo_store_def)
  ultimately show ?thesis
    using docvals_text_gate_exact [OF valid _ demo_dict(2), of 2 byte_cmp "\<lambda>a. a" "[98]" DV_GT]
    by (auto simp: demo_header demo_ok demo_dict upt_rec split: if_splits)
qed


end
