(* ===== verification/Weave_Docvals_Key.thy ===== *)
theory Weave_Docvals_Key
  imports Weave_Prelude
begin

text \<open>
  The order-preserving integer key of a double, \<open>weave_dv_encode_f8\<close> of \<open>include/weave/docvals.h\<close>, over the 64
  bits of the double. \<open>f8_value\<close> is what the bits denote.
\<close>

subsection \<open>The float8 key\<close>

definition f8_isnan :: "u64 \<Rightarrow> bool" where
  \<comment> \<open>\<open>d != d\<close>, over the bits of \<open>d\<close>\<close>
  "f8_isnan b \<longleftrightarrow> 0x7FF0000000000000 < b AND mask 63"

definition f8_iszero :: "u64 \<Rightarrow> bool" where
  "f8_iszero b \<longleftrightarrow> b AND mask 63 = 0"

definition weave_dv_encode_f8 :: "u64 \<Rightarrow> u64" where
  \<comment> \<open>over the bits of the double; the result is read as a signed integer\<close>
  "weave_dv_encode_f8 d =
     (if f8_isnan d then 0x7FFFFFFFFFFFFFFF
      else
        let bits = (if f8_iszero d then 0 else d);
            bits = (if drop_bit 63 bits \<noteq> 0 then NOT bits else bits OR push_bit 63 1)
        in bits XOR push_bit 63 1)"

subsection \<open>The float8 order\<close>

definition f8_mag :: "u64 \<Rightarrow> nat" where
  "f8_mag b = unat (b AND mask 63)"

definition mag_value :: "nat \<Rightarrow> nat" where
  \<comment> \<open>the magnitude in units of \<open>2 ^ - 1074\<close>; infinity is the next value after the largest finite one\<close>
  "mag_value m =
     (let e = m div 2 ^ 52; f = m mod 2 ^ 52
      in if e = 0 then f else (2 ^ 52 + f) * 2 ^ (e - 1))"

definition f8_value :: "u64 \<Rightarrow> int" where
  "f8_value b = (if bit b 63 then - int (mag_value (f8_mag b)) else int (mag_value (f8_mag b)))"

lemma mag_value_Suc: "mag_value m < mag_value (Suc m)"
proof (cases "Suc (m mod 2 ^ 52) = 2 ^ 52")
  case True
  then have "Suc m div 2 ^ 52 = Suc (m div 2 ^ 52)" "Suc m mod 2 ^ 52 = 0"
    by (simp_all add: div_Suc mod_Suc)
  moreover have f: "m mod 2 ^ 52 = 2 ^ 52 - 1" using True by simp
  ultimately show ?thesis
    by (cases "m div 2 ^ 52") (simp_all add: mag_value_def Let_def)
next
  case False
  then have "Suc m div 2 ^ 52 = m div 2 ^ 52" "Suc m mod 2 ^ 52 = Suc (m mod 2 ^ 52)"
    by (simp_all add: div_Suc mod_Suc)
  then show ?thesis by (simp add: mag_value_def Let_def)
qed

lemma mag_value_less: "mag_value a < mag_value b \<longleftrightarrow> a < b"
proof -
  have "strict_mono mag_value" using mag_value_Suc by (simp add: strict_mono_Suc_iff)
  then show ?thesis by (rule strict_mono_less)
qed

lemma mag_value_0: "mag_value m = 0 \<longleftrightarrow> m = 0"
proof -
  have "mag_value 0 = 0" by (simp add: mag_value_def)
  then show ?thesis using mag_value_less [of 0 m] by auto
qed

lemma f8_mag_less: "f8_mag b < 2 ^ 63"
proof -
  have "b AND mask 63 = take_bit 63 b" by (simp add: take_bit_eq_mask)
  then have "f8_mag b = take_bit 63 (unat b)" by (simp add: f8_mag_def unsigned_take_bit_eq)
  then show ?thesis using take_bit_nat_less_exp [of 63 "unat b"] by simp
qed

lemma encode_f8_key:
  assumes "\<not> f8_isnan b"
  shows "sint (weave_dv_encode_f8 b) =
    (if bit b 63 \<and> f8_mag b \<noteq> 0 then - int (f8_mag b) - 1 else int (f8_mag b))"
proof -
  let ?m = "b AND mask 63"
  have low: "uint ?m = int (f8_mag b)" by (simp add: f8_mag_def)
  have "uint ?m < 2 ^ 63" using f8_mag_less [of b] low by simp
  then have sm: "sint ?m = int (f8_mag b)"
    using low by (simp add: sint_uint signed_take_bit_int_eq_self)
  have zero: "f8_iszero b \<longleftrightarrow> f8_mag b = 0" by (simp add: f8_iszero_def f8_mag_def unat_eq_0)
  have neg: "drop_bit 63 b \<noteq> 0 \<longleftrightarrow> bit b 63"
  proof
    assume "drop_bit 63 b \<noteq> 0"
    then obtain n where "bit (drop_bit 63 b) n" by (auto simp: bit_eq_iff)
    then have n: "bit b (63 + n)" by (simp add: bit_drop_bit_eq)
    then have "63 + n < 64" using bit_imp_le_length by force
    then show "bit b 63" using n by simp
  next
    assume "bit b 63"
    then have "bit (drop_bit 63 b) 0" by (simp add: bit_drop_bit_eq)
    then show "drop_bit 63 b \<noteq> 0" by auto
  qed
  have top: "bit (9223372036854775808 :: u64) n \<longleftrightarrow> n = 63" for n
    using bit_exp_iff [where 'a = "64 word", of 63 n] by auto
  have topi: "bit (9223372036854775808 :: int) n \<longleftrightarrow> n = 63" for n
    using bit_exp_iff [where 'a = int, of 63 n] by auto
  have "weave_dv_encode_f8 b = (if bit b 63 \<and> f8_mag b \<noteq> 0 then NOT ?m else ?m)"
  proof (cases "f8_mag b = 0")
    case True
    then have "?m = 0" by (simp add: f8_mag_def unat_eq_0)
    then show ?thesis using assms True by (simp add: weave_dv_encode_f8_def zero)
  next
    case nz: False
    show ?thesis
    proof (cases "bit b 63")
      case True
      have "NOT b XOR push_bit 63 1 = NOT ?m"
      proof (rule bit_eqI)
        fix n assume "possible_bit TYPE(64 word) n"
        then have "n = 63 \<or> n < 63" by auto
        then show "bit (NOT b XOR push_bit 63 1) n = bit (NOT ?m) n"
          using True by (auto simp: bit_simps top topi)
      qed
      then show ?thesis using assms nz True by (simp add: weave_dv_encode_f8_def zero neg)
    next
      case False
      have "(b OR push_bit 63 1) XOR push_bit 63 1 = ?m"
      proof (rule bit_eqI)
        fix n assume "possible_bit TYPE(64 word) n"
        then have "n = 63 \<or> n < 63" by auto
        then show "bit ((b OR push_bit 63 1) XOR push_bit 63 1) n = bit ?m n"
          using False by (auto simp: bit_simps top topi)
      qed
      then show ?thesis using assms nz False by (simp add: weave_dv_encode_f8_def zero neg)
    qed
  qed
  moreover have "sint (NOT ?m) = - sint ?m - 1"
  proof -
    have "sint (NOT ?m) = signed_take_bit 64 (NOT (int (f8_mag b)))"
      using signed_not_eq [where 'a = int, of ?m] unfolding sm by simp
    also have "\<dots> = NOT (int (f8_mag b))"
      using f8_mag_less [of b] by (intro signed_take_bit_int_eq_self) (simp_all add: not_int_def)
    finally show ?thesis unfolding sm by (simp add: not_int_def)
  qed
  ultimately show ?thesis using sm by simp
qed

lemma encode_f8_order:
  assumes "\<not> f8_isnan a" and "\<not> f8_isnan b"
  shows "sint (weave_dv_encode_f8 a) < sint (weave_dv_encode_f8 b) \<longleftrightarrow> f8_value a < f8_value b"
  using mag_value_less [of "f8_mag a" "f8_mag b"] mag_value_less [of "f8_mag b" "f8_mag a"]
    mag_value_0 [of "f8_mag a"] mag_value_0 [of "f8_mag b"]
  unfolding encode_f8_key [OF assms(1)] encode_f8_key [OF assms(2)] f8_value_def by auto

lemma encode_f8_nan:
  assumes "\<not> f8_isnan a" and "f8_isnan b"
  shows "sint (weave_dv_encode_f8 a) < sint (weave_dv_encode_f8 b)"
proof -
  have "f8_mag a \<le> 0x7FF0000000000000"
    using assms(1) by (simp add: f8_isnan_def f8_mag_def word_less_nat_alt not_less)
  then have "sint (weave_dv_encode_f8 a) \<le> 0x7FF0000000000000"
    unfolding encode_f8_key [OF assms(1)] by auto
  then show ?thesis using assms(2) by (simp add: weave_dv_encode_f8_def)
qed

text \<open>
  C28: the 64-bit key of a double sorts under signed comparison exactly as PostgreSQL orders \<open>float8\<close>: numbers
  and infinities by value, with the two zeros equal, and every NaN equal to every other and above all.
\<close>

theorem float8_key_order:
  "sint (weave_dv_encode_f8 a) < sint (weave_dv_encode_f8 b) \<longleftrightarrow>
    \<not> f8_isnan a \<and> (f8_isnan b \<or> f8_value a < f8_value b)"
proof (cases "f8_isnan a")
  case True
  have "sint (weave_dv_encode_f8 b) < 2 ^ 63" using sint_less [of "weave_dv_encode_f8 b"] by simp
  then show ?thesis using True by (simp add: weave_dv_encode_f8_def)
next
  case False
  then show ?thesis using encode_f8_order [of a b] encode_f8_nan [of a b] by blast
qed

end
