(* ===== verification/Weave_Chandesc.thy ===== *)
theory Weave_Chandesc
  imports Weave_Bytes "HOL-Library.Monad_Syntax"
begin

text \<open>
  The channel-descriptor page of \<open>include/weave/chandesc.h\<close>: its validator over the page's bytes. A read
  outside the buffer is \<open>None\<close>.
\<close>

subsection \<open>Descriptors\<close>

record cd_desc =
  cdkind :: u16
  cdattnum :: u16
  cdflags :: u32
  cdroot :: u32

record cd_page =
  cdmagic :: u32
  cdversion :: u16
  cdnweft :: u16
  cdreserved :: u32

definition WEAVE_CHANDESC_MAGIC :: u32 where "WEAVE_CHANDESC_MAGIC = 0x57434431"
definition WEAVE_CHANDESC_VERSION :: u16 where "WEAVE_CHANDESC_VERSION = 1"
definition WEAVE_MAX_WEFTS :: u16 where "WEAVE_MAX_WEFTS = 32"
definition WEAVE_WK_NKINDS :: u16 where "WEAVE_WK_NKINDS = 7"
definition WEAVE_WEFT_F_ALL :: u32 where "WEAVE_WEFT_F_ALL = 0"
definition WEAVE_CD_SIZE :: "u16 \<Rightarrow> nat" where "WEAVE_CD_SIZE n = 12 + unat n * 12"

datatype cd_error =
    CD_TRUNCATED | CD_MAGIC | CD_VERSION | CD_RESERVED | CD_NWEFT | CD_ARRAY | CD_KIND | CD_ORDER | CD_FLAGS
  | CD_ROOT | CD_OVERLAP

definition read_page :: "u8 list \<Rightarrow> cd_page option" where
  "read_page buf = do {
     magic \<leftarrow> rd32 buf 0;
     version \<leftarrow> rd16 buf 4;
     nweft \<leftarrow> rd16 buf 6;
     reserved \<leftarrow> rd32 buf 8;
     Some \<lparr>cdmagic = magic, cdversion = version, cdnweft = nweft, cdreserved = reserved\<rparr>
   }"

definition read_desc :: "u8 list \<Rightarrow> nat \<Rightarrow> cd_desc option" where
  "read_desc buf i = do {
     kind \<leftarrow> rd16 buf (12 + 12 * i);
     attnum \<leftarrow> rd16 buf (12 + 12 * i + 2);
     flags \<leftarrow> rd32 buf (12 + 12 * i + 4);
     root \<leftarrow> rd32 buf (12 + 12 * i + 8);
     Some \<lparr>cdkind = kind, cdattnum = attnum, cdflags = flags, cdroot = root\<rparr>
   }"

definition desc_key :: "cd_desc \<Rightarrow> u32" where
  "desc_key d = push_bit 16 (ucast (cdkind d)) OR ucast (cdattnum d)"

fun root_taken :: "u8 list \<Rightarrow> u32 \<Rightarrow> nat list \<Rightarrow> bool option" where
  "root_taken buf root [] = Some False"
| "root_taken buf root (j # js) = do {
     d \<leftarrow> read_desc buf j;
     if cdroot d = root then Some True else root_taken buf root js
   }"

definition bad_desc :: "u32 \<Rightarrow> cd_desc \<Rightarrow> cd_error option" where
  "bad_desc nblocks d =
     (if cdkind d = 0 \<or> WEAVE_WK_NKINDS \<le> cdkind d then Some CD_KIND
      else if cdflags d AND NOT WEAVE_WEFT_F_ALL \<noteq> 0 then Some CD_FLAGS
      else if cdroot d = 0xFFFFFFFF \<or> cdroot d = 0 then Some CD_ROOT
      else if nblocks \<noteq> 0 \<and> nblocks \<le> cdroot d then Some CD_ROOT else None)"

fun check_wefts :: "u8 list \<Rightarrow> u32 \<Rightarrow> nat list \<Rightarrow> u32 option \<Rightarrow> cd_error option option" where
  \<comment> \<open>the previous key, none before the first descriptor\<close>
  "check_wefts buf nblocks [] prevkey = Some None"
| "check_wefts buf nblocks (i # is) prevkey = do {
     d \<leftarrow> read_desc buf i;
     case bad_desc nblocks d of Some e \<Rightarrow> Some (Some e)
     | None \<Rightarrow>
         if (case prevkey of None \<Rightarrow> False | Some p \<Rightarrow> desc_key d \<le> p) then Some (Some CD_ORDER)
         else do {
           taken \<leftarrow> root_taken buf (cdroot d) [0..<i];
           if taken then Some (Some CD_OVERLAP) else check_wefts buf nblocks is (Some (desc_key d))
         }
   }"

definition weave_chandesc_check :: "u8 list \<Rightarrow> u32 \<Rightarrow> (cd_error + u16) option" where
  \<comment> \<open>the number of wefts when the page is sound\<close>
  "weave_chandesc_check buf nblocks =
     (if length buf < 12 then Some (Inl CD_TRUNCATED)
      else do {
        hdr \<leftarrow> read_page buf;
        if cdmagic hdr \<noteq> WEAVE_CHANDESC_MAGIC then Some (Inl CD_MAGIC)
        else if cdversion hdr \<noteq> WEAVE_CHANDESC_VERSION then Some (Inl CD_VERSION)
        else if cdreserved hdr \<noteq> 0 then Some (Inl CD_RESERVED)
        else if cdnweft hdr = 0 \<or> WEAVE_MAX_WEFTS < cdnweft hdr then Some (Inl CD_NWEFT)
        else if length buf < WEAVE_CD_SIZE (cdnweft hdr) then Some (Inl CD_ARRAY)
        else do {
          r \<leftarrow> check_wefts buf nblocks [0..<unat (cdnweft hdr)] None;
          Some (case r of Some e \<Rightarrow> Inl e | None \<Rightarrow> Inr (cdnweft hdr))
        }
      })"

subsection \<open>What it accepts\<close>

definition page_at :: "u8 list \<Rightarrow> cd_page" where
  "page_at buf = \<lparr>cdmagic = r32 buf 0, cdversion = r16 buf 4, cdnweft = r16 buf 6, cdreserved = r32 buf 8\<rparr>"

definition desc_at :: "u8 list \<Rightarrow> nat \<Rightarrow> cd_desc" where
  "desc_at buf i = \<lparr>cdkind = r16 buf (12 + 12 * i), cdattnum = r16 buf (12 + 12 * i + 2),
     cdflags = r32 buf (12 + 12 * i + 4), cdroot = r32 buf (12 + 12 * i + 8)\<rparr>"

definition descs :: "u8 list \<Rightarrow> cd_desc list" where
  "descs buf = map (desc_at buf) [0..<unat (cdnweft (page_at buf))]"

definition desc_ok :: "u32 \<Rightarrow> cd_desc \<Rightarrow> bool" where
  "desc_ok nblocks d \<longleftrightarrow> cdkind d \<in> {1..6} \<and> cdflags d = 0 \<and> cdroot d \<noteq> 0 \<and> cdroot d \<noteq> - 1 \<and>
     (nblocks \<noteq> 0 \<longrightarrow> cdroot d < nblocks)"

definition chandesc_ok :: "u8 list \<Rightarrow> u32 \<Rightarrow> bool" where
  "chandesc_ok buf nblocks \<longleftrightarrow>
     12 \<le> length buf \<and> cdmagic (page_at buf) = WEAVE_CHANDESC_MAGIC \<and> cdversion (page_at buf) = 1 \<and>
     cdreserved (page_at buf) = 0 \<and> length (descs buf) \<in> {1..32} \<and> 12 + 12 * length (descs buf) \<le> length buf \<and>
     list_all (desc_ok nblocks) (descs buf) \<and>
     sorted_wrt (\<lambda>d e. cdkind d < cdkind e \<or> cdkind d = cdkind e \<and> cdattnum d < cdattnum e) (descs buf) \<and>
     distinct (map cdroot (descs buf))"

lemma bad_desc_None: "bad_desc nblocks d = None \<longleftrightarrow> desc_ok nblocks d"
proof -
  have "cdkind d = 0 \<or> WEAVE_WK_NKINDS \<le> cdkind d \<longleftrightarrow> cdkind d \<notin> {1..6}"
    by (auto simp: WEAVE_WK_NKINDS_def word_le_nat_alt unat_eq_0 [symmetric])
  then show ?thesis by (auto simp: bad_desc_def desc_ok_def WEAVE_WEFT_F_ALL_def)
qed

lemma desc_key_value: "unat (desc_key d) = unat (cdkind d) * 2 ^ 16 + unat (cdattnum d)"
proof -
  have "\<not> bit (push_bit 16 (ucast (cdkind d)) :: u32) n \<or> \<not> bit (ucast (cdattnum d) :: u32) n" for n
    using bit_imp_le_length [of "cdattnum d" n] by (auto simp: bit_simps)
  then have "desc_key d = push_bit 16 (ucast (cdkind d)) + ucast (cdattnum d)"
    by (simp add: desc_key_def disjunctive_add)
  moreover have k: "unat (cdkind d) < 65536" "unat (cdattnum d) < 65536"
    using unsigned_less [of "cdkind d", where ?'a = nat] unsigned_less [of "cdattnum d", where ?'a = nat] by simp_all
  moreover have "unat (push_bit 16 (ucast (cdkind d)) :: u32) = unat (cdkind d) * 65536"
    using k by (simp add: push_bit_eq_mult unat_word_ariths unsigned_ucast_eq take_bit_nat_eq_self)
  moreover have "unat (ucast (cdattnum d) :: u32) = unat (cdattnum d)"
    using k by (simp add: unsigned_ucast_eq take_bit_nat_eq_self)
  ultimately show ?thesis by (simp add: unat_word_ariths)
qed

lemma desc_key_less:
  "desc_key d < desc_key e \<longleftrightarrow> cdkind d < cdkind e \<or> cdkind d = cdkind e \<and> cdattnum d < cdattnum e"
proof -
  have "unat (cdattnum d) < 2 ^ 16" "unat (cdattnum e) < 2 ^ 16"
    using unsigned_less [of "cdattnum d", where ?'a = nat] unsigned_less [of "cdattnum e", where ?'a = nat] by simp_all
  then show ?thesis
    by (cases "unat (cdkind d)" "unat (cdkind e)" rule: linorder_cases)
      (auto simp: word_less_nat_alt desc_key_value word_unat_eq_iff)
qed

lemma desc_read: "12 + 12 * Suc i \<le> length buf \<Longrightarrow> read_desc buf i = Some (desc_at buf i)"
  by (simp add: read_desc_def desc_at_def rd16_def rd32_def)

lemma page_read: "12 \<le> length buf \<Longrightarrow> read_page buf = Some (page_at buf)"
  by (simp add: read_page_def page_at_def rd16_def rd32_def)

lemma root_taken_spec:
  "\<forall>j\<in>set js. 12 + 12 * Suc j \<le> length buf \<Longrightarrow>
   root_taken buf root js = Some (root \<in> cdroot ` desc_at buf ` set js)"
  by (induction js) (auto simp: desc_read)

lemma check_wefts_spec:
  "k \<le> n \<Longrightarrow> 12 + 12 * n \<le> length buf \<Longrightarrow> (0 < k \<Longrightarrow> prev = Some (desc_key (desc_at buf (k - 1)))) \<Longrightarrow>
   (k = 0 \<Longrightarrow> prev = None) \<Longrightarrow>
   \<exists>r. check_wefts buf nblocks [k..<n] prev = Some r \<and>
     (r = None \<longleftrightarrow> (\<forall>i\<in>{k..<n}. desc_ok nblocks (desc_at buf i) \<and>
        (0 < i \<longrightarrow> desc_key (desc_at buf (i - 1)) < desc_key (desc_at buf i)) \<and>
        cdroot (desc_at buf i) \<notin> cdroot ` desc_at buf ` {0..<i}))"
proof (induction "n - k" arbitrary: k prev)
  case (Suc m)
  then have k: "k < n" and m: "m = n - Suc k" by simp_all
  let ?d = "desc_at buf k"
  have up: "[k..<n] = k # [Suc k..<n]" using k by (rule upt_conv_Cons)
  have split: "(\<forall>i\<in>{k..<n}. P i) \<longleftrightarrow> P k \<and> (\<forall>i\<in>{Suc k..<n}. P i)" for P
    using k by (metis atLeastLessThan_iff Suc_le_eq le_neq_implies_less less_imp_le order_refl)
  obtain r where r: "check_wefts buf nblocks [Suc k..<n] (Some (desc_key ?d)) = Some r"
    "r = None \<longleftrightarrow> (\<forall>i\<in>{Suc k..<n}. desc_ok nblocks (desc_at buf i) \<and>
        (0 < i \<longrightarrow> desc_key (desc_at buf (i - 1)) < desc_key (desc_at buf i)) \<and>
        cdroot (desc_at buf i) \<notin> cdroot ` desc_at buf ` {0..<i})"
    using Suc.hyps(1) [OF m, of "Some (desc_key ?d)"] Suc.prems(2) k by auto
  have rd: "read_desc buf k = Some ?d" using Suc.prems(2) k by (intro desc_read) simp
  have taken: "root_taken buf (cdroot ?d) [0..<k] = Some (cdroot ?d \<in> cdroot ` desc_at buf ` {0..<k})"
    using root_taken_spec [of "[0..<k]" buf "cdroot ?d"] Suc.prems(2) k by simp
  have prev: "(case prev of None \<Rightarrow> False | Some p \<Rightarrow> desc_key ?d \<le> p) \<longleftrightarrow>
      \<not> (0 < k \<longrightarrow> desc_key (desc_at buf (k - 1)) < desc_key ?d)"
    using Suc.prems(3,4) by (cases "k = 0") (auto simp: not_less)
  show ?case
  proof (cases "desc_ok nblocks ?d")
    case False
    then obtain e where "bad_desc nblocks ?d = Some e" using bad_desc_None by (metis not_None_eq)
    then show ?thesis unfolding up split using False rd by simp
  next
    case True
    then have "bad_desc nblocks ?d = None" by (simp add: bad_desc_None)
    then show ?thesis unfolding up split using True rd taken r prev Suc.prems(4) by (cases "k = 0") simp_all
  qed
qed simp

lemma distinct_roots:
  "distinct (map f [0..<n]) \<longleftrightarrow> (\<forall>i<n. f i \<notin> f ` {0..<i})"
  by (induction n) (auto simp: less_Suc_eq)

lemma sorted_adjacent:
  assumes "transp P"
  shows "sorted_wrt P (map f [0..<n]) \<longleftrightarrow> (\<forall>i<n. 0 < i \<longrightarrow> P (f (i - 1)) (f i))"
proof -
  have "sorted_wrt P (map f [0..<n]) \<longleftrightarrow> (\<forall>i. Suc i < n \<longrightarrow> P (f i) (f (Suc i)))"
    using sorted_wrt_iff_nth_Suc_transp [OF assms, of "map f [0..<n]"] by simp
  then show ?thesis by (metis Suc_pred diff_Suc_1 zero_less_Suc)
qed

text \<open>
  C29: For every buffer and block count the validator reads no byte outside the buffer. It returns the weft count
  when the page is sound, meaning: magic, version, reserved word and a count of 1 to 32 are right, the array
  fits, every descriptor has a known kind, no flags and a root inside the relation (block 0 and the invalid block
  excluded), the (kind, attribute) pairs are strictly ascending, and no two wefts share a root. It returns an error in
  every other case.
\<close>

theorem chandesc_check_exact:
  "\<exists>r. weave_chandesc_check buf nblocks = Some r \<and>
    (\<forall>n. r = Inr n \<longleftrightarrow> chandesc_ok buf nblocks \<and> unat n = length (descs buf))"
proof (cases "12 \<le> length buf \<and> cdmagic (page_at buf) = WEAVE_CHANDESC_MAGIC \<and> cdversion (page_at buf) = 1 \<and>
     cdreserved (page_at buf) = 0 \<and> length (descs buf) \<in> {1..32} \<and> 12 + 12 * length (descs buf) \<le> length buf")
  case False
  have n: "cdnweft (page_at buf) = 0 \<or> WEAVE_MAX_WEFTS < cdnweft (page_at buf) \<longleftrightarrow> length (descs buf) \<notin> {1..32}"
    by (auto simp: descs_def WEAVE_MAX_WEFTS_def word_less_nat_alt unat_eq_0 [symmetric])
  have "\<not> chandesc_ok buf nblocks" using False by (auto simp: chandesc_ok_def)
  moreover have "\<exists>e. weave_chandesc_check buf nblocks = Some (Inl e)"
    using False page_read [of buf]
    by (auto simp: weave_chandesc_check_def n WEAVE_CHANDESC_VERSION_def WEAVE_CD_SIZE_def descs_def not_le)
  ultimately show ?thesis by auto
next
  case True
  let ?n = "length (descs buf)"
  have u: "unat (cdnweft (page_at buf)) = ?n" by (simp add: descs_def)
  have n: "\<not> (cdnweft (page_at buf) = 0 \<or> WEAVE_MAX_WEFTS < cdnweft (page_at buf))"
    using True by (auto simp: descs_def WEAVE_MAX_WEFTS_def word_less_nat_alt)
  obtain r where r: "check_wefts buf nblocks [0..<?n] None = Some r"
    "r = None \<longleftrightarrow> (\<forall>i\<in>{0..<?n}. desc_ok nblocks (desc_at buf i) \<and>
        (0 < i \<longrightarrow> desc_key (desc_at buf (i - 1)) < desc_key (desc_at buf i)) \<and>
        cdroot (desc_at buf i) \<notin> cdroot ` desc_at buf ` {0..<i})"
    using check_wefts_spec [of 0 ?n buf None nblocks] True by auto
  have ds: "descs buf = map (desc_at buf) [0..<?n]" by (simp add: descs_def)
  have key: "(\<lambda>d e. cdkind d < cdkind e \<or> cdkind d = cdkind e \<and> cdattnum d < cdattnum e) = (\<lambda>d e. desc_key d < desc_key e)"
    by (simp add: desc_key_less)
  have "transp (\<lambda>d e. desc_key d < desc_key e)" by (auto intro: transpI)
  then have srt: "sorted_wrt (\<lambda>d e. desc_key d < desc_key e) (descs buf) \<longleftrightarrow>
      (\<forall>i<?n. 0 < i \<longrightarrow> desc_key (desc_at buf (i - 1)) < desc_key (desc_at buf i))"
    by (subst ds) (rule sorted_adjacent)
  have dis: "distinct (map cdroot (descs buf)) \<longleftrightarrow> (\<forall>i<?n. cdroot (desc_at buf i) \<notin> cdroot ` desc_at buf ` {0..<i})"
    using distinct_roots [of "\<lambda>i. cdroot (desc_at buf i)" ?n] by (subst ds) (simp add: comp_def image_image)
  have all: "list_all (desc_ok nblocks) (descs buf) \<longleftrightarrow> (\<forall>i<?n. desc_ok nblocks (desc_at buf i))"
    by (subst ds) (auto simp: list_all_iff)
  have ok: "chandesc_ok buf nblocks \<longleftrightarrow> r = None"
    unfolding chandesc_ok_def key srt dis all r(2) atLeast0LessThan lessThan_iff Ball_def using True by blast
  have "weave_chandesc_check buf nblocks = Some (case r of Some e \<Rightarrow> Inl e | None \<Rightarrow> Inr (cdnweft (page_at buf)))"
    using True n page_read [of buf] r(1) by (simp add: weave_chandesc_check_def WEAVE_CHANDESC_VERSION_def WEAVE_CD_SIZE_def u)
  then show ?thesis using ok by (cases r) (auto simp: word_unat_eq_iff u)
qed

end
