(* ===== verification/Weave_Doclist.thy ===== *)
theory Weave_Doclist
  imports Weave_Bytes "HOL-Library.Monad_Syntax"
begin

text \<open>
  The per-bolt document list of \<open>include/weave/doclist.h\<close>: walking a set, validating, decoding and encoding an
  image. The bitmap library is an argument: opening a buffer, the next member after a given one, building a map
  and its bytes. Nothing is assumed about it except where a round trip is stated. A read or write outside a buffer
  is \<open>None\<close>.
\<close>

subsection \<open>The image\<close>

record doclist_header =
  lmagic :: u32
  lversion :: u16
  lflags :: u16
  ndocs :: u64
  nnull :: u64
  alllen :: u32
  nulllen :: u32
  reserved :: u32
  reserved2 :: u32

definition WEAVE_DOCLIST_MAGIC :: u32 where "WEAVE_DOCLIST_MAGIC = 0x57444c31"
definition WEAVE_DOCLIST_VERSION :: u16 where "WEAVE_DOCLIST_VERSION = 1"
definition WEAVE_DOCLIST_F_ALL :: u16 where "WEAVE_DOCLIST_F_ALL = 1"
definition WEAVE_DOCLIST_HDRSIZE :: u64 where "WEAVE_DOCLIST_HDRSIZE = 40"

definition WEAVE_DOCLIST_ALIGN8 :: "u64 \<Rightarrow> u64" where
  "WEAVE_DOCLIST_ALIGN8 x = (x + 7) AND NOT 7"

definition weave_doclist_null_off :: "u32 \<Rightarrow> u64" where
  "weave_doclist_null_off al = WEAVE_DOCLIST_HDRSIZE + WEAVE_DOCLIST_ALIGN8 (ucast al)"

definition weave_doclist_image_len :: "u32 \<Rightarrow> u32 \<Rightarrow> u64" where
  "weave_doclist_image_len al nl = weave_doclist_null_off al + ucast nl"

definition read_list_header :: "u8 list \<Rightarrow> doclist_header option" where
  "read_list_header img = do {
     m \<leftarrow> rd32 img 0; v \<leftarrow> rd16 img 4; f \<leftarrow> rd16 img 6; nd \<leftarrow> rd64 img 8; nn \<leftarrow> rd64 img 16;
     al \<leftarrow> rd32 img 24; nl \<leftarrow> rd32 img 28; r1 \<leftarrow> rd32 img 32; r2 \<leftarrow> rd32 img 36;
     Some \<lparr>lmagic = m, lversion = v, lflags = f, ndocs = nd, nnull = nn, alllen = al, nulllen = nl,
       reserved = r1, reserved2 = r2\<rparr>
   }"

definition list_header_bytes :: "doclist_header \<Rightarrow> u8 list" where
  "list_header_bytes h = le_bytes 4 (unat (lmagic h)) @ le_bytes 2 (unat (lversion h)) @ le_bytes 2 (unat (lflags h)) @
     le_bytes 8 (unat (ndocs h)) @ le_bytes 8 (unat (nnull h)) @ le_bytes 4 (unat (alllen h)) @
     le_bytes 4 (unat (nulllen h)) @ le_bytes 4 (unat (reserved h)) @ le_bytes 4 (unat (reserved2 h))"

subsection \<open>Walking a set\<close>

record ('m, 'c) sparsemap =
  \<comment> \<open>the bitmap library: a map from a buffer, the next member and the advanced cursor, and building a map\<close>
  sm_open :: "u8 list \<Rightarrow> 'm"
  sm_next_member :: "'m \<Rightarrow> u64 \<Rightarrow> 'c \<Rightarrow> u64 \<times> 'c"
  SM_CURSOR_INIT :: 'c
  sm_create :: "nat \<Rightarrow> 'm option"
  sm_add_many_grow :: "'m \<Rightarrow> u64 list \<Rightarrow> 'm option"
  sm_get_data :: "'m \<Rightarrow> u8 list"

definition SM_IDX_MAX :: u64 where "SM_IDX_MAX = - 1"

record ('m, 'c) doclist_walk =
  wmap :: 'm
  wcur :: 'c
  wlast :: u64
  started :: bool

definition weave_doclist_walk_open :: "('m, 'c) sparsemap \<Rightarrow> u8 list \<Rightarrow> ('m, 'c) doclist_walk" where
  "weave_doclist_walk_open sm src = \<lparr>wmap = sm_open sm src, wcur = SM_CURSOR_INIT sm, wlast = 0, started = False\<rparr>"

definition weave_doclist_walk_next ::
  "('m, 'c) sparsemap \<Rightarrow> ('m, 'c) doclist_walk \<Rightarrow> bool \<Rightarrow> u64 option \<times> bool \<times> ('m, 'c) doclist_walk" where
  \<comment> \<open>the member if there is one, the caller's \<open>bad\<close>, and the walk\<close>
  "weave_doclist_walk_next sm w bad =
     (let (v, c) = sm_next_member sm (wmap w) (if started w then wlast w else - 1) (wcur w) in
      if v = SM_IDX_MAX then (None, bad, w\<lparr>wcur := c\<rparr>)
      else if started w \<and> v \<le> wlast w then (None, True, w\<lparr>wcur := c\<rparr>)
      else (Some v, bad, w\<lparr>wcur := c, started := True, wlast := v\<rparr>))"

definition remaining :: "('m, 'c) doclist_walk \<Rightarrow> nat" where
  \<comment> \<open>how many members may still come: members ascend below \<open>2 ^ 64\<close>\<close>
  "remaining w = (if started w then 2 ^ 64 - unat (wlast w) else 2 ^ 64 + 1)"

lemma next_remaining:
  "weave_doclist_walk_next sm w bad = (Some v, b, w') \<Longrightarrow> remaining w' < remaining w"
  using unsigned_less [of "wlast w", where ?'a = nat] unsigned_less [of v, where ?'a = nat]
  by (auto simp: weave_doclist_walk_next_def remaining_def not_le word_less_nat_alt split: prod.splits if_splits)

function count_members :: "('m, 'c) sparsemap \<Rightarrow> ('m, 'c) doclist_walk \<Rightarrow> u64 \<Rightarrow> bool \<Rightarrow> u64 \<times> bool" where
  "count_members sm w na bad =
     (case weave_doclist_walk_next sm w bad of
        (None, bad', _) \<Rightarrow> (na, bad')
      | (Some v, bad', w') \<Rightarrow> count_members sm w' (na + 1) bad')"
  by auto
termination
  by (relation "measure (\<lambda>(sm, w, na, bad). remaining w)") (auto dest!: next_remaining [OF sym])

declare count_members.simps [simp del]

subsection \<open>The validator\<close>

datatype dl_error =
    DL_Short | DL_Magic | DL_Version | DL_Flags | DL_Reserved | DL_Empty | DL_NullCount | DL_NullLen | DL_SetShort
  | DL_Length | DL_NotAscending | DL_Count | DL_NotSubset | DL_NullSet

record ('m, 'c) all_side =
  \<comment> \<open>the walk over ALL: its current member \<open>a\<close>, \<open>havea\<close>, the count \<open>na\<close>, and the shared \<open>bad\<close>\<close>
  wa :: "('m, 'c) doclist_walk"
  cura :: u64
  havea :: bool
  na :: u64
  badw :: bool

definition step_all :: "('m, 'c) sparsemap \<Rightarrow> ('m, 'c) all_side \<Rightarrow> ('m, 'c) all_side" where
  "step_all sm st =
     (case weave_doclist_walk_next sm (wa st) (badw st) of
        (None, b, w) \<Rightarrow> st\<lparr>wa := w, havea := False, badw := b\<rparr>
      | (Some v, b, w) \<Rightarrow> st\<lparr>wa := w, cura := v, havea := True, na := na st + 1, badw := b\<rparr>)"

definition side_left :: "('m, 'c) all_side \<Rightarrow> nat" where
  "side_left st = (if havea st then remaining (wa st) + 1 else 0)"

lemma step_all_left: "havea st \<Longrightarrow> side_left (step_all sm st) < side_left st"
  by (auto simp: step_all_def side_left_def split: prod.splits option.splits dest: next_remaining)

function skip_all :: "('m, 'c) sparsemap \<Rightarrow> u64 \<Rightarrow> ('m, 'c) all_side \<Rightarrow> ('m, 'c) all_side" where
  "skip_all sm x st = (if havea st \<and> cura st < x then skip_all sm x (step_all sm st) else st)"
  by auto
termination
  by (relation "measure (\<lambda>(sm, x, st). side_left st)") (auto intro: step_all_left)

function drain_all :: "('m, 'c) sparsemap \<Rightarrow> ('m, 'c) all_side \<Rightarrow> ('m, 'c) all_side" where
  "drain_all sm st = (if havea st then drain_all sm (step_all sm st) else st)"
  by auto
termination
  by (relation "measure (\<lambda>(sm, st). side_left st)") (auto intro: step_all_left)

declare skip_all.simps [simp del] drain_all.simps [simp del]

function merge_nulls ::
  "('m, 'c) sparsemap \<Rightarrow> ('m, 'c) doclist_walk \<Rightarrow> u64 \<Rightarrow> ('m, 'c) all_side \<Rightarrow> bool \<times> u64 \<times> ('m, 'c) all_side" where
  \<comment> \<open>whether every NULL member was found, \<open>nn\<close>, and the ALL side\<close>
  "merge_nulls sm wn nn st =
     (case weave_doclist_walk_next sm wn (badw st) of
        (None, b, _) \<Rightarrow> (True, nn, st\<lparr>badw := b\<rparr>)
      | (Some x, b, wn') \<Rightarrow>
          let st' = skip_all sm x (st\<lparr>badw := b\<rparr>) in
          if \<not> havea st' \<or> cura st' \<noteq> x then (False, nn + 1, st') else merge_nulls sm wn' (nn + 1) st')"
  by auto
termination
  by (relation "measure (\<lambda>(sm, wn, nn, st). remaining wn)") (auto dest!: next_remaining [OF sym])

declare merge_nulls.simps [simp del]

definition copy_of :: "u8 list \<Rightarrow> u64 \<Rightarrow> u32 \<Rightarrow> u8 list option" where
  \<comment> \<open>the scratch copy's \<open>memcpy\<close>\<close>
  "copy_of img off n =
     (if unat off + unat n \<le> length img then Some (take (unat n) (drop (unat off) img)) else None)"

definition check_sets :: "('m, 'c) sparsemap \<Rightarrow> doclist_header \<Rightarrow> u8 list \<Rightarrow> (dl_error + unit) option" where
  "check_sets sm h img = do {
     a \<leftarrow> copy_of img WEAVE_DOCLIST_HDRSIZE (alllen h);
     let wa = weave_doclist_walk_open sm a in
     if nnull h = 0 then
       let (na, bad) = count_members sm wa 0 False in
       Some (if bad then Inl DL_NotAscending else if na = ndocs h then Inr () else Inl DL_Count)
     else do {
       n \<leftarrow> copy_of img (weave_doclist_null_off (alllen h)) (nulllen h);
       let st0 = step_all sm \<lparr>wa = wa, cura = 0, havea = False, na = 0, badw = False\<rparr>;
           (subset, nn, st1) = merge_nulls sm (weave_doclist_walk_open sm n) 0 st0;
           st2 = (if subset then drain_all sm st1 else st1) in
       Some (if \<not> subset then Inl DL_NotSubset
         else if badw st2 then Inl DL_NotAscending
         else if na st2 \<noteq> ndocs h then Inl DL_Count
         else if nn \<noteq> nnull h then Inl DL_NullSet else Inr ())
     }
   }"

definition weave_doclist_check :: "('m, 'c) sparsemap \<Rightarrow> u8 list \<Rightarrow> (dl_error + unit) option" where
  "weave_doclist_check sm img =
     (if length img < unat WEAVE_DOCLIST_HDRSIZE then Some (Inl DL_Short)
      else do {
        h \<leftarrow> read_list_header img;
        if lmagic h \<noteq> WEAVE_DOCLIST_MAGIC then Some (Inl DL_Magic)
        else if lversion h \<noteq> WEAVE_DOCLIST_VERSION then Some (Inl DL_Version)
        else if lflags h AND NOT WEAVE_DOCLIST_F_ALL \<noteq> 0 then Some (Inl DL_Flags)
        else if reserved h \<noteq> 0 \<or> reserved2 h \<noteq> 0 then Some (Inl DL_Reserved)
        else if ndocs h = 0 then Some (Inl DL_Empty)
        else if ndocs h < nnull h then Some (Inl DL_NullCount)
        else if (nnull h = 0) \<noteq> (nulllen h = 0) then Some (Inl DL_NullLen)
        else if alllen h < 8 \<or> nulllen h \<noteq> 0 \<and> nulllen h < 8 then Some (Inl DL_SetShort)
        else if unat (weave_doclist_image_len (alllen h) (nulllen h)) \<noteq> length img then Some (Inl DL_Length)
        else check_sets sm h img
      })"

subsection \<open>The decoder\<close>

function fill_members ::
  "('m, 'c) sparsemap \<Rightarrow> ('m, 'c) doclist_walk \<Rightarrow> u64 \<Rightarrow> u64 list \<Rightarrow> u64 \<Rightarrow> bool \<Rightarrow> (u64 list \<times> u64 \<times> bool) option" where
  "fill_members sm w limit arr n bad =
     (case weave_doclist_walk_next sm w bad of
        (None, b, _) \<Rightarrow> Some (arr, n, b)
      | (Some v, b, w') \<Rightarrow>
          if limit \<le> n then Some (arr, n, True)
          else if unat n < length arr then fill_members sm w' limit (arr[unat n := v]) (n + 1) b else None)"
  by auto
termination
  by (relation "measure (\<lambda>(sm, w, limit, arr, n, bad). remaining w)") (auto dest!: next_remaining [OF sym])

declare fill_members.simps [simp del]

definition weave_doclist_decode ::
  "('m, 'c) sparsemap \<Rightarrow> u8 list \<Rightarrow> u64 list \<Rightarrow> u64 list \<Rightarrow> (bool \<times> u64 list \<times> u64 list) option" where
  \<comment> \<open>the result and the two arrays\<close>
  "weave_doclist_decode sm img all nul =
     (if length img < unat WEAVE_DOCLIST_HDRSIZE then Some (False, all, nul)
      else do {
        h \<leftarrow> read_list_header img;
        if unat (weave_doclist_image_len (alllen h) (nulllen h)) \<noteq> length img then Some (False, all, nul)
        else do {
          a \<leftarrow> copy_of img WEAVE_DOCLIST_HDRSIZE (alllen h);
          (all, n, bad) \<leftarrow> fill_members sm (weave_doclist_walk_open sm a) (ndocs h) all 0 False;
          if bad \<or> n \<noteq> ndocs h then Some (False, all, nul)
          else if nnull h = 0 then Some (True, all, nul)
          else do {
            b \<leftarrow> copy_of img (weave_doclist_null_off (alllen h)) (nulllen h);
            (nul, n, bad) \<leftarrow> fill_members sm (weave_doclist_walk_open sm b) (nnull h) nul 0 bad;
            Some (\<not> bad \<and> n = nnull h, all, nul)
          }
        }
      })"

subsection \<open>The encoder\<close>

definition weave_doclist_sm_from :: "('m, 'c) sparsemap \<Rightarrow> u64 list \<Rightarrow> 'm option" where
  "weave_doclist_sm_from sm v =
     (case sm_create sm 256 of None \<Rightarrow> None
      | Some m \<Rightarrow> if v \<noteq> [] then sm_add_many_grow sm m v else Some m)"

definition put :: "u8 list \<Rightarrow> nat \<Rightarrow> u8 list \<Rightarrow> u8 list option" where
  \<comment> \<open>\<open>memcpy\<close> into a buffer\<close>
  "put buf off bs =
     (if off + length bs \<le> length buf then Some (take off buf @ bs @ drop (off + length bs) buf) else None)"

definition weave_doclist_encode ::
  "('m, 'c) sparsemap \<Rightarrow> u64 list \<Rightarrow> u64 list \<Rightarrow> u16 \<Rightarrow> u8 list option option" where
  \<comment> \<open>\<open>Some None\<close> is the null pointer\<close>
  "weave_doclist_encode sm all nul flags =
     (if all = [] then Some None
      else case weave_doclist_sm_from sm all of
        None \<Rightarrow> Some None
      | Some ma \<Rightarrow>
          (case (if nul \<noteq> [] then map_option (sm_get_data sm) (weave_doclist_sm_from sm nul) else Some []) of
            None \<Rightarrow> Some None
          | Some nd \<Rightarrow>
              let ad = sm_get_data sm ma in
              if 0xFFFFFFFF < length ad \<or> 0xFFFFFFFF < length nd then Some None
              else let al = of_nat (length ad); nl = of_nat (length nd);
                    h = \<lparr>lmagic = WEAVE_DOCLIST_MAGIC, lversion = WEAVE_DOCLIST_VERSION, lflags = flags,
                          ndocs = of_nat (length all), nnull = of_nat (length nul), alllen = al, nulllen = nl,
                          reserved = 0, reserved2 = 0\<rparr> in do {
                img \<leftarrow> put (replicate (unat (weave_doclist_image_len al nl)) 0) 0 (list_header_bytes h);
                img \<leftarrow> put img (unat WEAVE_DOCLIST_HDRSIZE) ad;
                img \<leftarrow> (if 0 < length nd then put img (unat (weave_doclist_null_off al)) nd else Some img);
                Some (Some img)
              }))"

subsection \<open>Sorting\<close>

fun uniq_loop :: "u64 list \<Rightarrow> u64 list \<Rightarrow> u64 list" where
  \<comment> \<open>the kept prefix \<open>v[0 .. o)\<close>, and the rest\<close>
  "uniq_loop out [] = out"
| "uniq_loop out (x # xs) = (if out = [] \<or> last out \<noteq> x then uniq_loop (out @ [x]) xs else uniq_loop out xs)"

definition weave_doclist_sort_uniq :: "u64 list \<Rightarrow> u64 list" where
  \<comment> \<open>the array's first \<open>o\<close> elements\<close>
  "weave_doclist_sort_uniq v = (if v = [] then [] else uniq_loop [] (sort v))"


subsection \<open>What a walk yields\<close>

function walk_from :: "('m, 'c) sparsemap \<Rightarrow> ('m, 'c) doclist_walk \<Rightarrow> u64 list \<times> bool" where
  \<comment> \<open>the members from here on, and whether the walk ends on one that does not ascend\<close>
  "walk_from sm w =
     (case weave_doclist_walk_next sm w False of
        (None, b, _) \<Rightarrow> ([], b)
      | (Some v, b, w') \<Rightarrow> let (vs, b') = walk_from sm w' in (v # vs, b'))"
  by auto
termination
  by (relation "measure (\<lambda>(sm, w). remaining w)") (auto dest!: next_remaining [OF sym])

declare walk_from.simps [simp del]

definition set_members :: "('m, 'c) sparsemap \<Rightarrow> u8 list \<Rightarrow> u64 list" where
  "set_members sm src = fst (walk_from sm (weave_doclist_walk_open sm src))"

definition set_bad :: "('m, 'c) sparsemap \<Rightarrow> u8 list \<Rightarrow> bool" where
  "set_bad sm src \<longleftrightarrow> snd (walk_from sm (weave_doclist_walk_open sm src))"

lemma next_cases:
  obtains (stop) b w' where "weave_doclist_walk_next sm w bad = (None, bad \<or> b, w')" "walk_from sm w = ([], b)"
  | (more) v w' where "weave_doclist_walk_next sm w bad = (Some v, bad, w')"
      "walk_from sm w = (v # fst (walk_from sm w'), snd (walk_from sm w'))" "v \<noteq> SM_IDX_MAX"
      "started w'" "wlast w' = v" "started w \<Longrightarrow> wlast w < v" "remaining w' < remaining w"
proof -
  obtain v c where n: "sm_next_member sm (wmap w) (if started w then wlast w else - 1) (wcur w) = (v, c)"
    by fastforce
  consider "v = SM_IDX_MAX" | "v \<noteq> SM_IDX_MAX" "started w" "v \<le> wlast w"
    | "v \<noteq> SM_IDX_MAX" "started w \<Longrightarrow> wlast w < v" by force
  then show thesis
  proof cases
    case 1
    then show ?thesis using n stop [of False]
      by (simp add: weave_doclist_walk_next_def walk_from.simps [of sm w])
  next
    case 2
    then show ?thesis using n stop [of True]
      by (simp add: weave_doclist_walk_next_def walk_from.simps [of sm w])
  next
    case 3
    let ?w' = "w\<lparr>wcur := c, started := True, wlast := v\<rparr>"
    have nx: "weave_doclist_walk_next sm w b = (Some v, b, ?w')" for b
      using 3 n by (auto simp: weave_doclist_walk_next_def)
    show ?thesis
      by (rule more [of v ?w'])
        (use 3 nx next_remaining [OF nx] in \<open>simp_all add: walk_from.simps [of sm w] case_prod_beta Let_def\<close>)
  qed
qed

lemma walk_ascends:
  "sorted_wrt (<) (fst (walk_from sm w)) \<and> SM_IDX_MAX \<notin> set (fst (walk_from sm w)) \<and>
   (started w \<longrightarrow> (\<forall>v\<in>set (fst (walk_from sm w)). wlast w < v))"
proof (induction "remaining w" arbitrary: w rule: less_induct)
  case less
  show ?case
  proof (cases rule: next_cases [of sm w False])
    case (more v w')
    then show ?thesis using less [of w'] by fastforce
  qed simp
qed

lemma members_ascend: "sorted_wrt (<) (set_members sm src)"
  using walk_ascends [of sm "weave_doclist_walk_open sm src"] by (simp add: set_members_def)

lemma walk_length: "length (fst (walk_from sm w)) < 2 ^ 64"
proof -
  let ?vs = "fst (walk_from sm w)"
  have "distinct ?vs" using walk_ascends [of sm w] by (simp add: strict_sorted_iff)
  then have "length ?vs = card (set ?vs)" by (simp add: distinct_card)
  also have "\<dots> < card (UNIV :: u64 set)"
    by (rule psubset_card_mono) (use walk_ascends [of sm w] in auto)
  finally show ?thesis by (simp add: card_word)
qed

lemma count_spec:
  "count_members sm w n bad = (n + of_nat (length (fst (walk_from sm w))), bad \<or> snd (walk_from sm w))"
proof (induction "remaining w" arbitrary: w n rule: less_induct)
  case less
  show ?case
  proof (cases rule: next_cases [of sm w bad])
    case (more v w')
    then show ?thesis using less [of w' "n + 1"] by (simp add: count_members.simps [of sm w] algebra_simps)
  qed (simp add: count_members.simps [of sm w])
qed

definition pending :: "('m, 'c) sparsemap \<Rightarrow> ('m, 'c) all_side \<Rightarrow> u64 list" where
  "pending sm st = (if havea st then cura st # fst (walk_from sm (wa st)) else [])"

definition outcome :: "('m, 'c) sparsemap \<Rightarrow> ('m, 'c) all_side \<Rightarrow> u64 \<times> bool" where
  \<comment> \<open>the count and the flag once the ALL side has been drained\<close>
  "outcome sm st =
     (if havea st then (na st + of_nat (length (fst (walk_from sm (wa st)))), badw st \<or> snd (walk_from sm (wa st)))
      else (na st, badw st))"

lemma step_all_spec:
  "pending sm (step_all sm st) = fst (walk_from sm (wa st)) \<and>
   outcome sm (step_all sm st) =
     (na st + of_nat (length (fst (walk_from sm (wa st)))), badw st \<or> snd (walk_from sm (wa st)))"
  by (cases rule: next_cases [of sm "wa st" "badw st"]) (simp_all add: step_all_def pending_def outcome_def algebra_simps)

lemma step_all_have:
  assumes "havea st"
  shows "pending sm (step_all sm st) = tl (pending sm st)" "outcome sm (step_all sm st) = outcome sm st"
  using step_all_spec [of sm st] assms by (simp_all add: pending_def [of sm st] outcome_def [of sm st])

lemma skip_all_spec:
  "pending sm (skip_all sm x st) = dropWhile (\<lambda>a. a < x) (pending sm st) \<and> outcome sm (skip_all sm x st) = outcome sm st"
proof (induction "side_left st" arbitrary: st rule: less_induct)
  case less
  show ?case
  proof (cases "havea st \<and> cura st < x")
    case True
    then have "dropWhile (\<lambda>a. a < x) (pending sm st) = dropWhile (\<lambda>a. a < x) (tl (pending sm st))"
      by (simp add: pending_def)
    then show ?thesis
      using less [OF step_all_left [of st sm]] True step_all_have [of st sm] by (simp add: skip_all.simps [of sm x st])
  next
    case False
    then show ?thesis by (auto simp: skip_all.simps [of sm x st] pending_def)
  qed
qed

lemma drain_all_spec: "(na (drain_all sm st), badw (drain_all sm st)) = outcome sm st"
proof (induction "side_left st" arbitrary: st rule: less_induct)
  case less
  show ?case
  proof (cases "havea st")
    case True
    then show ?thesis
      using less [OF step_all_left [of st sm]] step_all_have [of st sm] by (simp add: drain_all.simps [of sm st])
  next
    case False
    then show ?thesis by (simp add: drain_all.simps [of sm st] outcome_def)
  qed
qed

lemma outcome_bad [simp]: "outcome sm (st\<lparr>badw := badw st \<or> b\<rparr>) = (fst (outcome sm st), snd (outcome sm st) \<or> b)"
  by (auto simp: outcome_def)

lemma pending_bad [simp]: "pending sm (st\<lparr>badw := b\<rparr>) = pending sm st"
  by (simp add: pending_def)

lemma dropWhile_ascending:
  "sorted_wrt (<) p \<Longrightarrow> dropWhile (\<lambda>a. a < x) p = filter (\<lambda>a. x \<le> a) (p :: u64 list)"
  by (induction p) (auto intro!: filter_True [symmetric] order.strict_implies_order
      elim: order.strict_trans1 simp: not_less)

lemma head_filter:
  "sorted_wrt (<) p \<Longrightarrow> filter (\<lambda>a. x \<le> a) p = a # q \<Longrightarrow> a = x \<longleftrightarrow> x \<in> set (p :: u64 list)"
  by (induction p) (fastforce split: if_splits)+

lemma merge_spec:
  assumes "sorted_wrt (<) (pending sm st)"
  shows "\<exists>st'. merge_nulls sm wn n st =
      (set (fst (walk_from sm wn)) \<subseteq> set (pending sm st),
       fst (snd (merge_nulls sm wn n st)), st') \<and>
    (set (fst (walk_from sm wn)) \<subseteq> set (pending sm st) \<longrightarrow>
       fst (snd (merge_nulls sm wn n st)) = n + of_nat (length (fst (walk_from sm wn))) \<and>
       outcome sm st' = (fst (outcome sm st), snd (outcome sm st) \<or> snd (walk_from sm wn)))"
  using assms
proof (induction "remaining wn" arbitrary: wn n st rule: less_induct)
  case less
  show ?case
  proof (cases rule: next_cases [of sm wn "badw st"])
    case (stop b w')
    then show ?thesis by (simp add: merge_nulls.simps [of sm wn])
  next
    case (more x w')
    let ?p = "pending sm st" and ?st = "skip_all sm x st" and ?ns = "fst (walk_from sm w')"
    have p: "pending sm ?st = filter (\<lambda>a. x \<le> a) ?p" "outcome sm ?st = outcome sm st"
      using skip_all_spec [of sm x st] dropWhile_ascending [OF less.prems, of x] by simp_all
    have head: "havea ?st \<and> cura ?st = x \<longleftrightarrow> x \<in> set ?p"
    proof (cases "havea ?st")
      case True
      then show ?thesis using head_filter [OF less.prems, of x "cura ?st" "fst (walk_from sm (wa ?st))"] p(1)
        by (simp add: pending_def [of sm ?st])
    next
      case False
      then have "filter (\<lambda>a. x \<le> a) ?p = []" using p(1) by (simp add: pending_def [of sm ?st])
      then show ?thesis using False by (auto simp: filter_empty_conv)
    qed
    have eq: "merge_nulls sm wn n st = (if \<not> havea ?st \<or> cura ?st \<noteq> x then (False, n + 1, ?st) else merge_nulls sm w' (n + 1) ?st)"
      using more(1) by (simp add: merge_nulls.simps [of sm wn] Let_def)
    show ?thesis
    proof (cases "x \<in> set ?p")
      case False
      then show ?thesis using eq head more(2) by auto
    next
      case True
      have sub: "set ?ns \<subseteq> set (pending sm ?st) \<longleftrightarrow> set ?ns \<subseteq> set ?p"
        using walk_ascends [of sm w'] more(4,5) p(1) by fastforce
      have srt: "sorted_wrt (<) (pending sm ?st)" using less.prems p(1) by (simp add: sorted_wrt_filter)
      show ?thesis
        using less.hyps [OF more(7) srt, of "n + 1"] eq head True sub more(2) p(2)
        by (auto simp: algebra_simps)
    qed
  qed
qed


subsection \<open>Reading a header\<close>

definition list_header :: "u8 list \<Rightarrow> doclist_header" where
  "list_header img = \<lparr>lmagic = r32 img 0, lversion = r16 img 4, lflags = r16 img 6, ndocs = r64 img 8,
     nnull = r64 img 16, alllen = r32 img 24, nulllen = r32 img 28, reserved = r32 img 32, reserved2 = r32 img 36\<rparr>"

lemma list_header_read: "40 \<le> length img \<Longrightarrow> read_list_header img = Some (list_header img)"
  by (simp add: read_list_header_def list_header_def rd16_def rd32_def rd64_def)

lemma null_off_value: "unat (weave_doclist_null_off al) = 40 + MAXALIGN (unat al)"
proof -
  have "unat (ucast al :: u64) < 2 ^ 63" using unat_u32 [of al] by simp
  then have "unat (WEAVE_DOCLIST_ALIGN8 (ucast al)) = MAXALIGN (unat al)"
    using unat_maxalign [of "ucast al"] by (simp add: WEAVE_DOCLIST_ALIGN8_def WEAVE_DV_MAXALIGN_def)
  moreover have "MAXALIGN (unat al) < 2 ^ 33" using unat_u32 [of al] by (simp add: MAXALIGN_def)
  ultimately show ?thesis
    by (simp add: weave_doclist_null_off_def WEAVE_DOCLIST_HDRSIZE_def unat_word_ariths)
qed

lemma image_len_value: "unat (weave_doclist_image_len al nl) = 40 + MAXALIGN (unat al) + unat nl"
proof -
  have "MAXALIGN (unat al) < 2 ^ 33" using unat_u32 [of al] by (simp add: MAXALIGN_def)
  then show ?thesis
    using unat_u32 [of nl] by (simp add: weave_doclist_image_len_def unat_word_ariths null_off_value)
qed

definition all_bytes :: "u8 list \<Rightarrow> u8 list" where
  "all_bytes img = take (unat (alllen (list_header img))) (drop 40 img)"

definition null_bytes :: "u8 list \<Rightarrow> u8 list" where
  "null_bytes img = drop (40 + MAXALIGN (unat (alllen (list_header img)))) img"

text \<open>The two sets an image holds, and the specification of a sound image.\<close>

definition all_docs :: "('m, 'c) sparsemap \<Rightarrow> u8 list \<Rightarrow> u64 list" where
  "all_docs sm img = set_members sm (all_bytes img)"

definition null_docs :: "('m, 'c) sparsemap \<Rightarrow> u8 list \<Rightarrow> u64 list" where
  "null_docs sm img = (if nnull (list_header img) = 0 then [] else set_members sm (null_bytes img))"

definition header_ok :: "u8 list \<Rightarrow> bool" where
  "header_ok img \<longleftrightarrow> (let h = list_header img in
     40 \<le> length img \<and> lmagic h = WEAVE_DOCLIST_MAGIC \<and> lversion h = 1 \<and> lflags h \<in> {0, 1} \<and>
     reserved h = 0 \<and> reserved2 h = 0 \<and> ndocs h \<noteq> 0 \<and> nnull h \<le> ndocs h \<and> (nnull h = 0 \<longleftrightarrow> nulllen h = 0) \<and>
     8 \<le> alllen h \<and> (nulllen h \<noteq> 0 \<longrightarrow> 8 \<le> nulllen h) \<and>
     length img = 40 + MAXALIGN (unat (alllen h)) + unat (nulllen h))"

definition doclist_ok :: "('m, 'c) sparsemap \<Rightarrow> u8 list \<Rightarrow> bool" where
  "doclist_ok sm img \<longleftrightarrow> header_ok img \<and>
     length (all_docs sm img) = unat (ndocs (list_header img)) \<and> \<not> set_bad sm (all_bytes img) \<and>
     length (null_docs sm img) = unat (nnull (list_header img)) \<and> set (null_docs sm img) \<subseteq> set (all_docs sm img) \<and>
     (nnull (list_header img) \<noteq> 0 \<longrightarrow> \<not> set_bad sm (null_bytes img))"

lemma of_nat_count: "n < 2 ^ 64 \<Longrightarrow> (of_nat n :: u64) = w \<longleftrightarrow> n = unat w"
  by (auto simp: word_unat_eq_iff unat_of_nat)

lemma copies:
  assumes "length img = 40 + MAXALIGN (unat (alllen (list_header img))) + unat (nulllen (list_header img))"
  shows "copy_of img WEAVE_DOCLIST_HDRSIZE (alllen (list_header img)) = Some (all_bytes img)"
    "copy_of img (weave_doclist_null_off (alllen (list_header img))) (nulllen (list_header img)) = Some (null_bytes img)"
proof -
  have "unat (alllen (list_header img)) \<le> MAXALIGN (unat (alllen (list_header img)))" by (rule maxalign_ge)
  with assms show "copy_of img WEAVE_DOCLIST_HDRSIZE (alllen (list_header img)) = Some (all_bytes img)"
    "copy_of img (weave_doclist_null_off (alllen (list_header img))) (nulllen (list_header img)) = Some (null_bytes img)"
    by (simp_all add: copy_of_def WEAVE_DOCLIST_HDRSIZE_def all_bytes_def null_bytes_def null_off_value)
qed

lemma ok_length:
  "header_ok img \<Longrightarrow> length img = 40 + MAXALIGN (unat (alllen (list_header img))) + unat (nulllen (list_header img))"
  by (simp add: header_ok_def Let_def)

lemma check_sets_spec:
  assumes "header_ok img"
  shows "\<exists>r. check_sets sm (list_header img) img = Some r \<and> (r = Inr () \<longleftrightarrow> doclist_ok sm img)"
proof (cases "nnull (list_header img) = 0")
  case True
  let ?w = "weave_doclist_walk_open sm (all_bytes img)"
  show ?thesis
    using assms True copies(1) [OF ok_length [OF assms]] of_nat_count [OF walk_length [of sm ?w]]
    by (simp add: check_sets_def count_spec doclist_ok_def all_docs_def null_docs_def set_members_def set_bad_def Let_def)
next
  case False
  let ?h = "list_header img"
  let ?w = "weave_doclist_walk_open sm (all_bytes img)" and ?n = "weave_doclist_walk_open sm (null_bytes img)"
  let ?st = "step_all sm \<lparr>wa = ?w, cura = 0, havea = False, na = 0, badw = False\<rparr>"
  have st: "pending sm ?st = all_docs sm img" "outcome sm ?st = (of_nat (length (all_docs sm img)), set_bad sm (all_bytes img))"
    using step_all_spec [of sm "\<lparr>wa = ?w, cura = 0, havea = False, na = 0, badw = False\<rparr>"]
    by (simp_all add: all_docs_def set_members_def set_bad_def)
  have srt: "sorted_wrt (<) (pending sm ?st)" by (simp add: st all_docs_def members_ascend)
  have nd: "null_docs sm img = fst (walk_from sm ?n)" using False by (simp add: null_docs_def set_members_def)
  obtain nn st' where m: "merge_nulls sm ?n 0 ?st = (set (null_docs sm img) \<subseteq> set (all_docs sm img), nn, st')"
    and m': "set (null_docs sm img) \<subseteq> set (all_docs sm img) \<Longrightarrow> nn = of_nat (length (null_docs sm img)) \<and>
       outcome sm st' = (of_nat (length (all_docs sm img)), set_bad sm (all_bytes img) \<or> set_bad sm (null_bytes img))"
    using merge_spec [OF srt, of ?n 0] by (auto simp: st nd set_bad_def)
  have len: "length (all_docs sm img) < 2 ^ 64" "length (null_docs sm img) < 2 ^ 64"
    using walk_length [of sm ?w] walk_length [of sm ?n] by (simp_all add: nd all_docs_def set_members_def)
  have eq: "check_sets sm ?h img =
      (let st2 = (if set (null_docs sm img) \<subseteq> set (all_docs sm img) then drain_all sm st' else st') in
       Some (if \<not> set (null_docs sm img) \<subseteq> set (all_docs sm img) then Inl DL_NotSubset
         else if badw st2 then Inl DL_NotAscending else if na st2 \<noteq> ndocs ?h then Inl DL_Count
         else if nn \<noteq> nnull ?h then Inl DL_NullSet else Inr ()))"
    using False m by (simp add: check_sets_def copies [OF ok_length [OF assms]] Let_def)
  show ?thesis
  proof (cases "set (null_docs sm img) \<subseteq> set (all_docs sm img)")
    case sub: True
    then have d: "na (drain_all sm st') = of_nat (length (all_docs sm img))"
      "badw (drain_all sm st') \<longleftrightarrow> set_bad sm (all_bytes img) \<or> set_bad sm (null_bytes img)"
      using drain_all_spec [of sm st'] m' by simp_all
    show ?thesis
      using sub m' assms False of_nat_count [OF len(1)] of_nat_count [OF len(2)]
      by (auto simp: eq d Let_def doclist_ok_def)
  next
    case False
    then show ?thesis by (simp add: eq doclist_ok_def)
  qed
qed

lemma flags_known: "w AND NOT WEAVE_DOCLIST_F_ALL = 0 \<longleftrightarrow> w \<in> {0, 1 :: u16}"
proof -
  have "w AND NOT 1 = 0 \<longleftrightarrow> w \<in> {0, 1 :: u16}"
  proof
    assume a: "w AND NOT 1 = 0"
    have "w = (w AND NOT 1) OR (w AND 1)" by (rule bit_eqI) (auto simp: bit_simps)
    then have "w = w AND 1" using a by simp
    then have "w = of_bool (odd w)" by (simp only: and_one_eq mod2_eq_if of_bool_def if_not_P split: if_splits) auto
    then show "w \<in> {0, 1}" by (metis insertCI of_bool_eq(1,2))
  qed auto
  then show ?thesis by (simp add: WEAVE_DOCLIST_F_ALL_def)
qed

lemma check_spec:
  "\<exists>r. weave_doclist_check sm img = Some r \<and> (r = Inr () \<longleftrightarrow> doclist_ok sm img)"
proof (cases "header_ok img")
  case True
  then have "weave_doclist_check sm img = check_sets sm (list_header img) img"
    by (auto dest: leD simp: weave_doclist_check_def header_ok_def Let_def list_header_read WEAVE_DOCLIST_HDRSIZE_def
        WEAVE_DOCLIST_VERSION_def flags_known image_len_value not_less not_le)
  then show ?thesis using check_sets_spec [OF True] by simp
next
  case False
  then have "\<exists>e. weave_doclist_check sm img = Some (Inl e)"
    using list_header_read [of img]
    by (auto simp: weave_doclist_check_def header_ok_def Let_def WEAVE_DOCLIST_HDRSIZE_def
        WEAVE_DOCLIST_VERSION_def flags_known image_len_value not_less not_le)
  then show ?thesis using False by (auto simp: doclist_ok_def)
qed


subsection \<open>Decoding\<close>

lemma fill_spec:
  assumes "n \<le> limit" "unat limit \<le> length arr"
  shows "if unat n + length (fst (walk_from sm w)) \<le> unat limit
    then fill_members sm w limit arr n bad =
      Some (take (unat n) arr @ fst (walk_from sm w) @ drop (unat n + length (fst (walk_from sm w))) arr,
        n + of_nat (length (fst (walk_from sm w))), bad \<or> snd (walk_from sm w))
    else \<exists>arr' n'. fill_members sm w limit arr n bad = Some (arr', n', True) \<and> length arr' = length arr"
  using assms
proof (induction "remaining w" arbitrary: w n arr rule: less_induct)
  case less
  show ?case
  proof (cases rule: next_cases [of sm w bad])
    case (more v w')
    let ?vs = "fst (walk_from sm w')"
    show ?thesis
    proof (cases "n = limit")
      case True
      then show ?thesis using more by (simp add: fill_members.simps [of sm w])
    next
      case False
      then have lt: "n < limit" using less.prems(1) by simp
      then have n: "n < limit" "unat (n + 1) = unat n + 1" "n + 1 \<le> limit" "unat n < length arr"
        using less.prems(2) unat_inc [OF lt] inc_le [OF lt] unfolding word_less_nat_alt by simp_all
      have eq: "fill_members sm w limit arr n bad = fill_members sm w' limit (arr[unat n := v]) (n + 1) bad"
        using n more(1) leD [of limit n] by (auto simp: fill_members.simps [of sm w])
      have tk: "take (Suc (unat n)) (arr[unat n := v]) = take (unat n) arr @ [v]"
        using n(4) by (simp add: take_Suc_conv_app_nth)
      have "if unat (n + 1) + length ?vs \<le> unat limit
        then fill_members sm w' limit (arr[unat n := v]) (n + 1) bad =
          Some (take (unat (n + 1)) (arr[unat n := v]) @ ?vs @ drop (unat (n + 1) + length ?vs) (arr[unat n := v]),
            n + 1 + of_nat (length ?vs), bad \<or> snd (walk_from sm w'))
        else \<exists>arr' n'. fill_members sm w' limit (arr[unat n := v]) (n + 1) bad = Some (arr', n', True) \<and>
          length arr' = length (arr[unat n := v])"
        using less.hyps [OF more(7) n(3), of "arr[unat n := v]"] less.prems by simp
      then show ?thesis unfolding eq using more(2) by (simp add: n(2) tk add.assoc split: if_splits)
    qed
  qed (use less.prems in \<open>simp add: fill_members.simps [of sm w] word_le_nat_alt\<close>)
qed

lemma fill_from_start:
  assumes "unat limit \<le> length arr"
  obtains arr' n' b where "fill_members sm (weave_doclist_walk_open sm src) limit arr 0 False = Some (arr', n', b)"
    "length arr' = length arr"
    "\<not> b \<and> n' = limit \<longleftrightarrow> length (set_members sm src) = unat limit \<and> \<not> set_bad sm src"
    "\<not> b \<and> n' = limit \<Longrightarrow> take (unat limit) arr' = set_members sm src"
proof (cases "length (set_members sm src) \<le> unat limit")
  case True
  let ?w = "weave_doclist_walk_open sm src"
  have "(of_nat (length (fst (walk_from sm ?w))) :: u64) = limit \<longleftrightarrow> length (fst (walk_from sm ?w)) = unat limit"
    by (rule of_nat_count [OF walk_length])
  then show ?thesis
    using fill_spec [of 0 limit arr sm ?w False] assms True that by (auto simp: set_members_def set_bad_def)
next
  case False
  then show ?thesis
    using fill_spec [of 0 limit arr sm "weave_doclist_walk_open sm src" False] assms that
    by (auto simp: set_members_def)
qed

lemma decode_spec:
  assumes "unat (ndocs (list_header img)) \<le> length all" "unat (nnull (list_header img)) \<le> length nul"
  shows "\<exists>ok all' nul'. weave_doclist_decode sm img all nul = Some (ok, all', nul') \<and>
    length all' = length all \<and> length nul' = length nul \<and> (doclist_ok sm img \<longrightarrow> ok) \<and>
    (ok \<longrightarrow> take (unat (ndocs (list_header img))) all' = all_docs sm img \<and>
           take (unat (nnull (list_header img))) nul' = null_docs sm img)"
proof (cases "length img = 40 + MAXALIGN (unat (alllen (list_header img))) + unat (nulllen (list_header img))")
  case False
  then have "weave_doclist_decode sm img all nul = Some (False, all, nul)"
    using list_header_read [of img]
    by (auto simp: weave_doclist_decode_def WEAVE_DOCLIST_HDRSIZE_def image_len_value not_less)
  moreover have "\<not> doclist_ok sm img" using False by (auto simp: doclist_ok_def header_ok_def Let_def)
  ultimately show ?thesis by auto
next
  case len: True
  let ?h = "list_header img"
  obtain all' n b where a: "fill_members sm (weave_doclist_walk_open sm (all_bytes img)) (ndocs ?h) all 0 False = Some (all', n, b)"
    "length all' = length all"
    "\<not> b \<and> n = ndocs ?h \<longleftrightarrow> length (all_docs sm img) = unat (ndocs ?h) \<and> \<not> set_bad sm (all_bytes img)"
    "\<not> b \<and> n = ndocs ?h \<Longrightarrow> take (unat (ndocs ?h)) all' = all_docs sm img"
    using fill_from_start [OF assms(1), of sm "all_bytes img"] unfolding all_docs_def by metis
  obtain nul' n2 b2 where n: "fill_members sm (weave_doclist_walk_open sm (null_bytes img)) (nnull ?h) nul 0 False = Some (nul', n2, b2)"
    "length nul' = length nul"
    "\<not> b2 \<and> n2 = nnull ?h \<longleftrightarrow> length (set_members sm (null_bytes img)) = unat (nnull ?h) \<and> \<not> set_bad sm (null_bytes img)"
    "\<not> b2 \<and> n2 = nnull ?h \<Longrightarrow> take (unat (nnull ?h)) nul' = set_members sm (null_bytes img)"
    using fill_from_start [OF assms(2), of sm "null_bytes img"] by metis
  have "\<not> length img < 40" using len by simp
  then have eq: "weave_doclist_decode sm img all nul =
      (if b \<or> n \<noteq> ndocs ?h then Some (False, all', nul) else if nnull ?h = 0 then Some (True, all', nul)
       else Some (\<not> b2 \<and> n2 = nnull ?h, all', nul'))"
    using a(1) n(1) list_header_read [of img] copies [OF len] len
    by (simp add: weave_doclist_decode_def WEAVE_DOCLIST_HDRSIZE_def image_len_value)
  show ?thesis
    unfolding eq using a(2-4) n(2-4) by (auto simp: doclist_ok_def null_docs_def)
qed

subsection \<open>Sorting\<close>

lemma last_greatest: "sorted xs \<Longrightarrow> (a :: u64) \<in> set xs \<Longrightarrow> a \<le> last xs"
  by (induction xs) auto

lemma uniq_spec:
  "sorted (out @ xs) \<Longrightarrow> sorted_wrt (<) out \<Longrightarrow>
   sorted_wrt (<) (uniq_loop out xs) \<and> set (uniq_loop out xs) = set out \<union> set xs"
proof (induction xs arbitrary: out)
  case (Cons x xs)
  show ?case
  proof (cases "out = [] \<or> last out \<noteq> x")
    case True
    have "\<forall>a\<in>set out. a < x"
    proof
      fix a assume a: "a \<in> set out"
      have "sorted out" using Cons.prems(1) by (simp add: sorted_append)
      then have "a \<le> last out" using a by (rule last_greatest)
      moreover have "last out \<in> set out" using a by (auto intro: last_in_set)
      then have "last out \<le> x" using Cons.prems(1) by (simp add: sorted_append)
      moreover have "last out \<noteq> x" using True a by auto
      ultimately show "a < x" by simp
    qed
    then have "sorted_wrt (<) (out @ [x])" using Cons.prems(2) by (simp add: sorted_wrt_append)
    then show ?thesis using Cons.IH [of "out @ [x]"] Cons.prems True by simp
  next
    case False
    then have "x \<in> set out" by (auto intro: last_in_set)
    moreover have "sorted (out @ xs)" using Cons.prems(1) by (auto simp: sorted_append)
    ultimately show ?thesis using Cons.IH [of out] Cons.prems(2) False by auto
  qed
qed simp

lemma doclist_sort_uniq:
  "sorted_wrt (<) (weave_doclist_sort_uniq v) \<and> set (weave_doclist_sort_uniq v) = set v"
  using uniq_spec [of "[]" "sort v"] by (simp add: weave_doclist_sort_uniq_def)


subsection \<open>Round trip\<close>

definition next_of :: "u64 list \<Rightarrow> u64 \<Rightarrow> u64" where
  "next_of v p = (case filter (\<lambda>x. p = SM_IDX_MAX \<or> p < x) v of [] \<Rightarrow> SM_IDX_MAX | x # _ \<Rightarrow> x)"

definition sparsemap_keeps :: "('m, 'c) sparsemap \<Rightarrow> bool" where
  \<comment> \<open>the bitmap library's documented behaviour: the bytes of a map built from an ascending list are at least its
      count word, and a map opened on them steps to the next greater element, or from the start\<close>
  "sparsemap_keeps sm \<longleftrightarrow>
     (\<forall>v m. sorted_wrt (<) v \<longrightarrow> SM_IDX_MAX \<notin> set v \<longrightarrow> weave_doclist_sm_from sm v = Some m \<longrightarrow>
        8 \<le> length (sm_get_data sm m) \<and>
        (\<forall>p c. fst (sm_next_member sm (sm_open sm (sm_get_data sm m)) p c) = next_of v p))"

lemma walk_listed:
  assumes "\<forall>p c. fst (sm_next_member sm (wmap w) p c) = next_of v p" "sorted_wrt (<) v" "SM_IDX_MAX \<notin> set v"
    "started w \<Longrightarrow> wlast w \<noteq> SM_IDX_MAX"
  shows "walk_from sm w = (filter (\<lambda>x. started w \<longrightarrow> wlast w < x) v, False)"
  using assms
proof (induction "remaining w" arbitrary: w rule: less_induct)
  case less
  let ?p = "if started w then wlast w else - 1"
  obtain c where n: "sm_next_member sm (wmap w) ?p (wcur w) = (next_of v ?p, c)"
    using less.prems(1) by (metis prod.collapse)
  have f: "filter (\<lambda>x. ?p = SM_IDX_MAX \<or> ?p < x) v = filter (\<lambda>x. started w \<longrightarrow> wlast w < x) v"
    using less.prems(4) by (intro filter_cong) (auto simp: SM_IDX_MAX_def)
  show ?case
  proof (cases "filter (\<lambda>x. started w \<longrightarrow> wlast w < x) v")
    case Nil
    then have "next_of v ?p = SM_IDX_MAX" unfolding next_of_def f by simp
    then show ?thesis using n Nil by (simp add: walk_from.simps [of sm w] weave_doclist_walk_next_def)
  next
    case (Cons x xs)
    let ?w' = "w\<lparr>wcur := c, started := True, wlast := x\<rparr>"
    have x: "next_of v ?p = x" "x \<in> set v" "started w \<Longrightarrow> wlast w < x"
      using Cons unfolding next_of_def f by (auto dest: filter_eq_ConsD)
    then have nx: "weave_doclist_walk_next sm w False = (Some x, False, ?w')"
      using n less.prems(3) leD [of x "wlast w"] by (auto simp: weave_doclist_walk_next_def)
    have "filter (\<lambda>y. x < y) (filter (\<lambda>y. started w \<longrightarrow> wlast w < y) v) = filter (\<lambda>y. x < y) v"
      using x(3) by (auto simp: filter_filter intro!: filter_cong)
    moreover have "filter (\<lambda>y. x < y) (x # xs) = xs"
      using less.prems(2) Cons sorted_wrt_filter [of "(<)" v "\<lambda>y. started w \<longrightarrow> wlast w < y"] by (auto simp: filter_id_conv)
    ultimately have xs: "filter (\<lambda>y. x < y) v = xs" using Cons by simp
    have "walk_from sm ?w' = (filter (\<lambda>y. x < y) v, False)"
      using less.hyps [OF next_remaining [OF nx]] less.prems x(2) by auto
    then show ?thesis using nx xs Cons by (simp add: walk_from.simps [of sm w])
  qed
qed

lemma set_listed:
  assumes "sparsemap_keeps sm" "sorted_wrt (<) v" "SM_IDX_MAX \<notin> set v" "weave_doclist_sm_from sm v = Some m"
  shows "set_members sm (sm_get_data sm m) = v" "\<not> set_bad sm (sm_get_data sm m)" "8 \<le> length (sm_get_data sm m)"
  using assms walk_listed [of sm "weave_doclist_walk_open sm (sm_get_data sm m)" v]
  unfolding sparsemap_keeps_def by (auto simp: set_members_def set_bad_def weave_doclist_walk_open_def)

lemma val16: "(of_nat (le_value (le_bytes 2 (unat w))) :: u16) = w"
  using unsigned_less [of w, where ?'a = nat] by (simp add: le_value_bytes)

lemma val64: "(of_nat (le_value (le_bytes 8 (unat w))) :: u64) = w"
  using unsigned_less [of w, where ?'a = nat] by (simp add: le_value_bytes)

lemma list_header_length [simp]: "length (list_header_bytes h) = 40"
  by (simp add: list_header_bytes_def)

lemma list_header_bytes [simp]: "list_header (list_header_bytes h @ rest) = h"
  by (simp add: list_header_def list_header_bytes_def val16 val64)

definition sets_image :: "doclist_header \<Rightarrow> u8 list \<Rightarrow> u8 list \<Rightarrow> u8 list" where
  "sets_image h ad nd = list_header_bytes h @ ad @ replicate (MAXALIGN (length ad) - length ad) 0 @ nd"

lemma encode_image:
  assumes "all \<noteq> []" "weave_doclist_sm_from sm all = Some ma" "length (sm_get_data sm ma) \<le> 0xFFFFFFFF"
    "(if nul \<noteq> [] then map_option (sm_get_data sm) (weave_doclist_sm_from sm nul) else Some []) = Some nd"
    "length nd \<le> 0xFFFFFFFF"
  shows "weave_doclist_encode sm all nul flags = Some (Some (sets_image
     \<lparr>lmagic = WEAVE_DOCLIST_MAGIC, lversion = WEAVE_DOCLIST_VERSION, lflags = flags,
      ndocs = of_nat (length all), nnull = of_nat (length nul), alllen = of_nat (length (sm_get_data sm ma)),
      nulllen = of_nat (length nd), reserved = 0, reserved2 = 0\<rparr> (sm_get_data sm ma) nd))"
proof -
  let ?ad = "sm_get_data sm ma"
  let ?h = "\<lparr>lmagic = WEAVE_DOCLIST_MAGIC, lversion = WEAVE_DOCLIST_VERSION, lflags = flags,
      ndocs = of_nat (length all), nnull = of_nat (length nul), alllen = of_nat (length ?ad),
      nulllen = of_nat (length nd), reserved = 0, reserved2 = 0\<rparr>"
  let ?z = "MAXALIGN (length ?ad) - length ?ad"
  have u: "unat (of_nat (length ?ad) :: u32) = length ?ad" "unat (of_nat (length nd) :: u32) = length nd"
    using assms(3,5) by (simp_all add: unat_of_nat)
  have ge: "length ?ad \<le> MAXALIGN (length ?ad)" by (rule maxalign_ge)
  let ?n = "40 + MAXALIGN (length ?ad) + length nd"
  have 1: "put (replicate ?n 0) 0 (list_header_bytes ?h) = Some (list_header_bytes ?h @ replicate (?n - 40) 0)"
    by (simp add: put_def)
  have 2: "put (list_header_bytes ?h @ replicate (?n - 40) 0) 40 ?ad =
      Some (list_header_bytes ?h @ ?ad @ replicate (?z + length nd) 0)"
    using ge by (simp add: put_def)
  have 3: "put (list_header_bytes ?h @ ?ad @ replicate (?z + length nd) 0) (40 + MAXALIGN (length ?ad)) nd =
      Some (sets_image ?h ?ad nd)"
    using ge by (simp add: put_def sets_image_def replicate_add)
  have 4: "nd = [] \<Longrightarrow> list_header_bytes ?h @ ?ad @ replicate (?z + length nd) 0 = sets_image ?h ?ad nd"
    by (simp add: sets_image_def)
  show ?thesis
    using assms 1 2 3 4
    by (simp add: weave_doclist_encode_def Let_def image_len_value null_off_value u WEAVE_DOCLIST_HDRSIZE_def)
qed


subsection \<open>Properties\<close>

text \<open>
  C30: For every image, every behaviour of the bitmap library and every pair of arrays with room for the header's
  counts: the validator reads no byte outside the image and accepts exactly the sound images (header, exact
  length, both sets ascending with the stated counts, NULL a subset of ALL). The decoder reads and writes
  nothing outside the image and the arrays. It succeeds on every accepted image, and when it succeeds the
  arrays hold the two sets.
\<close>

theorem doclist_check_decode:
  assumes "unat (ndocs (list_header img)) \<le> length all" "unat (nnull (list_header img)) \<le> length nul"
  shows "\<exists>r ok all' nul'. weave_doclist_check sm img = Some r \<and> (r = Inr () \<longleftrightarrow> doclist_ok sm img) \<and>
    weave_doclist_decode sm img all nul = Some (ok, all', nul') \<and> (r = Inr () \<longrightarrow> ok) \<and>
    (ok \<longrightarrow> take (unat (ndocs (list_header img))) all' = all_docs sm img \<and>
           take (unat (nnull (list_header img))) nul' = null_docs sm img)"
  using check_spec [of sm img] decode_spec [OF assms, of sm] by metis

text \<open>A concrete bitmap library: a count word and the members in 8 bytes each.\<close>

fun words_of :: "u8 list \<Rightarrow> u64 list" where
  "words_of (a # b # c # d # e # f # g # h # bs) = of_nat (le_value [a, b, c, d, e, f, g, h]) # words_of bs"
| "words_of bs = []"

definition plain_sparsemap :: "(u64 list, unit) sparsemap" where
  "plain_sparsemap = \<lparr>sm_open = (\<lambda>bs. words_of (drop 8 bs)), sm_next_member = (\<lambda>m p c. (next_of m p, ())),
     SM_CURSOR_INIT = (), sm_create = (\<lambda>_. Some []), sm_add_many_grow = (\<lambda>m v. Some (m @ v)),
     sm_get_data = (\<lambda>m. le_bytes 8 (length m) @ concat (map (\<lambda>x. le_bytes 8 (unat x)) m))\<rparr>"

lemma words_of_le: "words_of (le_bytes 8 (unat x) @ bs) = x # words_of bs"
proof -
  have "length xs = 8 \<Longrightarrow> words_of (xs @ bs) = of_nat (le_value xs) # words_of bs" for xs
    by (cases xs rule: words_of.cases) simp_all
  then show ?thesis using val64 [of x] by simp
qed

lemma plain_keeps: "sparsemap_keeps plain_sparsemap"
proof -
  have "words_of (concat (map (\<lambda>x. le_bytes 8 (unat x)) m)) = m" for m
    by (induction m) (simp_all add: words_of_le)
  then show ?thesis by (auto simp: sparsemap_keeps_def plain_sparsemap_def weave_doclist_sm_from_def split: if_splits)
qed

definition two_docs :: "u8 list" where
  "two_docs = sets_image \<lparr>lmagic = WEAVE_DOCLIST_MAGIC, lversion = WEAVE_DOCLIST_VERSION, lflags = 1, ndocs = 2,
     nnull = 1, alllen = 24, nulllen = 16, reserved = 0, reserved2 = 0\<rparr>
     (le_bytes 8 2 @ le_bytes 8 3 @ le_bytes 8 7) (le_bytes 8 1 @ le_bytes 8 7)"

theorem doclist_check_decode_witness:
  "\<exists>r ok all' nul'. weave_doclist_check plain_sparsemap two_docs = Some r \<and>
    (r = Inr () \<longleftrightarrow> doclist_ok plain_sparsemap two_docs) \<and>
    weave_doclist_decode plain_sparsemap two_docs [0, 0] [0] = Some (ok, all', nul') \<and> (r = Inr () \<longrightarrow> ok) \<and>
    (ok \<longrightarrow> take (unat (ndocs (list_header two_docs))) all' = all_docs plain_sparsemap two_docs \<and>
           take (unat (nnull (list_header two_docs))) nul' = null_docs plain_sparsemap two_docs)"
  by (rule doclist_check_decode) (simp_all add: two_docs_def sets_image_def)

lemma distinct_words: "sorted_wrt (<) v \<Longrightarrow> SM_IDX_MAX \<notin> set v \<Longrightarrow> length v < 2 ^ 64"
proof -
  assume "sorted_wrt (<) v" "SM_IDX_MAX \<notin> set v"
  then have "length v = card (set v)" "set v \<subset> (UNIV :: u64 set)"
    by (auto simp: strict_sorted_iff distinct_card)
  then show ?thesis using psubset_card_mono [of "UNIV :: u64 set" "set v"] by (simp add: card_word)
qed

text \<open>
  Over a bitmap library that keeps its documentation, encoding ascending documents and an ascending subset of
  NULL documents writes inside its buffer. Unless it returns no image (a failed allocation or a set of
  more than \<open>2 ^ 32 - 1\<close> bytes), the validator accepts the image and decoding it gives back both lists.
\<close>

theorem doclist_roundtrip:
  assumes "sparsemap_keeps sm" "sorted_wrt (<) all" "sorted_wrt (<) nul" "SM_IDX_MAX \<notin> set all"
    "set nul \<subseteq> set all" "flags \<in> {0, WEAVE_DOCLIST_F_ALL}"
  shows "\<exists>r. weave_doclist_encode sm all nul flags = Some r \<and>
    (\<forall>img. r = Some img \<longrightarrow> weave_doclist_check sm img = Some (Inr ()) \<and>
       weave_doclist_decode sm img (replicate (length all) 0) (replicate (length nul) 0) = Some (True, all, nul))"
proof -
  let ?nd = "if nul \<noteq> [] then map_option (sm_get_data sm) (weave_doclist_sm_from sm nul) else Some []"
  consider "weave_doclist_encode sm all nul flags = Some None"
    | ma nd where "all \<noteq> []" "weave_doclist_sm_from sm all = Some ma" "?nd = Some nd"
      "length (sm_get_data sm ma) \<le> 0xFFFFFFFF" "length nd \<le> 0xFFFFFFFF"
  proof (cases "all = [] \<or> weave_doclist_sm_from sm all = None \<or> ?nd = None")
    case True
    then have "weave_doclist_encode sm all nul flags = Some None"
      by (auto simp: weave_doclist_encode_def split: option.splits)
    then show thesis by (rule that(1))
  next
    case False
    then obtain ma nd where m: "all \<noteq> []" "weave_doclist_sm_from sm all = Some ma" "?nd = Some nd"
      unfolding de_Morgan_disj not_None_eq by blast
    show thesis
    proof (cases "length (sm_get_data sm ma) \<le> 0xFFFFFFFF \<and> length nd \<le> 0xFFFFFFFF")
      case True
      then show thesis using that(2) [OF m] by simp
    next
      case False
      then have "weave_doclist_encode sm all nul flags = Some None"
        using m by (auto simp: weave_doclist_encode_def Let_def)
      then show thesis by (rule that(1))
    qed
  qed
  then show ?thesis
  proof cases
    case (2 ma nd)
    let ?ad = "sm_get_data sm ma"
    let ?h = "\<lparr>lmagic = WEAVE_DOCLIST_MAGIC, lversion = WEAVE_DOCLIST_VERSION, lflags = flags,
      ndocs = of_nat (length all), nnull = of_nat (length nul), alllen = of_nat (length ?ad),
      nulllen = of_nat (length nd), reserved = 0, reserved2 = 0\<rparr>"
    let ?img = "sets_image ?h ?ad nd"
    have nul: "SM_IDX_MAX \<notin> set nul" using assms(4,5) by auto
    note a = set_listed [OF assms(1,2,4) 2(2)]
    have n: "nul \<noteq> [] \<Longrightarrow> set_members sm nd = nul \<and> \<not> set_bad sm nd \<and> 8 \<le> length nd" "nul = [] \<Longrightarrow> nd = []"
      using 2(3) set_listed [OF assms(1,3) nul] by (auto split: if_splits)
    have u: "unat (ndocs ?h) = length all" "unat (nnull ?h) = length nul" "unat (alllen ?h) = length ?ad" "unat (nulllen ?h) = length nd"
      using 2(4,5) distinct_words [OF assms(2,4)] distinct_words [OF assms(3) nul] by (simp_all add: unat_of_nat)
    have le: "length nul \<le> length all"
      using assms(2,3,5) card_mono [of "set all" "set nul"] by (simp add: strict_sorted_iff distinct_card)
    have hdr: "list_header ?img = ?h" by (simp add: sets_image_def)
    have bytes: "all_bytes ?img = ?ad" "null_bytes ?img = nd"
      using maxalign_ge [of "length ?ad"] unfolding all_bytes_def null_bytes_def hdr u(3) by (simp_all add: sets_image_def)
    have z: "nnull ?h = 0 \<longleftrightarrow> nul = []" "nulllen ?h = 0 \<longleftrightarrow> nd = []" "ndocs ?h \<noteq> 0"
      using u 2(1) unfolding word_unat_eq_iff by simp_all
    have "length ?img = 40 + MAXALIGN (length ?ad) + length nd"
      using maxalign_ge [of "length ?ad"] by (simp add: sets_image_def)
    moreover have "nd = [] \<longleftrightarrow> nul = []" "8 \<le> alllen ?h" "nd \<noteq> [] \<Longrightarrow> 8 \<le> nulllen ?h" "nnull ?h \<le> ndocs ?h"
      using n a(3) le u by (cases "nul = []"; auto simp: word_le_nat_alt)+
    ultimately have "header_ok ?img"
      unfolding header_ok_def hdr Let_def u z using z(3) assms(6)
      by (simp add: WEAVE_DOCLIST_VERSION_def WEAVE_DOCLIST_F_ALL_def)
    moreover have docs: "all_docs sm ?img = all" "null_docs sm ?img = nul"
      using a(1) n(1) z(1) by (auto simp: all_docs_def null_docs_def bytes hdr)
    ultimately have ok: "doclist_ok sm ?img"
      unfolding doclist_ok_def docs bytes hdr u z using a(2) n(1) assms(5) by simp
    then have "weave_doclist_check sm ?img = Some (Inr ())" using check_spec [of sm ?img] by auto
    moreover have "weave_doclist_decode sm ?img (replicate (length all) 0) (replicate (length nul) 0) = Some (True, all, nul)"
      using decode_spec [of ?img "replicate (length all) 0" "replicate (length nul) 0" sm, unfolded hdr u docs] ok
      by auto
    moreover have "weave_doclist_encode sm all nul flags = Some (Some ?img)"
      using 2 by (intro encode_image) simp_all
    ultimately show ?thesis by simp
  qed simp
qed

theorem doclist_roundtrip_witness:
  "\<exists>r. weave_doclist_encode plain_sparsemap [3, 7] [7] 1 = Some r \<and>
    (\<forall>img. r = Some img \<longrightarrow> weave_doclist_check plain_sparsemap img = Some (Inr ()) \<and>
       weave_doclist_decode plain_sparsemap img (replicate (length [3, 7 :: u64]) 0) (replicate (length [7 :: u64]) 0) =
         Some (True, [3, 7], [7]))"
  by (rule doclist_roundtrip [OF plain_keeps]) (simp_all add: SM_IDX_MAX_def WEAVE_DOCLIST_F_ALL_def)

end
