(* ===== verification/Weave_Tidset.thy ===== *)
theory Weave_Tidset
  imports Weave_Gate
begin

text \<open>
  Sets of heap tuple ids as ascending arrays: the set algebra at the head of \<open>src/am/amscan.c\<close>. A \<open>TidSet\<close> is
  the list of its first \<open>n\<close> elements. An allocation PostgreSQL would refuse is the error \<open>AllocSize\<close>.
\<close>

subsection \<open>The order of tuple ids\<close>

definition ItemPointerCompare :: "tid \<Rightarrow> tid \<Rightarrow> int" where
  "ItemPointerCompare a b =
     (if blk a < blk b then - 1 else if blk b < blk a then 1
      else if off a < off b then - 1 else if off b < off a then 1 else 0)"

instantiation tid_ext :: (linorder) linorder
begin

definition less_eq_tid_ext :: "'a tid_scheme \<Rightarrow> 'a tid_scheme \<Rightarrow> bool" where
  "less_eq_tid_ext a b \<longleftrightarrow> blk a < blk b \<or> blk a = blk b \<and> (off a < off b \<or> off a = off b \<and> tid.more a \<le> tid.more b)"

definition less_tid_ext :: "'a tid_scheme \<Rightarrow> 'a tid_scheme \<Rightarrow> bool" where
  "less_tid_ext a b \<longleftrightarrow> blk a < blk b \<or> blk a = blk b \<and> (off a < off b \<or> off a = off b \<and> tid.more a < tid.more b)"

instance
proof
  fix x y z :: "'a tid_scheme"
  show "x < y \<longleftrightarrow> x \<le> y \<and> \<not> y \<le> x"
    by (auto simp: less_tid_ext_def less_eq_tid_ext_def)
  show "x \<le> x"
    by (simp add: less_eq_tid_ext_def)
  show "x \<le> y \<Longrightarrow> y \<le> z \<Longrightarrow> x \<le> z"
    by (auto simp: less_eq_tid_ext_def)
  show "x \<le> y \<Longrightarrow> y \<le> x \<Longrightarrow> x = y"
    by (auto simp: less_eq_tid_ext_def intro: tid.equality)
  show "x \<le> y \<or> y \<le> x"
    by (auto simp: less_eq_tid_ext_def)
qed

end

lemma tid_less: "(a :: tid) < b \<longleftrightarrow> blk a < blk b \<or> blk a = blk b \<and> off a < off b"
  by (auto simp: less_tid_ext_def)

lemma compare_tid [simp]:
  "ItemPointerCompare a b < 0 \<longleftrightarrow> a < b" "ItemPointerCompare a b = 0 \<longleftrightarrow> a = b" "0 < ItemPointerCompare a b \<longleftrightarrow> b < a"
  by (auto simp: ItemPointerCompare_def tid_less not_less intro: tid.equality)

abbreviation valid_tid :: "u64 \<Rightarrow> tid \<Rightarrow> bool" where
  \<comment> \<open>the offsets a docid keeps\<close>
  "valid_tid F t \<equiv> 0 < off t \<and> unat (off t) < unat F"

lemma docid_mono:
  assumes "F \<le> 2 ^ 16" "valid_tid F t" "valid_tid F u"
  shows "weave_tid_to_docid F t < weave_tid_to_docid F u \<longleftrightarrow> t < u"
proof -
  have "ucast (off v) \<le> F" if "valid_tid F v" for v :: tid
    using that unsigned_less [of "off v", where ?'a = nat]
    by (simp add: word_le_nat_alt unsigned_ucast_eq take_bit_nat_eq_self)
  then have mono: "v < w \<Longrightarrow> weave_tid_to_docid F v < weave_tid_to_docid F w" if "valid_tid F v" "valid_tid F w" for v w :: tid
    using docid_strict_mono [of F w v] assms(1) that by (auto simp: tid_less)
  show ?thesis
    using mono [OF assms(2,3)] mono [OF assms(3,2)] by (cases t u rule: linorder_cases) auto
qed

subsection \<open>Operations\<close>

datatype scan_error = AllocSize | CandidateSetTooLarge | TooManyPending | CorruptDoclist | ScanRacedOut

definition MaxAllocSize :: nat where "MaxAllocSize = 0x3fffffff"
definition TIDSET_MAX_N :: nat where "TIDSET_MAX_N = MaxAllocSize div 6"

definition palloc_tids :: "nat \<Rightarrow> scan_error + unit" where
  \<comment> \<open>\<open>palloc (n * sizeof (ItemPointerData) + 1)\<close>\<close>
  "palloc_tids n = (if MaxAllocSize < n * 6 + 1 then Inl AllocSize else Inr ())"

fun uniq_after :: "tid \<Rightarrow> tid list \<Rightarrow> tid list" where
  \<comment> \<open>the last element kept, then the rest\<close>
  "uniq_after x [] = [x]"
| "uniq_after x (y # ys) = (if ItemPointerCompare x y \<noteq> 0 then x # uniq_after y ys else uniq_after x ys)"

definition tidset_sort_uniq :: "tid list \<Rightarrow> tid list" where
  "tidset_sort_uniq s =
     (if TIDSET_MAX_N < length s then [] else if length s \<le> 1 then s
      else case sort s of [] \<Rightarrow> [] | x # xs \<Rightarrow> uniq_after x xs)"

definition weave_filter_tombstoned_seg :: "u64 \<Rightarrow> (u64 \<Rightarrow> bool) option \<Rightarrow> tid list \<Rightarrow> tid list" where
  \<comment> \<open>the segment's tombstone map, if it has one; \<open>F\<close> is the docid factor\<close>
  "weave_filter_tombstoned_seg F t s =
     (case t of None \<Rightarrow> s
      | Some dead \<Rightarrow>
          if TIDSET_MAX_N < length s then []
          else filter (\<lambda>x. \<not> dead (weave_tid_to_docid F x)) s)"

function gallop_up :: "tid list \<Rightarrow> tid \<Rightarrow> nat \<Rightarrow> nat \<Rightarrow> nat \<times> nat" where
  \<comment> \<open>\<open>lo\<close>, and \<open>j\<close> with the step \<open>2 ^ j\<close>\<close>
  "gallop_up t key lo j =
     (if lo < length t \<and> ItemPointerCompare (t ! lo) key < 0 then
        if lo + 2 ^ j < length t \<and> ItemPointerCompare (t ! (lo + 2 ^ j)) key < 0
        then gallop_up t key (lo + 2 ^ j) (Suc j) else (lo, j)
      else (lo, j))"
  by auto
termination
  by (relation "measure (\<lambda>(t, key, lo, j). length t - lo)") (auto intro!: diff_less_mono2)

function gallop_down :: "tid list \<Rightarrow> tid \<Rightarrow> nat \<Rightarrow> nat \<Rightarrow> nat" where
  "gallop_down t key lo hi =
     (if lo < hi then
        let mid = (lo + hi) div 2 in
        if ItemPointerCompare (t ! mid) key < 0 then gallop_down t key (mid + 1) hi else gallop_down t key lo mid
      else lo)"
  by auto
termination
  by (relation "measure (\<lambda>(t, key, lo, hi). hi - lo)") (auto simp: Let_def)

declare gallop_up.simps [simp del] gallop_down.simps [simp del]

definition tidset_gallop :: "tid list \<Rightarrow> nat \<Rightarrow> tid \<Rightarrow> nat" where
  "tidset_gallop t lo key =
     (let (lo, j) = gallop_up t key lo 0 in gallop_down t key lo (min (lo + 2 ^ j) (length t - 1)))"

definition tidset_sane :: "tid list \<Rightarrow> tid list" where
  "tidset_sane s = (if TIDSET_MAX_N < length s then [] else s)"

fun and_gallop :: "tid list \<Rightarrow> nat \<Rightarrow> tid list \<Rightarrow> tid list" where
  \<comment> \<open>the larger set and the index in it, the rest of the smaller set\<close>
  "and_gallop lg li [] = []"
| "and_gallop lg li (x # sm) =
     (let li = tidset_gallop lg li x in
      if length lg \<le> li then []
      else if ItemPointerCompare (lg ! li) x = 0 then x # and_gallop lg li sm else and_gallop lg li sm)"

fun and_merge :: "tid list \<Rightarrow> tid list \<Rightarrow> tid list" where
  "and_merge (a # as) (b # bs) =
     (let c = ItemPointerCompare a b in
      if c = 0 then a # and_merge as bs else if c < 0 then and_merge as (b # bs) else and_merge (a # as) bs)"
| "and_merge _ _ = []"

definition tidset_and :: "tid list \<Rightarrow> tid list \<Rightarrow> scan_error + tid list" where
  "tidset_and a b =
     (let a = tidset_sane a; b = tidset_sane b in
      case palloc_tids (min (length a) (length b)) of Inl e \<Rightarrow> Inl e
      | Inr _ \<Rightarrow>
          if 0 < length a \<and> 0 < length b \<and> (4 * length b < length a \<or> 4 * length a < length b)
          then Inr (and_gallop (if length a \<le> length b then b else a) 0 (if length a \<le> length b then a else b))
          else Inr (and_merge a b))"

fun or_merge :: "tid list \<Rightarrow> tid list \<Rightarrow> tid list" where
  "or_merge (a # as) (b # bs) =
     (let c = ItemPointerCompare a b in
      if c = 0 then a # or_merge as bs else if c < 0 then a # or_merge as (b # bs) else b # or_merge (a # as) bs)"
| "or_merge as [] = as"
| "or_merge [] bs = bs"

definition tidset_or :: "tid list \<Rightarrow> tid list \<Rightarrow> scan_error + tid list" where
  "tidset_or a b =
     (let a = tidset_sane a; b = tidset_sane b in
      case palloc_tids (length a + length b) of Inl e \<Rightarrow> Inl e | Inr _ \<Rightarrow> Inr (or_merge a b))"

fun andnot_merge :: "tid list \<Rightarrow> tid list \<Rightarrow> tid list" where
  "andnot_merge (a # as) (b # bs) =
     (let c = ItemPointerCompare a b in
      if c = 0 then andnot_merge as bs
      else if c < 0 then a # andnot_merge as (b # bs) else andnot_merge (a # as) bs)"
| "andnot_merge as [] = as"
| "andnot_merge [] bs = []"

definition tidset_andnot :: "tid list \<Rightarrow> tid list \<Rightarrow> scan_error + tid list" where
  "tidset_andnot a b =
     (let a = tidset_sane a; b = tidset_sane b in
      case palloc_tids (length a) of Inl e \<Rightarrow> Inl e | Inr _ \<Rightarrow> Inr (andnot_merge a b))"

definition tidset_append :: "tid list \<Rightarrow> nat \<Rightarrow> tid \<Rightarrow> scan_error + tid list \<times> nat" where
  \<comment> \<open>the accumulator and its capacity\<close>
  "tidset_append s cap t =
     (if cap \<le> length s then
        if TIDSET_MAX_N \<le> cap then Inl TooManyPending
        else Inr (s @ [t], if TIDSET_MAX_N div 2 < cap then TIDSET_MAX_N else max (cap * 2) 256)
      else Inr (s @ [t], cap))"


subsection \<open>What they compute\<close>

abbreviation asc :: "'a::linorder list \<Rightarrow> bool" where
  "asc \<equiv> sorted_wrt (<)"

lemma asc_distinct: "asc s \<Longrightarrow> distinct s"
  by (simp add: strict_sorted_iff)

lemma asc_set_eq: "asc s \<Longrightarrow> s = sorted_list_of_set (set s)"
  by (simp add: strict_sorted_iff sorted_list_of_set.idem_if_sorted_distinct)

lemma uniq_after_spec:
  "sorted (x # xs) \<Longrightarrow> asc (uniq_after x xs) \<and> set (uniq_after x xs) = insert x (set xs)"
proof (induction x xs rule: uniq_after.induct)
  case (2 x y ys)
  then show ?case by (cases "x = y") auto
qed simp

lemma sort_uniq_spec:
  assumes "length s \<le> TIDSET_MAX_N"
  shows "tidset_sort_uniq s = sorted_list_of_set (set s)"
proof (cases "length s \<le> 1")
  case True
  then consider "s = []" | x where "s = [x]" by (cases s) auto
  then show ?thesis using assms by cases (auto simp: tidset_sort_uniq_def)
next
  case False
  then obtain x xs where x: "sort s = x # xs" by (cases "sort s") (metis list.size(3) length_sort le0 le_trans One_nat_def, simp)
  then have "sorted (x # xs)" "set (x # xs) = set s" by (metis sorted_sort, metis set_sort)
  then show ?thesis
    using False assms x uniq_after_spec [of x xs] asc_set_eq [of "uniq_after x xs"] by (simp add: tidset_sort_uniq_def)
qed

lemma and_merge_spec: "asc a \<Longrightarrow> asc b \<Longrightarrow> and_merge a b = filter (\<lambda>x. x \<in> set b) a"
proof (induction a b rule: and_merge.induct)
  case (1 a as b bs)
  consider "a = b" | "a < b" | "b < a" by force
  then show ?case
  proof cases
    case 1
    then show ?thesis using "1.IH"(1) "1.prems" by (auto intro!: filter_cong)
  next
    case 2
    then show ?thesis using "1.IH"(2) "1.prems" by auto
  next
    case 3
    then have "filter (\<lambda>x. x \<in> set bs) (a # as) = filter (\<lambda>x. x \<in> set (b # bs)) (a # as)"
      using "1.prems" by (intro filter_cong) auto
    then show ?thesis using 3 "1.IH"(3) "1.prems" by (auto simp: Let_def)
  qed
qed auto

lemma or_merge_spec: "asc a \<Longrightarrow> asc b \<Longrightarrow> asc (or_merge a b) \<and> set (or_merge a b) = set a \<union> set b"
proof (induction a b rule: or_merge.induct)
  case (1 a as b bs)
  consider "a = b" | "a < b" | "b < a" by force
  then show ?case
  proof cases
    case 1
    then show ?thesis using "1.IH"(1) "1.prems" by auto
  next
    case 2
    then show ?thesis using "1.IH"(2) "1.prems" by auto
  next
    case 3
    then have "ItemPointerCompare a b \<noteq> 0" "\<not> ItemPointerCompare a b < 0" by auto
    then show ?thesis using 3 "1.IH"(3) "1.prems" by auto
  qed
qed auto

lemma andnot_merge_spec: "asc a \<Longrightarrow> asc b \<Longrightarrow> andnot_merge a b = filter (\<lambda>x. x \<notin> set b) a"
proof (induction a b rule: andnot_merge.induct)
  case (1 a as b bs)
  consider "a = b" | "a < b" | "b < a" by force
  then show ?case
  proof cases
    case 1
    then show ?thesis using "1.IH"(1) "1.prems" by (auto intro!: filter_cong)
  next
    case 2
    then show ?thesis using "1.IH"(2) "1.prems" by auto
  next
    case 3
    then have "filter (\<lambda>x. x \<notin> set bs) (a # as) = filter (\<lambda>x. x \<notin> set (b # bs)) (a # as)"
      using "1.prems" by (intro filter_cong) auto
    then show ?thesis using 3 "1.IH"(3) "1.prems" by (auto simp: Let_def)
  qed
qed auto

lemma gallop_up_spec:
  assumes "gallop_up t key lo j = (l, k)" and "asc t" and "\<forall>i<lo. i < length t \<longrightarrow> t ! i < key" and "lo \<le> length t"
  shows "lo \<le> l \<and> (lo < length t \<longrightarrow> l < length t) \<and> (\<forall>i<l. i < length t \<longrightarrow> t ! i < key) \<and>
    (l + 2 ^ k < length t \<longrightarrow> key \<le> t ! (l + 2 ^ k))"
  using assms
proof (induction t key lo j rule: gallop_up.induct)
  case (1 t key lo j)
  have mono: "i < m \<Longrightarrow> m < length t \<Longrightarrow> t ! m < key \<Longrightarrow> t ! i < key" for i m
    using 1(3) by (meson order.strict_trans sorted_wrt_nth_less)
  show ?case
  proof (cases "lo < length t \<and> t ! lo < key \<and> lo + 2 ^ j < length t \<and> t ! (lo + 2 ^ j) < key")
    case True
    then have "gallop_up t key (lo + 2 ^ j) (Suc j) = (l, k)" using 1(2) by (simp add: gallop_up.simps [of t key lo j])
    moreover have "\<forall>i<lo + 2 ^ j. i < length t \<longrightarrow> t ! i < key" using True mono by blast
    ultimately show ?thesis using True 1(1) 1(3) by fastforce
  next
    case False
    then have l: "l = lo" "k = j" using 1(2) by (auto simp: gallop_up.simps [of t key lo j] split: if_splits)
    have "key \<le> t ! (lo + 2 ^ j)" if "lo + 2 ^ j < length t"
      using False that sorted_wrt_nth_less [OF 1(3), of lo "lo + 2 ^ j"] by (cases "t ! lo < key") (auto simp: not_less)
    then show ?thesis using l 1(4) by simp
  qed
qed

lemma gallop_down_spec:
  assumes "asc t" and "lo \<le> hi" "hi < length t" and "\<forall>i<lo. t ! i < key" and "hi = length t - 1 \<or> key \<le> t ! hi"
  shows "lo \<le> gallop_down t key lo hi \<and> gallop_down t key lo hi < length t \<and>
    (\<forall>i<gallop_down t key lo hi. t ! i < key) \<and>
    (gallop_down t key lo hi = length t - 1 \<or> key \<le> t ! gallop_down t key lo hi)"
  using assms
proof (induction t key lo hi rule: gallop_down.induct)
  case (1 t key lo hi)
  let ?mid = "(lo + hi) div 2"
  show ?case
  proof (cases "lo < hi")
    case True
    then have mid: "lo \<le> ?mid" "?mid < hi" by auto
    have below: "t ! i < key" if "t ! m < key" "i < m" "m < length t" for i m
      using sorted_wrt_nth_less [OF 1(3) that(2,3)] that(1) by (rule order.strict_trans)
    show ?thesis
    proof (cases "t ! ?mid < key")
      case lt: True
      have "\<forall>i<?mid + 1. t ! i < key"
        using lt below [of ?mid] 1(5) mid by (auto simp: less_Suc_eq)
      then show ?thesis using "1.IH"(1) [OF True refl] lt True 1(3-) mid by (simp add: gallop_down.simps [of t key lo hi] Let_def)
    next
      case False
      then show ?thesis
        using "1.IH"(2) [OF True refl] True 1(3-) mid by (simp add: gallop_down.simps [of t key lo hi] Let_def linorder_not_less [symmetric])
    qed
  next
    case False
    then show ?thesis using 1(3-) by (simp add: gallop_down.simps [of t key hi hi])
  qed
qed

lemma gallop_spec:
  assumes "asc t" and "lo < length t" and "\<forall>i<lo. t ! i < key"
  shows "tidset_gallop t lo key < length t \<and> (\<forall>i<tidset_gallop t lo key. t ! i < key) \<and>
    (tidset_gallop t lo key = length t - 1 \<or> key \<le> t ! tidset_gallop t lo key)"
proof -
  obtain l k where lk: "gallop_up t key lo 0 = (l, k)" by fastforce
  then have u: "l < length t" "\<forall>i<l. t ! i < key" "l + 2 ^ k < length t \<longrightarrow> key \<le> t ! (l + 2 ^ k)"
    using gallop_up_spec [OF lk assms(1)] assms(2,3) by auto
  define h where "h = min (l + 2 ^ k) (length t - 1)"
  have "l \<le> h" "h < length t" using u(1) by (simp_all add: h_def)
  moreover have "h = length t - 1 \<or> key \<le> t ! h"
  proof (cases "l + 2 ^ k < length t")
    case True
    then have "h = l + 2 ^ k" by (simp add: h_def)
    then show ?thesis using True u(3) by simp
  next
    case False
    then show ?thesis by (simp add: h_def)
  qed
  moreover have "tidset_gallop t lo key = gallop_down t key l h" by (simp add: tidset_gallop_def lk h_def)
  ultimately show ?thesis
    using gallop_down_spec [OF assms(1), of l h key] u(2) by simp
qed

lemma and_gallop_spec:
  "asc lg \<Longrightarrow> asc sm \<Longrightarrow> li < length lg \<Longrightarrow> (\<And>i x. i < li \<Longrightarrow> x \<in> set sm \<Longrightarrow> lg ! i < x) \<Longrightarrow>
   and_gallop lg li sm = filter (\<lambda>x. x \<in> set lg) sm"
proof (induction sm arbitrary: li)
  case (Cons x sm)
  let ?l = "tidset_gallop lg li x"
  have g: "?l < length lg" "\<forall>i<?l. lg ! i < x" "?l = length lg - 1 \<or> x \<le> lg ! ?l"
    using gallop_spec [OF Cons.prems(1,3), of x] Cons.prems(4) by auto
  have rest: "and_gallop lg ?l sm = filter (\<lambda>x. x \<in> set lg) sm"
    using Cons.IH [OF Cons.prems(1) _ g(1)] g(2) Cons.prems(2) by fastforce
  have "x \<in> set lg \<longleftrightarrow> lg ! ?l = x"
  proof
    assume "x \<in> set lg"
    then obtain i where i: "i < length lg" "lg ! i = x" by (auto simp: in_set_conv_nth)
    then have "?l \<le> i" using g(2) by (metis less_irrefl not_less)
    then show "lg ! ?l = x"
      using i g(1,3) sorted_wrt_nth_less [OF Cons.prems(1), of ?l i] by (cases "?l = i") auto
  next
    assume "lg ! ?l = x"
    then show "x \<in> set lg" using nth_mem [OF g(1)] by simp
  qed
  then show ?case using g(1) rest by (auto simp: Let_def)
qed simp


subsection \<open>Ascending sets\<close>

definition tidset_ok :: "tid list \<Rightarrow> bool" where
  \<comment> \<open>ascending, and of a plausible size\<close>
  "tidset_ok s \<longleftrightarrow> asc s \<and> length s \<le> TIDSET_MAX_N"

lemma tidset_ok_Nil [simp]: "tidset_ok []"
  by (simp add: tidset_ok_def)

lemma tidset_ok_filter: "tidset_ok s \<Longrightarrow> tidset_ok (filter P s)"
  using length_filter_le [of P s] by (auto simp: tidset_ok_def sorted_wrt_filter simp del: length_filter_le)

lemma sane_ok [simp]: "tidset_ok s \<Longrightarrow> tidset_sane s = s"
  by (simp add: tidset_ok_def tidset_sane_def)

lemma sort_uniq_ok: "tidset_ok (tidset_sort_uniq s)"
proof (cases "length s \<le> TIDSET_MAX_N")
  case True
  then show ?thesis
    using card_length [of s] by (auto simp: sort_uniq_spec tidset_ok_def)
next
  case False
  then show ?thesis by (simp add: tidset_sort_uniq_def)
qed

lemma sort_uniq_set: "length s \<le> TIDSET_MAX_N \<Longrightarrow> set (tidset_sort_uniq s) = set s"
  by (simp add: sort_uniq_spec)

lemma palloc_small: "n \<le> TIDSET_MAX_N \<Longrightarrow> palloc_tids n = Inr ()"
  by (simp add: palloc_tids_def TIDSET_MAX_N_def MaxAllocSize_def)

lemma tidset_and_spec:
  assumes "tidset_ok a" "tidset_ok b"
  shows "\<exists>r. tidset_and a b = Inr r \<and> tidset_ok r \<and> set r = set a \<inter> set b"
proof -
  have s: "asc a" "asc b" using assms by (simp_all add: tidset_ok_def)
  have "palloc_tids (min (length a) (length b)) = Inr ()" by (rule palloc_small) (use assms in \<open>auto simp: tidset_ok_def min_def\<close>)
  then have "tidset_and a b = Inr (filter (\<lambda>x. x \<in> set b) a) \<or> tidset_and a b = Inr (filter (\<lambda>x. x \<in> set a) b)"
    using assms and_merge_spec [OF s] and_gallop_spec [OF s, of 0] and_gallop_spec [OF s(2,1), of 0]
    by (auto simp: tidset_and_def Let_def)
  then show ?thesis using assms tidset_ok_filter by fastforce
qed

lemma tidset_andnot_spec:
  assumes "tidset_ok a" "tidset_ok b"
  shows "\<exists>r. tidset_andnot a b = Inr r \<and> tidset_ok r \<and> set r = set a - set b"
proof -
  have "tidset_andnot a b = Inr (filter (\<lambda>x. x \<notin> set b) a)"
    using assms andnot_merge_spec [of a b] palloc_small [of "length a"] by (auto simp: tidset_andnot_def tidset_ok_def Let_def)
  then show ?thesis using assms tidset_ok_filter by fastforce
qed

lemma tidset_or_spec:
  assumes "tidset_ok a" "tidset_ok b" "tidset_or a b = Inr r"
  shows "tidset_ok r \<and> set r = set a \<union> set b"
proof -
  have le: "length a + length b \<le> TIDSET_MAX_N" and r: "r = or_merge a b"
    using assms by (auto simp: tidset_or_def palloc_tids_def TIDSET_MAX_N_def MaxAllocSize_def Let_def split: if_splits)
  have s: "asc r \<and> set r = set a \<union> set b"
    unfolding r by (rule or_merge_spec) (use assms in \<open>simp_all add: tidset_ok_def\<close>)
  then have "length r = card (set a \<union> set b)" using distinct_card [of r] asc_distinct [of r] by simp
  also have "\<dots> \<le> length a + length b" using card_Un_le [of "set a" "set b"] card_length [of a] card_length [of b] by linarith
  finally show ?thesis using s le by (simp add: tidset_ok_def)
qed

lemma tidset_or_error: "tidset_or a b = Inl e \<Longrightarrow> e = AllocSize \<and> TIDSET_MAX_N < length a + length b"
  by (auto simp: tidset_or_def palloc_tids_def tidset_sane_def TIDSET_MAX_N_def MaxAllocSize_def Let_def split: if_splits)

lemma filter_tombstoned_spec:
  assumes "tidset_ok s"
  shows "tidset_ok (weave_filter_tombstoned_seg F t s) \<and>
    set (weave_filter_tombstoned_seg F t s) =
      {x \<in> set s. \<forall>dead. t = Some dead \<longrightarrow> \<not> dead (weave_tid_to_docid F x)}"
  using assms tidset_ok_filter [OF assms] by (cases t) (auto simp: weave_filter_tombstoned_seg_def tidset_ok_def)

subsection \<open>Properties\<close>

text \<open>
  C33: the set algebra of the scan. On ascending arrays of a plausible size the galloping and the merging
  intersection, the difference and the union give the ascending arrays of the intersection, the difference and the
  union; only a union whose array PostgreSQL would not allocate raises, and sorting removes exactly the duplicates.
\<close>

theorem tidset_algebra:
  assumes "tidset_ok a" "tidset_ok b"
  shows "(\<exists>r. tidset_and a b = Inr r \<and> tidset_ok r \<and> set r = set a \<inter> set b) \<and>
    (\<exists>r. tidset_andnot a b = Inr r \<and> tidset_ok r \<and> set r = set a - set b) \<and>
    (case tidset_or a b of
       Inl e \<Rightarrow> e = AllocSize \<and> TIDSET_MAX_N < length a + length b
     | Inr r \<Rightarrow> tidset_ok r \<and> set r = set a \<union> set b) \<and>
    (\<forall>s. length s \<le> TIDSET_MAX_N \<longrightarrow> tidset_sort_uniq s = sorted_list_of_set (set s))"
proof (intro conjI)
  show "case tidset_or a b of Inl e \<Rightarrow> e = AllocSize \<and> TIDSET_MAX_N < length a + length b
      | Inr r \<Rightarrow> tidset_ok r \<and> set r = set a \<union> set b"
    using tidset_or_spec [OF assms] tidset_or_error [of a b] by (cases "tidset_or a b") simp_all
  show "\<forall>s. length s \<le> TIDSET_MAX_N \<longrightarrow> tidset_sort_uniq s = sorted_list_of_set (set s)" by (simp add: sort_uniq_spec)
qed (fact tidset_and_spec [OF assms], fact tidset_andnot_spec [OF assms])

theorem tidset_algebra_witness:
  "tidset_and [\<lparr>blk = 1, off = 2\<rparr>, \<lparr>blk = 1, off = 3\<rparr>] [\<lparr>blk = 1, off = 3\<rparr>] = Inr [\<lparr>blk = 1, off = 3\<rparr>] \<and>
   (\<exists>r. tidset_andnot [\<lparr>blk = 1, off = 2\<rparr>, \<lparr>blk = 1, off = 3\<rparr>] [\<lparr>blk = 1, off = 3\<rparr>] = Inr r \<and> set r = {\<lparr>blk = 1, off = 2\<rparr>})"
proof -
  let ?a = "[\<lparr>blk = 1, off = 2\<rparr>, \<lparr>blk = 1, off = 3\<rparr>] :: tid list" and ?b = "[\<lparr>blk = 1, off = 3\<rparr>] :: tid list"
  have ok: "tidset_ok ?a" "tidset_ok ?b" by (simp_all add: tidset_ok_def TIDSET_MAX_N_def MaxAllocSize_def tid_less)
  obtain r where r: "tidset_and ?a ?b = Inr r" "tidset_ok r" "set r = set ?a \<inter> set ?b"
    using tidset_algebra [OF ok, THEN conjunct1] by blast
  obtain s where s: "tidset_andnot ?a ?b = Inr s" "set s = set ?a - set ?b"
    using tidset_algebra [OF ok, THEN conjunct2, THEN conjunct1] by blast
  have one: "set r = {\<lparr>blk = 1, off = 3\<rparr>}" unfolding r(3) by simp
  have "asc r" using r(2) by (simp add: tidset_ok_def)
  then have "r = sorted_list_of_set {\<lparr>blk = 1, off = 3\<rparr>}" unfolding one [symmetric] by (rule asc_set_eq)
  moreover have "set s = {\<lparr>blk = 1, off = 2\<rparr>}" unfolding s(2) by (simp add: insert_Diff_if)
  ultimately show ?thesis using r(1) s(1) by simp
qed

end
