(* ===== verification/Weave_Dict.thy ===== *)
theory Weave_Dict
  imports Weave_Tidset Weave_Doc "HOL-Library.Monad_Syntax"
begin

text \<open>
  A segment's dictionary: pages of entries in term order, and a sparse block index that names every page's first
  term (\<open>weave_write_dictionary_iter\<close> of \<open>src/am/ambuild.c\<close>; the lookups of \<open>src/am/amscan.c\<close>). A page is the
  list of its entries, a page chain the list of its pages, a block number the place in the chain, and an entry
  carries its decoded posting run.
\<close>

subsection \<open>Pages\<close>

record posting =
  ptid :: tid
  ptf :: u32
  ppos :: "u32 list option"

record dict_entry =
  dterm :: "u8 list"
  dposts :: "posting list"

record dict =
  dpages :: "dict_entry list list"
  dindex :: "(u8 list \<times> nat) list list"

subsection \<open>Writing\<close>

fun fill_pages :: "('a \<Rightarrow> nat) \<Rightarrow> nat \<Rightarrow> nat \<Rightarrow> 'a list \<Rightarrow> 'a list list option" where
  \<comment> \<open>the bytes used on the open page, and the open page first in the result; \<open>None\<close>: an entry is written past the
      room of its page\<close>
  "fill_pages need room used [] = Some [[]]"
| "fill_pages need room used (x # xs) =
     (let newpage = room < used + need x; at = (if newpage then 0 else used)
      in if room < at + need x then None
         else (case fill_pages need room (at + need x) xs of
                 Some (p # ps) \<Rightarrow> Some (if newpage then [] # (x # p) # ps else (x # p) # ps)
               | _ \<Rightarrow> None))"

definition new_pages :: "('a \<Rightarrow> nat) \<Rightarrow> nat \<Rightarrow> 'a list \<Rightarrow> 'a list list option" where
  \<comment> \<open>the first element opens the first page\<close>
  "new_pages need room xs =
     (case xs of [] \<Rightarrow> Some []
      | x # xs \<Rightarrow>
          if room < need x then None
          else (case fill_pages need room (need x) xs of Some (p # ps) \<Rightarrow> Some ((x # p) # ps) | _ \<Rightarrow> None))"

abbreviation dict_need :: "u8 list \<Rightarrow> nat" where
  \<comment> \<open>the bytes of an entry: \<open>sizeof(WeaveDictEntry)\<close> is 20\<close>
  "dict_need t \<equiv> MAXALIGN (20 + length t)"

abbreviation index_need :: "u8 list \<times> nat \<Rightarrow> nat" where
  "index_need \<equiv> (\<lambda>(t, b). MAXALIGN (8 + length t))"

definition weave_write_dictionary_iter ::
  "('r \<Rightarrow> u8 list) \<Rightarrow> nat \<Rightarrow> 'r list \<Rightarrow> ('r list list \<times> (u8 list \<times> nat) list list) option" where
  \<comment> \<open>the dictionary's pages and the block index over records with these terms; \<open>room\<close> is the space for entries on
      an empty page\<close>
  "weave_write_dictionary_iter trm room rs = do {
     pages \<leftarrow> new_pages (\<lambda>r. dict_need (trm r)) room rs;
     index \<leftarrow> new_pages index_need room (zip (map (\<lambda>p. trm (hd p)) pages) [0..<length pages]);
     Some (if pages = [] then [[]] else pages, index)
   }"

subsection \<open>Looking up\<close>

fun seek_page :: "(u8 list \<times> nat) list \<Rightarrow> u8 list \<Rightarrow> nat \<Rightarrow> nat \<times> bool" where
  "seek_page [] t best = (best, False)"
| "seek_page ((u, b) # es) t best = (if term_cmp u t \<le> 0 then seek_page es t b else (best, True))"

fun seek_pages :: "(u8 list \<times> nat) list list \<Rightarrow> u8 list \<Rightarrow> nat \<Rightarrow> nat" where
  "seek_pages [] t best = best"
| "seek_pages (p # ps) t best = (let (best, overshot) = seek_page p t best in if overshot then best else seek_pages ps t best)"

definition weave_dict_seek_at :: "dict \<Rightarrow> u8 list \<Rightarrow> nat" where
  "weave_dict_seek_at d t = seek_pages (dindex d) t 0"

fun find_entry :: "dict_entry list \<Rightarrow> u8 list \<Rightarrow> dict_entry option" where
  "find_entry [] t = None"
| "find_entry (e # es) t =
     (if length (dterm e) = length t \<and> memcmp (dterm e) t = 0 then Some e else find_entry es t)"

fun walk_pages :: "dict_entry list list \<Rightarrow> u8 list \<Rightarrow> bool \<Rightarrow> dict_entry option" where
  "walk_pages [] t onlyone = None"
| "walk_pages (p # ps) t onlyone =
     (case find_entry p t of Some e \<Rightarrow> Some e | None \<Rightarrow> if onlyone then None else walk_pages ps t onlyone)"

definition find_term :: "dict \<Rightarrow> u8 list \<Rightarrow> dict_entry option" where
  "find_term d t = walk_pages (drop (weave_dict_seek_at d t) (dpages d)) t (dindex d \<noteq> [])"

definition weave_lookup_term :: "dict \<Rightarrow> u8 list \<Rightarrow> scan_error + tid list option" where
  "weave_lookup_term d t =
     (case find_term d t of None \<Rightarrow> Inr None
      | Some e \<Rightarrow>
          if MaxAllocSize < max (length (dposts e)) 1 * 6 then Inl AllocSize
          else Inr (Some (tidset_sort_uniq (map ptid (dposts e)))))"

definition prefix_cmp :: "u8 list \<Rightarrow> u8 list \<Rightarrow> int" where
  \<comment> \<open>negative before the prefix's run, positive after it, 0 in it\<close>
  "prefix_cmp u pre =
     (let n = min (length u) (length pre); c = memcmp (take n u) (take n pre)
      in if c < 0 \<or> c = 0 \<and> length u < length pre then - 1 else if 0 < c then 1 else 0)"

fun prefix_page :: "dict_entry list \<Rightarrow> u8 list \<Rightarrow> tid list \<Rightarrow> tid list \<times> bool" where
  "prefix_page [] pre tids = (tids, False)"
| "prefix_page (e # es) pre tids =
     (let c = prefix_cmp (dterm e) pre
      in if c < 0 then prefix_page es pre tids
         else if 0 < c then (tids, True)
         else prefix_page es pre (tids @ map ptid (dposts e)))"

fun prefix_pages :: "dict_entry list list \<Rightarrow> u8 list \<Rightarrow> tid list \<Rightarrow> tid list" where
  "prefix_pages [] pre tids = tids"
| "prefix_pages (p # ps) pre tids =
     (let (tids, stop) = prefix_page p pre tids in if stop then tids else prefix_pages ps pre tids)"

definition weave_lookup_prefix :: "dict \<Rightarrow> u8 list \<Rightarrow> tid list" where
  "weave_lookup_prefix d pre =
     tidset_sort_uniq (prefix_pages (drop (weave_dict_seek_at d pre) (dpages d)) pre [])"

fun universe_add :: "nat \<Rightarrow> tid list \<Rightarrow> nat \<Rightarrow> tid list \<Rightarrow> scan_error + (tid list \<times> nat)" where
  \<comment> \<open>the buffer and its capacity\<close>
  "universe_add fold_at u cap [] = Inr (u, cap)"
| "universe_add fold_at u cap (t # ts) =
     (if cap \<le> length u then
        let u = (if fold_at \<le> length u then tidset_sort_uniq u else u) in
        if cap \<le> length u then
          if MaxAllocSize < cap * 2 * 6 then Inl CandidateSetTooLarge
          else universe_add fold_at (u @ [t]) (cap * 2) ts
        else universe_add fold_at (u @ [t]) cap ts
      else universe_add fold_at (u @ [t]) cap ts)"

definition weave_universe_bounded :: "nat \<Rightarrow> dict \<Rightarrow> scan_error + tid list" where
  \<comment> \<open>the segment's document count\<close>
  "weave_universe_bounded nd d =
     (let f = min (nd * 2 + 1024) TIDSET_MAX_N; fold_at = (if f < 1024 then 1024 else f) in
      map_sum id (\<lambda>(u, cap). tidset_sort_uniq u)
        (universe_add fold_at [] 64 (concat (map (\<lambda>e. map ptid (dposts e)) (concat (dpages d))))))"

subsection \<open>A well-formed dictionary\<close>

definition dict_terms :: "dict \<Rightarrow> u8 list list" where
  "dict_terms d = map dterm (concat (dpages d))"

definition index_ok :: "dict \<Rightarrow> bool" where
  "index_ok d \<longleftrightarrow> concat (dindex d) = zip (map (\<lambda>p. dterm (hd p)) (dpages d)) [0..<length (dpages d)] \<and>
     [] \<notin> set (dpages d)"

definition dict_ok :: "dict \<Rightarrow> bool" where
  "dict_ok d \<longleftrightarrow> asc (dict_terms d) \<and> (dindex d = [] \<or> index_ok d)"

abbreviation pages_fit :: "('a \<Rightarrow> nat) \<Rightarrow> nat \<Rightarrow> 'a list list \<Rightarrow> bool" where
  "pages_fit need room ps \<equiv> list_all (\<lambda>p. sum_list (map need p) \<le> room) ps"

lemma fill_pages_spec:
  "used \<le> room \<Longrightarrow>
   (case fill_pages need room used xs of None \<Rightarrow> \<exists>x\<in>set xs. room < need x
    | Some pages \<Rightarrow> \<exists>p ps. pages = p # ps \<and> concat (p # ps) = xs \<and> [] \<notin> set ps \<and>
        used + sum_list (map need p) \<le> room \<and> pages_fit need room ps \<and> list_all (\<lambda>x. need x \<le> room) xs)"
proof (induction xs arbitrary: used)
  case (Cons x xs)
  let ?at = "if room < used + need x then 0 else used"
  show ?case
  proof (cases "room < ?at + need x")
    case True
    then show ?thesis by (auto simp: Let_def split: if_splits)
  next
    case False
    then have "?at + need x \<le> room" by simp
    from Cons.IH [OF this] show ?thesis using False Cons.prems
      by (cases "fill_pages need room (?at + need x) xs") (auto simp: Let_def split: if_splits)
  qed
qed simp

lemma new_pages_spec:
  "case new_pages need room xs of None \<Rightarrow> \<exists>x\<in>set xs. room < need x
   | Some ps \<Rightarrow> concat ps = xs \<and> [] \<notin> set ps \<and> pages_fit need room ps \<and> list_all (\<lambda>x. need x \<le> room) xs"
proof (cases xs)
  case (Cons x ys)
  then show ?thesis
    using fill_pages_spec [of "need x" room ys need]
    by (cases "fill_pages need room (need x) ys") (auto simp: new_pages_def)
qed (simp add: new_pages_def)

lemma new_pages_Some:
  assumes "new_pages need room xs = Some ps"
  shows "concat ps = xs" "[] \<notin> set ps" "pages_fit need room ps" "list_all (\<lambda>x. need x \<le> room) xs"
  using new_pages_spec [of xs room need] assms by simp_all

lemma new_pages_total: "list_all (\<lambda>x. need x \<le> room) xs \<Longrightarrow> \<exists>ps. new_pages need room xs = Some ps"
  using new_pages_spec [of xs room need] by (cases "new_pages need room xs") (auto simp: list_all_iff not_less [symmetric])

lemma index_need_le: "index_need (t, b) \<le> dict_need t"
  by (simp add: MAXALIGN_def div_le_mono)

lemma write_dictionary_total:
  assumes "list_all (\<lambda>r. dict_need (trm r) \<le> room) rs"
  shows "\<exists>ps ix. weave_write_dictionary_iter trm room rs = Some (ps, ix)"
proof -
  obtain ps where ps: "new_pages (\<lambda>r. dict_need (trm r)) room rs = Some ps" using new_pages_total [OF assms] by blast
  note c = new_pages_Some(1,2) [OF ps]
  have "index_need (trm (hd p), b) \<le> room" if "p \<in> set ps" for p b
  proof -
    have "hd p \<in> set rs" using that c by (metis UN_I hd_in_set set_concat)
    then show ?thesis using assms index_need_le [of "trm (hd p)" b] by (force simp: list_all_iff)
  qed
  then have "list_all (\<lambda>x. index_need x \<le> room) (zip (map (\<lambda>p. trm (hd p)) ps) [0..<length ps])"
    by (auto simp: list_all_iff dest!: set_zip_leftD)
  then show ?thesis using ps new_pages_total by (fastforce simp: weave_write_dictionary_iter_def)
qed

lemma write_dictionary_Some:
  assumes "weave_write_dictionary_iter trm room rs = Some (ps, ix)"
  shows "concat ps = rs" "rs \<noteq> [] \<Longrightarrow> [] \<notin> set ps"
    "concat ix = (if rs = [] then [] else zip (map (\<lambda>p. trm (hd p)) ps) [0..<length ps])"
    "pages_fit (\<lambda>r. dict_need (trm r)) room ps" "pages_fit index_need room ix" "list_all (\<lambda>r. dict_need (trm r) \<le> room) rs"
proof -
  obtain ps0 where p: "new_pages (\<lambda>r. dict_need (trm r)) room rs = Some ps0" "ps = (if ps0 = [] then [[]] else ps0)"
      and i: "new_pages index_need room (zip (map (\<lambda>p. trm (hd p)) ps0) [0..<length ps0]) = Some ix"
    using assms by (auto simp: weave_write_dictionary_iter_def bind_eq_Some_conv)
  note np = new_pages_Some [OF p(1)] and ni = new_pages_Some [OF i]
  have e: "ps0 = [] \<longleftrightarrow> rs = []" using np(1,2) by (cases ps0) auto
  show "concat ps = rs" "rs \<noteq> [] \<Longrightarrow> [] \<notin> set ps" "pages_fit (\<lambda>r. dict_need (trm r)) room ps" "pages_fit index_need room ix"
      "list_all (\<lambda>r. dict_need (trm r) \<le> room) rs"
    using np ni(3) e p(2) by auto
  show "concat ix = (if rs = [] then [] else zip (map (\<lambda>p. trm (hd p)) ps) [0..<length ps])"
    using ni(1) e p(2) by auto
qed

lemma written_dict_ok:
  assumes w: "weave_write_dictionary_iter trm room rs = Some (ps, ix)" and t: "\<forall>r\<in>set rs. dterm (g r) = trm r"
    and asc: "asc (map trm rs)"
  shows "dict_ok \<lparr>dpages = map (map g) ps, dindex = ix\<rparr>" "concat (map (map g) ps) = map g rs"
proof -
  note d = write_dictionary_Some [OF w]
  show c: "concat (map (map g) ps) = map g rs" using d(1) by (simp flip: map_concat)
  have terms: "map dterm (map g rs) = map trm rs" using t by simp
  have "index_ok \<lparr>dpages = map (map g) ps, dindex = ix\<rparr>" if "rs \<noteq> []"
  proof -
    have "dterm (hd (map g p)) = trm (hd p)" if p: "p \<in> set ps" for p
    proof -
      have "p \<noteq> []" using d(2) [OF \<open>rs \<noteq> []\<close>] p by auto
      moreover have "hd p \<in> set rs" using calculation p d(1) hd_in_set by fastforce
      ultimately show ?thesis using t by (simp add: hd_map)
    qed
    then have "map (\<lambda>p. dterm (hd p)) (map (map g) ps) = map (\<lambda>p. trm (hd p)) ps" by simp
    moreover have "[] \<notin> set (map (map g) ps)" using d(2) [OF that] by auto
    moreover have "concat ix = zip (map (\<lambda>p. trm (hd p)) ps) [0..<length ps]" using d(3) that by simp
    ultimately show ?thesis by (simp only: index_ok_def dict.simps length_map simp_thms)
  qed
  moreover have "ix = []" if "rs = []"
    using w that by (auto simp: weave_write_dictionary_iter_def new_pages_def)
  ultimately show "dict_ok \<lparr>dpages = map (map g) ps, dindex = ix\<rparr>"
    using asc by (simp only: dict_ok_def dict_terms_def dict.simps c terms) blast
qed

subsection \<open>What the lookups find\<close>

lemma prefix_cmp_simps [simp]:
  "prefix_cmp (a # u) (b # p) = (if a < b then - 1 else if b < a then 1 else prefix_cmp u p)"
  "prefix_cmp [] p = (if p = [] then 0 else - 1)"
  "prefix_cmp u [] = 0"
proof -
  consider "a < b" | "b < a" "\<not> a < b" | "a = b" by force
  then show "prefix_cmp (a # u) (b # p) = (if a < b then - 1 else if b < a then 1 else prefix_cmp u p)"
    by cases (simp_all add: prefix_cmp_def Let_def [of "- 1"] Let_def [of 1]
        Let_def [of "min (length u) (length p)"])
qed (simp_all add: prefix_cmp_def)

lemma prefix_cmp_spec:
  "(prefix_cmp u p = 0 \<longleftrightarrow> prefix p u) \<and> (prefix_cmp u p < 0 \<longrightarrow> u < p) \<and> (0 < prefix_cmp u p \<longrightarrow> p < u)"
  by (induction u p rule: list_induct2') auto

lemma find_entry_find: "find_entry p t = find (\<lambda>e. dterm e = t) p"
  by (induction p) (auto simp: memcmp_0)

lemma seek_page_spec:
  "seek_page es t best =
     (foldl (\<lambda>_. snd) best (takeWhile (\<lambda>e. fst e \<le> t) es), \<not> list_all (\<lambda>e. fst e \<le> t) es)"
proof (induction es t best rule: seek_page.induct)
  case (2 u b es t best)
  have "term_cmp u t \<le> 0 \<longleftrightarrow> u \<le> t" using term_cmp_order [of u t] by (simp add: le_less)
  then show ?case using 2 by auto
qed simp

lemma seek_pages_spec: "seek_pages ps t best = foldl (\<lambda>_. snd) best (takeWhile (\<lambda>e. fst e \<le> t) (concat ps))"
proof (induction ps t best rule: seek_pages.induct)
  case (2 p ps t best)
  show ?case
  proof (cases "list_all (\<lambda>e. fst e \<le> t) p")
    case True
    then have all: "takeWhile (\<lambda>e. fst e \<le> t) p = p" by (simp add: list_all_iff)
    moreover have "takeWhile (\<lambda>e. fst e \<le> t) (p @ concat ps) = p @ takeWhile (\<lambda>e. fst e \<le> t) (concat ps)"
      by (rule takeWhile_append2) (use True in \<open>simp add: list_all_iff\<close>)
    moreover have sp: "seek_page p t best = (foldl (\<lambda>_. snd) best p, False)" using True by (simp add: seek_page_spec all)
    ultimately show ?thesis using 2 [OF refl sp [symmetric]] by simp
  next
    case False
    then have "takeWhile (\<lambda>e. fst e \<le> t) (p @ concat ps) = takeWhile (\<lambda>e. fst e \<le> t) p"
      by (auto simp: list_all_iff takeWhile_append)
    then show ?thesis using False by (simp add: seek_page_spec)
  qed
qed simp

lemma foldl_snd: "foldl (\<lambda>_. snd) best xs = (if xs = [] then best else snd (last xs))"
  by (induction xs rule: rev_induct) auto

lemma page_order:
  assumes "asc (map dterm (concat pages))" "i < j" "j < length pages" "e \<in> set (pages ! i)" "f \<in> set (pages ! j)"
  shows "dterm e < dterm f"
proof -
  have "pages = take j pages @ drop j pages" by simp
  then have "asc (map dterm (concat (take j pages)) @ map dterm (concat (drop j pages)))"
    using assms(1) by (metis concat_append map_append)
  moreover have "e \<in> set (concat (take j pages))" using assms(2-4) by (force simp: in_set_conv_nth)
  moreover have "f \<in> set (concat (drop j pages))"
    using assms(3,5) by (simp add: Cons_nth_drop_Suc [symmetric])
  ultimately show ?thesis unfolding sorted_wrt_append by (simp del: set_concat)
qed

lemma page_head:
  assumes "asc (map dterm (concat pages))" "i \<le> j" "j < length pages" "e \<in> set (pages ! j)" "pages ! i \<noteq> []"
  shows "dterm (hd (pages ! i)) \<le> dterm e"
proof (cases "i = j")
  case True
  have "pages = take j pages @ pages ! j # drop (Suc j) pages" by (rule id_take_nth_drop [OF assms(3)])
  then have "concat pages = concat (take j pages) @ pages ! j @ concat (drop (Suc j) pages)"
    by (metis concat.simps(2) concat_append)
  then have "asc (map dterm (pages ! j))" using assms(1) by (simp add: sorted_wrt_append)
  then show ?thesis using assms(4) True by (cases "pages ! j") auto
next
  case False
  then have "hd (pages ! i) \<in> set (pages ! i)" "i < j" using assms by simp_all
  then show ?thesis using page_order [OF assms(1) _ assms(3) _ assms(4)] by (simp add: less_imp_le)
qed

lemma seek_spec:
  assumes "dict_ok d"
  shows "\<forall>i<weave_dict_seek_at d t. i < length (dpages d) \<longrightarrow> (\<forall>e\<in>set (dpages d ! i). dterm e < t)"
    "dindex d \<noteq> [] \<Longrightarrow> \<forall>i<length (dpages d). weave_dict_seek_at d t < i \<longrightarrow> (\<forall>e\<in>set (dpages d ! i). t < dterm e)"
    "dindex d = [] \<Longrightarrow> weave_dict_seek_at d t = 0"
    "dindex d \<noteq> [] \<Longrightarrow> dpages d \<noteq> [] \<Longrightarrow> weave_dict_seek_at d t < length (dpages d)"
proof -
  show "dindex d = [] \<Longrightarrow> weave_dict_seek_at d t = 0" by (simp add: weave_dict_seek_at_def)
  let ?firsts = "map (\<lambda>p. dterm (hd p)) (dpages d)"
  define k where "k = length (takeWhile (\<lambda>u. u \<le> t) ?firsts)"
  have seek: "weave_dict_seek_at d t = k - 1" and ok: "index_ok d" if "dindex d \<noteq> []"
  proof -
    show ok: "index_ok d" using assms that by (simp add: dict_ok_def)
    let ?z = "zip ?firsts [0..<length (dpages d)]"
    have "takeWhile (\<lambda>u. u \<le> t) (map fst ?z) = map fst (takeWhile (\<lambda>e. fst e \<le> t) ?z)"
      by (simp add: takeWhile_map comp_def del: map_fst_zip map_fst_zip_take)
    moreover have "map fst ?z = ?firsts" by simp
    ultimately have "length (takeWhile (\<lambda>e. fst e \<le> t) ?z) = k" unfolding k_def by (metis length_map)
    then have tw: "takeWhile (\<lambda>e. fst e \<le> t) ?z = take k ?z" by (metis takeWhile_eq_take)
    have "k \<le> length (dpages d)" using length_takeWhile_le [of "\<lambda>u. u \<le> t" ?firsts] by (simp add: k_def)
    then show "weave_dict_seek_at d t = k - 1"
      using ok tw last_conv_nth [of "take k ?z"]
      by (auto simp: weave_dict_seek_at_def seek_pages_spec foldl_snd index_ok_def)
  qed
  have srt: "asc (map dterm (concat (dpages d)))" using assms by (simp add: dict_ok_def dict_terms_def)
  have k: "k \<le> length (dpages d)" using length_takeWhile_le [of "\<lambda>u. u \<le> t" ?firsts] by (simp add: k_def)
  have le: "dterm (hd (dpages d ! i)) \<le> t" if "i < k" for i
  proof -
    have "takeWhile (\<lambda>u. u \<le> t) ?firsts ! i \<in> set (takeWhile (\<lambda>u. u \<le> t) ?firsts)"
      using that by (intro nth_mem) (simp add: k_def)
    then have "takeWhile (\<lambda>u. u \<le> t) ?firsts ! i \<le> t" by (rule set_takeWhileD [THEN conjunct2])
    then show ?thesis using that k by (simp add: k_def takeWhile_nth)
  qed
  have gt: "t < dterm (hd (dpages d ! k))" if "k < length (dpages d)"
    using nth_length_takeWhile [of "\<lambda>u. u \<le> t" ?firsts] that by (simp add: k_def not_le)
  have ne: "dpages d ! i \<noteq> []" if "dindex d \<noteq> []" "i < length (dpages d)" for i
    using ok [OF that(1)] nth_mem [OF that(2)] by (auto simp: index_ok_def)
  show "\<forall>i<weave_dict_seek_at d t. i < length (dpages d) \<longrightarrow> (\<forall>e\<in>set (dpages d ! i). dterm e < t)"
  proof (cases "dindex d = []")
    case True
    then show ?thesis by (simp add: weave_dict_seek_at_def)
  next
    case False
    show ?thesis
    proof (intro allI impI ballI)
      fix i e assume i: "i < weave_dict_seek_at d t" "i < length (dpages d)" "e \<in> set (dpages d ! i)"
      then have "i < k - 1" "k - 1 < length (dpages d)" using seek [OF False] k by simp_all
      then have "dterm e < dterm (hd (dpages d ! (k - 1)))"
        using page_order [OF srt _ _ i(3)] ne [OF False] by simp
      also have "\<dots> \<le> t" using le [of "k - 1"] \<open>i < k - 1\<close> by simp
      finally show "dterm e < t" .
    qed
  qed
  show "\<forall>i<length (dpages d). weave_dict_seek_at d t < i \<longrightarrow> (\<forall>e\<in>set (dpages d ! i). t < dterm e)"
    if ix: "dindex d \<noteq> []"
  proof (intro allI impI ballI)
    fix i e assume i: "i < length (dpages d)" "weave_dict_seek_at d t < i" "e \<in> set (dpages d ! i)"
    then have "k \<le> i" using seek [OF ix] by simp
    then have "t < dterm (hd (dpages d ! k))" "dterm (hd (dpages d ! k)) \<le> dterm e"
      using gt page_head [OF srt _ i(1,3)] ne [OF ix] i(1) by simp_all
    then show "t < dterm e" by simp
  qed
  show "weave_dict_seek_at d t < length (dpages d)" if "dindex d \<noteq> []" "dpages d \<noteq> []"
    using seek [OF that(1)] k that(2) by (cases k) auto
qed

lemma find_drop:
  assumes "\<forall>i<j. i < length pages \<longrightarrow> (\<forall>e\<in>set (pages ! i). \<not> P e)"
  shows "find P (concat (drop j pages)) = find P (concat pages)"
proof -
  have "\<forall>p\<in>set (take j pages). \<forall>e\<in>set p. \<not> P e"
    using assms by (auto simp: in_set_conv_nth [of _ "take j pages"])
  then have "find P (concat (take j pages)) = None" by (auto simp: find_None_iff)
  moreover have "find P (xs @ ys) = (case find P xs of None \<Rightarrow> find P ys | r \<Rightarrow> r)" for xs ys
    by (induction xs) auto
  ultimately show ?thesis by (metis append_take_drop_id concat_append option.simps(4))
qed

lemma walk_pages_all: "walk_pages ps t False = find (\<lambda>e. dterm e = t) (concat ps)"
proof -
  have "find P (xs @ ys) = (case find P xs of None \<Rightarrow> find P ys | r \<Rightarrow> r)" for P and xs ys :: "dict_entry list"
    by (induction xs) auto
  then show ?thesis by (induction ps) (auto simp: find_entry_find split: option.splits)
qed

lemma find_term_spec:
  assumes "dict_ok d"
  shows "find_term d t = find (\<lambda>e. dterm e = t) (concat (dpages d))"
proof -
  let ?s = "weave_dict_seek_at d t"
  have before: "find (\<lambda>e. dterm e = t) (concat (drop ?s (dpages d))) = find (\<lambda>e. dterm e = t) (concat (dpages d))"
    by (rule find_drop) (use seek_spec(1) [OF assms, of t] in fastforce)
  show ?thesis
  proof (cases "dindex d = [] \<or> dpages d = []")
    case True
    then show ?thesis using before by (auto simp: find_term_def walk_pages_all)
  next
    case False
    then have lt: "?s < length (dpages d)" using seek_spec(4) [OF assms] by simp
    have "find (\<lambda>e. dterm e = t) (concat (drop (Suc ?s) (dpages d))) = None"
      unfolding find_None_iff
    proof
      assume "\<exists>e. e \<in> set (concat (drop (Suc ?s) (dpages d))) \<and> dterm e = t"
      then obtain p e where p: "p \<in> set (drop (Suc ?s) (dpages d))" "e \<in> set p" "dterm e = t" by auto
      then obtain i where i: "i < length (dpages d) - Suc ?s" "p = dpages d ! (Suc ?s + i)"
        by (auto simp: in_set_conv_nth [of p])
      then have "Suc ?s + i < length (dpages d)" "?s < Suc ?s + i" by simp_all
      then have "\<forall>e\<in>set p. t < dterm e" using seek_spec(2) [OF assms, of t] False i(2) by blast
      then show False using p by auto
    qed
    moreover have "drop ?s (dpages d) = dpages d ! ?s # drop (Suc ?s) (dpages d)" using lt by (simp add: Cons_nth_drop_Suc)
    moreover have "find P (xs @ ys) = (case find P xs of None \<Rightarrow> find P ys | r \<Rightarrow> r)" for P and xs ys :: "dict_entry list"
      by (induction xs) auto
    ultimately show ?thesis using before False by (auto simp: find_term_def find_entry_find split: option.splits)
  qed
qed

lemma after_run: "pre < (u :: u8 list) \<Longrightarrow> \<not> prefix pre u \<Longrightarrow> u < v \<Longrightarrow> \<not> prefix pre v"
  using prefix_between [of pre u v] less_imp_le [of pre u] less_imp_le [of u v] by blast

lemma prefix_page_spec:
  assumes "asc (map dterm es)"
  shows "fst (prefix_page es pre tids) = tids @ concat (map (\<lambda>e. map ptid (dposts e)) (filter (\<lambda>e. prefix pre (dterm e)) es)) \<and>
    (snd (prefix_page es pre tids) \<longrightarrow> (\<exists>e\<in>set es. pre < dterm e \<and> \<not> prefix pre (dterm e)))"
  using assms
proof (induction es pre tids rule: prefix_page.induct)
  case (2 e es pre tids)
  note c = prefix_cmp_spec [of "dterm e" pre]
  consider "prefix_cmp (dterm e) pre < 0" | "0 < prefix_cmp (dterm e) pre" | "prefix_cmp (dterm e) pre = 0" by force
  then show ?case
  proof cases
    case 1
    then show ?thesis using 2 c by auto
  next
    case gt: 2
    then have e: "pre < dterm e" "\<not> prefix pre (dterm e)" using c by auto
    then have "\<not> prefix pre (dterm f)" if "f \<in> set es" for f
      using that after_run [of pre "dterm e" "dterm f"] "2.prems" by auto
    then show ?thesis using gt e by (auto simp: filter_False)
  next
    case 3
    then show ?thesis using 2 c by auto
  qed
qed simp


abbreviation prefix_run :: "u8 list \<Rightarrow> dict_entry list \<Rightarrow> tid list" where
  "prefix_run pre es \<equiv> concat (map (\<lambda>e. map ptid (dposts e)) (filter (\<lambda>e. prefix pre (dterm e)) es))"

lemma prefix_pages_spec:
  "asc (map dterm (concat ps)) \<Longrightarrow> prefix_pages ps pre tids = tids @ prefix_run pre (concat ps)"
proof (induction ps pre tids rule: prefix_pages.induct)
  case (2 p ps pre tids)
  have p: "asc (map dterm p)" "asc (map dterm (concat ps))" "\<forall>e\<in>set p. \<forall>f\<in>set (concat ps). dterm e < dterm f"
    using 2(2) by (simp_all add: sorted_wrt_append del: set_concat)
  note page = prefix_page_spec [OF p(1), of pre tids]
  show ?case
  proof (cases "snd (prefix_page p pre tids)")
    case True
    then obtain e where "e \<in> set p" "pre < dterm e" "\<not> prefix pre (dterm e)" using page by blast
    then have "\<forall>f\<in>set (concat ps). \<not> prefix pre (dterm f)" using p(3) after_run by blast
    then have "filter (\<lambda>e. prefix pre (dterm e)) (concat ps) = []" by (simp only: filter_empty_conv)
    then show ?thesis using page True by (simp add: case_prod_beta Let_def)
  next
    case False
    then have eq: "prefix_page p pre tids = (tids @ prefix_run pre p, False)" using page by (metis prod.collapse)
    show ?thesis using 2(1) [OF eq [symmetric] refl _ p(2)] eq by simp
  qed
qed simp

lemma filter_drop:
  assumes "\<forall>i<j. i < length pages \<longrightarrow> (\<forall>e\<in>set (pages ! i). \<not> P e)"
  shows "filter P (concat (drop j pages)) = filter P (concat pages)"
proof -
  have "\<forall>p\<in>set (take j pages). \<forall>e\<in>set p. \<not> P e"
    using assms by (auto simp: in_set_conv_nth [of _ "take j pages"])
  then have "filter P (concat (take j pages)) = []" by (auto simp: filter_empty_conv)
  then show ?thesis by (metis append_Nil append_take_drop_id concat_append filter_append)
qed

lemma prefix_found:
  assumes "dict_ok d"
  shows "weave_lookup_prefix d pre = tidset_sort_uniq (prefix_run pre (concat (dpages d)))"
proof -
  have "\<not> prefix pre (dterm e)" if "dterm e < pre" for e using that prefix_ge [of pre "dterm e"] by auto
  then have "filter (\<lambda>e. prefix pre (dterm e)) (concat (drop (weave_dict_seek_at d pre) (dpages d))) =
      filter (\<lambda>e. prefix pre (dterm e)) (concat (dpages d))"
    by (intro filter_drop) (use seek_spec(1) [OF assms, of pre] in blast)
  moreover have "asc (map dterm (concat (drop (weave_dict_seek_at d pre) (dpages d))))"
    using assms by (metis append_take_drop_id concat_append dict_ok_def dict_terms_def map_append sorted_wrt_append)
  ultimately show ?thesis by (simp add: weave_lookup_prefix_def prefix_pages_spec)
qed

lemma term_found:
  assumes "dict_ok d"
  shows "weave_lookup_term d t =
    (case find (\<lambda>e. dterm e = t) (concat (dpages d)) of None \<Rightarrow> Inr None
     | Some e \<Rightarrow> if TIDSET_MAX_N < length (dposts e) then Inl AllocSize else Inr (Some (tidset_sort_uniq (map ptid (dposts e)))))"
proof -
  have "MaxAllocSize < max n 1 * 6 \<longleftrightarrow> TIDSET_MAX_N < n" for n by (auto simp: MaxAllocSize_def TIDSET_MAX_N_def)
  then show ?thesis by (simp only: weave_lookup_term_def find_term_spec [OF assms])
qed

lemma universe_add_spec:
  "universe_add fold_at u cap ts = Inr (v, c) \<Longrightarrow> length u \<le> cap \<Longrightarrow> 0 < cap \<Longrightarrow> cap \<le> TIDSET_MAX_N \<Longrightarrow>
   set v = set u \<union> set ts \<and> length v \<le> TIDSET_MAX_N"
proof (induction fold_at u cap ts rule: universe_add.induct)
  case (2 fold_at u cap t ts)
  let ?u = "if fold_at \<le> length u then tidset_sort_uniq u else u"
  have u: "set ?u = set u" "length ?u \<le> length u"
    using 2(5-7) card_length [of u] by (auto simp: sort_uniq_spec)
  show ?case
  proof (cases "cap \<le> length u")
    case False
    then show ?thesis using "2.IH"(3) "2.prems" by auto
  next
    case cap: True
    show ?thesis
    proof (cases "cap \<le> length ?u")
      case True
      then have "\<not> MaxAllocSize < cap * 2 * 6" "universe_add fold_at (?u @ [t]) (cap * 2) ts = Inr (v, c)"
        using cap "2.prems"(1) by (auto simp: Let_def split: if_splits)
      moreover have "cap * 2 \<le> TIDSET_MAX_N" using calculation(1) by (simp add: MaxAllocSize_def TIDSET_MAX_N_def)
      moreover have "length (?u @ [t]) \<le> cap * 2" using u(2) "2.prems"(2,3) by simp
      ultimately show ?thesis using "2.IH"(1) [OF cap refl] True u(1) by auto
    next
      case False
      then show ?thesis using "2.IH"(2) [OF cap refl False] cap "2.prems" u(1) by auto
    qed
  qed
qed auto


lemma universe_bounded_spec:
  assumes "weave_universe_bounded nd d = Inr u"
  shows "tidset_ok u \<and> set u = (\<Union>e\<in>set (concat (dpages d)). ptid ` set (dposts e))"
proof -
  let ?ts = "concat (map (\<lambda>e. map ptid (dposts e)) (concat (dpages d)))"
  obtain f v c where v: "universe_add f [] 64 ?ts = Inr (v, c)" "u = tidset_sort_uniq v"
    using assms unfolding weave_universe_bounded_def Let_def
    by (cases "universe_add (if min (nd * 2 + 1024) TIDSET_MAX_N < 1024 then 1024 else min (nd * 2 + 1024) TIDSET_MAX_N)
        [] 64 ?ts") auto
  have "set v = set ?ts \<and> length v \<le> TIDSET_MAX_N"
    using universe_add_spec [OF v(1)] by (simp add: TIDSET_MAX_N_def MaxAllocSize_def)
  then show ?thesis using sort_uniq_ok sort_uniq_set v(2) by auto
qed

subsection \<open>Properties\<close>

text \<open>
  C34: a written dictionary answers every lookup. From a run of ascending terms the writer fails, writing past a page,
  exactly when an entry is larger than the room on an empty page. Otherwise the entries of every page of the dictionary
  and of its block index fit the page's room, the seek and the walk over them find exactly the entry of a term, and a
  prefix finds the tuple ids of all the entries that begin with it.
\<close>

theorem dictionary_lookup:
  assumes "asc (map dterm es)"
  shows "case weave_write_dictionary_iter dterm room es of
      None \<Rightarrow> \<exists>e\<in>set es. room < dict_need (dterm e)
    | Some (ps, ix) \<Rightarrow>
        list_all (\<lambda>e. dict_need (dterm e) \<le> room) es \<and> pages_fit (\<lambda>e. dict_need (dterm e)) room ps \<and> pages_fit index_need room ix \<and>
        find_term \<lparr>dpages = ps, dindex = ix\<rparr> t = find (\<lambda>e. dterm e = t) es \<and>
        (length (prefix_run pre es) \<le> TIDSET_MAX_N \<longrightarrow>
         set (weave_lookup_prefix \<lparr>dpages = ps, dindex = ix\<rparr> pre) =
           {x. \<exists>e\<in>set es. prefix pre (dterm e) \<and> x \<in> ptid ` set (dposts e)})"
proof (cases "weave_write_dictionary_iter dterm room es")
  case None
  then show ?thesis using write_dictionary_total [of dterm room es] by (fastforce simp: list_all_iff not_le [symmetric])
next
  case (Some pi)
  obtain ps ix where w: "weave_write_dictionary_iter dterm room es = Some (ps, ix)" using Some by (cases pi) simp
  note d = written_dict_ok [OF w, of id, simplified, OF assms]
  have "set (prefix_run pre es) = {x. \<exists>e\<in>set es. prefix pre (dterm e) \<and> x \<in> ptid ` set (dposts e)}" by auto
  then show ?thesis
    using w write_dictionary_Some(4-6) [OF w] find_term_spec [OF d(1)] prefix_found [OF d(1)] d(2) by (simp add: sort_uniq_set)
qed

theorem dictionary_lookup_witness:
  "\<exists>ps ix. weave_write_dictionary_iter dterm 48 [\<lparr>dterm = [97], dposts = []\<rparr>, \<lparr>dterm = [98], dposts = []\<rparr>, \<lparr>dterm = [98, 99], dposts = []\<rparr>] =
     Some (ps, ix) \<and> length ps = 2 \<and> find_term \<lparr>dpages = ps, dindex = ix\<rparr> [98] = Some \<lparr>dterm = [98], dposts = []\<rparr>"
proof -
  let ?es = "[\<lparr>dterm = [97], dposts = []\<rparr>, \<lparr>dterm = [98], dposts = []\<rparr>, \<lparr>dterm = [98, 99], dposts = []\<rparr>] :: dict_entry list"
  obtain ps ix where w: "weave_write_dictionary_iter dterm 48 ?es = Some (ps, ix)" "length ps = 2"
    by (simp add: weave_write_dictionary_iter_def new_pages_def MAXALIGN_def)
  have "asc (map dterm ?es)" by simp
  from dictionary_lookup [OF this, of 48 "[98]"] show ?thesis
    using w by (intro exI [of _ ps] exI [of _ ix]) simp
qed

text \<open>
  A prefix whose entries carry more postings than a tuple id array is allowed to have finds nothing. The array
  is grown with huge allocations, and sorting it then takes the count for a torn read.
\<close>

theorem prefix_overflow:
  assumes "dict_ok d" "TIDSET_MAX_N < length (prefix_run pre (concat (dpages d)))"
  shows "weave_lookup_prefix d pre = []"
  using assms by (simp add: prefix_found tidset_sort_uniq_def)

theorem prefix_overflow_witness:
  "weave_lookup_prefix \<lparr>dpages = [[\<lparr>dterm = [97], dposts = replicate (TIDSET_MAX_N + 1) \<lparr>ptid = \<lparr>blk = 0, off = 1\<rparr>, ptf = 1, ppos = None\<rparr>\<rparr>]],
     dindex = []\<rparr> [97] = []"
proof -
  let ?e = "\<lparr>dterm = [97], dposts = replicate (TIDSET_MAX_N + 1) \<lparr>ptid = \<lparr>blk = 0, off = 1\<rparr>, ptf = 1, ppos = None\<rparr>\<rparr>"
  have "dict_ok \<lparr>dpages = [[?e]], dindex = []\<rparr>" by (simp add: dict_ok_def dict_terms_def)
  then show ?thesis by (rule prefix_overflow) (simp del: replicate_Suc)
qed

end
