(* ===== verification/Weave_Collect.thy ===== *)
theory Weave_Collect
  imports Weave_Dict Weave_Query
begin

text \<open>
  The lexical scan of \<open>src/am/amscan.c\<close>: the boolean evaluator over one segment, the positional phrase path, and
  \<open>weave_collect_matches\<close>, which unites the segments with the pending list. An index is what its pages say; the
  fuzzy, regex and trigram walks of a segment are arguments.
\<close>

subsection \<open>The index\<close>

datatype doclist_state =
    NoDoclist
  | BadDoclist
  | Doclist "u64 list" "u64 list"
  \<comment> \<open>every docid, and those of NULL documents\<close>

record segment =
  sdict :: "dict option"
  sndocs :: nat
  sdoclist :: doclist_state
  stombs :: "(u64 \<Rightarrow> bool) option"

datatype pending_item = PendingNull tid | PendingBad tid | PendingDoc tid wdoc

record lex_index =
  igen :: u32
  isegs :: "segment list"
  ipending :: "pending_item list"
  iwants_positions :: bool

record dict_walks =
  fuzzy_terms :: "segment \<Rightarrow> u8 list \<Rightarrow> u32 \<Rightarrow> scan_error + tid list option"
  regex_terms :: "segment \<Rightarrow> u8 list \<Rightarrow> scan_error + tid list option"
  trgm_candidates :: "segment \<Rightarrow> u8 list \<Rightarrow> int \<Rightarrow> scan_error + tid list option"

subsection \<open>The universe of a segment\<close>

fun minus_nulls :: "u64 list \<Rightarrow> u64 list \<Rightarrow> u64 list" where
  "minus_nulls [] nulls = []"
| "minus_nulls (x # xs) nulls =
     (let nulls = dropWhile (\<lambda>n. n < x) nulls
      in case nulls of n # _ \<Rightarrow> if n = x then minus_nulls xs nulls else x # minus_nulls xs nulls
         | [] \<Rightarrow> x # minus_nulls xs nulls)"

definition weave_universe_seg :: "u64 \<Rightarrow> segment \<Rightarrow> dict \<Rightarrow> u32 \<Rightarrow> u32 \<Rightarrow> scan_error + tid list" where
  \<comment> \<open>the generation of the caller's snapshot, and the one read when the list is bad\<close>
  "weave_universe_seg F s d gen0 gen =
     (case sdoclist s of
        NoDoclist \<Rightarrow> weave_universe_bounded (sndocs s) d
      | BadDoclist \<Rightarrow> if gen \<noteq> gen0 then Inr [] else Inl CorruptDoclist
      | Doclist ids nulls \<Rightarrow>
          if TIDSET_MAX_N < length ids - length nulls then Inl CandidateSetTooLarge
          else Inr (map (weave_docid_to_tid F) (minus_nulls ids nulls)))"

subsection \<open>The boolean evaluator\<close>

record eval_val =
  eset :: "tid list"
  negated :: bool
  inexact :: bool

definition eval_leaf :: "dict \<Rightarrow> wquery \<Rightarrow> query_item \<Rightarrow> scan_error + eval_val" where
  "eval_leaf d q it =
     map_sum id (\<lambda>s. \<lparr>eset = s, negated = False, inexact = iflags it AND QF_WEIGHTED \<noteq> 0\<rparr>)
       (if iflags it AND QF_PREFIX \<noteq> 0 then Inr (weave_lookup_prefix d (item_text q it))
        else map_sum id (\<lambda>r. case r of None \<Rightarrow> [] | Some s \<Rightarrow> s) (weave_lookup_term d (item_text q it)))"

definition eval_not :: "eval_val \<Rightarrow> eval_val" where
  "eval_not v = (if inexact v then v\<lparr>eset := [], negated := True\<rparr> else v\<lparr>negated := \<not> negated v\<rparr>)"

definition eval_binary :: "u8 \<Rightarrow> eval_val \<Rightarrow> eval_val \<Rightarrow> scan_error + eval_val" where
  "eval_binary op a b =
     (let mk = (\<lambda>neg. map_sum id (\<lambda>s. \<lparr>eset = s, negated = neg, inexact = inexact a \<or> inexact b \<or> op = OP_PHRASE\<rparr>))
      in if op = OP_AND \<or> op = OP_PHRASE then
           if \<not> negated a \<and> \<not> negated b then mk False (tidset_and (eset a) (eset b))
           else if \<not> negated a \<and> negated b then mk False (tidset_andnot (eset a) (eset b))
           else if negated a \<and> \<not> negated b then mk False (tidset_andnot (eset b) (eset a))
           else mk True (tidset_or (eset a) (eset b))
         else
           if \<not> negated a \<and> \<not> negated b then mk False (tidset_or (eset a) (eset b))
           else if negated a \<and> negated b then mk True (tidset_and (eset a) (eset b))
           else mk True (tidset_andnot (eset (if negated a then a else b)) (eset (if negated a then b else a))))"

fun eval_items :: "dict \<Rightarrow> wquery \<Rightarrow> query_item list \<Rightarrow> eval_val list \<Rightarrow> (scan_error + eval_val list) option" where
  \<comment> \<open>the stack with its top first; an access below it is \<open>None\<close>\<close>
  "eval_items d q [] st = Some (Inr st)"
| "eval_items d q (it # its) st =
     (if itype it = QI_VAL then
        (case eval_leaf d q it of Inl e \<Rightarrow> Some (Inl e) | Inr v \<Rightarrow> eval_items d q its (v # st))
      else if iop it = OP_NOT then
        (case st of v # st \<Rightarrow> eval_items d q its (eval_not v # st) | [] \<Rightarrow> None)
      else
        (case st of
           b # a # st \<Rightarrow>
             (case eval_binary (iop it) a b of Inl e \<Rightarrow> Some (Inl e) | Inr v \<Rightarrow> eval_items d q its (v # st))
         | _ \<Rightarrow> None))"

definition weave_eval_query :: "dict \<Rightarrow> wquery \<Rightarrow> scan_error + tid list \<Rightarrow> (scan_error + tid list) option" where
  \<comment> \<open>the universe is only looked at when the result is still negated\<close>
  "weave_eval_query d q universe =
     (if qitems q = [] then Some (Inr [])
      else case eval_items d q (qitems q) [] of
        None \<Rightarrow> None
      | Some (Inl e) \<Rightarrow> Some (Inl e)
      | Some (Inr st) \<Rightarrow>
          if st = [] then None
          else if negated (last st) then
            (case universe of Inl e \<Rightarrow> Some (Inl e) | Inr u \<Rightarrow> Some (tidset_andnot u (eset (last st))))
          else Some (Inr (eset (last st))))"

subsection \<open>Which leaves cover the matches\<close>

fun cover_items :: "u16 \<Rightarrow> bool \<Rightarrow> query_item list \<Rightarrow> bool list \<Rightarrow> bool list option" where
  "cover_items msk want [] st = Some st"
| "cover_items msk want (it # its) st =
     (if itype it = QI_VAL then cover_items msk want its (((iflags it AND msk \<noteq> 0) = want) # st)
      else if iop it = OP_NOT then (case st of v # st \<Rightarrow> cover_items msk want its (False # st) | [] \<Rightarrow> None)
      else (case st of
              b # a # st \<Rightarrow> cover_items msk want its ((if iop it = OP_OR then a \<and> b else a \<or> b) # st)
            | _ \<Rightarrow> None))"

definition weave_query_leaves_cover :: "wquery \<Rightarrow> u16 \<Rightarrow> bool \<Rightarrow> bool option" where
  "weave_query_leaves_cover q msk want =
     (if qitems q = [] then Some True
      else map_option (\<lambda>st. length st = 1 \<and> hd st) (cover_items msk want (qitems q) []))"

definition weave_query_fr_covered :: "wquery \<Rightarrow> bool option" where
  "weave_query_fr_covered q = weave_query_leaves_cover q (QF_FUZZY OR QF_REGEX) True"

definition weave_query_lit_covered :: "wquery \<Rightarrow> bool option" where
  "weave_query_lit_covered q = weave_query_leaves_cover q (QF_PREFIX OR QF_FUZZY OR QF_REGEX) False"

subsection \<open>The positional phrase path\<close>

definition MAX_PHRASE_TERMS :: nat where "MAX_PHRASE_TERMS = 32"
definition PHRASE_POSBUF :: nat where "PHRASE_POSBUF = 16384"

fun chain_loop ::
  "query_item list \<Rightarrow> query_item list \<Rightarrow> (u32 \<times> bool) list \<Rightarrow> nat \<Rightarrow> (query_item list \<times> (u32 \<times> bool) list \<times> nat) option" where
  \<comment> \<open>the term operands so far, the steps (an array), and the stack depth\<close>
  "chain_loop [] ts steps stack = Some (ts, steps, stack)"
| "chain_loop (it # its) ts steps stack =
     (if itype it = QI_VAL then
        if iflags it AND (QF_PREFIX OR QF_FUZZY OR QF_REGEX) \<noteq> 0 then None
        else if MAX_PHRASE_TERMS \<le> length ts then None
        else if 2 \<le> stack then None
        else chain_loop its (ts @ [it]) steps (stack + 1)
      else if itype it = QI_OPR \<and> iop it = OP_PHRASE then
        if stack < 2 then None
        else chain_loop its ts (steps[length ts - 2 := (idist it, iflags it AND QF_PHRASE_EXACT \<noteq> 0)]) (stack - 1)
      else None)"

definition weave_phrase_chain :: "wquery \<Rightarrow> (query_item list \<times> (u32 \<times> bool) list) option" where
  \<comment> \<open>the terms, and the steps between them\<close>
  "weave_phrase_chain q =
     (if length (qitems q) < 3 then None
      else case chain_loop (qitems q) [] (replicate MAX_PHRASE_TERMS (0, False)) 0 of
        None \<Rightarrow> None
      | Some (ts, steps, stack) \<Rightarrow> if stack = 1 \<and> 2 \<le> length ts then Some (ts, steps) else None)"

type_synonym pos_posting = "u64 \<times> u32 list"

datatype pos_lookup = POS_OK "pos_posting list" | POS_ABSENT | POS_NOPOS

definition weave_lookup_term_pos :: "u64 \<Rightarrow> dict \<Rightarrow> u8 list \<Rightarrow> pos_lookup" where
  "weave_lookup_term_pos F d t =
     (case find_term d t of None \<Rightarrow> POS_ABSENT
      | Some e \<Rightarrow>
          if list_ex (\<lambda>p. ppos p = None \<and> 0 < ptf p) (dposts e) then POS_NOPOS
          else POS_OK (sort_key fst
            (map (\<lambda>p. (weave_tid_to_docid F (ptid p), case ppos p of None \<Rightarrow> [] | Some ps \<Rightarrow> take (unat (ptf p)) ps)) (dposts e))))"

function pospost_find :: "pos_posting list \<Rightarrow> u64 \<Rightarrow> int \<Rightarrow> int \<Rightarrow> pos_posting option" where
  "pospost_find pl docid lo hi =
     (if lo \<le> hi then
        let mid = (lo + hi) div 2; p = pl ! nat mid in
        if fst p < docid then pospost_find pl docid (mid + 1) hi
        else if docid < fst p then pospost_find pl docid lo (mid - 1) else Some p
      else None)"
  by auto
termination
  by (relation "measure (\<lambda>(pl, docid, lo, hi). nat (hi - lo + 1))") (auto simp: Let_def)

declare pospost_find.simps [simp del]

definition weave_pospost_find :: "pos_posting list \<Rightarrow> u64 \<Rightarrow> pos_posting option" where
  "weave_pospost_find pl docid = pospost_find pl docid 0 (int (length pl) - 1)"

datatype gathered = Gathered "pos_posting list list" | GatherAbsent | GatherNopos

fun gather_terms :: "u64 \<Rightarrow> dict \<Rightarrow> wquery \<Rightarrow> query_item list \<Rightarrow> pos_posting list list \<Rightarrow> gathered" where
  "gather_terms F d q [] tls = Gathered tls"
| "gather_terms F d q (it # its) tls =
     (case weave_lookup_term_pos F d (item_text q it) of
        POS_NOPOS \<Rightarrow> GatherNopos
      | POS_ABSENT \<Rightarrow> GatherAbsent
      | POS_OK pl \<Rightarrow> gather_terms F d q its (tls @ [pl]))"

function base_term :: "pos_posting list list \<Rightarrow> nat \<Rightarrow> nat option \<Rightarrow> nat option" where
  \<comment> \<open>the place of the first shortest list, among the lists from \<open>t\<close> on and the best so far\<close>
  "base_term tls t base =
     (if t < length tls then
        base_term tls (t + 1)
          (case base of None \<Rightarrow> Some t | Some b \<Rightarrow> if length (tls ! t) < length (tls ! b) then Some t else Some b)
      else base)"
  by auto
termination
  by (relation "measure (\<lambda>(tls, t, base). length tls - t)") auto

declare base_term.simps [simp del]

fun chain_positions :: "u32 list \<Rightarrow> pos_posting list \<Rightarrow> (u32 \<times> bool) list \<Rightarrow> u32 list option" where
  \<comment> \<open>\<open>None\<close>: a run does not fit the buffer\<close>
  "chain_positions acc (p # ps) (st # steps) =
     (if acc = [] then Some []
      else if PHRASE_POSBUF < length (snd p) then None
      else chain_positions (weave_phrase_step_pos acc (snd p) (fst st) (snd st)) ps steps)"
| "chain_positions acc _ _ = Some acc"

fun phrase_drive ::
  "u64 \<Rightarrow> pos_posting list list \<Rightarrow> (u32 \<times> bool) list \<Rightarrow> nat \<Rightarrow> pos_posting list \<Rightarrow> tid list \<Rightarrow> tid list option" where
  "phrase_drive F tls steps b [] out = Some out"
| "phrase_drive F tls steps b (dr # drs) out =
     (let pp = map (\<lambda>(t, pl). if t = b then Some dr else weave_pospost_find pl (fst dr)) (enumerate 0 tls) in
      if None \<in> set pp then phrase_drive F tls steps b drs out
      else let ps = map the pp in
        if PHRASE_POSBUF < length (snd (hd ps)) then None
        else case chain_positions (snd (hd ps)) (tl ps) steps of
          None \<Rightarrow> None
        | Some acc \<Rightarrow>
            phrase_drive F tls steps b drs (if acc = [] then out else out @ [weave_docid_to_tid F (fst dr)]))"

definition weave_phrase_eval_seg ::
  "u64 \<Rightarrow> dict \<Rightarrow> wquery \<Rightarrow> query_item list \<Rightarrow> (u32 \<times> bool) list \<Rightarrow> tid list option" where
  \<comment> \<open>the tuple ids this segment adds; \<open>None\<close> asks for the recheck path\<close>
  "weave_phrase_eval_seg F d q ts steps =
     (case gather_terms F d q ts [] of
        GatherNopos \<Rightarrow> None
      | GatherAbsent \<Rightarrow> Some []
      | Gathered tls \<Rightarrow>
          (case base_term tls 0 None of None \<Rightarrow> Some [] | Some b \<Rightarrow> phrase_drive F tls steps b (tls ! b) []))"

subsection \<open>Collecting the matches\<close>

definition has_op :: "u8 \<Rightarrow> wquery \<Rightarrow> bool" where
  "has_op op q \<longleftrightarrow> list_ex (\<lambda>it. itype it = QI_OPR \<and> iop it = op) (qitems q)"

definition has_flag :: "u16 \<Rightarrow> wquery \<Rightarrow> bool" where
  "has_flag f q \<longleftrightarrow> list_ex (\<lambda>it. itype it = QI_VAL \<and> iflags it AND f \<noteq> 0) (qitems q)"

fun fr_leaves ::
  "dict_walks \<Rightarrow> segment \<Rightarrow> wquery \<Rightarrow> query_item list \<Rightarrow> tid list \<Rightarrow> bool \<Rightarrow> bool \<Rightarrow> scan_error + (tid list \<times> bool \<times> bool)" where
  \<comment> \<open>the candidates, whether some walk served, and whether they are exact\<close>
  "fr_leaves wk s q [] cands any_trgm exact = Inr (cands, any_trgm, exact)"
| "fr_leaves wk s q (it # its) cands any_trgm exact =
     (let add = (\<lambda>ts exact. case tidset_or cands ts of Inl e \<Rightarrow> Inl e | Inr c \<Rightarrow> fr_leaves wk s q its c True exact)
      in if itype it \<noteq> QI_VAL \<or> iflags it AND (QF_FUZZY OR QF_REGEX) = 0 then fr_leaves wk s q its cands any_trgm exact
         else if iflags it AND QF_FUZZY \<noteq> 0 then
           (case fuzzy_terms wk s (item_text q it) (idist it) of
              Inl e \<Rightarrow> Inl e
            | Inr (Some ts) \<Rightarrow> add ts exact
            | Inr None \<Rightarrow>
                (case trgm_candidates wk s (item_text q it) (3 * sint (idist it) + 1) of
                   Inl e \<Rightarrow> Inl e
                 | Inr (Some ts) \<Rightarrow> add ts False
                 | Inr None \<Rightarrow> Inr (cands, False, False)))
         else
           (case regex_terms wk s (item_text q it) of
              Inl e \<Rightarrow> Inl e
            | Inr (Some ts) \<Rightarrow> add ts exact
            | Inr None \<Rightarrow> Inr (cands, False, exact)))"

definition fr_segment ::
  "u64 \<Rightarrow> dict_walks \<Rightarrow> u32 \<Rightarrow> u32 \<Rightarrow> wquery \<Rightarrow> bool \<Rightarrow> segment \<Rightarrow> dict \<Rightarrow> scan_error + (tid list \<times> bool)" where
  \<comment> \<open>a segment's candidates of a fuzzy or regex query, and whether they need the recheck\<close>
  "fr_segment F wk gen0 gen q covered s d =
     (case (if covered then fr_leaves wk s q (qitems q) [] False (length (qitems q) = 1)
            else Inr ([], False, length (qitems q) = 1)) of
        Inl e \<Rightarrow> Inl e
      | Inr (cands, any_trgm, exact) \<Rightarrow>
          if any_trgm then Inr (weave_filter_tombstoned_seg F (stombs s) cands, \<not> exact)
          else map_sum id (\<lambda>u. (weave_filter_tombstoned_seg F (stombs s) u, True)) (weave_universe_seg F s d gen0 gen))"

definition bool_segment ::
  "u64 \<Rightarrow> u32 \<Rightarrow> u32 \<Rightarrow> wquery \<Rightarrow> segment \<Rightarrow> dict \<Rightarrow> (scan_error + (tid list \<times> bool)) option" where
  "bool_segment F gen0 gen q s d =
     map_option (map_sum id (\<lambda>r. let r = weave_filter_tombstoned_seg F (stombs s) r in (r, r \<noteq> [] \<and> has_op OP_PHRASE q)))
       (weave_eval_query d q (weave_universe_seg F s d gen0 gen))"

fun collect_segs ::
  "(segment \<Rightarrow> dict \<Rightarrow> (scan_error + (tid list \<times> bool)) option) \<Rightarrow> segment list \<Rightarrow> tid list \<Rightarrow> bool \<Rightarrow>
   (scan_error + (tid list \<times> bool)) option" where
  \<comment> \<open>one segment's contribution, and the fold: an empty dictionary is skipped, an empty set adds nothing\<close>
  "collect_segs seg [] acc recheck = Some (Inr (acc, recheck))"
| "collect_segs seg (s # ss) acc recheck =
     (case sdict s of None \<Rightarrow> collect_segs seg ss acc recheck
      | Some d \<Rightarrow>
          (case seg s d of
             None \<Rightarrow> None
           | Some (Inl e) \<Rightarrow> Some (Inl e)
           | Some (Inr (r, again)) \<Rightarrow>
               if r = [] then collect_segs seg ss acc (recheck \<or> again)
               else (case tidset_or acc r of
                       Inl e \<Rightarrow> Some (Inl e) | Inr acc \<Rightarrow> collect_segs seg ss acc (recheck \<or> again))))"

fun phrase_segs ::
  "u64 \<Rightarrow> wquery \<Rightarrow> query_item list \<Rightarrow> (u32 \<times> bool) list \<Rightarrow> segment list \<Rightarrow> tid list \<Rightarrow> tid list option" where
  "phrase_segs F q ts steps [] ptids = Some ptids"
| "phrase_segs F q ts steps (s # ss) ptids =
     (case sdict s of None \<Rightarrow> phrase_segs F q ts steps ss ptids
      | Some d \<Rightarrow>
          (case weave_phrase_eval_seg F d q ts steps of
             None \<Rightarrow> None
           | Some new \<Rightarrow> phrase_segs F q ts steps ss (ptids @ weave_filter_tombstoned_seg F (stombs s) new)))"

fun collect_pending ::
  "(wdoc \<Rightarrow> u8 list \<Rightarrow> bool) \<Rightarrow> (wdoc \<Rightarrow> u8 list \<Rightarrow> int \<Rightarrow> bool) \<Rightarrow> wquery \<Rightarrow> pending_item list \<Rightarrow> tid list \<Rightarrow> nat \<Rightarrow>
   (scan_error + tid list) option" where
  "collect_pending hr hf q [] acc cap = Some (Inr acc)"
| "collect_pending hr hf q (p # ps) acc cap =
     (case p of
        PendingDoc t d \<Rightarrow>
          (case weave_doc_matches hr hf d q of
             None \<Rightarrow> None
           | Some True \<Rightarrow>
               (case tidset_append acc cap t of Inl e \<Rightarrow> Some (Inl e) | Inr (acc, cap) \<Rightarrow> collect_pending hr hf q ps acc cap)
           | Some False \<Rightarrow> collect_pending hr hf q ps acc cap)
      | _ \<Rightarrow> collect_pending hr hf q ps acc cap)"

definition collect_pass ::
  "u64 \<Rightarrow> dict_walks \<Rightarrow> (wdoc \<Rightarrow> u8 list \<Rightarrow> bool) \<Rightarrow> (wdoc \<Rightarrow> u8 list \<Rightarrow> int \<Rightarrow> bool) \<Rightarrow> wquery \<Rightarrow> lex_index \<Rightarrow> u32 \<Rightarrow>
   (scan_error + (tid list \<times> bool)) option" where
  \<comment> \<open>one pass over a snapshot; \<open>gen\<close> is the generation a failed list read finds\<close>
  "collect_pass F wk hr hf q ix gen =
     (let fr = has_flag (QF_FUZZY OR QF_REGEX) q;
          recheck0 = has_flag QF_WEIGHTED q;
          segs =
            (case (if has_op OP_PHRASE q \<and> \<not> fr \<and> \<not> has_op OP_NOT q \<and> \<not> recheck0 \<and> iwants_positions ix
                   then weave_phrase_chain q else None) of
               Some (ts, steps) \<Rightarrow>
                 (case phrase_segs F q ts steps (isegs ix) [] of
                    Some ptids \<Rightarrow>
                      Some (map_sum id (\<lambda>acc. (acc, recheck0))
                        (if ptids = [] then Inr [] else tidset_or [] (tidset_sort_uniq ptids)))
                  | None \<Rightarrow> collect_segs (bool_segment F (igen ix) gen q) (isegs ix) [] recheck0)
             | None \<Rightarrow>
                 if fr then
                   (case weave_query_fr_covered q of
                      None \<Rightarrow> None
                    | Some covered \<Rightarrow>
                        collect_segs (\<lambda>s d. Some (fr_segment F wk (igen ix) gen q covered s d)) (isegs ix) [] recheck0)
                 else collect_segs (bool_segment F (igen ix) gen q) (isegs ix) [] recheck0)
      in case segs of None \<Rightarrow> None
         | Some (Inl e) \<Rightarrow> Some (Inl e)
         | Some (Inr (acc, recheck)) \<Rightarrow>
             (case collect_pending hr hf q (ipending ix) [] 0 of
                None \<Rightarrow> None
              | Some (Inl e) \<Rightarrow> Some (Inl e)
              | Some (Inr pend) \<Rightarrow>
                  let acc = tidset_sort_uniq acc in
                  if pend = [] then Some (Inr (acc, recheck))
                  else Some (map_sum id (\<lambda>r. (tidset_sort_uniq r, recheck)) (tidset_or acc (tidset_sort_uniq pend)))))"

function weave_collect_matches ::
  "u64 \<Rightarrow> dict_walks \<Rightarrow> (wdoc \<Rightarrow> u8 list \<Rightarrow> bool) \<Rightarrow> (wdoc \<Rightarrow> u8 list \<Rightarrow> int \<Rightarrow> bool) \<Rightarrow> wquery \<Rightarrow> nat \<Rightarrow>
   (nat \<Rightarrow> lex_index \<times> u32) \<Rightarrow> nat \<Rightarrow> (scan_error + (tid list \<times> bool)) option" where
  \<comment> \<open>what other backends leave behind: the snapshot of the \<open>n\<close>-th pass, and the generation read after it\<close>
  "weave_collect_matches F wk hr hf q max_retries world n =
     (let (ix, gen) = world n in
      case collect_pass F wk hr hf q ix gen of
        None \<Rightarrow> None
      | Some (Inl e) \<Rightarrow> Some (Inl e)
      | Some (Inr r) \<Rightarrow>
          if gen \<noteq> igen ix then
            if max_retries \<le> n then Some (Inl ScanRacedOut)
            else weave_collect_matches F wk hr hf q max_retries world (n + 1)
          else Some (Inr r))"
  by auto
termination
  by (relation "measure (\<lambda>(F, wk, hr, hf, q, m, w, n). m - n)") auto

declare weave_collect_matches.simps [simp del]

end
