(* ===== verification/Weave_Lexeval.thy ===== *)
theory Weave_Lexeval
  imports Weave_Collect
begin

text \<open>
  What the boolean evaluator of the lexical scan returns. \<open>segment_holds\<close> says which documents a segment indexes; the
  evaluator over the segment's sets is then simulated by the evaluator of \<open>src/query/match.c\<close> on each of those
  documents.
\<close>

subsection \<open>The documents of a segment\<close>

type_synonym docs = "(tid \<times> wdoc) list"

definition doc_ok :: "wdoc \<Rightarrow> bool" where
  "doc_ok d \<longleftrightarrow> doc_sorted d \<and> (\<forall>e\<in>set (dentries d). run_ok (term_pos d e))"

definition posting_ok :: "posting \<Rightarrow> wdoc \<Rightarrow> term_entry \<Rightarrow> bool" where
  \<comment> \<open>a posting counts its term's occurrences and, when it has positions, carries their ordinals\<close>
  "posting_ok p d e \<longleftrightarrow> ptf p = etf e \<and> 0 < etf e \<and>
     (\<forall>ps. ppos p = Some ps \<longrightarrow> WEAVE_DOC_HAS_POS d \<and> length (term_pos d e) = unat (etf e) \<and>
        ps = map WEAVE_POS_ORD (term_pos d e))"

definition entry_ok :: "docs \<Rightarrow> dict_entry \<Rightarrow> bool" where
  "entry_ok ds e \<longleftrightarrow> distinct (map ptid (dposts e)) \<and>
     (\<forall>p\<in>set (dposts e). \<exists>d en. (ptid p, d) \<in> set ds \<and> find (\<lambda>en. term_text d en = dterm e) (dentries d) = Some en \<and>
        posting_ok p d en)"

definition dict_holds :: "docs \<Rightarrow> dict \<Rightarrow> bool" where
  "dict_holds ds D \<longleftrightarrow> dict_ok D \<and> (\<forall>e\<in>set (concat (dpages D)). entry_ok ds e) \<and>
     (\<forall>(x, d)\<in>set ds. \<forall>t\<in>set (doc_terms d). \<exists>e\<in>set (concat (dpages D)). dterm e = t \<and> x \<in> ptid ` set (dposts e)) \<and>
     length (concat (map dposts (concat (dpages D)))) \<le> TIDSET_MAX_N"

definition segment_holds :: "u64 \<Rightarrow> docs \<Rightarrow> segment \<Rightarrow> bool" where
  "segment_holds F ds s \<longleftrightarrow> distinct (map fst ds) \<and> (\<forall>(x, d)\<in>set ds. valid_tid F x \<and> doc_ok d) \<and>
     (case sdict s of None \<Rightarrow> ds = [] | Some D \<Rightarrow> dict_holds ds D) \<and>
     (case sdoclist s of
        NoDoclist \<Rightarrow> \<forall>(x, d)\<in>set ds. doc_terms d \<noteq> []
      | BadDoclist \<Rightarrow> True
      | Doclist ids nulls \<Rightarrow> asc ids \<and> asc nulls \<and> set nulls \<subseteq> set ids \<and>
          set ids - set nulls = weave_tid_to_docid F ` fst ` set ds)"

abbreviation tids :: "docs \<Rightarrow> tid set" where
  "tids ds \<equiv> fst ` set ds"

abbreviation matches :: "(wdoc \<Rightarrow> u8 list \<Rightarrow> bool) \<Rightarrow> (wdoc \<Rightarrow> u8 list \<Rightarrow> int \<Rightarrow> bool) \<Rightarrow> wquery \<Rightarrow> wdoc \<Rightarrow> bool" where
  "matches hr hf q d \<equiv> weave_doc_matches hr hf d q = Some True"

lemma doc_unique: "distinct (map fst ds) \<Longrightarrow> (x, d) \<in> set ds \<Longrightarrow> (x, d') \<in> set ds \<Longrightarrow> d = d'"
  by (rule eq_key_imp_eq_value)

lemma find_unique: "distinct (map f xs) \<Longrightarrow> find (\<lambda>e. f e = t) xs = Some e \<longleftrightarrow> e \<in> set xs \<and> f e = t"
  by (induction xs) (auto simp: rev_image_eqI)

lemma find_in: "find P xs = Some e \<Longrightarrow> e \<in> set xs \<and> P e"
  by (induction xs) (auto split: if_splits)

lemma dict_entries:
  assumes "dict_holds ds D"
  shows "find (\<lambda>e. dterm e = t) (concat (dpages D)) = Some e \<longleftrightarrow> e \<in> set (concat (dpages D)) \<and> dterm e = t"
proof -
  have "distinct (map dterm (concat (dpages D)))"
    using assms asc_distinct [of "map dterm (concat (dpages D))"] by (simp add: dict_holds_def dict_ok_def dict_terms_def)
  then show ?thesis by (rule find_unique)
qed

lemma entry_tids:
  \<comment> \<open>an entry's postings are the documents that hold its term\<close>
  assumes "distinct (map fst ds)" "dict_holds ds D" "e \<in> set (concat (dpages D))"
  shows "ptid ` set (dposts e) = {x. \<exists>d. (x, d) \<in> set ds \<and> dterm e \<in> set (doc_terms d)}"
proof (intro set_eqI iffI CollectI)
  fix x assume "x \<in> ptid ` set (dposts e)"
  then obtain p where "p \<in> set (dposts e)" "x = ptid p" by blast
  then obtain d en where "(x, d) \<in> set ds" "find (\<lambda>en. term_text d en = dterm e) (dentries d) = Some en"
    using assms(2,3) by (fastforce simp: dict_holds_def entry_ok_def)
  then show "\<exists>d. (x, d) \<in> set ds \<and> dterm e \<in> set (doc_terms d)"
    by (auto simp: doc_terms_def dest!: find_in intro!: exI [of _ d] rev_image_eqI)
next
  fix x assume "x \<in> {x. \<exists>d. (x, d) \<in> set ds \<and> dterm e \<in> set (doc_terms d)}"
  then obtain d where d: "(x, d) \<in> set ds" "dterm e \<in> set (doc_terms d)" by blast
  then obtain e' where e': "e' \<in> set (concat (dpages D))" "dterm e' = dterm e" "x \<in> ptid ` set (dposts e')"
    using assms(2) by (fastforce simp: dict_holds_def)
  then have "find (\<lambda>e'. dterm e' = dterm e) (concat (dpages D)) = Some e'" "find (\<lambda>e'. dterm e' = dterm e) (concat (dpages D)) = Some e"
    using dict_entries [OF assms(2)] assms(3) by auto
  then show "x \<in> ptid ` set (dposts e)" using e'(3) by simp
qed

lemma posts_total: "e \<in> set es \<Longrightarrow> length (dposts e) \<le> length (concat (map dposts es))"
  by (induction es) auto

lemma posts_size: "dict_holds ds D \<Longrightarrow> e \<in> set (concat (dpages D)) \<Longrightarrow> length (dposts e) \<le> TIDSET_MAX_N"
  using posts_total [of e "concat (dpages D)"] by (fastforce simp: dict_holds_def)

lemma lookup_term_tids:
  assumes "distinct (map fst ds)" "dict_holds ds D"
  shows "\<exists>r. weave_lookup_term D t = Inr r \<and> tidset_ok (case r of None \<Rightarrow> [] | Some s \<Rightarrow> s) \<and>
    set (case r of None \<Rightarrow> [] | Some s \<Rightarrow> s) = {x. \<exists>d. (x, d) \<in> set ds \<and> t \<in> set (doc_terms d)}"
proof -
  have ok: "dict_ok D" using assms(2) by (simp add: dict_holds_def)
  show ?thesis
  proof (cases "find (\<lambda>e. dterm e = t) (concat (dpages D))")
    case None
    then have "{x. \<exists>d. (x, d) \<in> set ds \<and> t \<in> set (doc_terms d)} = {}"
      using assms(2) by (fastforce simp: dict_holds_def find_None_iff)
    then show ?thesis using None by (simp add: term_found [OF ok])
  next
    case (Some e)
    then have e: "e \<in> set (concat (dpages D))" "dterm e = t" using dict_entries [OF assms(2)] by blast+
    then have "length (dposts e) \<le> TIDSET_MAX_N" using posts_size [OF assms(2)] by blast
    then show ?thesis
      using Some entry_tids [OF assms e(1)] e(2) sort_uniq_ok [of "map ptid (dposts e)"]
      by (simp add: term_found [OF ok] sort_uniq_set)
  qed
qed

lemma run_size: "length (prefix_run pre es) \<le> length (concat (map dposts es))"
  by (induction es) auto

lemma lookup_prefix_tids:
  assumes "distinct (map fst ds)" "dict_holds ds D"
  shows "tidset_ok (weave_lookup_prefix D pre) \<and>
    set (weave_lookup_prefix D pre) = {x. \<exists>d. (x, d) \<in> set ds \<and> (\<exists>t\<in>set (doc_terms d). prefix pre t)}"
proof -
  have ok: "dict_ok D" and "length (concat (map dposts (concat (dpages D)))) \<le> TIDSET_MAX_N"
    using assms(2) by (auto simp: dict_holds_def)
  then have "length (prefix_run pre (concat (dpages D))) \<le> TIDSET_MAX_N"
    using run_size [of pre "concat (dpages D)"] by simp
  then have "set (weave_lookup_prefix D pre) = (\<Union>e\<in>{e \<in> set (concat (dpages D)). prefix pre (dterm e)}. ptid ` set (dposts e))"
    by (simp only: prefix_found [OF ok] sort_uniq_set) auto
  also have "\<dots> = {x. \<exists>d. (x, d) \<in> set ds \<and> (\<exists>t\<in>set (doc_terms d). prefix pre t)}"
  proof (intro set_eqI iffI CollectI)
    fix x assume "x \<in> (\<Union>e\<in>{e \<in> set (concat (dpages D)). prefix pre (dterm e)}. ptid ` set (dposts e))"
    then show "\<exists>d. (x, d) \<in> set ds \<and> (\<exists>t\<in>set (doc_terms d). prefix pre t)"
      using entry_tids [OF assms] by blast
  next
    fix x assume "x \<in> {x. \<exists>d. (x, d) \<in> set ds \<and> (\<exists>t\<in>set (doc_terms d). prefix pre t)}"
    then obtain d t where d: "(x, d) \<in> set ds" "t \<in> set (doc_terms d)" "prefix pre t" by blast
    then obtain e where "e \<in> set (concat (dpages D))" "dterm e = t" "x \<in> ptid ` set (dposts e)"
      using assms(2) by (fastforce simp: dict_holds_def)
    then show "x \<in> (\<Union>e\<in>{e \<in> set (concat (dpages D)). prefix pre (dterm e)}. ptid ` set (dposts e))"
      using d(3) by blast
  qed
  finally show ?thesis using sort_uniq_ok by (simp add: prefix_found [OF ok])
qed

subsection \<open>The universe\<close>

lemma minus_nulls_filter: "asc ids \<Longrightarrow> asc nulls \<Longrightarrow> minus_nulls ids nulls = filter (\<lambda>x. x \<notin> set nulls) ids"
proof (induction ids nulls rule: minus_nulls.induct)
  case (2 x xs nulls)
  let ?n = "dropWhile (\<lambda>n. n < x) nulls"
  have asc': "asc ?n" using "2.prems"(2) by (simp add: dropWhile_eq_drop sorted_wrt_drop)
  have same: "y \<in> set ?n \<longleftrightarrow> y \<in> set nulls" if "x \<le> y" for y
  proof -
    have "set nulls = set (takeWhile (\<lambda>n. n < x) nulls) \<union> set ?n" by (metis set_append takeWhile_dropWhile_id)
    moreover have "y \<notin> set (takeWhile (\<lambda>n. n < x) nulls)" using that by (auto dest: set_takeWhileD)
    ultimately show ?thesis by blast
  qed
  have rest: "filter (\<lambda>y. y \<notin> set ?n) xs = filter (\<lambda>y. y \<notin> set nulls) xs"
    using "2.prems"(1) same by (intro filter_cong) (auto simp: less_imp_le)
  have xs: "asc xs" using "2.prems"(1) by simp
  show ?case
  proof (cases ?n)
    case Nil
    then show ?thesis
      using "2.IH"(1) [OF refl Nil xs asc'] same [of x] rest
      by (simp add: Let_def del: dropWhile_eq_Nil_conv)
  next
    case (Cons n ns)
    have "\<not> n < x" using Cons by (metis dropWhile_eq_Cons_conv)
    then have "x \<in> set ?n \<longleftrightarrow> n = x" using asc' Cons by auto
    then show ?thesis
      using "2.IH"(2,3) [OF refl Cons] xs asc' same [of x] rest by (auto simp: Let_def Cons)
  qed
qed simp

lemma docid_inj:
  assumes "F \<le> 2 ^ 16" "\<forall>x\<in>X. valid_tid F x"
  shows "inj_on (weave_tid_to_docid F) X"
  by (rule inj_on_inverseI [of _ "weave_docid_to_tid F"]) (use assms docid_roundtrip in blast)

lemma asc_map_docids:
  assumes "F \<le> 2 ^ 16" "asc ids" "set ids = weave_tid_to_docid F ` X" "\<forall>x\<in>X. valid_tid F x"
  shows "asc (map (weave_docid_to_tid F) ids) \<and> set (map (weave_docid_to_tid F) ids) = X"
proof -
  have inv: "weave_docid_to_tid F (weave_tid_to_docid F x) = x" if "x \<in> X" for x
    using docid_roundtrip [OF assms(1)] assms(4) that by blast
  have "weave_docid_to_tid F i < weave_docid_to_tid F j" if "i \<in> set ids" "j \<in> set ids" "i < j" for i j
    using that assms(3,4) inv docid_mono [OF assms(1)] by auto
  then have "asc (map (weave_docid_to_tid F) ids)"
    using assms(2) by (auto simp: sorted_wrt_map intro: sorted_wrt_mono_rel [of ids "(<)"])
  moreover have "set (map (weave_docid_to_tid F) ids) = X"
    using inv by (simp add: assms(3) image_image)
  ultimately show ?thesis by blast
qed

lemma universe_tids:
  assumes "F \<le> 2 ^ 16" "segment_holds F ds s" "sdict s = Some D" "weave_universe_seg F s D g g = Inr u"
  shows "tidset_ok u \<and> set u = tids ds"
proof -
  have D: "dict_holds ds D" "distinct (map fst ds)" and valid: "\<forall>x\<in>tids ds. valid_tid F x"
    using assms(2,3) by (auto simp: segment_holds_def)
  show ?thesis
  proof (cases "sdoclist s")
    case NoDoclist
    then have some: "\<forall>(x, d)\<in>set ds. doc_terms d \<noteq> []" using assms(2) by (simp add: segment_holds_def)
    have "(\<Union>e\<in>set (concat (dpages D)). ptid ` set (dposts e)) = tids ds"
    proof (intro set_eqI iffI)
      fix x assume "x \<in> (\<Union>e\<in>set (concat (dpages D)). ptid ` set (dposts e))"
      then show "x \<in> tids ds" using entry_tids [OF D(2,1)] by force
    next
      fix x assume "x \<in> tids ds"
      then obtain d where d: "(x, d) \<in> set ds" by force
      then obtain t where "t \<in> set (doc_terms d)" using some by (cases "doc_terms d") force+
      then show "x \<in> (\<Union>e\<in>set (concat (dpages D)). ptid ` set (dposts e))"
        using D(1) d by (fastforce simp: dict_holds_def)
    qed
    then show ?thesis
      using universe_bounded_spec [of "sndocs s" D u] assms(4) NoDoclist by (simp add: weave_universe_seg_def)
  next
    case BadDoclist
    then show ?thesis using assms(4) by (simp add: weave_universe_seg_def)
  next
    case (Doclist ids nulls)
    then have ids: "asc ids" "asc nulls" "set nulls \<subseteq> set ids" "set ids - set nulls = weave_tid_to_docid F ` tids ds"
      using assms(2) by (auto simp: segment_holds_def)
    have u: "u = map (weave_docid_to_tid F) (filter (\<lambda>x. x \<notin> set nulls) ids)"
      and len: "length ids - length nulls \<le> TIDSET_MAX_N"
      using assms(4) Doclist minus_nulls_filter [OF ids(1,2)] by (auto simp: weave_universe_seg_def split: if_splits)
    have "length (filter (\<lambda>x. x \<notin> set nulls) ids) = card (set ids - set nulls)"
      using asc_distinct [OF ids(1)] by (simp add: distinct_length_filter Int_def set_diff_eq conj_commute)
    also have "\<dots> = length ids - length nulls"
      using asc_distinct [OF ids(1)] asc_distinct [OF ids(2)] ids(3) by (simp add: card_Diff_subset distinct_card)
    finally have "length u \<le> TIDSET_MAX_N" using len u by simp
    moreover have "asc (filter (\<lambda>x. x \<notin> set nulls) ids)" by (rule sorted_wrt_filter [OF ids(1)])
    moreover have "set (filter (\<lambda>x. x \<notin> set nulls) ids) = weave_tid_to_docid F ` tids ds" using ids(4) by auto
    ultimately show ?thesis
      using asc_map_docids [OF assms(1) _ _ valid] unfolding u tidset_ok_def by blast
  qed
qed

subsection \<open>The boolean evaluator\<close>

definition mem :: "eval_val \<Rightarrow> tid \<Rightarrow> bool" where
  "mem v x \<longleftrightarrow> (x \<in> set (eset v)) \<noteq> negated v"

definition val_of :: "docs \<Rightarrow> eval_val \<Rightarrow> bool" where
  "val_of ds v \<longleftrightarrow> tidset_ok (eset v) \<and> set (eset v) \<subseteq> tids ds"

definition rel :: "tid \<Rightarrow> eval_val \<Rightarrow> match_val \<Rightarrow> bool" where
  \<comment> \<open>a set stands for what the matcher finds of the document \<open>x\<close>, from above when it is inexact\<close>
  "rel x v m \<longleftrightarrow> (present m \<longrightarrow> mem v x) \<and> (\<not> inexact v \<longrightarrow> mem v x \<longrightarrow> present m)"

definition match_ok :: "match_val \<Rightarrow> bool" where
  "match_ok m \<longleftrightarrow> (\<forall>ps. mpos m = Some ps \<longrightarrow> ps \<noteq> [] \<longrightarrow> present m)"

lemma phrase_loop_Nil [simp]: "phrase_loop [] right distance exact = []"
  by (induction right) (auto simp: Let_def)

lemma step_pos_nonempty: "weave_phrase_step_pos ls rs distance exact \<noteq> [] \<Longrightarrow> ls \<noteq> [] \<and> rs \<noteq> []"
  by (auto simp: weave_phrase_step_pos_def)

lemma phrase_step_present: "match_ok l \<Longrightarrow> match_ok r \<Longrightarrow> present (phrase_step l r distance exact) \<Longrightarrow> present l \<and> present r"
  using step_pos_nonempty [of "the (mpos l)" "the (mpos r)" distance exact]
  by (auto simp: phrase_step_def match_ok_def absent_def Let_def split: option.splits if_splits)

lemma present_boolean [simp]: "present (boolean_val b) = b"
  by (simp add: boolean_val_def absent_def)

lemma match_ok_simps [simp]: "match_ok (boolean_val b)" "match_ok (phrase_step l r distance exact)"
  by (auto simp: match_ok_def boolean_val_def phrase_step_def absent_def Let_def split: option.splits)

lemma match_ok_leaf: "match_ok (term_positions hr hf d t fl k)"
  by (auto simp: match_ok_def term_positions_def absent_def Let_def split: option.splits)

lemma lookup_terms: "doc_ok d \<Longrightarrow> weave_doc_lookup d t = None \<longleftrightarrow> t \<notin> set (doc_terms d)"
  by (auto simp: doc_ok_def lookup_exact find_None_iff doc_terms_def)

lemma eval_leaf_rel:
  assumes "distinct (map fst ds)" "dict_holds ds D" "eval_leaf D q it = Inr v"
  shows "val_of ds v"
    "(x, d) \<in> set ds \<Longrightarrow> doc_ok d \<Longrightarrow> iflags it AND QF_FUZZY = 0 \<Longrightarrow> iflags it AND QF_REGEX = 0 \<Longrightarrow>
     rel x v (term_positions hr hf d (item_text q it) (iflags it) (idist it))"
proof -
  obtain r where r: "weave_lookup_term D (item_text q it) = Inr r" "tidset_ok (case r of None \<Rightarrow> [] | Some s \<Rightarrow> s)"
    "set (case r of None \<Rightarrow> [] | Some s \<Rightarrow> s) = {x. \<exists>d. (x, d) \<in> set ds \<and> item_text q it \<in> set (doc_terms d)}"
    using lookup_term_tids [OF assms(1,2), of "item_text q it"] by blast
  define P where "P = (\<lambda>d. if iflags it AND QF_PREFIX \<noteq> 0 then \<exists>t\<in>set (doc_terms d). prefix (item_text q it) t
    else item_text q it \<in> set (doc_terms d))"
  have v: "tidset_ok (eset v) \<and> set (eset v) = {x. \<exists>d. (x, d) \<in> set ds \<and> P d} \<and> \<not> negated v \<and>
    (inexact v \<longleftrightarrow> iflags it AND QF_WEIGHTED \<noteq> 0)"
  proof (cases "iflags it AND QF_PREFIX \<noteq> 0")
    case True
    then have "v = \<lparr>eset = weave_lookup_prefix D (item_text q it), negated = False, inexact = iflags it AND QF_WEIGHTED \<noteq> 0\<rparr>"
      using assms(3) by (simp add: eval_leaf_def)
    then show ?thesis using lookup_prefix_tids [OF assms(1,2), of "item_text q it"] True by (simp add: P_def)
  next
    case False
    then show ?thesis using assms(3) r by (auto simp: eval_leaf_def P_def)
  qed
  then show "val_of ds v" by (force simp: val_of_def)
  show "rel x v (term_positions hr hf d (item_text q it) (iflags it) (idist it))"
    if "(x, d) \<in> set ds" "doc_ok d" "iflags it AND QF_FUZZY = 0" "iflags it AND QF_REGEX = 0"
  proof -
    have m: "mem v x \<longleftrightarrow> P d" using v that(1) doc_unique [OF assms(1)] by (auto simp: mem_def)
    have "(present (term_positions hr hf d (item_text q it) (iflags it) (idist it)) \<longrightarrow> P d) \<and>
      (iflags it AND QF_WEIGHTED = 0 \<longrightarrow> P d \<longrightarrow> present (term_positions hr hf d (item_text q it) (iflags it) (idist it)))"
    proof (cases "iflags it AND QF_PREFIX \<noteq> 0")
      case True
      then have "present (term_positions hr hf d (item_text q it) (iflags it) (idist it)) \<longleftrightarrow> P d"
        using that(2-4) has_prefix_exact [of d "item_text q it"] by (simp add: term_positions_def P_def doc_ok_def absent_def)
      then show ?thesis by blast
    next
      case False
      then show ?thesis
        using that(3,4) lookup_terms [OF that(2), of "item_text q it"]
        by (cases "weave_doc_lookup d (item_text q it)") (simp_all add: term_positions_def P_def absent_def)
    qed
    then show ?thesis using m v by (auto simp: rel_def)
  qed
qed

lemma eval_leaf_inexact: "eval_leaf D q it = Inr v \<Longrightarrow> inexact v \<longleftrightarrow> iflags it AND QF_WEIGHTED \<noteq> 0"
  by (cases "weave_lookup_term D (item_text q it)") (auto simp: eval_leaf_def split: if_splits)

lemma eval_not_rel: "rel x v m \<Longrightarrow> rel x (eval_not v) (boolean_val (\<not> present m))"
  by (cases "inexact v"; cases "negated v") (simp_all add: rel_def eval_not_def mem_def, blast+)

lemma eval_binary_rel:
  assumes "val_of ds a" "val_of ds b" "eval_binary op a b = Inr v"
  shows "val_of ds v" "inexact v \<longleftrightarrow> inexact a \<or> inexact b \<or> op = OP_PHRASE"
    "mem v x \<longleftrightarrow> (if op = OP_AND \<or> op = OP_PHRASE then mem a x \<and> mem b x else mem a x \<or> mem b x)"
proof -
  have ok: "tidset_ok (eset a)" "tidset_ok (eset b)" using assms(1,2) by (auto simp: val_of_def)
  obtain r1 r2 r3 where r: "tidset_and (eset a) (eset b) = Inr r1" "tidset_ok r1" "set r1 = set (eset a) \<inter> set (eset b)"
    "tidset_andnot (eset a) (eset b) = Inr r2" "tidset_ok r2" "set r2 = set (eset a) - set (eset b)"
    "tidset_andnot (eset b) (eset a) = Inr r3" "tidset_ok r3" "set r3 = set (eset b) - set (eset a)"
    using tidset_and_spec [OF ok] tidset_andnot_spec [OF ok] tidset_andnot_spec [OF ok(2,1)] by blast
  have or: "tidset_ok s \<and> set s = set (eset a) \<union> set (eset b)" if "tidset_or (eset a) (eset b) = Inr s" for s
    by (rule tidset_or_spec [OF ok that])
  have "val_of ds v \<and> (inexact v \<longleftrightarrow> inexact a \<or> inexact b \<or> op = OP_PHRASE) \<and>
    (mem v x \<longleftrightarrow> (if op = OP_AND \<or> op = OP_PHRASE then mem a x \<and> mem b x else mem a x \<or> mem b x))"
  proof (cases "tidset_or (eset a) (eset b)")
    case (Inl e)
    then show ?thesis
      using assms r
      by (cases "negated a"; cases "negated b"; cases "op = OP_AND \<or> op = OP_PHRASE") (auto simp: eval_binary_def val_of_def mem_def)
  next
    case (Inr s)
    note or [OF Inr]
    then show ?thesis
      using assms r Inr
      by (cases "negated a"; cases "negated b"; cases "op = OP_AND \<or> op = OP_PHRASE") (auto simp: eval_binary_def val_of_def mem_def)
  qed
  then show "val_of ds v" "inexact v \<longleftrightarrow> inexact a \<or> inexact b \<or> op = OP_PHRASE"
    "mem v x \<longleftrightarrow> (if op = OP_AND \<or> op = OP_PHRASE then mem a x \<and> mem b x else mem a x \<or> mem b x)" by blast+
qed

lemma eval_step_cases:
  assumes "eval_items D q (it # its) vs = Some (Inr vs')"
  obtains v where "itype it = QI_VAL" "eval_leaf D q it = Inr v" "eval_items D q its (v # vs) = Some (Inr vs')"
  | v us where "itype it \<noteq> QI_VAL" "iop it = OP_NOT" "vs = v # us" "eval_items D q its (eval_not v # us) = Some (Inr vs')"
  | b a us v where "itype it \<noteq> QI_VAL" "iop it \<noteq> OP_NOT" "vs = b # a # us" "eval_binary (iop it) a b = Inr v"
    "eval_items D q its (v # us) = Some (Inr vs')"
  using assms by (auto split: if_splits sum.splits list.splits)

lemma not_val_of [simp]: "val_of ds v \<Longrightarrow> val_of ds (eval_not v)"
  by (simp add: val_of_def eval_not_def)

lemma eval_items_val:
  assumes "distinct (map fst ds)" "dict_holds ds D"
  shows "eval_items D q its vs = Some (Inr vs') \<Longrightarrow> list_all (val_of ds) vs \<Longrightarrow> list_all (val_of ds) vs'"
proof (induction its arbitrary: vs)
  case (Cons it its)
  from Cons.prems(1) show ?case
  proof (cases rule: eval_step_cases)
    case (1 v)
    then show ?thesis using Cons.IH [of "v # vs"] Cons.prems(2) eval_leaf_rel(1) [OF assms] by simp
  next
    case (2 v us)
    then show ?thesis using Cons.IH [of "eval_not v # us"] Cons.prems(2) by simp
  next
    case (3 b a us v)
    then show ?thesis using Cons.IH [of "v # us"] Cons.prems(2) by (simp add: eval_binary_rel(1) [of ds a b "iop it"])
  qed
qed simp

definition plain_items :: "query_item list \<Rightarrow> bool" where
  "plain_items its \<longleftrightarrow>
     (\<forall>it\<in>set its. itype it = QI_VAL \<longrightarrow> iflags it AND QF_FUZZY = 0 \<and> iflags it AND QF_REGEX = 0)"

abbreviation rel_ok :: "tid \<Rightarrow> eval_val \<Rightarrow> match_val \<Rightarrow> bool" where
  "rel_ok x v m \<equiv> rel x v m \<and> match_ok m"

lemma binary_step:
  assumes "rel_ok x a l" "rel_ok x b r" "val_of ds a" "val_of ds b" "eval_binary (iop it) a b = Inr v"
  shows "rel_ok x v (if iop it = OP_PHRASE then phrase_step l r k e
    else if iop it = OP_AND then boolean_val (present l \<and> present r) else boolean_val (present l \<or> present r))"
proof -
  have i: "inexact v \<longleftrightarrow> inexact a \<or> inexact b \<or> iop it = OP_PHRASE"
    and m: "mem v x \<longleftrightarrow> (if iop it = OP_AND \<or> iop it = OP_PHRASE then mem a x \<and> mem b x else mem a x \<or> mem b x)"
    by (rule eval_binary_rel [OF assms(3-5)])+
  show ?thesis
  proof (cases "iop it = OP_PHRASE")
    case True
    then show ?thesis using assms(1,2) i m phrase_step_present [of l r k e] by (auto simp: rel_def)
  next
    case False
    then show ?thesis using assms(1,2) i m by (cases "iop it = OP_AND") (auto simp: rel_def)
  qed
qed

lemma eval_items_rel:
  assumes "distinct (map fst ds)" "dict_holds ds D" "(x, d) \<in> set ds" "doc_ok d"
  shows "eval_items D q its vs = Some (Inr vs') \<Longrightarrow> list_all (val_of ds) vs \<Longrightarrow> plain_items its \<Longrightarrow>
    list_all2 (rel_ok x) vs ms \<Longrightarrow>
    \<exists>ms'. run_items (match_step hr hf d q) its ms = Some ms' \<and> list_all2 (rel_ok x) vs' ms'"
proof (induction its arbitrary: vs ms)
  case (Cons it its)
  have plain: "plain_items its" using Cons.prems(3) by (simp add: plain_items_def)
  from Cons.prems(1) show ?case
  proof (cases rule: eval_step_cases)
    case (1 v)
    let ?m = "term_positions hr hf d (item_text q it) (iflags it) (idist it)"
    have "rel x v ?m"
      using eval_leaf_rel(2) [OF assms(1,2) 1(2) assms(3,4)] Cons.prems(3) 1(1) by (simp add: plain_items_def)
    then show ?thesis
      using Cons.IH [OF 1(3) _ plain, of "?m # ms"] Cons.prems(2,4) 1 eval_leaf_rel(1) [OF assms(1,2) 1(2)] match_ok_leaf
      by (simp add: match_step.simps)
  next
    case (2 v us)
    then obtain m ns where m: "ms = m # ns" "rel_ok x v m" "list_all2 (rel_ok x) us ns"
      using Cons.prems(4) by (auto simp: list_all2_Cons1)
    then show ?thesis
      using Cons.IH [OF 2(4) _ plain, of "boolean_val (\<not> present m) # ns"] Cons.prems(2) 2 eval_not_rel [of x v m]
      by (simp add: match_step.simps)
  next
    case (3 b a us v)
    then obtain r l ns where m: "ms = r # l # ns" "rel_ok x b r" "rel_ok x a l" "list_all2 (rel_ok x) us ns"
      using Cons.prems(4) by (auto simp: list_all2_Cons1)
    have vals: "val_of ds a" "val_of ds b" "list_all (val_of ds) us" using Cons.prems(2) 3(3) by simp_all
    note rel = binary_step [OF m(3,2) vals(1,2) 3(4), of "idist it" "iflags it AND QF_PHRASE_EXACT \<noteq> 0"]
    show ?thesis
      using Cons.IH [OF 3(5) _ plain, of "_ # ns"] rel m(4) vals(3) eval_binary_rel(1) [OF vals(1,2) 3(4)] 3(1,2) m(1)
      by (simp add: match_step.simps)
  qed
qed simp

lemma eval_items_exact:
  assumes "\<forall>it\<in>set its. if itype it = QI_VAL then iflags it AND QF_WEIGHTED = 0 else iop it \<noteq> OP_PHRASE"
    and "distinct (map fst ds)" "dict_holds ds D"
  shows "eval_items D q its vs = Some (Inr vs') \<Longrightarrow> list_all (val_of ds) vs \<Longrightarrow> list_all (\<lambda>v. \<not> inexact v) vs \<Longrightarrow>
    list_all (\<lambda>v. \<not> inexact v) vs'"
  using assms(1)
proof (induction its arbitrary: vs)
  case (Cons it its)
  from Cons.prems(1) show ?case
  proof (cases rule: eval_step_cases)
    case (1 v)
    moreover have "\<not> inexact v" using Cons.prems(4) 1(1) eval_leaf_inexact [OF 1(2)] by simp
    ultimately show ?thesis using Cons.IH [of "v # vs"] Cons.prems eval_leaf_rel(1) [OF assms(2,3)] by simp
  next
    case (2 v us)
    then show ?thesis using Cons.IH [of "eval_not v # us"] Cons.prems by (simp add: eval_not_def val_of_def)
  next
    case (3 b a us v)
    then show ?thesis using Cons.IH [of "v # us"] Cons.prems eval_binary_rel(1,2) [of ds a b "iop it" v] by simp
  qed
qed simp

lemma arity_cases:
  obtains "itype it = QI_VAL" "item_arity it = 0" | "itype it \<noteq> QI_VAL" "iop it = OP_NOT" "item_arity it = 1"
    | "itype it \<noteq> QI_VAL" "iop it \<noteq> OP_NOT" "item_arity it = 2"
  by (auto simp: item_arity_def)

lemma eval_items_depth:
  "run_items (match_step hr hf d q) its ms = Some ms' \<Longrightarrow> length vs = length ms \<Longrightarrow>
   eval_items D q its vs \<noteq> None \<and> (\<forall>vs'. eval_items D q its vs = Some (Inr vs') \<longrightarrow> length vs' = length ms')"
proof (induction its arbitrary: vs ms)
  case (Cons it its)
  obtain ns where ns: "match_step hr hf d q it ms = Some ns" "run_items (match_step hr hf d q) its ns = Some ms'"
    using Cons.prems(1) by (auto simp: bind_eq_Some_conv)
  have len: "item_arity it \<le> length vs" "length ns = Suc (length vs - item_arity it)"
    using matcher.step_enough [OF ns(1)] Cons.prems(2) by simp_all
  show ?case
  proof (cases it rule: arity_cases)
    case 1
    have "length (v # vs) = length ns" for v :: eval_val using len 1(2) by simp
    note Cons.IH [OF ns(2) this]
    then show ?thesis using 1(1) by (cases "eval_leaf D q it") simp_all
  next
    case 2
    then obtain v us where vs: "vs = v # us" using len(1) by (cases vs) simp_all
    have "length (eval_not v # us) = length ns" using len 2(3) vs by simp
    note Cons.IH [OF ns(2) this]
    then show ?thesis using 2(1,2) vs by simp
  next
    case 3
    then obtain b us where b: "vs = b # us" using len(1) by (cases vs) simp_all
    then obtain a ts where vs: "vs = b # a # ts" using len(1) 3(3) by (cases us) simp_all
    have "length (v # ts) = length ns" for v :: eval_val using len 3(3) vs by simp
    note Cons.IH [OF ns(2) this]
    then show ?thesis using 3(1,2) vs by (cases "eval_binary (iop it) a b") simp_all
  qed
qed simp

lemma valid_runs:
  assumes "weave_query_validate verify q = Valid" "qitems q \<noteq> []"
  obtains m where "run_items (match_step hr hf d q) (qitems q) [] = Some [m]"
    "weave_doc_matches hr hf d q = Some (present m)"
  using validated_run [OF assms, of hr hf d] assms(2) by (auto simp: weave_doc_matches_def)

lemma eval_query_some:
  assumes "weave_query_validate verify q = Valid"
  shows "weave_eval_query D q u \<noteq> None"
proof (cases "qitems q = []")
  case False
  obtain m where m: "run_items (match_step (\<lambda>_ _. False) (\<lambda>_ _ _. False) undefined q) (qitems q) [] = Some [m]"
    using valid_runs [OF assms False] by blast
  then show ?thesis
    using eval_items_depth [OF m, of "[]" D] by (auto simp: weave_eval_query_def split: option.splits sum.splits)
qed (simp add: weave_eval_query_def)

lemma eval_query_tids:
  assumes "weave_query_validate verify q = Valid" "plain_items (qitems q)"
    and ds: "distinct (map fst ds)" "dict_holds ds D" "\<forall>(x, d)\<in>set ds. doc_ok d"
    and u: "\<And>r. u = Inr r \<Longrightarrow> tidset_ok r \<and> set r = tids ds"
    and r: "weave_eval_query D q u = Some (Inr r)"
  shows "tidset_ok r" "set r \<subseteq> tids ds"
    and "(x, d) \<in> set ds \<Longrightarrow> matches hr hf q d \<Longrightarrow> x \<in> set r"
    and "\<not> has_flag QF_WEIGHTED q \<Longrightarrow> \<forall>it\<in>set (qitems q). itype it \<noteq> QI_VAL \<longrightarrow> iop it \<noteq> OP_PHRASE \<Longrightarrow>
      (x, d) \<in> set ds \<Longrightarrow> x \<in> set r \<Longrightarrow> matches hr hf q d"
proof -
  have "tidset_ok r \<and> set r \<subseteq> tids ds \<and> ((x, d) \<in> set ds \<longrightarrow> matches hr hf q d \<longrightarrow> x \<in> set r) \<and>
    (\<not> has_flag QF_WEIGHTED q \<longrightarrow> (\<forall>it\<in>set (qitems q). itype it \<noteq> QI_VAL \<longrightarrow> iop it \<noteq> OP_PHRASE) \<longrightarrow>
      (x, d) \<in> set ds \<longrightarrow> x \<in> set r \<longrightarrow> matches hr hf q d)"
  proof (cases "qitems q = []")
    case True
    then show ?thesis using r by (simp add: weave_eval_query_def weave_doc_matches_def)
  next
    case False
    obtain m where m: "run_items (match_step hr hf d q) (qitems q) [] = Some [m]" "weave_doc_matches hr hf d q = Some (present m)"
      using valid_runs [OF assms(1) False] by blast
    obtain vs where vs: "eval_items D q (qitems q) [] = Some (Inr vs)" "length vs = 1"
      using eval_items_depth [OF m(1), of "[]" D] r False
      by (auto simp: weave_eval_query_def split: option.splits sum.splits)
    then obtain v where v: "vs = [v]" by (auto simp: length_Suc_conv)
    have val: "tidset_ok (eset v)" "set (eset v) \<subseteq> tids ds"
      using eval_items_val [OF ds(1,2) vs(1)] v by (simp_all add: val_of_def)
    have rel: "rel x v m" if "(x, d) \<in> set ds"
      using eval_items_rel [OF ds(1,2) that _ vs(1) _ assms(2), of "[]" hr hf] ds(3) that m(1) v by auto
    have exact: "\<not> inexact v"
      if "\<not> has_flag QF_WEIGHTED q" "\<forall>it\<in>set (qitems q). itype it \<noteq> QI_VAL \<longrightarrow> iop it \<noteq> OP_PHRASE"
      using eval_items_exact [OF _ ds(1,2) vs(1)] that v by (auto simp: has_flag_def list_ex_iff)
    have fin: "tidset_ok r \<and> set r = (if negated v then tids ds - set (eset v) else set (eset v))"
    proof (cases "negated v")
      case True
      then obtain w where w: "u = Inr w" "tidset_andnot w (eset v) = Inr r"
        using r False vs(1) v by (auto simp: weave_eval_query_def split: sum.splits)
      then show ?thesis using tidset_andnot_spec [of w "eset v"] u [OF w(1)] val(1) True by auto
    next
      case neg: False
      then show ?thesis using r False vs(1) v val(1) by (simp add: weave_eval_query_def)
    qed
    have "x \<in> set r \<longleftrightarrow> mem v x" if "(x, d) \<in> set ds" using that fin by (auto simp: mem_def rev_image_eqI)
    then show ?thesis using fin val(2) rel exact m(2) by (auto simp: rel_def)
  qed
  then show "tidset_ok r" "set r \<subseteq> tids ds"
    and "(x, d) \<in> set ds \<Longrightarrow> matches hr hf q d \<Longrightarrow> x \<in> set r"
    and "\<not> has_flag QF_WEIGHTED q \<Longrightarrow> \<forall>it\<in>set (qitems q). itype it \<noteq> QI_VAL \<longrightarrow> iop it \<noteq> OP_PHRASE \<Longrightarrow>
      (x, d) \<in> set ds \<Longrightarrow> x \<in> set r \<Longrightarrow> matches hr hf q d"
    by blast+
qed

end
