(* ===== verification/Weave_Lexphrase.thy ===== *)
theory Weave_Lexphrase
  imports Weave_Lexeval
begin

text \<open>
  The positional phrase path of the lexical scan against the matcher's phrase steps: a chain of terms answered from
  the postings' positions gives the documents on which the evaluator of \<open>src/query/match.c\<close> finds the phrase.
\<close>

subsection \<open>Positions and ordinals\<close>

lemma ord_ord [simp]: "WEAVE_POS_ORD (WEAVE_POS_ORD p) = WEAVE_POS_ORD p"
  by (simp add: WEAVE_POS_ORD_def and.assoc)

lemma dropWhile_ord: "(\<And>p. P (WEAVE_POS_ORD p) = P p) \<Longrightarrow> dropWhile P (map WEAVE_POS_ORD ls) = map WEAVE_POS_ORD (dropWhile P ls)"
  by (induction ls) auto

lemma phrase_loop_ord:
  "phrase_loop (map WEAVE_POS_ORD ls) (map WEAVE_POS_ORD rs) k e = map WEAVE_POS_ORD (phrase_loop ls rs k e)"
proof (induction rs arbitrary: ls)
  case (Cons r rs)
  let ?P = "\<lambda>l. (ucast (WEAVE_POS_ORD l) :: u64) + ucast k < ucast (WEAVE_POS_ORD r)"
  have "dropWhile ?P (map WEAVE_POS_ORD ls) = map WEAVE_POS_ORD (dropWhile ?P ls)" by (rule dropWhile_ord) simp
  note drop = this
  show ?case
  proof (cases "dropWhile ?P ls")
    case Nil
    then show ?thesis using drop Cons.IH [of ls] by (simp add: Let_def del: dropWhile_eq_Nil_conv)
  next
    case c: (Cons a as)
    then show ?thesis using drop Cons.IH [of ls] Cons.IH [of "a # as"] by (simp add: Let_def)
  qed
qed simp

lemma step_pos_ord:
  "weave_phrase_step_pos (map WEAVE_POS_ORD ls) (map WEAVE_POS_ORD rs) k e = map WEAVE_POS_ORD (weave_phrase_step_pos ls rs k e)"
  unfolding weave_phrase_step_pos_def by (subst dropWhile_ord) (simp_all add: phrase_loop_ord)

subsection \<open>The matcher on a chain\<close>

fun chain_vals :: "match_val \<Rightarrow> match_val list \<Rightarrow> (u32 \<times> bool) list \<Rightarrow> match_val" where
  "chain_vals acc (m # ms) (st # steps) = chain_vals (phrase_step acc m (fst st) (snd st)) ms steps"
| "chain_vals acc _ _ = acc"

lemma chain_vals_snoc:
  "length ms < length steps \<Longrightarrow> chain_vals acc (ms @ [m]) steps =
    phrase_step (chain_vals acc ms steps) m (fst (steps ! length ms)) (snd (steps ! length ms))"
proof (induction acc ms steps rule: chain_vals.induct [case_names step empty stop])
  case (empty acc steps)
  then show ?case by (cases steps) auto
qed auto

lemma chain_vals_update: "length ms \<le> n \<Longrightarrow> chain_vals acc ms (steps[n := st]) = chain_vals acc ms steps"
proof (induction acc ms steps arbitrary: n rule: chain_vals.induct)
  case (1 acc m ms st' steps)
  then show ?case by (cases n) auto
qed auto

lemma chain_vals_present:
  "list_all match_ok ms \<Longrightarrow> match_ok acc \<Longrightarrow> length ms \<le> length steps \<Longrightarrow> present (chain_vals acc ms steps) \<Longrightarrow>
   present acc \<and> list_all present ms"
  by (induction acc ms steps rule: chain_vals.induct) (auto dest: phrase_step_present)

definition chain_inv :: "(query_item \<Rightarrow> match_val) \<Rightarrow> query_item list \<Rightarrow> (u32 \<times> bool) list \<Rightarrow> nat \<Rightarrow> match_val list \<Rightarrow> bool" where
  \<comment> \<open>the matcher's stack where the chain test stands\<close>
  "chain_inv L ts steps stack ms \<longleftrightarrow> length steps = MAX_PHRASE_TERMS \<and> length ts \<le> MAX_PHRASE_TERMS \<and>
     (stack = 0 \<and> ts = [] \<and> ms = [] \<or>
      stack = 1 \<and> (\<exists>u us. ts = u # us \<and> ms = [chain_vals (L u) (map L us) steps]) \<or>
      stack = 2 \<and> (\<exists>u us v. ts = u # us @ [v] \<and> ms = [L v, chain_vals (L u) (map L us) steps]))"

lemma chain_loop_run:
  assumes "\<forall>it\<in>set its. itype it = QI_VAL \<longrightarrow> L it = term_positions hr hf d (item_text q it) (iflags it) (idist it)"
  shows "chain_loop its ts steps stack = Some (ts', steps', stack') \<Longrightarrow> chain_inv L ts steps stack ms \<Longrightarrow>
    (\<exists>ms'. run_items (match_step hr hf d q) its ms = Some ms' \<and> chain_inv L ts' steps' stack' ms') \<and>
    (\<forall>it\<in>set ts'. it \<in> set ts \<or> it \<in> set its \<and> itype it = QI_VAL \<and> iflags it AND (QF_PREFIX OR QF_FUZZY OR QF_REGEX) = 0)"
  using assms
proof (induction its arbitrary: ts steps stack ms)
  case (Cons it its)
  note IH = Cons.IH [OF _ _ ballI [OF bspec [OF Cons.prems(3)]], simplified]
  consider "itype it = QI_VAL" "iflags it AND (QF_PREFIX OR QF_FUZZY OR QF_REGEX) = 0" "length ts < MAX_PHRASE_TERMS" "stack < 2"
      "chain_loop its (ts @ [it]) steps (stack + 1) = Some (ts', steps', stack')"
    | "itype it = QI_OPR" "iop it = OP_PHRASE" "2 \<le> stack"
      "chain_loop its ts (steps[length ts - 2 := (idist it, iflags it AND QF_PHRASE_EXACT \<noteq> 0)]) (stack - 1) = Some (ts', steps', stack')"
    using Cons.prems(1) by (auto simp: query_consts split: if_splits)
  then show ?case
  proof cases
    case 1
    have L: "L it = term_positions hr hf d (item_text q it) (iflags it) (idist it)" using Cons.prems(3) 1(1) by simp
    have "chain_inv L (ts @ [it]) steps (stack + 1) (L it # ms)"
      using Cons.prems(2) 1(3,4) by (auto simp: chain_inv_def)
    moreover have "match_step hr hf d q it ms = Some (L it # ms)" using 1(1) L by (simp add: match_step.simps)
    ultimately show ?thesis using IH [OF 1(5), of "L it # ms"] 1(1,2) by auto
  next
    case 2
    then obtain u us v where s: "stack = 2" "ts = u # us @ [v]" "ms = [L v, chain_vals (L u) (map L us) steps]"
      "length steps = MAX_PHRASE_TERMS" "length ts \<le> MAX_PHRASE_TERMS"
      using Cons.prems(2) by (auto simp: chain_inv_def)
    let ?st = "(idist it, iflags it AND QF_PHRASE_EXACT \<noteq> 0)"
    have "chain_vals (L u) (map L (us @ [v])) (steps[length us := ?st]) =
        phrase_step (chain_vals (L u) (map L us) steps) (L v) (fst ?st) (snd ?st)"
      using s by (simp add: chain_vals_snoc chain_vals_update)
    then have "chain_inv L ts (steps[length ts - 2 := ?st]) (stack - 1)
        [phrase_step (chain_vals (L u) (map L us) steps) (L v) (fst ?st) (snd ?st)]"
      using s by (simp add: chain_inv_def)
    moreover have "match_step hr hf d q it ms = Some [phrase_step (chain_vals (L u) (map L us) steps) (L v) (fst ?st) (snd ?st)]"
      using 2(1,2) s(3) by (simp add: match_step.simps query_consts)
    ultimately show ?thesis
      using IH [OF 2(4), of "[phrase_step (chain_vals (L u) (map L us) steps) (L v) (fst ?st) (snd ?st)]"] by auto
  qed
qed simp

lemma phrase_chain_matches:
  assumes "weave_phrase_chain q = Some (ts, steps)"
  obtains u us where "ts = u # us" "length us \<le> length steps"
    "\<forall>it\<in>set ts. it \<in> set (qitems q) \<and> itype it = QI_VAL \<and> iflags it AND (QF_PREFIX OR QF_FUZZY OR QF_REGEX) = 0"
    "\<And>hr hf d. weave_doc_matches hr hf d q = Some (present (chain_vals
        (term_positions hr hf d (item_text q u) (iflags u) (idist u))
        (map (\<lambda>it. term_positions hr hf d (item_text q it) (iflags it) (idist it)) us) steps))"
proof -
  have c: "chain_loop (qitems q) [] (replicate MAX_PHRASE_TERMS (0, False)) 0 = Some (ts, steps, 1)" "qitems q \<noteq> []"
    using assms by (auto simp: weave_phrase_chain_def split: option.splits if_splits prod.splits)
  have inv: "chain_inv L [] (replicate MAX_PHRASE_TERMS (0, False)) 0 []" for L by (simp add: chain_inv_def)
  have run: "(\<exists>ms'. run_items (match_step hr hf d q) (qitems q) [] = Some ms' \<and>
      chain_inv (\<lambda>it. term_positions hr hf d (item_text q it) (iflags it) (idist it)) ts steps 1 ms') \<and>
    (\<forall>it\<in>set ts. it \<in> set [] \<or> it \<in> set (qitems q) \<and> itype it = QI_VAL \<and> iflags it AND (QF_PREFIX OR QF_FUZZY OR QF_REGEX) = 0)"
    for hr hf d
    by (rule chain_loop_run [OF _ c(1) inv]) simp
  obtain u us where u: "ts = u # us" "length us \<le> length steps"
    using run [of "\<lambda>_ _. False" "\<lambda>_ _ _. False" undefined] by (auto simp: chain_inv_def)
  show ?thesis
  proof (rule that [OF u])
    show "\<forall>it\<in>set ts. it \<in> set (qitems q) \<and> itype it = QI_VAL \<and> iflags it AND (QF_PREFIX OR QF_FUZZY OR QF_REGEX) = 0"
      using run by simp
    show "weave_doc_matches hr hf d q = Some (present (chain_vals
        (term_positions hr hf d (item_text q u) (iflags u) (idist u))
        (map (\<lambda>it. term_positions hr hf d (item_text q it) (iflags it) (idist it)) us) steps))" for hr hf d
      using run [of hr hf d] u(1) c(2) by (auto simp: chain_inv_def weave_doc_matches_def)
  qed
qed

subsection \<open>The postings of a term\<close>

lemma pospost_find_spec:
  "asc (map fst pl) \<Longrightarrow> 0 \<le> lo \<Longrightarrow> hi < int (length pl) \<Longrightarrow>
   \<forall>i<length pl. fst (pl ! i) = k \<longrightarrow> lo \<le> int i \<and> int i \<le> hi \<Longrightarrow>
   pospost_find pl k lo hi = find (\<lambda>p. fst p = k) pl"
proof (induction pl k lo hi rule: pospost_find.induct [case_names step])
  case (step pl k lo hi)
  let ?mid = "(lo + hi) div 2"
  show ?case
  proof (cases "lo \<le> hi")
    case False
    then have "\<forall>p\<in>set pl. fst p \<noteq> k" using step.prems(4) by (force simp: in_set_conv_nth)
    then have "find (\<lambda>p. fst p = k) pl = None" by (auto simp: find_None_iff)
    then show ?thesis using False by (subst pospost_find.simps) simp
  next
    case True
    then have mid: "lo \<le> ?mid" "?mid \<le> hi" "nat ?mid < length pl" using step.prems(2,3) by auto
    have mono: "fst (pl ! i) < fst (pl ! j)" if "i < j" "j < length pl" for i j
      using sorted_wrt_nth_less [OF step.prems(1), of i j] that by simp
    consider "fst (pl ! nat ?mid) < k" | "k < fst (pl ! nat ?mid)" | "fst (pl ! nat ?mid) = k" by force
    then show ?thesis
    proof cases
      case 1
      have "?mid + 1 \<le> int i" if "i < length pl" "fst (pl ! i) = k" for i
        using mono [of i "nat ?mid"] mid(3) 1 that by (cases "i = nat ?mid"; cases "i < nat ?mid") auto
      then have "pospost_find pl k (?mid + 1) hi = find (\<lambda>p. fst p = k) pl"
        using step.IH(1) [OF True refl refl 1 step.prems(1) _ step.prems(3)] step.prems(2,4) mid by auto
      then show ?thesis using True 1 by (subst pospost_find.simps) (simp add: Let_def)
    next
      case 2
      have "int i \<le> ?mid - 1" if "i < length pl" "fst (pl ! i) = k" for i
        using mono [of "nat ?mid" i] mid 2 that by (cases "i = nat ?mid"; cases "nat ?mid < i") auto
      then have "pospost_find pl k lo (?mid - 1) = find (\<lambda>p. fst p = k) pl"
        using step.IH(2) [OF True refl refl _ 2 step.prems(1,2)] step.prems(3,4) mid 2 by auto
      moreover have "\<not> fst (pl ! nat ?mid) < k" using 2 by simp
      ultimately show ?thesis using True 2 by (subst pospost_find.simps) (simp only: Let_def if_True if_False)
    next
      case 3
      have "distinct (map fst pl)" using asc_distinct [OF step.prems(1)] .
      then have "find (\<lambda>p. fst p = k) pl = Some (pl ! nat ?mid)" using 3 mid(3) by (simp add: find_unique)
      then show ?thesis using True 3 by (subst pospost_find.simps) (simp add: Let_def)
    qed
  qed
qed

lemma weave_pospost_find_spec: "asc (map fst pl) \<Longrightarrow> weave_pospost_find pl k = find (\<lambda>p. fst p = k) pl"
  unfolding weave_pospost_find_def by (rule pospost_find_spec) auto

definition term_run :: "wdoc \<Rightarrow> u8 list \<Rightarrow> u32 list" where
  \<comment> \<open>the positions of a term of a document\<close>
  "term_run d t = (case weave_doc_lookup d t of None \<Rightarrow> [] | Some e \<Rightarrow> term_pos d e)"

definition pos_holds :: "u64 \<Rightarrow> docs \<Rightarrow> u8 list \<Rightarrow> pos_posting list \<Rightarrow> bool" where
  \<comment> \<open>a posting list in docid order: the documents of a term, with the ordinals of its positions\<close>
  "pos_holds F ds t pl \<longleftrightarrow> asc (map fst pl) \<and> length pl \<le> length ds \<and>
     (\<forall>p\<in>set pl. \<exists>x d. (x, d) \<in> set ds \<and> t \<in> set (doc_terms d) \<and> fst p = weave_tid_to_docid F x) \<and>
     (\<forall>(x, d)\<in>set ds. t \<in> set (doc_terms d) \<longrightarrow> WEAVE_DOC_HAS_POS d \<and> term_run d t \<noteq> [] \<and>
        (weave_tid_to_docid F x, map WEAVE_POS_ORD (term_run d t)) \<in> set pl)"

lemma find_term_entry:
  assumes "dict_holds ds D"
  shows "find_term D t = Some e \<longleftrightarrow> e \<in> set (concat (dpages D)) \<and> dterm e = t"
proof -
  have "dict_ok D" using assms by (simp add: dict_holds_def)
  then show ?thesis by (simp only: find_term_spec dict_entries [OF assms])
qed

lemma posting_run:
  assumes "distinct (map fst ds)" "\<forall>(x, d)\<in>set ds. doc_ok d" "dict_holds ds D" "e \<in> set (concat (dpages D))" "p \<in> set (dposts e)"
  shows "\<exists>d en. (ptid p, d) \<in> set ds \<and> dterm e \<in> set (doc_terms d) \<and> weave_doc_lookup d (dterm e) = Some en \<and>
    posting_ok p d en"
proof -
  obtain d en where d: "(ptid p, d) \<in> set ds" "find (\<lambda>en. term_text d en = dterm e) (dentries d) = Some en" "posting_ok p d en"
    using assms(3-5) by (fastforce simp: dict_holds_def entry_ok_def)
  then have l: "weave_doc_lookup d (dterm e) = Some en" using assms(2) by (auto simp: doc_ok_def lookup_exact)
  then have "dterm e \<in> set (doc_terms d)" using lookup_terms [of d "dterm e"] assms(2) d(1) by auto
  then show ?thesis using d l by blast
qed

lemma lookup_term_pos_ok:
  assumes "F \<le> 2 ^ 16" "distinct (map fst ds)" "\<forall>(x, d)\<in>set ds. valid_tid F x \<and> doc_ok d" "dict_holds ds D"
    and "weave_lookup_term_pos F D t = POS_OK pl"
  shows "pos_holds F ds t pl"
proof -
  obtain e where f: "find_term D t = Some e" and pos: "\<forall>p\<in>set (dposts e). (\<exists>ps. ppos p = Some ps) \<or> \<not> 0 < ptf p"
    and pl: "pl = sort_key fst (map (\<lambda>p. (weave_tid_to_docid F (ptid p), case ppos p of None \<Rightarrow> [] | Some ps \<Rightarrow> take (unat (ptf p)) ps)) (dposts e))"
    using assms(5) by (cases "find_term D t") (auto simp: weave_lookup_term_pos_def list_ex_iff split: if_splits)
  have e: "e \<in> set (concat (dpages D))" "dterm e = t"
    using f find_term_entry [OF assms(4)] by blast+
  have dok: "\<forall>(x, d)\<in>set ds. doc_ok d" using assms(3) by auto
  note run = posting_run [OF assms(2) dok assms(4) e(1), unfolded e(2)]
  define doc where "doc = (\<lambda>x. THE d. (x, d) \<in> set ds)"
  have doc: "doc x = d" if "(x, d) \<in> set ds" for x d
    unfolding doc_def using that doc_unique [OF assms(2)] by (intro the_equality) blast+
  have each: "(weave_tid_to_docid F (ptid p), case ppos p of None \<Rightarrow> [] | Some ps \<Rightarrow> take (unat (ptf p)) ps) =
      (weave_tid_to_docid F (ptid p), map WEAVE_POS_ORD (term_run (doc (ptid p)) t)) \<and>
      WEAVE_DOC_HAS_POS (doc (ptid p)) \<and> term_run (doc (ptid p)) t \<noteq> []" if p: "p \<in> set (dposts e)" for p
  proof -
    obtain d en where d: "(ptid p, d) \<in> set ds" "weave_doc_lookup d t = Some en" "posting_ok p d en"
      using run [OF p] by blast
    then obtain ps where "ppos p = Some ps" using pos p by (auto simp: posting_ok_def)
    then have "ps = map WEAVE_POS_ORD (term_pos d en)" "length (term_pos d en) = unat (ptf p)" "WEAVE_DOC_HAS_POS d" "0 < ptf p"
      using d(3) by (auto simp: posting_ok_def)
    then show ?thesis
      using \<open>ppos p = Some ps\<close> d(2) doc [OF d(1)] by (auto simp: term_run_def word_less_nat_alt)
  qed
  have set_pl: "set pl = (\<lambda>p. (weave_tid_to_docid F (ptid p), map WEAVE_POS_ORD (term_run (doc (ptid p)) t))) ` set (dposts e)"
    using each by (force simp: pl)
  have inj: "inj_on (weave_tid_to_docid F) (tids ds)" by (rule docid_inj [OF assms(1)]) (use assms(3) in auto)
  have posts: "ptid ` set (dposts e) \<subseteq> tids ds"
  proof
    fix x assume "x \<in> ptid ` set (dposts e)"
    then obtain p where "p \<in> set (dposts e)" "x = ptid p" by blast
    then show "x \<in> tids ds" using run [of p] by force
  qed
  have dist: "distinct (map ptid (dposts e))" using assms(4) e(1) by (auto simp: dict_holds_def entry_ok_def)
  then have "distinct (map (weave_tid_to_docid F) (map ptid (dposts e)))"
    using inj_on_subset [OF inj posts] by (simp only: distinct_map set_map)
  then have "distinct (map fst (map (\<lambda>p. (weave_tid_to_docid F (ptid p), case ppos p of None \<Rightarrow> [] | Some ps \<Rightarrow> take (unat (ptf p)) ps)) (dposts e)))"
    by (simp add: comp_def)
  then have "distinct (map fst pl)" by (simp only: pl distinct_map [of fst] distinct_sort set_sort)
  moreover have "sorted (map fst pl)" by (simp add: pl)
  ultimately have "asc (map fst pl)" by (simp add: strict_sorted_iff)
  moreover have "length pl \<le> length ds"
  proof -
    have "length pl = card (ptid ` set (dposts e))" using distinct_card [OF dist] by (simp add: pl)
    also have "\<dots> \<le> card (tids ds)" by (rule card_mono [OF _ posts]) simp
    also have "\<dots> \<le> length ds" using card_length [of "map fst ds"] by simp
    finally show ?thesis .
  qed
  moreover have "\<forall>p\<in>set pl. \<exists>x d. (x, d) \<in> set ds \<and> t \<in> set (doc_terms d) \<and> fst p = weave_tid_to_docid F x"
  proof
    fix p assume "p \<in> set pl"
    then obtain r where "r \<in> set (dposts e)" "fst p = weave_tid_to_docid F (ptid r)" by (auto simp: set_pl)
    then show "\<exists>x d. (x, d) \<in> set ds \<and> t \<in> set (doc_terms d) \<and> fst p = weave_tid_to_docid F x"
      using run [of r] by auto
  qed
  moreover have "WEAVE_DOC_HAS_POS d \<and> term_run d t \<noteq> [] \<and> (weave_tid_to_docid F x, map WEAVE_POS_ORD (term_run d t)) \<in> set pl"
    if xd: "(x, d) \<in> set ds" "t \<in> set (doc_terms d)" for x d
  proof -
    obtain p where p: "p \<in> set (dposts e)" "x = ptid p" using entry_tids [OF assms(2,4) e(1)] xd e(2) by blast
    then show ?thesis using each [OF p(1)] doc [OF xd(1)] by (auto simp: set_pl)
  qed
  ultimately show ?thesis by (auto simp: pos_holds_def)
qed

lemma lookup_term_pos_absent:
  assumes "dict_holds ds D" "weave_lookup_term_pos F D t = POS_ABSENT" "(x, d) \<in> set ds"
  shows "t \<notin> set (doc_terms d)"
proof
  assume "t \<in> set (doc_terms d)"
  then obtain e where "e \<in> set (concat (dpages D))" "dterm e = t" using assms(1,3) by (fastforce simp: dict_holds_def)
  then have "find_term D t = Some e" using find_term_entry [OF assms(1)] by blast
  then show False using assms(2) by (auto simp: weave_lookup_term_pos_def split: if_splits)
qed

subsection \<open>The drive\<close>

lemma gather_terms_all:
  "gather_terms F D q ts tls = Gathered tls' \<Longrightarrow>
   \<exists>us. tls' = tls @ us \<and> list_all2 (\<lambda>it pl. weave_lookup_term_pos F D (item_text q it) = POS_OK pl) ts us"
proof (induction ts arbitrary: tls)
  case (Cons it ts)
  then obtain pl where pl: "weave_lookup_term_pos F D (item_text q it) = POS_OK pl"
    "gather_terms F D q ts (tls @ [pl]) = Gathered tls'" by (auto split: pos_lookup.splits)
  then show ?case using Cons.IH [OF pl(2)] by auto
qed simp

lemma gather_terms_absent:
  "gather_terms F D q ts tls = GatherAbsent \<Longrightarrow> \<exists>it\<in>set ts. weave_lookup_term_pos F D (item_text q it) = POS_ABSENT"
  by (induction ts arbitrary: tls) (auto split: pos_lookup.splits)

lemma base_term_in:
  "(\<And>b. base = Some b \<Longrightarrow> b < length tls) \<Longrightarrow> base \<noteq> None \<or> t < length tls \<Longrightarrow> \<exists>b. base_term tls t base = Some b \<and> b < length tls"
proof (induction tls t base rule: base_term.induct)
  case (1 tls t base)
  show ?case
  proof (cases "t < length tls")
    case True
    let ?base = "case base of None \<Rightarrow> Some t | Some b \<Rightarrow> if length (tls ! t) < length (tls ! b) then Some t else Some b"
    have "\<exists>b. base_term tls (t + 1) ?base = Some b \<and> b < length tls"
      by (rule "1.IH" [OF True]) (use True "1.prems"(1) in \<open>auto split: option.splits if_splits\<close>)
    then show ?thesis using True by (subst base_term.simps) simp
  next
    case False
    then show ?thesis using "1.prems" by (subst base_term.simps) auto
  qed
qed

definition drive_hit :: "pos_posting list list \<Rightarrow> (u32 \<times> bool) list \<Rightarrow> u64 \<Rightarrow> bool" where
  \<comment> \<open>the document has every term, and their chain\<close>
  "drive_hit tls steps k \<longleftrightarrow> (\<exists>p ps acc. map (\<lambda>pl. find (\<lambda>p. fst p = k) pl) tls = map Some (p # ps) \<and>
     chain_positions (snd p) ps steps = Some acc \<and> acc \<noteq> [])"

definition drive_fits :: "pos_posting list list \<Rightarrow> (u32 \<times> bool) list \<Rightarrow> u64 \<Rightarrow> bool" where
  \<comment> \<open>its runs fit the buffer\<close>
  "drive_fits tls steps k \<longleftrightarrow> (\<forall>p ps. map (\<lambda>pl. find (\<lambda>p. fst p = k) pl) tls = map Some (p # ps) \<longrightarrow>
     chain_positions (snd p) ps steps \<noteq> None)"

lemma drive_hit_some:
  assumes "map (\<lambda>pl. find (\<lambda>p. fst p = k) pl) tls = map Some (p # ps)" "chain_positions (snd p) ps steps = Some acc"
  shows "drive_hit tls steps k \<longleftrightarrow> acc \<noteq> []"
  using assms(2) unfolding drive_hit_def assms(1) by (auto simp: inj_map_eq_map [OF inj_Some])

lemma map_some_nth: "map g xs = map Some ys \<Longrightarrow> i < length xs \<Longrightarrow> g (xs ! i) = Some (ys ! i)"
  by (metis length_map nth_map)

lemma drive_hit_find:
  assumes "drive_hit tls steps k" "b < length tls"
  shows "\<exists>p. find (\<lambda>p. fst p = k) (tls ! b) = Some p"
proof -
  obtain ps where "map (\<lambda>pl. find (\<lambda>p. fst p = k) pl) tls = map Some ps" using assms(1) unfolding drive_hit_def by blast
  then show ?thesis using map_some_nth [OF _ assms(2)] by blast
qed

lemma some_list: "None \<notin> set xs \<Longrightarrow> xs = map Some (map the xs)"
  by (induction xs) auto

lemma phrase_drive_spec:
  assumes "list_all (\<lambda>pl. asc (map fst pl)) tls" "b < length tls"
  shows "phrase_drive F tls steps b drs out = Some out' \<Longrightarrow> set drs \<subseteq> set (tls ! b) \<Longrightarrow>
    out' = out @ map (\<lambda>dr. weave_docid_to_tid F (fst dr)) (filter (\<lambda>dr. drive_hit tls steps (fst dr)) drs) \<and>
    (\<forall>dr\<in>set drs. drive_fits tls steps (fst dr))"
proof (induction drs arbitrary: out)
  case (Cons dr drs)
  let ?pp = "map (\<lambda>(t, pl). if t = b then Some dr else weave_pospost_find pl (fst dr)) (enumerate 0 tls)"
  let ?fs = "map (\<lambda>pl. find (\<lambda>p. fst p = fst dr) pl) tls"
  have dist: "distinct (map fst (tls ! b))" using assms asc_distinct by (auto simp: list_all_length)
  have pp: "?pp = ?fs"
  proof (rule nth_equalityI)
    fix i assume "i < length ?pp"
    then have i: "i < length tls" by simp
    have "find (\<lambda>p. fst p = fst dr) (tls ! b) = Some dr" using Cons.prems(2) dist by (simp add: find_unique)
    moreover have "asc (map fst (tls ! i))" using assms(1) i by (simp add: list_all_length)
    ultimately show "?pp ! i = ?fs ! i" using i by (simp add: nth_enumerate_eq weave_pospost_find_spec)
  qed simp
  have ne: "tls \<noteq> []" using assms(2) by auto
  show ?case
  proof (cases "None \<in> set ?fs")
    case True
    have some: "?fs \<noteq> map Some ps" for ps
    proof
      assume "?fs = map Some ps"
      then have "None \<notin> set ?fs" by (simp only: set_map) blast
      then show False using True by blast
    qed
    then have "\<not> drive_hit tls steps (fst dr)" "drive_fits tls steps (fst dr)"
      unfolding drive_hit_def drive_fits_def by blast+
    moreover have "phrase_drive F tls steps b drs out = Some out'"
      using Cons.prems(1) True unfolding phrase_drive.simps Let_def pp by simp
    ultimately show ?thesis using Cons.IH [of out] Cons.prems(2) by simp
  next
    case False
    then obtain ps where ps: "?fs = map Some ps" using some_list [OF False] by blast
    then obtain p qs where q: "ps = p # qs" using ne by (cases ps) auto
    obtain acc where acc: "chain_positions (snd p) qs steps = Some acc"
      "phrase_drive F tls steps b drs (if acc = [] then out else out @ [weave_docid_to_tid F (fst dr)]) = Some out'"
    proof (rule that)
      have the: "map the ?pp = p # qs" unfolding pp ps q by (simp add: comp_def)
      have nn: "None \<notin> set ?pp" unfolding pp using False .
      let ?c = "chain_positions (snd p) qs steps"
      have "phrase_drive F tls steps b (dr # drs) out =
        (if PHRASE_POSBUF < length (snd p) then None
         else case ?c of None \<Rightarrow> None
         | Some acc \<Rightarrow> phrase_drive F tls steps b drs (if acc = [] then out else out @ [weave_docid_to_tid F (fst dr)]))"
        by (simp only: phrase_drive.simps Let_def nn the if_False list.sel)
      then have "\<exists>acc. ?c = Some acc \<and>
          phrase_drive F tls steps b drs (if acc = [] then out else out @ [weave_docid_to_tid F (fst dr)]) = Some out'"
        using Cons.prems(1) by (cases ?c) (simp_all split: if_splits)
      then show "?c = Some (the ?c)"
        "phrase_drive F tls steps b drs (if the ?c = [] then out else out @ [weave_docid_to_tid F (fst dr)]) = Some out'" by auto
    qed
    have "drive_hit tls steps (fst dr) \<longleftrightarrow> acc \<noteq> []"
      by (rule drive_hit_some [OF _ acc(1)]) (simp add: ps q)
    moreover have "drive_fits tls steps (fst dr)"
      unfolding drive_fits_def ps q using acc(1) by (auto simp: inj_map_eq_map [OF inj_Some])
    ultimately show ?thesis using Cons.IH [OF acc(2)] Cons.prems(2) by simp
  qed
qed simp

subsection \<open>A chain on a document\<close>

abbreviation run_val :: "u32 list \<Rightarrow> match_val \<Rightarrow> bool" where
  \<comment> \<open>the value of a term or phrase with these ordinals\<close>
  "run_val acc m \<equiv> \<exists>ps. mpos m = Some ps \<and> acc = map WEAVE_POS_ORD ps \<and> (present m \<longleftrightarrow> ps \<noteq> [])"

lemma run_val_step: "run_val a l \<Longrightarrow> run_val b r \<Longrightarrow> run_val (weave_phrase_step_pos a b k e) (phrase_step l r k e)"
proof -
  assume "run_val a l" "run_val b r"
  then obtain ls rs where "mpos l = Some ls" "a = map WEAVE_POS_ORD ls" "mpos r = Some rs" "b = map WEAVE_POS_ORD rs" by blast
  then show ?thesis by (simp only: phrase_step_def step_pos_ord) (simp add: absent_def Let_def)
qed

lemma chain_positions_val:
  "chain_positions acc ps steps = Some acc' \<Longrightarrow> run_val acc m \<Longrightarrow> list_all2 (\<lambda>p. run_val (snd p)) ps ms \<Longrightarrow>
   length ps \<le> length steps \<Longrightarrow> present (chain_vals m ms steps) \<longleftrightarrow> acc' \<noteq> []"
proof (induction acc ps steps arbitrary: m ms rule: chain_positions.induct [case_names step empty stop])
  case (step acc p ps st steps)
  obtain r ns where r: "ms = r # ns" "run_val (snd p) r" "list_all2 (\<lambda>p. run_val (snd p)) ps ns"
    using step.prems(3) by (auto simp: list_all2_Cons1)
  let ?v = "phrase_step m r (fst st) (snd st)"
  have v: "run_val (weave_phrase_step_pos acc (snd p) (fst st) (snd st)) ?v" by (rule run_val_step [OF step.prems(2) r(2)])
  show ?case
  proof (cases "acc = []")
    case True
    then have "\<not> present ?v" "match_ok ?v" using v by (auto simp: weave_phrase_step_pos_def)
    moreover have "list_all match_ok ns" using r(3) by (auto simp: list_all2_conv_all_nth list_all_length match_ok_def)
    moreover have "length ns \<le> length steps" using list_all2_lengthD [OF r(3)] step.prems(4) by simp
    ultimately have "\<not> present (chain_vals ?v ns steps)" using chain_vals_present by blast
    then show ?thesis using True step.prems(1) r(1) by simp
  next
    case False
    then show ?thesis using step.IH [OF _ _ _ v r(3)] step.prems(1,4) r(1) by (auto split: if_splits)
  qed
next
  case (empty acc steps)
  then show ?case by auto
next
  case (stop acc ps)
  then show ?case by (cases ps) auto
qed

subsection \<open>A segment's phrase\<close>

lemma plain_leaf:
  assumes "doc_ok d" "iflags it = 0"
  shows "term_positions hr hf d (item_text q it) (iflags it) (idist it) =
    (if item_text q it \<in> set (doc_terms d)
     then absent\<lparr>present := True, mpos := if WEAVE_DOC_HAS_POS d then Some (term_run d (item_text q it)) else None\<rparr>
     else absent)"
  using lookup_terms [OF assms(1), of "item_text q it"] assms(2)
  by (auto simp: term_positions_def term_run_def Let_def split: option.splits)

lemma pos_holds_find:
  assumes "pos_holds F ds t pl" "distinct (map fst ds)" "F \<le> 2 ^ 16" "\<forall>(x, d)\<in>set ds. valid_tid F x" "(x, d) \<in> set ds"
  shows "find (\<lambda>p. fst p = weave_tid_to_docid F x) pl =
    (if t \<in> set (doc_terms d) then Some (weave_tid_to_docid F x, map WEAVE_POS_ORD (term_run d t)) else None)"
proof (cases "t \<in> set (doc_terms d)")
  case True
  then have "(weave_tid_to_docid F x, map WEAVE_POS_ORD (term_run d t)) \<in> set pl" using assms(1,5) by (auto simp: pos_holds_def)
  moreover have "distinct (map fst pl)" using asc_distinct [of "map fst pl"] assms(1) by (simp add: pos_holds_def)
  ultimately show ?thesis using True by (simp add: find_unique)
next
  case False
  have "weave_tid_to_docid F y \<noteq> weave_tid_to_docid F x" if "(y, d') \<in> set ds" "t \<in> set (doc_terms d')" for y d'
  proof
    assume "weave_tid_to_docid F y = weave_tid_to_docid F x"
    moreover have "inj_on (weave_tid_to_docid F) (tids ds)" by (rule docid_inj [OF assms(3)]) (use assms(4) in auto)
    ultimately have "y = x" using that(1) assms(5) by (force dest: inj_onD)
    then show False using doc_unique [OF assms(2)] that assms(5) False by blast
  qed
  then have "\<forall>p\<in>set pl. fst p \<noteq> weave_tid_to_docid F x" using assms(1) by (fastforce simp: pos_holds_def)
  then show ?thesis using False by (auto simp: find_None_iff)
qed

lemma map_all2: "list_all2 P xs ys \<Longrightarrow> (\<And>x y. P x y \<Longrightarrow> g y = f x) \<Longrightarrow> map g ys = map f xs"
  by (induction rule: list_all2_induct) auto

lemma drive_hit_matches:
  assumes "list_all2 (\<lambda>it pl. pos_holds F ds (item_text q it) pl) (u # us) tls"
    and "distinct (map fst ds)" "F \<le> 2 ^ 16" "\<forall>(x, d)\<in>set ds. valid_tid F x" "(x, d) \<in> set ds" "doc_ok d"
    and "\<forall>it\<in>set (u # us). iflags it = 0" "length us \<le> length steps"
    and "drive_fits tls steps (weave_tid_to_docid F x)"
  shows "drive_hit tls steps (weave_tid_to_docid F x) \<longleftrightarrow>
    present (chain_vals (term_positions hr hf d (item_text q u) (iflags u) (idist u))
      (map (\<lambda>it. term_positions hr hf d (item_text q it) (iflags it) (idist it)) us) steps)"
proof -
  let ?L = "\<lambda>it. term_positions hr hf d (item_text q it) (iflags it) (idist it)"
  let ?p = "\<lambda>it. (weave_tid_to_docid F x, map WEAVE_POS_ORD (term_run d (item_text q it)))"
  let ?finds = "map (\<lambda>pl. find (\<lambda>p. fst p = weave_tid_to_docid F x) pl) tls"
  note leaf = plain_leaf [OF assms(6), of _ hr hf q]
  have finds: "?finds = map (\<lambda>it. if item_text q it \<in> set (doc_terms d) then Some (?p it) else None) (u # us)"
    by (rule map_all2 [OF assms(1)]) (simp add: pos_holds_find [OF _ assms(2-5)])
  show ?thesis
  proof (cases "\<forall>it\<in>set (u # us). item_text q it \<in> set (doc_terms d)")
    case True
    then have f: "?finds = map Some (?p u # map ?p us)" unfolding finds by simp
    obtain acc where acc: "chain_positions (snd (?p u)) (map ?p us) steps = Some acc" using assms(9) f unfolding drive_fits_def by blast
    have run: "run_val (snd (?p it)) (?L it)" if "it \<in> set (u # us)" for it
    proof -
      have "\<exists>pl. pos_holds F ds (item_text q it) pl" using assms(1) that by (metis in_set_conv_nth list_all2_conv_all_nth)
      then have "WEAVE_DOC_HAS_POS d \<and> term_run d (item_text q it) \<noteq> []"
        using assms(5) True that by (auto simp: pos_holds_def)
      moreover have "iflags it = 0" "item_text q it \<in> set (doc_terms d)" using assms(7) True that by blast+
      ultimately show ?thesis using leaf [of it] by (simp add: absent_def)
    qed
    have "present (chain_vals (?L u) (map ?L us) steps) \<longleftrightarrow> acc \<noteq> []"
      by (rule chain_positions_val [OF acc]) (use run assms(8) in \<open>auto simp: list_all2_map1 list_all2_map2 list_all2_same\<close>)
    moreover have "drive_hit tls steps (weave_tid_to_docid F x) \<longleftrightarrow> acc \<noteq> []"
      by (rule drive_hit_some [OF f acc])
    ultimately show ?thesis by blast
  next
    case False
    then obtain it where it: "it \<in> set (u # us)" "item_text q it \<notin> set (doc_terms d)" by blast
    then have "None \<in> set ?finds" unfolding finds by auto
    then have "\<not> drive_hit tls steps (weave_tid_to_docid F x)"
      unfolding drive_hit_def by (metis (no_types, lifting) ex_map_conv option.distinct(1))
    moreover have "iflags it = 0" using assms(7) it(1) by blast
    then have "\<not> present (?L it)" using leaf [of it] it(2) by (simp add: absent_def)
    then have "\<not> present (chain_vals (?L u) (map ?L us) steps)"
      using chain_vals_present [of "map ?L us" "?L u" steps] it(1) assms(8) match_ok_leaf by (auto simp: list_all_iff)
    ultimately show ?thesis by blast
  qed
qed

lemma phrase_eval_seg_answers:
  assumes "F \<le> 2 ^ 16" "segment_holds F ds s" "sdict s = Some D" "weave_phrase_chain q = Some (ts, steps)"
    and "\<forall>it\<in>set ts. iflags it = 0" "weave_phrase_eval_seg F D q ts steps = Some new"
  shows "set new = {x. \<exists>d. (x, d) \<in> set ds \<and> matches hr hf q d} \<and> length new \<le> length ds"
proof -
  have ds: "distinct (map fst ds)" "dict_holds ds D" "\<forall>(x, d)\<in>set ds. valid_tid F x \<and> doc_ok d" "\<forall>(x, d)\<in>set ds. valid_tid F x"
    using assms(2,3) by (auto simp: segment_holds_def)
  obtain u us where c: "ts = u # us" "length us \<le> length steps"
    "\<And>hr hf d. weave_doc_matches hr hf d q = Some (present (chain_vals
        (term_positions hr hf d (item_text q u) (iflags u) (idist u))
        (map (\<lambda>it. term_positions hr hf d (item_text q it) (iflags it) (idist it)) us) steps))"
    using phrase_chain_matches [OF assms(4)] by blast
  show ?thesis
  proof (cases "gather_terms F D q ts []")
    case (Gathered tls)
    then have "list_all2 (\<lambda>it pl. weave_lookup_term_pos F D (item_text q it) = POS_OK pl) ts tls"
      using gather_terms_all [OF Gathered] by simp
    then have holds: "list_all2 (\<lambda>it pl. pos_holds F ds (item_text q it) pl) (u # us) tls"
      unfolding c(1) [symmetric] by (rule list_all2_mono) (rule lookup_term_pos_ok [OF assms(1) ds(1,3,2)])
    have "0 < length tls" using list_all2_lengthD [OF holds] by auto
    then obtain b where b: "base_term tls 0 None = Some b" "b < length tls"
      using base_term_in [of None tls 0] by auto
    then have drive: "phrase_drive F tls steps b (tls ! b) [] = Some new"
      using assms(6) Gathered by (simp add: weave_phrase_eval_seg_def)
    have asc: "list_all (\<lambda>pl. asc (map fst pl)) tls" using holds by (auto simp: list_all2_conv_all_nth list_all_length pos_holds_def)
    note spec = phrase_drive_spec [OF asc b(2) drive subset_refl]
    have pb: "pos_holds F ds (item_text q ((u # us) ! b)) (tls ! b)" using holds b(2) by (auto simp: list_all2_conv_all_nth)
    have hit: "drive_hit tls steps (weave_tid_to_docid F x) \<longleftrightarrow> matches hr hf q d" if xd: "(x, d) \<in> set ds" for x d
    proof -
      have "doc_ok d" using ds(3) xd by auto
      moreover have "drive_fits tls steps (weave_tid_to_docid F x)"
      proof (cases "find (\<lambda>p. fst p = weave_tid_to_docid F x) (tls ! b)")
        case None
        then have "None \<in> set (map (\<lambda>pl. find (\<lambda>p. fst p = weave_tid_to_docid F x) pl) tls)"
          using b(2) by (metis length_map nth_map nth_mem)
        then show ?thesis unfolding drive_fits_def by (metis (no_types, lifting) ex_map_conv option.distinct(1))
      next
        case (Some p)
        then show ?thesis using spec find_in [OF Some] by metis
      qed
      ultimately show ?thesis
        using drive_hit_matches [OF holds ds(1) assms(1) ds(4) xd _ assms(5) [unfolded c(1)] c(2), of hr hf] c(3) by simp
    qed
    have "x \<in> set new \<longleftrightarrow> (\<exists>d. (x, d) \<in> set ds \<and> matches hr hf q d)" for x
    proof
      assume "x \<in> set new"
      then obtain dr where dr: "dr \<in> set (tls ! b)" "drive_hit tls steps (fst dr)" "x = weave_docid_to_tid F (fst dr)"
        using spec by auto
      then obtain y d where y: "(y, d) \<in> set ds" "fst dr = weave_tid_to_docid F y" using pb by (fastforce simp: pos_holds_def)
      then have "x = y" using dr(3) docid_roundtrip [OF assms(1)] ds(4) by auto
      then show "\<exists>d. (x, d) \<in> set ds \<and> matches hr hf q d" using y dr(2) hit by auto
    next
      assume "\<exists>d. (x, d) \<in> set ds \<and> matches hr hf q d"
      then obtain d where d: "(x, d) \<in> set ds" "drive_hit tls steps (weave_tid_to_docid F x)" using hit by blast
      then obtain p where "find (\<lambda>p. fst p = weave_tid_to_docid F x) (tls ! b) = Some p"
        using drive_hit_find [OF d(2) b(2)] by blast
      then have "p \<in> set (tls ! b)" "fst p = weave_tid_to_docid F x" using find_in by force+
      moreover have "weave_docid_to_tid F (weave_tid_to_docid F x) = x" using docid_roundtrip [OF assms(1)] ds(4) d(1) by auto
      ultimately show "x \<in> set new" using spec d(2) by force
    qed
    moreover have "length new \<le> length (tls ! b)" using spec by simp
    ultimately show ?thesis using pb by (auto simp: pos_holds_def)
  next
    case GatherAbsent
    then obtain it where it: "it \<in> set ts" "weave_lookup_term_pos F D (item_text q it) = POS_ABSENT"
      using gather_terms_absent by blast
    have "\<not> matches hr hf q d" if "(x, d) \<in> set ds" for x d
    proof -
      let ?L = "\<lambda>it. term_positions hr hf d (item_text q it) (iflags it) (idist it)"
      have "doc_ok d" "iflags it = 0" using ds(3) that assms(5) it(1) by auto
      then have "\<not> present (?L it)"
        using lookup_term_pos_absent [OF ds(2) it(2) that] plain_leaf [of d it hr hf q] by (simp add: absent_def)
      then have "\<not> present (chain_vals (?L u) (map ?L us) steps)"
        using chain_vals_present [of "map ?L us" "?L u" steps] it(1) c(1,2) match_ok_leaf by (auto simp: list_all_iff)
      then show ?thesis using c(3) by simp
    qed
    then show ?thesis using assms(6) GatherAbsent by (auto simp: weave_phrase_eval_seg_def)
  next
    case GatherNopos
    then show ?thesis using assms(6) by (simp add: weave_phrase_eval_seg_def)
  qed
qed

end
