(* ===== verification/Weave_Lexscan.thy ===== *)
theory Weave_Lexscan
  imports Weave_Lexphrase
begin

text \<open>
  What a lexical scan returns: the fuzzy and regex path, the positional phrase path and the union of the segments
  and the pending list, each against the evaluator of \<open>src/query/match.c\<close> on the documents.
\<close>

subsection \<open>The answers of a segment\<close>

definition live :: "u64 \<Rightarrow> segment \<Rightarrow> tid \<Rightarrow> bool" where
  "live F s x \<longleftrightarrow> (case stombs s of None \<Rightarrow> True | Some dead \<Rightarrow> \<not> dead (weave_tid_to_docid F x))"

definition answers ::
  "u64 \<Rightarrow> (wdoc \<Rightarrow> u8 list \<Rightarrow> bool) \<Rightarrow> (wdoc \<Rightarrow> u8 list \<Rightarrow> int \<Rightarrow> bool) \<Rightarrow> wquery \<Rightarrow> docs \<Rightarrow> segment \<Rightarrow> tid set" where
  "answers F hr hf q ds s = {x. \<exists>d. (x, d) \<in> set ds \<and> live F s x \<and> matches hr hf q d}"

definition live_tids :: "u64 \<Rightarrow> docs \<Rightarrow> segment \<Rightarrow> tid set" where
  "live_tids F ds s = {x \<in> tids ds. live F s x}"

definition found :: "tid set \<Rightarrow> tid set \<Rightarrow> tid list \<Rightarrow> bool \<Rightarrow> bool" where
  \<comment> \<open>a set between the answers and the live documents, exact unless it asks for the recheck\<close>
  "found ans all r again \<longleftrightarrow> tidset_ok r \<and> ans \<subseteq> set r \<and> set r \<subseteq> all \<and> (\<not> again \<longrightarrow> set r = ans)"

definition query_typed :: "wquery \<Rightarrow> bool" where
  \<comment> \<open>every item is a term or one of the four operators\<close>
  "query_typed q \<longleftrightarrow> (\<forall>it\<in>set (qitems q).
     itype it = QI_VAL \<or> itype it = QI_OPR \<and> (iop it = OP_NOT \<or> iop it = OP_AND \<or> iop it = OP_OR \<or> iop it = OP_PHRASE))"

abbreviation leaf_val ::
  "(wdoc \<Rightarrow> u8 list \<Rightarrow> bool) \<Rightarrow> (wdoc \<Rightarrow> u8 list \<Rightarrow> int \<Rightarrow> bool) \<Rightarrow> wquery \<Rightarrow> wdoc \<Rightarrow> query_item \<Rightarrow> match_val" where
  "leaf_val hr hf q d it \<equiv> term_positions hr hf d (item_text q it) (iflags it) (idist it)"

lemma filter_live: "tidset_ok s \<Longrightarrow> tidset_ok (weave_filter_tombstoned_seg F (stombs g) s) \<and>
    set (weave_filter_tombstoned_seg F (stombs g) s) = {x \<in> set s. live F g x}"
  using filter_tombstoned_spec [of s F "stombs g"] by (auto simp: live_def split: option.splits)

lemma valid_flags:
  assumes "weave_query_validate verify q = Valid" "it \<in> set (qitems q)" "itype it = QI_VAL"
  shows "iflags it = 0 \<or> iflags it = QF_PREFIX \<or> iflags it = QF_FUZZY \<or> iflags it = QF_REGEX \<or> iflags it = QF_WEIGHTED"
proof -
  have "bad_term verify (item_text q it) it = None"
    if "validate_items verify q i its w = Inr w'" "it \<in> set its" for i its w w'
    using that
  proof (induction its arbitrary: i w)
    case (Cons jt its)
    then show ?case using assms(3) by (auto simp: validate_item_def split: sum.splits option.splits if_splits)
  qed simp
  then have "bad_term verify (item_text q it) it = None"
    using assms(1,2) by (auto simp: weave_query_validate_def split: sum.splits if_splits)
  then show ?thesis by (auto simp: bad_term_def Let_def split: if_splits)
qed

lemma flag_simps:
  "(QF_FUZZY OR QF_REGEX) AND 0 = 0" "QF_PREFIX AND (QF_FUZZY OR QF_REGEX) = 0" "QF_FUZZY AND (QF_FUZZY OR QF_REGEX) \<noteq> 0"
  "QF_REGEX AND (QF_FUZZY OR QF_REGEX) \<noteq> 0" "QF_WEIGHTED AND (QF_FUZZY OR QF_REGEX) = 0"
  "QF_FUZZY AND QF_REGEX = 0" "QF_REGEX AND QF_FUZZY = 0" "QF_PREFIX AND QF_FUZZY = 0" "QF_PREFIX AND QF_REGEX = 0"
  "QF_WEIGHTED AND QF_FUZZY = 0" "QF_WEIGHTED AND QF_REGEX = 0" "QF_FUZZY AND QF_FUZZY \<noteq> 0" "QF_REGEX AND QF_REGEX \<noteq> 0"
  "QF_FUZZY \<noteq> 0" "QF_REGEX \<noteq> 0"
  by (simp_all add: query_consts)

lemma plain_valid:
  assumes "weave_query_validate verify q = Valid" "\<not> has_flag (QF_FUZZY OR QF_REGEX) q"
  shows "plain_items (qitems q)"
  using valid_flags [OF assms(1)] assms(2) by (fastforce simp: plain_items_def has_flag_def list_ex_iff flag_simps)

lemma typed_phrase:
  assumes "query_typed q" "\<not> has_op OP_PHRASE q"
  shows "\<forall>it\<in>set (qitems q). itype it \<noteq> QI_VAL \<longrightarrow> iop it \<noteq> OP_PHRASE"
  using assms by (auto simp: query_typed_def has_op_def list_ex_iff)

subsection \<open>The boolean path\<close>

lemma bool_segment_found:
  assumes "F \<le> 2 ^ 16" "weave_query_validate verify q = Valid" "query_typed q" "\<not> has_flag (QF_FUZZY OR QF_REGEX) q"
    and "segment_holds F ds s" "sdict s = Some D" "bool_segment F g g q s D = Some (Inr (r, again))"
  shows "found (answers F hr hf q ds s) (live_tids F ds s) r (again \<or> has_flag QF_WEIGHTED q)"
proof -
  have ds: "distinct (map fst ds)" "dict_holds ds D" "\<forall>(x, d)\<in>set ds. doc_ok d"
    using assms(5,6) by (auto simp: segment_holds_def)
  obtain e where e: "weave_eval_query D q (weave_universe_seg F s D g g) = Some (Inr e)"
    "r = weave_filter_tombstoned_seg F (stombs s) e" "again \<longleftrightarrow> r \<noteq> [] \<and> has_op OP_PHRASE q"
    using assms(7) by (cases "weave_eval_query D q (weave_universe_seg F s D g g)"; cases "the (weave_eval_query D q (weave_universe_seg F s D g g))")
      (auto simp: bool_segment_def Let_def)
  have u: "tidset_ok u \<and> set u = tids ds" if "weave_universe_seg F s D g g = Inr u" for u
    by (rule universe_tids [OF assms(1,5,6) that])
  have te: "tidset_ok e" "set e \<subseteq> tids ds"
    by (rule eval_query_tids [OF assms(2) plain_valid [OF assms(2,4)] ds u e(1)], assumption)+
  have sound: "x \<in> set e" if "(x, d) \<in> set ds" "matches hr hf q d" for x d
    by (rule eval_query_tids(3) [OF assms(2) plain_valid [OF assms(2,4)] ds u e(1) that])
  have exact: "matches hr hf q d"
    if "\<not> has_flag QF_WEIGHTED q" "\<not> has_op OP_PHRASE q" "(x, d) \<in> set ds" "x \<in> set e" for x d
    by (rule eval_query_tids(4) [OF assms(2) plain_valid [OF assms(2,4)] ds u e(1) that(1) typed_phrase [OF assms(3) that(2)] that(3,4)])
  note f = filter_live [OF te(1), of F s, folded e(2)]
  have "answers F hr hf q ds s \<subseteq> set r" using sound f by (auto simp: answers_def)
  moreover have "set r \<subseteq> answers F hr hf q ds s" if "\<not> (again \<or> has_flag QF_WEIGHTED q)"
  proof (cases "r = []")
    case False
    then have "\<not> has_op OP_PHRASE q" using that e(3) by simp
    then show ?thesis using te(2) exact that f by (fastforce simp: answers_def)
  qed simp
  ultimately show ?thesis using f te(2) by (auto simp: found_def live_tids_def)
qed

subsection \<open>The fuzzy and regex path\<close>

definition lex_walks_ok :: "(wdoc \<Rightarrow> u8 list \<Rightarrow> bool) \<Rightarrow> (wdoc \<Rightarrow> u8 list \<Rightarrow> int \<Rightarrow> bool) \<Rightarrow> dict_walks \<Rightarrow> docs \<Rightarrow> segment \<Rightarrow> bool" where
  \<comment> \<open>the fuzzy and regex walks are exact, the trigram walk finds every fuzzy match\<close>
  "lex_walks_ok hr hf wk ds s \<longleftrightarrow>
     (\<forall>t k r. fuzzy_terms wk s t k = Inr (Some r) \<longrightarrow>
        tidset_ok r \<and> set r = {x. \<exists>d. (x, d) \<in> set ds \<and> hf d t (sint k)}) \<and>
     (\<forall>t r. regex_terms wk s t = Inr (Some r) \<longrightarrow> tidset_ok r \<and> set r = {x. \<exists>d. (x, d) \<in> set ds \<and> hr d t}) \<and>
     (\<forall>t (k :: u32) r. trgm_candidates wk s t (3 * sint k + 1) = Inr (Some r) \<longrightarrow>
        tidset_ok r \<and> {x. \<exists>d. (x, d) \<in> set ds \<and> hf d t (sint k)} \<subseteq> set r \<and> set r \<subseteq> tids ds)"

abbreviation is_fr :: "query_item \<Rightarrow> bool" where
  "is_fr it \<equiv> itype it = QI_VAL \<and> iflags it AND (QF_FUZZY OR QF_REGEX) \<noteq> 0"

definition leaf_tids ::
  "(wdoc \<Rightarrow> u8 list \<Rightarrow> bool) \<Rightarrow> (wdoc \<Rightarrow> u8 list \<Rightarrow> int \<Rightarrow> bool) \<Rightarrow> wquery \<Rightarrow> docs \<Rightarrow> query_item \<Rightarrow> tid set" where
  "leaf_tids hr hf q ds it = {x. \<exists>d. (x, d) \<in> set ds \<and> present (leaf_val hr hf q d it)}"

definition fr_sound ::
  "(query_item \<Rightarrow> tid set) \<Rightarrow> tid set \<Rightarrow> query_item list \<Rightarrow> tid list \<Rightarrow> bool \<Rightarrow> tid list \<times> bool \<times> bool \<Rightarrow> bool" where
  "fr_sound L all its cands exact r \<longleftrightarrow> (case r of (c, any, ex) \<Rightarrow>
     tidset_ok c \<and> set cands \<subseteq> set c \<and> set c \<subseteq> set cands \<union> all \<and>
     (any \<longrightarrow> (\<Union>it\<in>{it \<in> set its. is_fr it}. L it) \<subseteq> set c) \<and>
     (any \<longrightarrow> ex \<longrightarrow> exact \<and> set c = set cands \<union> (\<Union>it\<in>{it \<in> set its. is_fr it}. L it)))"

lemma leaf_tids_sub: "leaf_tids hr hf q ds it \<subseteq> tids ds"
  by (force simp: leaf_tids_def)

lemma fr_leaf_tids:
  assumes "iflags it = QF_FUZZY \<or> iflags it = QF_REGEX"
  shows "leaf_tids hr hf q ds it =
    (if iflags it AND QF_FUZZY \<noteq> 0 then {x. \<exists>d. (x, d) \<in> set ds \<and> hf d (item_text q it) (sint (idist it))}
     else {x. \<exists>d. (x, d) \<in> set ds \<and> hr d (item_text q it)})"
  using assms by (auto simp: leaf_tids_def term_positions_def flag_simps absent_def)

lemma fr_sound_add:
  assumes "fr_sound L all its c exact' r" "tidset_or cands ts = Inr c" "tidset_ok cands" "tidset_ok ts"
    and "L it \<subseteq> set ts" "set ts \<subseteq> all" "exact' \<longrightarrow> exact \<and> set ts = L it" "is_fr it"
  shows "fr_sound L all (it # its) cands exact r"
proof -
  have c: "set c = set cands \<union> set ts" using tidset_or_spec [OF assms(3,4,2)] by blast
  have "{jt \<in> set (it # its). is_fr jt} = insert it {jt \<in> set its. is_fr jt}" using assms(8) by auto
  then have "(\<Union>jt\<in>{jt \<in> set (it # its). is_fr jt}. L jt) = L it \<union> (\<Union>jt\<in>{jt \<in> set its. is_fr jt}. L jt)" by simp
  then show ?thesis using assms(1,5-7) c unfolding fr_sound_def by (cases r) auto
qed

lemma fr_leaves_sound:
  assumes "lex_walks_ok hr hf wk ds s"
  shows "fr_leaves wk s q its cands any exact = Inr r \<Longrightarrow> tidset_ok cands \<Longrightarrow>
    \<forall>it\<in>set its. is_fr it \<longrightarrow> iflags it = QF_FUZZY \<or> iflags it = QF_REGEX \<Longrightarrow>
    fr_sound (leaf_tids hr hf q ds) (tids ds) its cands exact r"
proof (induction its arbitrary: cands any exact)
  case (Cons it its)
  let ?L = "leaf_tids hr hf q ds"
  have flags: "\<forall>it\<in>set its. is_fr it \<longrightarrow> iflags it = QF_FUZZY \<or> iflags it = QF_REGEX" using Cons.prems(3) by simp
  have add: ?case
    if "tidset_or cands ts = Inr c" "fr_leaves wk s q its c True exact' = Inr r" "tidset_ok ts"
      "?L it \<subseteq> set ts" "set ts \<subseteq> tids ds" "exact' \<longrightarrow> exact \<and> set ts = ?L it" "is_fr it" for ts c exact'
    by (rule fr_sound_add [OF Cons.IH [OF that(2) _ flags] that(1) Cons.prems(2) that(3-7)])
      (use tidset_or_spec [OF Cons.prems(2) that(3,1)] in blast)
  have stop: "fr_sound ?L (tids ds) (it # its) cands exact (cands, False, b)" for b
    using Cons.prems(2) by (simp add: fr_sound_def)
  have "is_fr it \<longrightarrow> iflags it = QF_FUZZY \<or> iflags it = QF_REGEX" by (rule bspec [OF Cons.prems(3)]) simp
  then consider "\<not> is_fr it" | "is_fr it" "iflags it = QF_FUZZY" | "is_fr it" "iflags it = QF_REGEX" by argo
  then show ?case
  proof cases
    case 1
    then have "{jt \<in> set (it # its). is_fr jt} = {jt \<in> set its. is_fr jt}" by auto
    moreover have "fr_sound ?L (tids ds) its cands exact r"
      using Cons.IH [OF _ Cons.prems(2) flags, of any exact] Cons.prems(1) 1 by (auto simp: Let_def split: if_splits)
    ultimately show ?thesis by (simp add: fr_sound_def)
  next
    case 2
    then have L: "?L it = {x. \<exists>d. (x, d) \<in> set ds \<and> hf d (item_text q it) (sint (idist it))}"
      using fr_leaf_tids [of it hr hf q ds] by (simp add: flag_simps)
    obtain w where w: "fuzzy_terms wk s (item_text q it) (idist it) = Inr w"
      using Cons.prems(1) 2 by (auto simp: flag_simps Let_def split: sum.splits)
    show ?thesis
    proof (cases w)
      case (Some ts)
      then obtain c where "tidset_or cands ts = Inr c" "fr_leaves wk s q its c True exact = Inr r"
        using Cons.prems(1) 2 w by (auto simp: flag_simps Let_def split: sum.splits)
      moreover have "tidset_ok ts" "set ts = ?L it" using assms w Some L by (auto simp: lex_walks_ok_def)
      ultimately show ?thesis using add [of ts c exact] leaf_tids_sub 2(1) by blast
    next
      case None
      obtain v where v: "trgm_candidates wk s (item_text q it) (3 * sint (idist it) + 1) = Inr v"
        using Cons.prems(1) 2 w None by (auto simp: flag_simps Let_def split: sum.splits)
      show ?thesis
      proof (cases v)
        case (Some ts)
        then obtain c where "tidset_or cands ts = Inr c" "fr_leaves wk s q its c True False = Inr r"
          using Cons.prems(1) 2 w None v by (auto simp: flag_simps Let_def split: sum.splits)
        moreover have "tidset_ok ts" "?L it \<subseteq> set ts" "set ts \<subseteq> tids ds"
          using assms v Some L by (auto simp: lex_walks_ok_def)
        ultimately show ?thesis using add [of ts c False] 2(1) by blast
      next
        case none: None
        then show ?thesis using Cons.prems(1) 2 w None v stop by (auto simp: flag_simps Let_def)
      qed
    qed
  next
    case 3
    then have L: "?L it = {x. \<exists>d. (x, d) \<in> set ds \<and> hr d (item_text q it)}"
      using fr_leaf_tids [of it hr hf q ds] by (simp add: flag_simps)
    obtain w where w: "regex_terms wk s (item_text q it) = Inr w"
      using Cons.prems(1) 3 by (auto simp: flag_simps Let_def split: sum.splits)
    show ?thesis
    proof (cases w)
      case (Some ts)
      then obtain c where "tidset_or cands ts = Inr c" "fr_leaves wk s q its c True exact = Inr r"
        using Cons.prems(1) 3 w by (auto simp: flag_simps Let_def split: sum.splits)
      moreover have "tidset_ok ts" "set ts = ?L it" using assms w Some L by (auto simp: lex_walks_ok_def)
      ultimately show ?thesis using add [of ts c exact] leaf_tids_sub 3(1) by blast
    next
      case None
      then show ?thesis using Cons.prems(1) 3 w stop by (auto simp: flag_simps Let_def)
    qed
  qed
qed (auto simp: fr_sound_def)

lemma cover_step_cases:
  assumes "cover_items msk want (it # its) cs = Some cs'"
  obtains "itype it = QI_VAL" "cover_items msk want its (((iflags it AND msk \<noteq> 0) = want) # cs) = Some cs'"
  | c us where "itype it \<noteq> QI_VAL" "iop it = OP_NOT" "cs = c # us" "cover_items msk want its (False # us) = Some cs'"
  | b a us where "itype it \<noteq> QI_VAL" "iop it \<noteq> OP_NOT" "cs = b # a # us"
    "cover_items msk want its ((if iop it = OP_OR then a \<and> b else a \<or> b) # us) = Some cs'"
  using assms by (auto split: if_splits list.splits)

definition cover_rel :: "bool \<Rightarrow> bool \<Rightarrow> match_val \<Rightarrow> bool" where
  \<comment> \<open>a covered operand is only present where the fact \<open>E\<close> holds\<close>
  "cover_rel E c m \<longleftrightarrow> match_ok m \<and> (c \<longrightarrow> present m \<longrightarrow> E)"

lemma ball_later: "\<forall>x\<in>set (y # ys). P x \<Longrightarrow> \<forall>x\<in>set ys. P x"
  by simp

lemma cover_items_rel:
  assumes "\<forall>it\<in>set its. itype it = QI_VAL \<longrightarrow> (iflags it AND msk \<noteq> 0) = want \<longrightarrow> present (leaf_val hr hf q d it) \<longrightarrow> E"
    and "\<forall>it\<in>set its. itype it = QI_VAL \<or> iop it = OP_NOT \<or> iop it = OP_AND \<or> iop it = OP_OR \<or> iop it = OP_PHRASE"
  shows "cover_items msk want its cs = Some cs' \<Longrightarrow> list_all2 (cover_rel E) cs ms \<Longrightarrow>
    \<exists>ms'. run_items (match_step hr hf d q) its ms = Some ms' \<and> list_all2 (cover_rel E) cs' ms'"
  using assms
proof (induction its arbitrary: cs ms)
  case (Cons it its)
  note IH = Cons.IH [OF _ _ ball_later [OF Cons.prems(3)] ball_later [OF Cons.prems(4)]]
  from Cons.prems(1) show ?case
  proof (cases rule: cover_step_cases)
    case 1
    let ?m = "leaf_val hr hf q d it"
    have "cover_rel E ((iflags it AND msk \<noteq> 0) = want) ?m"
      using Cons.prems(3) 1(1) match_ok_leaf by (simp add: cover_rel_def)
    then show ?thesis using IH [OF 1(2), of "?m # ms"] Cons.prems(2) 1(1) by (simp add: match_step.simps)
  next
    case (2 c us)
    then obtain m ns where m: "ms = m # ns" "list_all2 (cover_rel E) us ns"
      using Cons.prems(2) by (auto simp: list_all2_Cons1)
    have "cover_rel E False (boolean_val (\<not> present m))" by (simp add: cover_rel_def)
    then show ?thesis using IH [OF 2(4), of "boolean_val (\<not> present m) # ns"] 2(1,2) m by (simp add: match_step.simps)
  next
    case (3 b a us)
    then obtain r l ns where m: "ms = r # l # ns" "cover_rel E b r" "cover_rel E a l" "list_all2 (cover_rel E) us ns"
      using Cons.prems(2) by (auto simp: list_all2_Cons1)
    let ?v = "if iop it = OP_PHRASE then phrase_step l r (idist it) (iflags it AND QF_PHRASE_EXACT \<noteq> 0)
      else if iop it = OP_AND then boolean_val (present l \<and> present r) else boolean_val (present l \<or> present r)"
    have op: "iop it = OP_AND \<or> iop it = OP_OR \<or> iop it = OP_PHRASE" using Cons.prems(4) 3(1,2) by auto
    have "cover_rel E (if iop it = OP_OR then a \<and> b else a \<or> b) ?v"
    proof (cases "iop it = OP_PHRASE")
      case True
      then show ?thesis
        using m(2,3) phrase_step_present [of l r] by (auto simp: cover_rel_def OP_OR_def OP_PHRASE_def)
    next
      case False
      then show ?thesis using m(2,3) op by (cases "iop it = OP_AND") (auto simp: cover_rel_def OP_OR_def OP_AND_def)
    qed
    then show ?thesis using IH [OF 3(4), of "?v # ns"] 3(1,2) m(1,4) by (simp add: match_step.simps)
  qed
qed simp

lemma cover_sound:
  assumes "weave_query_leaves_cover q msk want = Some True" "query_typed q" "matches hr hf q d"
  shows "\<exists>it\<in>set (qitems q). itype it = QI_VAL \<and> (iflags it AND msk \<noteq> 0) = want \<and> present (leaf_val hr hf q d it)"
proof -
  let ?E = "\<exists>it\<in>set (qitems q). itype it = QI_VAL \<and> (iflags it AND msk \<noteq> 0) = want \<and> present (leaf_val hr hf q d it)"
  have ne: "qitems q \<noteq> []" using assms(3) by (auto simp: weave_doc_matches_def)
  obtain c where "cover_items msk want (qitems q) [] = Some [c]" and c: c
    using assms(1) ne by (auto simp: weave_query_leaves_cover_def length_Suc_conv)
  then obtain ms where "run_items (match_step hr hf d q) (qitems q) [] = Some ms" "list_all2 (cover_rel ?E) [c] ms"
    using cover_items_rel [of "qitems q" msk want hr hf d q ?E "[]" "[c]" "[]"] assms(2) by (auto simp: query_typed_def)
  then show ?thesis using assms(3) ne c by (auto simp: weave_doc_matches_def list_all2_Cons1 cover_rel_def)
qed

lemma fr_flags:
  assumes "weave_query_validate verify q = Valid" "it \<in> set (qitems q)" "is_fr it"
  shows "iflags it = QF_FUZZY \<or> iflags it = QF_REGEX"
  using valid_flags [OF assms(1,2)] assms(3) by (auto simp: flag_simps)

lemma fr_segment_found:
  assumes "F \<le> 2 ^ 16" "weave_query_validate verify q = Valid" "query_typed q" "weave_query_fr_covered q = Some covered"
    and "segment_holds F ds s" "lex_walks_ok hr hf wk ds s" "sdict s = Some D" "fr_segment F wk g g q covered s D = Inr (r, again)"
  shows "found (answers F hr hf q ds s) (live_tids F ds s) r again"
proof -
  let ?fr = "if covered then fr_leaves wk s q (qitems q) [] False (length (qitems q) = 1) else Inr ([], False, length (qitems q) = 1)"
  obtain c any ex where f: "?fr = Inr (c, any, ex)"
    using assms(8) by (cases ?fr) (auto simp: fr_segment_def)
  show ?thesis
  proof (cases any)
    case False
    then obtain u where u: "weave_universe_seg F s D g g = Inr u" "r = weave_filter_tombstoned_seg F (stombs s) u" again
      using assms(8) f by (cases "weave_universe_seg F s D g g") (auto simp: fr_segment_def)
    then show ?thesis
      using universe_tids [OF assms(1,5,7) u(1)] filter_live [of u F s] by (force simp: found_def answers_def live_tids_def)
  next
    case True
    then have cov: covered and leaves: "fr_leaves wk s q (qitems q) [] False (length (qitems q) = 1) = Inr (c, any, ex)"
      using f by (auto split: if_splits)
    have r: "r = weave_filter_tombstoned_seg F (stombs s) c" "again \<longleftrightarrow> \<not> ex"
      using assms(8) f True by (auto simp: fr_segment_def)
    have sound: "fr_sound (leaf_tids hr hf q ds) (tids ds) (qitems q) [] (length (qitems q) = 1) (c, any, ex)"
      by (rule fr_leaves_sound [OF assms(6) leaves]) (use fr_flags [OF assms(2)] in auto)
    then have c: "tidset_ok c" "set c \<subseteq> tids ds" and sub: "(\<Union>it\<in>{it \<in> set (qitems q). is_fr it}. leaf_tids hr hf q ds it) \<subseteq> set c"
      and exact: "ex \<Longrightarrow> length (qitems q) = 1 \<and> set c = (\<Union>it\<in>{it \<in> set (qitems q). is_fr it}. leaf_tids hr hf q ds it)"
      using True by (auto simp: fr_sound_def)
    note live = filter_live [OF c(1), of F s, folded r(1)]
    have "x \<in> set c" if "(x, d) \<in> set ds" "matches hr hf q d" for x d
      using cover_sound [of q "QF_FUZZY OR QF_REGEX" True hr hf d] assms(3,4) cov that sub
      by (fastforce simp: weave_query_fr_covered_def leaf_tids_def)
    then have ans: "answers F hr hf q ds s \<subseteq> set r" using live by (auto simp: answers_def)
    moreover have "set r \<subseteq> answers F hr hf q ds s" if "\<not> again"
    proof
      fix x assume x: "x \<in> set r"
      have ex using that r(2) by simp
      then obtain it where it: "qitems q = [it]" using exact by (auto simp: length_Suc_conv)
      then have "is_fr it" "x \<in> leaf_tids hr hf q ds it" using exact that r(2) x live by (auto split: if_splits)
      then show "x \<in> answers F hr hf q ds s"
        using it x live by (auto simp: leaf_tids_def answers_def weave_doc_matches_def match_step.simps)
    qed
    ultimately show ?thesis using live c(2) by (auto simp: found_def live_tids_def)
  qed
qed

subsection \<open>The union of the segments\<close>

definition index_answers ::
  "u64 \<Rightarrow> (wdoc \<Rightarrow> u8 list \<Rightarrow> bool) \<Rightarrow> (wdoc \<Rightarrow> u8 list \<Rightarrow> int \<Rightarrow> bool) \<Rightarrow> wquery \<Rightarrow> docs list \<Rightarrow> segment list \<Rightarrow> tid set" where
  "index_answers F hr hf q dss segs = (\<Union>(ds, s)\<in>set (zip dss segs). answers F hr hf q ds s)"

definition index_live :: "u64 \<Rightarrow> docs list \<Rightarrow> segment list \<Rightarrow> tid set" where
  "index_live F dss segs = (\<Union>(ds, s)\<in>set (zip dss segs). live_tids F ds s)"

lemma index_simps [simp]:
  "index_answers F hr hf q [] segs = {}" "index_live F [] segs = {}"
  "index_answers F hr hf q (ds # dss) (s # segs) = answers F hr hf q ds s \<union> index_answers F hr hf q dss segs"
  "index_live F (ds # dss) (s # segs) = live_tids F ds s \<union> index_live F dss segs"
  by (auto simp: index_answers_def index_live_def)

lemma found_or:
  assumes "found A B a re" "found A' B' b again" "tidset_or a b = Inr c"
  shows "found (A \<union> A') (B \<union> B') c (re \<or> again)"
proof -
  have "tidset_ok c \<and> set c = set a \<union> set b"
    by (rule tidset_or_spec [OF _ _ assms(3)]) (use assms(1,2) in \<open>simp_all add: found_def\<close>)
  then show ?thesis using assms(1,2) by (auto simp: found_def)
qed

lemma found_empty: "found A B a re \<Longrightarrow> found A' B' [] again \<Longrightarrow> found (A \<union> A') (B \<union> B') a (re \<or> again)"
  by (auto simp: found_def)

lemma no_dict: "segment_holds F ds s \<Longrightarrow> sdict s = None \<Longrightarrow> answers F hr hf q ds s = {} \<and> live_tids F ds s = {}"
  by (simp add: segment_holds_def answers_def live_tids_def)

lemma collect_segs_found:
  assumes seg: "\<And>ds s D r again. P ds s \<Longrightarrow> sdict s = Some D \<Longrightarrow> seg s D = Some (Inr (r, again)) \<Longrightarrow>
      found (answers F hr hf q ds s) (live_tids F ds s) r (again \<or> W)"
    and P: "\<And>ds s. P ds s \<Longrightarrow> segment_holds F ds s"
  shows "list_all2 P dss segs \<Longrightarrow> collect_segs seg segs acc re = Some (Inr (acc', re')) \<Longrightarrow> found A B acc (re \<or> W) \<Longrightarrow>
    found (A \<union> index_answers F hr hf q dss segs) (B \<union> index_live F dss segs) acc' (re' \<or> W)"
proof (induction dss segs arbitrary: A B acc re rule: list_all2_induct)
  case (Cons ds dss s segs)
  show ?case
  proof (cases "sdict s")
    case None
    then show ?thesis using Cons no_dict [OF P [OF Cons.hyps(1)] None] by simp
  next
    case (Some D)
    obtain r again where r: "seg s D = Some (Inr (r, again))"
      using Cons.prems(1) Some by (auto split: option.splits sum.splits)
    note f = seg [OF Cons.hyps(1) Some r]
    have "\<exists>b. collect_segs seg segs b (re \<or> again) = Some (Inr (acc', re')) \<and>
        found (A \<union> answers F hr hf q ds s) (B \<union> live_tids F ds s) b ((re \<or> again) \<or> W)"
    proof (cases "r = []")
      case True
      then have "found (A \<union> answers F hr hf q ds s) (B \<union> live_tids F ds s) acc ((re \<or> W) \<or> again \<or> W)"
        using found_empty [OF Cons.prems(2)] f by blast
      moreover have "((re \<or> W) \<or> again \<or> W) = ((re \<or> again) \<or> W)" by blast
      ultimately show ?thesis using Cons.prems(1) Some r True by auto
    next
      case False
      then obtain c where c: "tidset_or acc r = Inr c" "collect_segs seg segs c (re \<or> again) = Some (Inr (acc', re'))"
        using Cons.prems(1) Some r by (auto split: sum.splits)
      have "found (A \<union> answers F hr hf q ds s) (B \<union> live_tids F ds s) c ((re \<or> W) \<or> again \<or> W)"
        by (rule found_or [OF Cons.prems(2) f c(1)])
      moreover have "((re \<or> W) \<or> again \<or> W) = ((re \<or> again) \<or> W)" by blast
      ultimately show ?thesis using c(2) by auto
    qed
    then obtain b where b: "collect_segs seg segs b (re \<or> again) = Some (Inr (acc', re'))"
      "found (A \<union> answers F hr hf q ds s) (B \<union> live_tids F ds s) b ((re \<or> again) \<or> W)" by blast
    show ?thesis using Cons.IH [OF b] by (simp add: Un_assoc)
  qed
qed simp

lemma filter_small:
  assumes "length s \<le> TIDSET_MAX_N"
  shows "set (weave_filter_tombstoned_seg F (stombs g) s) = {x \<in> set s. live F g x} \<and>
    length (weave_filter_tombstoned_seg F (stombs g) s) \<le> length s"
  using assms length_filter_le [of "\<lambda>x. \<not> the (stombs g) (weave_tid_to_docid F x)" s]
  by (cases "stombs g") (auto simp: weave_filter_tombstoned_seg_def live_def)

lemma phrase_segs_answers:
  assumes "F \<le> 2 ^ 16" "weave_phrase_chain q = Some (ts, steps)" "\<forall>it\<in>set ts. iflags it = 0"
  shows "list_all2 (segment_holds F) dss segs \<Longrightarrow> phrase_segs F q ts steps segs out = Some out' \<Longrightarrow>
    sum_list (map length dss) \<le> TIDSET_MAX_N \<Longrightarrow>
    set out' = set out \<union> index_answers F hr hf q dss segs \<and> length out' \<le> length out + sum_list (map length dss)"
proof (induction dss segs arbitrary: out rule: list_all2_induct)
  case (Cons ds dss s segs)
  show ?case
  proof (cases "sdict s")
    case None
    then show ?thesis using Cons.IH [of out] Cons.prems no_dict [OF Cons.hyps(1) None, of hr hf q] by simp
  next
    case (Some D)
    then obtain new where new: "weave_phrase_eval_seg F D q ts steps = Some new"
      "phrase_segs F q ts steps segs (out @ weave_filter_tombstoned_seg F (stombs s) new) = Some out'"
      using Cons.prems(1) by (auto split: option.splits)
    have n: "set new = {x. \<exists>d. (x, d) \<in> set ds \<and> matches hr hf q d}" "length new \<le> length ds"
      using phrase_eval_seg_answers [OF assms(1) Cons.hyps(1) Some assms(2,3) new(1), of hr hf] by blast+
    then have "set (weave_filter_tombstoned_seg F (stombs s) new) = answers F hr hf q ds s"
      "length (weave_filter_tombstoned_seg F (stombs s) new) \<le> length ds"
      using filter_small [of new F s] Cons.prems(2) by (auto simp: answers_def)
    moreover have "sum_list (map length dss) \<le> TIDSET_MAX_N" using Cons.prems(2) by simp
    note Cons.IH [OF new(2) this]
    ultimately show ?thesis by (simp add: Un_assoc)
  qed
qed simp

subsection \<open>The pending list\<close>

definition pending_answers ::
  "(wdoc \<Rightarrow> u8 list \<Rightarrow> bool) \<Rightarrow> (wdoc \<Rightarrow> u8 list \<Rightarrow> int \<Rightarrow> bool) \<Rightarrow> wquery \<Rightarrow> pending_item list \<Rightarrow> tid set" where
  "pending_answers hr hf q ps = {t. \<exists>d. PendingDoc t d \<in> set ps \<and> matches hr hf q d}"

lemma append_room:
  assumes "tidset_append s cap t = Inr (s', cap')" "length s \<le> cap" "cap \<le> TIDSET_MAX_N"
  shows "s' = s @ [t] \<and> length s' \<le> cap' \<and> cap' \<le> TIDSET_MAX_N"
  using assms by (auto simp: tidset_append_def TIDSET_MAX_N_def MaxAllocSize_def split: if_splits)

lemma collect_pending_answers:
  "collect_pending hr hf q ps acc cap = Some (Inr out) \<Longrightarrow> length acc \<le> cap \<Longrightarrow> cap \<le> TIDSET_MAX_N \<Longrightarrow>
   set out = set acc \<union> pending_answers hr hf q ps \<and> length out \<le> TIDSET_MAX_N"
proof (induction ps arbitrary: acc cap)
  case (Cons p ps)
  show ?case
  proof (cases "\<exists>t d. p = PendingDoc t d \<and> weave_doc_matches hr hf d q = Some True")
    case True
    then obtain t d where p: "p = PendingDoc t d" "weave_doc_matches hr hf d q = Some True" by blast
    then obtain acc' cap' where a: "tidset_append acc cap t = Inr (acc', cap')" "collect_pending hr hf q ps acc' cap' = Some (Inr out)"
      using Cons.prems(1) by (auto split: sum.splits)
    have "pending_answers hr hf q (p # ps) = insert t (pending_answers hr hf q ps)" using p by (auto simp: pending_answers_def)
    moreover have r: "acc' = acc @ [t]" "length acc' \<le> cap'" "cap' \<le> TIDSET_MAX_N"
      using append_room [OF a(1) Cons.prems(2,3)] by blast+
    note Cons.IH [OF a(2) r(2,3)]
    ultimately show ?thesis using r(1) by simp
  next
    case False
    then have "pending_answers hr hf q (p # ps) = pending_answers hr hf q ps" by (auto simp: pending_answers_def)
    moreover have "collect_pending hr hf q ps acc cap = Some (Inr out)"
      using Cons.prems(1) False by (auto split: pending_item.splits option.splits bool.splits)
    ultimately show ?thesis using Cons.IH [of acc cap] Cons.prems(2,3) by simp
  qed
qed (simp add: pending_answers_def)

subsection \<open>A pass\<close>

definition index_holds ::
  "u64 \<Rightarrow> (wdoc \<Rightarrow> u8 list \<Rightarrow> bool) \<Rightarrow> (wdoc \<Rightarrow> u8 list \<Rightarrow> int \<Rightarrow> bool) \<Rightarrow> dict_walks \<Rightarrow> docs list \<Rightarrow> lex_index \<Rightarrow> bool" where
  \<comment> \<open>which documents the segments of an index hold, and what the walks over its pages find\<close>
  "index_holds F hr hf wk dss ix \<longleftrightarrow>
     list_all2 (\<lambda>ds s. segment_holds F ds s \<and> lex_walks_ok hr hf wk ds s) dss (isegs ix) \<and>
     sum_list (map length dss) \<le> TIDSET_MAX_N"

lemma plain_chain:
  assumes "weave_query_validate verify q = Valid" "\<not> has_flag QF_WEIGHTED q" "weave_phrase_chain q = Some (ts, steps)"
  shows "\<forall>it\<in>set ts. iflags it = 0"
proof
  fix it assume "it \<in> set ts"
  then have it: "it \<in> set (qitems q)" "itype it = QI_VAL" "iflags it AND (QF_PREFIX OR QF_FUZZY OR QF_REGEX) = 0"
    using phrase_chain_matches [OF assms(3)] by blast+
  then have "iflags it \<noteq> QF_WEIGHTED" using assms(2) by (auto simp: has_flag_def list_ex_iff query_consts)
  then show "iflags it = 0" using valid_flags [OF assms(1) it(1,2)] it(3) by (auto simp: query_consts)
qed

definition seg_path ::
  "u64 \<Rightarrow> dict_walks \<Rightarrow> wquery \<Rightarrow> lex_index \<Rightarrow> u32 \<Rightarrow> (scan_error + (tid list \<times> bool)) option" where
  \<comment> \<open>what the segments give, without the positional path\<close>
  "seg_path F wk q ix gen =
     (if has_flag (QF_FUZZY OR QF_REGEX) q then
        (case weave_query_fr_covered q of None \<Rightarrow> None
         | Some covered \<Rightarrow> collect_segs (\<lambda>s d. Some (fr_segment F wk (igen ix) gen q covered s d)) (isegs ix) [] (has_flag QF_WEIGHTED q))
      else collect_segs (bool_segment F (igen ix) gen q) (isegs ix) [] (has_flag QF_WEIGHTED q))"

definition phrase_path :: "u64 \<Rightarrow> wquery \<Rightarrow> lex_index \<Rightarrow> tid list option" where
  "phrase_path F q ix =
     (case (if has_op OP_PHRASE q \<and> \<not> has_flag (QF_FUZZY OR QF_REGEX) q \<and> \<not> has_op OP_NOT q \<and> \<not> has_flag QF_WEIGHTED q \<and>
                iwants_positions ix then weave_phrase_chain q else None) of
        None \<Rightarrow> None | Some (ts, steps) \<Rightarrow> phrase_segs F q ts steps (isegs ix) [])"

lemma collect_pass_paths:
  "collect_pass F wk hr hf q ix gen =
     (case (case phrase_path F q ix of
              Some ptids \<Rightarrow> Some (map_sum id (\<lambda>acc. (acc, has_flag QF_WEIGHTED q))
                (if ptids = [] then Inr [] else tidset_or [] (tidset_sort_uniq ptids)))
            | None \<Rightarrow> seg_path F wk q ix gen) of
        None \<Rightarrow> None
      | Some (Inl e) \<Rightarrow> Some (Inl e)
      | Some (Inr (acc, recheck)) \<Rightarrow>
          (case collect_pending hr hf q (ipending ix) [] 0 of
             None \<Rightarrow> None
           | Some (Inl e) \<Rightarrow> Some (Inl e)
           | Some (Inr pend) \<Rightarrow>
               let acc = tidset_sort_uniq acc in
               if pend = [] then Some (Inr (acc, recheck))
               else Some (map_sum id (\<lambda>r. (tidset_sort_uniq r, recheck)) (tidset_or acc (tidset_sort_uniq pend)))))"
proof (cases "has_op OP_PHRASE q \<and> \<not> has_flag (QF_FUZZY OR QF_REGEX) q \<and> \<not> has_op OP_NOT q \<and> \<not> has_flag QF_WEIGHTED q \<and>
                iwants_positions ix")
  case True
  then have t: "has_op OP_PHRASE q" "\<not> has_flag (QF_FUZZY OR QF_REGEX) q" "\<not> has_op OP_NOT q" "\<not> has_flag QF_WEIGHTED q"
    "iwants_positions ix" by blast+
  show ?thesis
  proof (cases "weave_phrase_chain q")
    case None
    then show ?thesis by (simp add: collect_pass_def phrase_path_def seg_path_def t)
  next
    case (Some c)
    then show ?thesis
      by (cases c; cases "phrase_segs F q (fst c) (snd c) (isegs ix) []")
        (simp_all add: collect_pass_def phrase_path_def seg_path_def t)
  qed
next
  case False
  then show ?thesis by (auto simp: collect_pass_def phrase_path_def seg_path_def Let_def)
qed

lemma collect_segs_recheck: "collect_segs seg segs acc True = Some (Inr (acc', re)) \<Longrightarrow> re"
  by (induction segs arbitrary: acc) (auto split: option.splits sum.splits if_splits)

lemma seg_path_found:
  assumes "F \<le> 2 ^ 16" "weave_query_validate verify q = Valid" "query_typed q" "index_holds F hr hf wk dss ix"
    and "seg_path F wk q ix (igen ix) = Some (Inr (acc, re))"
  shows "found (index_answers F hr hf q dss (isegs ix)) (index_live F dss (isegs ix)) acc re"
proof -
  let ?P = "\<lambda>ds s. segment_holds F ds s \<and> lex_walks_ok hr hf wk ds s"
  let ?W = "has_flag QF_WEIGHTED q"
  have P: "list_all2 ?P dss (isegs ix)" using assms(4) by (simp add: index_holds_def)
  have start: "found {} {} [] (?W \<or> ?W)" by (simp add: found_def)
  have re: "r \<longrightarrow> re" if "collect_segs seg segs a r = Some (Inr (acc, re))" for seg segs a r
    using that collect_segs_recheck by (cases r) auto
  show ?thesis
  proof (cases "has_flag (QF_FUZZY OR QF_REGEX) q")
    case True
    then obtain covered where c: "weave_query_fr_covered q = Some covered"
      "collect_segs (\<lambda>s d. Some (fr_segment F wk (igen ix) (igen ix) q covered s d)) (isegs ix) [] ?W = Some (Inr (acc, re))"
      using assms(5) by (auto simp: seg_path_def split: option.splits)
    have "found ({} \<union> index_answers F hr hf q dss (isegs ix)) ({} \<union> index_live F dss (isegs ix)) acc (re \<or> ?W)"
    proof (rule collect_segs_found [OF _ _ P c(2) start])
      fix ds s D r again
      assume "?P ds s" "sdict s = Some D" "Some (fr_segment F wk (igen ix) (igen ix) q covered s D) = Some (Inr (r, again))"
      then have "found (answers F hr hf q ds s) (live_tids F ds s) r again"
        using fr_segment_found [OF assms(1-3) c(1), of ds s hr hf wk D "igen ix" r again] by simp
      then show "found (answers F hr hf q ds s) (live_tids F ds s) r (again \<or> ?W)" by (simp add: found_def)
    qed simp
    then show ?thesis using re [OF c(2)] by (auto simp: found_def)
  next
    case False
    then have c: "collect_segs (bool_segment F (igen ix) (igen ix) q) (isegs ix) [] ?W = Some (Inr (acc, re))"
      using assms(5) by (simp add: seg_path_def)
    have "found ({} \<union> index_answers F hr hf q dss (isegs ix)) ({} \<union> index_live F dss (isegs ix)) acc (re \<or> ?W)"
      by (rule collect_segs_found [OF _ _ P c start]) (use bool_segment_found [OF assms(1-3) False] in blast)+
    then show ?thesis using re [OF c] by (auto simp: found_def)
  qed
qed

lemma phrase_path_found:
  assumes "F \<le> 2 ^ 16" "weave_query_validate verify q = Valid" "index_holds F hr hf wk dss ix" "phrase_path F q ix = Some ptids"
    and "(if ptids = [] then Inr [] else tidset_or [] (tidset_sort_uniq ptids)) = Inr acc"
  shows "found (index_answers F hr hf q dss (isegs ix)) (index_live F dss (isegs ix)) acc re"
proof -
  obtain ts steps where c: "weave_phrase_chain q = Some (ts, steps)" "\<not> has_flag QF_WEIGHTED q"
    "phrase_segs F q ts steps (isegs ix) [] = Some ptids"
    using assms(4) by (auto simp: phrase_path_def split: option.splits if_splits)
  have "list_all2 (segment_holds F) dss (isegs ix)" "sum_list (map length dss) \<le> TIDSET_MAX_N"
    using assms(3) by (auto simp: index_holds_def elim: list_all2_mono)
  then have p: "set ptids = index_answers F hr hf q dss (isegs ix)" "length ptids \<le> TIDSET_MAX_N"
    using phrase_segs_answers [OF assms(1) c(1) plain_chain [OF assms(2) c(2,1)] _ c(3), of dss hr hf] by auto
  have "tidset_ok acc \<and> set acc = set ptids"
    using assms(5) tidset_or_spec [OF tidset_ok_Nil sort_uniq_ok] sort_uniq_set [OF p(2)] by (auto split: if_splits)
  moreover have "index_answers F hr hf q dss (isegs ix) \<subseteq> index_live F dss (isegs ix)"
    by (force simp: index_answers_def index_live_def answers_def live_tids_def)
  ultimately show ?thesis using p(1) by (simp add: found_def)
qed

lemma collect_pass_found:
  assumes "F \<le> 2 ^ 16" "weave_query_validate verify q = Valid" "query_typed q" "index_holds F hr hf wk dss ix"
    and "collect_pass F wk hr hf q ix (igen ix) = Some (Inr (r, re))"
  shows "found (index_answers F hr hf q dss (isegs ix) \<union> pending_answers hr hf q (ipending ix))
    (index_live F dss (isegs ix) \<union> pending_answers hr hf q (ipending ix)) r re"
proof -
  let ?A = "index_answers F hr hf q dss (isegs ix)" and ?B = "index_live F dss (isegs ix)"
  let ?segs = "case phrase_path F q ix of
      Some ptids \<Rightarrow> Some (map_sum id (\<lambda>acc. (acc, has_flag QF_WEIGHTED q))
        (if ptids = [] then Inr [] else tidset_or [] (tidset_sort_uniq ptids)))
    | None \<Rightarrow> seg_path F wk q ix (igen ix)"
  obtain acc where acc: "?segs = Some (Inr (acc, re))"
    and pend: "\<exists>pend. collect_pending hr hf q (ipending ix) [] 0 = Some (Inr pend) \<and>
      (if pend = [] then r = tidset_sort_uniq acc
       else \<exists>c. tidset_or (tidset_sort_uniq acc) (tidset_sort_uniq pend) = Inr c \<and> r = tidset_sort_uniq c)"
    using assms(5) unfolding collect_pass_paths Let_def
    by (cases ?segs; cases "the ?segs"; cases "collect_pending hr hf q (ipending ix) [] 0";
        cases "the (collect_pending hr hf q (ipending ix) [] 0)"; cases "projr (the ?segs)";
        cases "tidset_or (tidset_sort_uniq (fst (projr (the ?segs)))) (tidset_sort_uniq (projr (the (collect_pending hr hf q (ipending ix) [] 0))))")
      (auto split: if_splits)
  have f: "found ?A ?B acc re"
  proof (cases "phrase_path F q ix")
    case None
    then show ?thesis using acc seg_path_found [OF assms(1-4)] by simp
  next
    case (Some ptids)
    then have "(if ptids = [] then Inr [] else tidset_or [] (tidset_sort_uniq ptids)) = Inr acc"
      using acc by (cases "tidset_or [] (tidset_sort_uniq ptids)") (auto split: if_splits)
    then show ?thesis by (rule phrase_path_found [OF assms(1,2,4) Some])
  qed
  obtain ps where ps: "collect_pending hr hf q (ipending ix) [] 0 = Some (Inr ps)"
    "if ps = [] then r = tidset_sort_uniq acc
     else \<exists>c. tidset_or (tidset_sort_uniq acc) (tidset_sort_uniq ps) = Inr c \<and> r = tidset_sort_uniq c"
    using pend by blast
  have p: "set ps = pending_answers hr hf q (ipending ix)" "length ps \<le> TIDSET_MAX_N"
    using collect_pending_answers [OF ps(1)] by simp_all
  have same: "set (tidset_sort_uniq s) = set s" if "tidset_ok s" for s
    using that by (simp add: sort_uniq_set tidset_ok_def)
  have ok: "tidset_ok acc" using f by (simp add: found_def)
  show ?thesis
  proof (cases "ps = []")
    case True
    then show ?thesis using ps(2) f p(1) same [OF ok] sort_uniq_ok [of acc] by (simp add: found_def)
  next
    case False
    then obtain c where c: "tidset_or (tidset_sort_uniq acc) (tidset_sort_uniq ps) = Inr c" "r = tidset_sort_uniq c"
      using ps(2) by auto
    have "tidset_ok c" "set c = set acc \<union> set ps"
      using tidset_or_spec [OF sort_uniq_ok sort_uniq_ok c(1)] same [OF ok] sort_uniq_set [OF p(2)] by auto
    then have "set r = set acc \<union> pending_answers hr hf q (ipending ix)" "tidset_ok r"
      using same [of c] sort_uniq_ok [of c] p(1) c(2) by auto
    then show ?thesis using f by (auto simp: found_def)
  qed
qed

subsection \<open>Retrying\<close>

lemma collect_matches_pass:
  "weave_collect_matches F wk hr hf q m world n = Some (Inr r) \<Longrightarrow>
   \<exists>k ix. world k = (ix, igen ix) \<and> collect_pass F wk hr hf q ix (igen ix) = Some (Inr r)"
proof (induction F wk hr hf q m world n rule: weave_collect_matches.induct)
  case (1 F wk hr hf q m world n)
  obtain ix gen where w: "world n = (ix, gen)" by fastforce
  obtain r' where p: "collect_pass F wk hr hf q ix gen = Some (Inr r')"
    using 1(2) w by (subst (asm) weave_collect_matches.simps) (auto split: option.splits sum.splits)
  show ?case
  proof (cases "gen = igen ix")
    case True
    then have "r = r'" using 1(2) w p by (subst (asm) weave_collect_matches.simps) simp
    then show ?thesis using True w p by blast
  next
    case False
    then have "\<not> m \<le> n" "weave_collect_matches F wk hr hf q m world (n + 1) = Some (Inr r)"
      using 1(2) w p by (subst (asm) weave_collect_matches.simps, simp split: if_splits)+
    then show ?thesis using 1(1) [OF w [symmetric] refl p refl False] by simp
  qed
qed

lemma collect_matches_step:
  "collect_pass F wk hr hf q ix gen = Some (Inr r) \<Longrightarrow> world n = (ix, gen) \<Longrightarrow>
   weave_collect_matches F wk hr hf q m world n =
     (if gen = igen ix then Some (Inr r) else if m \<le> n then Some (Inl ScanRacedOut)
      else weave_collect_matches F wk hr hf q m world (n + 1))"
  by (subst weave_collect_matches.simps) simp

subsection \<open>The stacks never underflow\<close>

lemma cover_items_depth:
  "run_items (match_step hr hf d q) its ms = Some ms' \<Longrightarrow> length cs = length ms \<Longrightarrow> cover_items msk want its cs \<noteq> None"
proof (induction its arbitrary: cs ms)
  case (Cons it its)
  obtain ns where ns: "match_step hr hf d q it ms = Some ns" "run_items (match_step hr hf d q) its ns = Some ms'"
    using Cons.prems(1) by (auto simp: bind_eq_Some_conv)
  have len: "item_arity it \<le> length cs" "length ns = Suc (length cs - item_arity it)"
    using matcher.step_enough [OF ns(1)] Cons.prems(2) by simp_all
  show ?case
  proof (cases it rule: arity_cases)
    case 1
    have "length (c # cs) = length ns" for c :: bool using len 1(2) by simp
    note Cons.IH [OF ns(2) this]
    then show ?thesis using 1(1) by simp
  next
    case 2
    then obtain c us where c: "cs = c # us" using len(1) by (cases cs) simp_all
    have "length (False # us) = length ns" using len 2(3) c by simp
    note Cons.IH [OF ns(2) this]
    then show ?thesis using 2(1,2) c by simp
  next
    case 3
    then obtain b us where b: "cs = b # us" using len(1) by (cases cs) simp_all
    then obtain a ts where c: "cs = b # a # ts" using len(1) 3(3) by (cases us) simp_all
    have "length (v # ts) = length ns" for v :: bool using len 3(3) c by simp
    note Cons.IH [OF ns(2) this]
    then show ?thesis using 3(1,2) c by simp
  qed
qed simp

lemma matches_some:
  assumes "weave_query_validate verify q = Valid"
  shows "weave_doc_matches hr hf d q \<noteq> None"
proof (cases "qitems q = []")
  case False
  show ?thesis by (rule valid_runs [OF assms False, of hr hf d]) simp
qed (simp add: weave_doc_matches_def)

lemma collect_segs_some:
  assumes "\<And>s D. seg s D \<noteq> None"
  shows "collect_segs seg segs acc re \<noteq> None"
proof (induction segs arbitrary: acc re)
  case (Cons s segs)
  show ?case
  proof (cases "sdict s")
    case (Some D)
    obtain o' where "seg s D = Some o'" using assms by blast
    then show ?thesis using Some Cons.IH [unfolded not_None_eq] by (cases o') (auto split: sum.splits)
  qed (use Cons.IH in \<open>simp del: not_None_eq\<close>)
qed simp

lemma collect_pending_some:
  assumes "weave_query_validate verify q = Valid"
  shows "collect_pending hr hf q ps acc cap \<noteq> None"
proof (induction ps arbitrary: acc cap)
  case (Cons p ps)
  show ?case
  proof (cases p)
    case (PendingDoc t d)
    obtain v where "weave_doc_matches hr hf d q = Some v" using matches_some [OF assms] by blast
    then show ?thesis using PendingDoc Cons.IH [unfolded not_None_eq] by (cases v) (auto split: sum.splits)
  qed (use Cons.IH in \<open>simp_all del: not_None_eq\<close>)
qed simp

lemma seg_path_some:
  assumes "weave_query_validate verify q = Valid"
  shows "seg_path F wk q ix gen \<noteq> None"
proof -
  have "weave_query_fr_covered q \<noteq> None"
  proof (cases "qitems q = []")
    case False
    then obtain m where "run_items (match_step (\<lambda>_ _. False) (\<lambda>_ _ _. False) undefined q) (qitems q) [] = Some [m]"
      using valid_runs [OF assms] by blast
    then show ?thesis
      using cover_items_depth [of _ _ _ q "qitems q" "[]" _ "[]"] False
      by (auto simp: weave_query_fr_covered_def weave_query_leaves_cover_def)
  qed (simp add: weave_query_fr_covered_def weave_query_leaves_cover_def)
  moreover have "bool_segment F (igen ix) gen q s D \<noteq> None" for s D
    using eval_query_some [OF assms] by (simp add: bool_segment_def)
  ultimately show ?thesis using collect_segs_some by (fastforce simp: seg_path_def)
qed

lemma collect_pass_some:
  assumes "weave_query_validate verify q = Valid"
  shows "collect_pass F wk hr hf q ix gen \<noteq> None"
proof -
  have "(case phrase_path F q ix of
      Some ptids \<Rightarrow> Some (map_sum id (\<lambda>acc. (acc, has_flag QF_WEIGHTED q))
        (if ptids = [] then Inr [] else tidset_or [] (tidset_sort_uniq ptids)))
    | None \<Rightarrow> seg_path F wk q ix gen) \<noteq> None"
    using seg_path_some [OF assms] by (auto split: option.splits)
  moreover have "collect_pending hr hf q (ipending ix) [] 0 \<noteq> None" by (rule collect_pending_some [OF assms])
  ultimately show ?thesis unfolding collect_pass_paths by (auto simp: Let_def split: option.splits sum.splits)
qed

subsection \<open>Properties\<close>

text \<open>
  C3: the answer of a lexical scan. On a validated query, over segments that hold their documents and a pending
  list, \<open>weave_collect_matches\<close> returns an ascending set of tuple ids taken from a pass whose snapshot did not
  change. It contains every live document the evaluator of \<open>src/query/match.c\<close> matches, in a segment or pending,
  only names live or matching pending documents, and is exactly the matching ones when it does not ask for the
  recheck, whichever of the boolean, the fuzzy and regex and the positional path served it.
\<close>

theorem collect_matches_exact:
  assumes "F \<le> 2 ^ 16" "weave_query_validate verify q = Valid" "query_typed q"
    and "\<And>k ix. world k = (ix, igen ix) \<Longrightarrow> index_holds F hr hf wk (docs k) ix"
    and "weave_collect_matches F wk hr hf q m world 0 = Some (Inr (r, recheck))"
  shows "asc r \<and> (\<exists>k ix. world k = (ix, igen ix) \<and>
    index_answers F hr hf q (docs k) (isegs ix) \<union> pending_answers hr hf q (ipending ix) \<subseteq> set r \<and>
    set r \<subseteq> index_live F (docs k) (isegs ix) \<union> pending_answers hr hf q (ipending ix) \<and>
    (\<not> recheck \<longrightarrow> set r = index_answers F hr hf q (docs k) (isegs ix) \<union> pending_answers hr hf q (ipending ix)))"
proof -
  obtain k ix where k: "world k = (ix, igen ix)" "collect_pass F wk hr hf q ix (igen ix) = Some (Inr (r, recheck))"
    using collect_matches_pass [OF assms(5)] by blast
  show ?thesis
    using collect_pass_found [OF assms(1-3) assms(4) [OF k(1)] k(2)] k(1) by (auto simp: found_def tidset_ok_def)
qed

text \<open>
  C31: on a validated query the evaluators' stacks are never read below their bottom, whatever the index holds and
  whatever other backends do to it between the passes: every scan ends with a set or with a raised error.
\<close>

theorem collect_matches_total:
  "weave_query_validate verify q = Valid \<Longrightarrow> weave_collect_matches F wk hr hf q m world n \<noteq> None"
proof (induction F wk hr hf q m world n rule: weave_collect_matches.induct)
  case (1 F wk hr hf q m world n)
  obtain ix gen where w: "world n = (ix, gen)" by fastforce
  obtain p where p: "collect_pass F wk hr hf q ix gen = Some p" using collect_pass_some [OF 1(2)] by blast
  show ?case
  proof (cases p)
    case (Inl e)
    then show ?thesis using w p by (subst weave_collect_matches.simps) simp
  next
    case (Inr r)
    then show ?thesis
      using 1(1) [OF w [symmetric] refl p Inr] 1(2) p w by (simp add: collect_matches_step del: not_None_eq)
  qed
qed

text \<open>
  C32: the retries end. When the passes before the \<open>k\<close>-th are overtaken by a structural change and the \<open>k\<close>-th, within
  the retries allowed, is not, and no pass fails, the scan returns what the \<open>k\<close>-th pass collected; when every allowed
  pass is overtaken it raises the error that it raced out.
\<close>

theorem collect_matches_retries:
  assumes "\<And>j. j \<le> k \<Longrightarrow> collect_pass F wk hr hf q (fst (world j)) (snd (world j)) = Some (Inr (R j))"
    and "\<And>j. j < k \<Longrightarrow> snd (world j) \<noteq> igen (fst (world j))" "k \<le> m"
  shows "weave_collect_matches F wk hr hf q m world 0 =
    (if snd (world k) = igen (fst (world k)) then Some (Inr (R k)) else if k = m then Some (Inl ScanRacedOut)
     else weave_collect_matches F wk hr hf q m world (k + 1))"
proof -
  have step: "weave_collect_matches F wk hr hf q m world j =
     (if snd (world j) = igen (fst (world j)) then Some (Inr (R j)) else if m \<le> j then Some (Inl ScanRacedOut)
      else weave_collect_matches F wk hr hf q m world (j + 1))" if "j \<le> k" for j
    by (rule collect_matches_step [OF assms(1) [OF that]]) simp
  have "weave_collect_matches F wk hr hf q m world 0 = weave_collect_matches F wk hr hf q m world j" if "j \<le> k" for j
    using that
  proof (induction j)
    case (Suc j)
    then show ?case using step [of j] assms(2) [of j] assms(3) by simp
  qed simp
  then have "weave_collect_matches F wk hr hf q m world 0 = weave_collect_matches F wk hr hf q m world k" by blast
  moreover have "m \<le> k \<longleftrightarrow> k = m" using assms(3) by auto
  ultimately show ?thesis by (simp only: step [OF order_refl])
qed

abbreviation (input) demo_x :: tid where "demo_x \<equiv> \<lparr>blk = 0, off = 1\<rparr>"
abbreviation (input) demo_y :: tid where "demo_y \<equiv> \<lparr>blk = 0, off = 2\<rparr>"

abbreviation (input) demo_wdoc :: wdoc where
  "demo_wdoc \<equiv> \<lparr>dflags = 1, ddoclen = 1, dentries = [\<lparr>eoff = 0, elen = 1, etf = 1, eposoff = 0\<rparr>], dlexemes = [97], dpositions = [1]\<rparr>"

abbreviation (input) demo_segment :: segment where
  "demo_segment \<equiv> \<lparr>sdict = Some \<lparr>dpages = [[\<lparr>dterm = [97], dposts = [\<lparr>ptid = demo_x, ptf = 1, ppos = Some [1]\<rparr>]\<rparr>]], dindex = []\<rparr>,
     sndocs = 1, sdoclist = NoDoclist, stombs = None\<rparr>"

abbreviation (input) demo_index :: lex_index where
  "demo_index \<equiv> \<lparr>igen = 5, isegs = [demo_segment], ipending = [PendingDoc demo_y demo_wdoc], iwants_positions = True\<rparr>"

abbreviation (input) demo_walks :: dict_walks where
  "demo_walks \<equiv> \<lparr>fuzzy_terms = \<lambda>_ _ _. Inr None, regex_terms = \<lambda>_ _. Inr None, trgm_candidates = \<lambda>_ _ _. Inr None\<rparr>"

abbreviation (input) demo_term :: wquery where
  "demo_term \<equiv> \<lparr>qitems = [\<lparr>itype = 1, iop = 0, iflags = 0, idist = 0, itermoff = 0, itermlen = 1\<rparr>], qtext = [97]\<rparr>"

lemma demo_holds: "index_holds 300 (\<lambda>_ _. False) (\<lambda>_ _ _. False) demo_walks [[(demo_x, demo_wdoc)]] demo_index"
  by (simp add: index_holds_def segment_holds_def dict_holds_def dict_ok_def dict_terms_def entry_ok_def posting_ok_def doc_ok_def
      doc_sorted_def doc_terms_def term_text_def term_pos_def WEAVE_DOC_HAS_POS_def DOCF_POSITIONS_def WEAVE_POS_ORD_def
      lex_walks_ok_def TIDSET_MAX_N_def MaxAllocSize_def)

lemma demo_match: "weave_doc_matches (\<lambda>_ _. False) (\<lambda>_ _ _. False) demo_wdoc demo_term = Some True"
  by (simp add: weave_doc_matches_def match_step.simps term_positions_def weave_doc_lookup_def lookup_loop.simps [of _ _ 0 0]
      item_text_def term_text_def term_cmp_def absent_def query_consts WEAVE_DOC_HAS_POS_def DOCF_POSITIONS_def)

lemma demo_pass: "collect_pass 300 demo_walks (\<lambda>_ _. False) (\<lambda>_ _ _. False) demo_term demo_index 5 = Some (Inr ([demo_x, demo_y], False))"
proof -
  have "find_term \<lparr>dpages = [[\<lparr>dterm = [97], dposts = [\<lparr>ptid = demo_x, ptf = 1, ppos = Some [1]\<rparr>]\<rparr>]], dindex = []\<rparr> [97] =
    Some \<lparr>dterm = [97], dposts = [\<lparr>ptid = demo_x, ptf = 1, ppos = Some [1]\<rparr>]\<rparr>"
    by (simp add: find_term_def weave_dict_seek_at_def)
  then have "collect_segs (bool_segment 300 5 5 demo_term) [demo_segment] [] False = Some (Inr ([demo_x], False))"
    by (simp add: bool_segment_def weave_eval_query_def eval_leaf_def item_text_def weave_lookup_term_def query_consts
      tidset_sort_uniq_def TIDSET_MAX_N_def MaxAllocSize_def weave_filter_tombstoned_seg_def has_op_def tidset_or_def tidset_sane_def
      palloc_tids_def)
  moreover have "collect_pending (\<lambda>_ _. False) (\<lambda>_ _ _. False) demo_term [PendingDoc demo_y demo_wdoc] [] 0 = Some (Inr [demo_y])"
    using demo_match by (simp add: tidset_append_def TIDSET_MAX_N_def MaxAllocSize_def)
  moreover have "tidset_or [demo_x] [demo_y] = Inr [demo_x, demo_y]"
    by (simp add: tidset_or_def tidset_sane_def palloc_tids_def TIDSET_MAX_N_def MaxAllocSize_def ItemPointerCompare_def)
  moreover have "tidset_sort_uniq [demo_x, demo_y] = [demo_x, demo_y]"
    by (simp add: tidset_sort_uniq_def TIDSET_MAX_N_def MaxAllocSize_def tid_less less_eq_tid_ext_def ItemPointerCompare_def)
  ultimately show ?thesis
    by (simp add: collect_pass_def has_flag_def has_op_def query_consts tidset_sort_uniq_def TIDSET_MAX_N_def MaxAllocSize_def)
qed

theorem collect_matches_exact_witness:
  "weave_collect_matches 300 demo_walks (\<lambda>_ _. False) (\<lambda>_ _ _. False) demo_term 3 (\<lambda>_. (demo_index, 5)) 0 =
     Some (Inr ([demo_x, demo_y], False)) \<and>
   {demo_x, demo_y} = index_answers 300 (\<lambda>_ _. False) (\<lambda>_ _ _. False) demo_term [[(demo_x, demo_wdoc)]] [demo_segment] \<union>
     pending_answers (\<lambda>_ _. False) (\<lambda>_ _ _. False) demo_term [PendingDoc demo_y demo_wdoc]"
proof -
  have r: "weave_collect_matches 300 demo_walks (\<lambda>_ _. False) (\<lambda>_ _ _. False) demo_term 3 (\<lambda>_. (demo_index, 5)) 0 =
      Some (Inr ([demo_x, demo_y], False))"
    by (subst collect_matches_step [OF demo_pass]) simp_all
  have v: "weave_query_validate (\<lambda>_. True) demo_term = Valid" "query_typed demo_term"
    by (simp_all add: weave_query_validate_def validate_item_def bad_term_def item_text_def query_consts query_typed_def)
  have "set [demo_x, demo_y] = index_answers 300 (\<lambda>_ _. False) (\<lambda>_ _ _. False) demo_term [[(demo_x, demo_wdoc)]] [demo_segment] \<union>
     pending_answers (\<lambda>_ _. False) (\<lambda>_ _ _. False) demo_term [PendingDoc demo_y demo_wdoc]"
    using collect_matches_exact [OF _ v, of 300 "\<lambda>_. (demo_index, 5)" "\<lambda>_ _. False" "\<lambda>_ _ _. False" demo_walks
        "\<lambda>_. [[(demo_x, demo_wdoc)]]" 3 "[demo_x, demo_y]" False] demo_holds r by auto
  then show ?thesis using r by simp
qed

theorem collect_matches_total_witness:
  "weave_query_validate (\<lambda>_. True) demo_term = Valid \<and>
   weave_collect_matches 300 demo_walks (\<lambda>_ _. False) (\<lambda>_ _ _. False) demo_term 3 (\<lambda>_. (demo_index, 6)) 0 \<noteq> None"
proof -
  have "weave_query_validate (\<lambda>_. True) demo_term = Valid"
    by (simp add: weave_query_validate_def validate_item_def bad_term_def item_text_def query_consts)
  then show ?thesis using collect_matches_total by blast
qed

theorem collect_matches_retries_witness:
  "weave_collect_matches 300 demo_walks (\<lambda>_ _. False) (\<lambda>_ _ _. False) demo_term 3
     (\<lambda>k. (if k = 0 then \<lparr>igen = 4, isegs = [], ipending = [], iwants_positions = True\<rparr> else demo_index, 5)) 0 =
   Some (Inr ([demo_x, demo_y], False))"
proof -
  let ?w = "\<lambda>k :: nat. (if k = 0 then \<lparr>igen = 4, isegs = [], ipending = [], iwants_positions = True\<rparr> else demo_index, 5 :: u32)"
  have "collect_pass 300 demo_walks (\<lambda>_ _. False) (\<lambda>_ _ _. False) demo_term (fst (?w 0)) 5 = Some (Inr ([], False))"
    by (simp add: collect_pass_def has_flag_def has_op_def query_consts tidset_sort_uniq_def)
  then have "collect_pass 300 demo_walks (\<lambda>_ _. False) (\<lambda>_ _ _. False) demo_term (fst (?w j)) (snd (?w j)) =
      Some (Inr (if j = 0 then [] else [demo_x, demo_y], False))" for j
    using demo_pass by simp
  then show ?thesis
    using collect_matches_retries [of 1 300 demo_walks "\<lambda>_ _. False" "\<lambda>_ _ _. False" demo_term ?w
        "\<lambda>j. (if j = 0 then [] else [demo_x, demo_y], False)" 3] by simp
qed

end
