(* ===== verification/Weave_Postings.thy ===== *)
theory Weave_Postings
  imports Weave_For Weave_Dict Weave_Doclist "HOL-Library.Monad_Syntax"
begin

text \<open>
  Posting pages. \<open>weave_write_postings\<close> (\<open>src/am/ambuild.c\<close>) sorts a term's postings by docid and appends them,
  in blocks of 128 packed columns, to a chain of pages that all terms of a segment share; \<open>weave_decode_term\<close>
  (\<open>src/am/am.c\<close>) reads one term back from where its first block starts. A page is its 8 kB image, with the end
  of its items and the link to the next page (fields of its header and special area) beside it; a relation maps
  block numbers to pages. A read or write outside of an array is the value \<open>None\<close>.
\<close>

subsection \<open>Bounds of a page\<close>

definition weave_page_entry_end_off :: "nat \<Rightarrow> nat \<Rightarrow> nat \<Rightarrow> nat" where
  "weave_page_entry_end_off blcksz contents_off lower =
     (let low = (if blcksz < contents_off then blcksz else contents_off)
      in if blcksz < lower \<or> lower < low then low else lower)"

definition weave_page_entry_avail :: "nat \<Rightarrow> nat \<Rightarrow> nat \<Rightarrow> nat" where
  "weave_page_entry_avail blcksz contents_off lower =
     (let low = (if blcksz < contents_off then blcksz else contents_off)
      in weave_page_entry_end_off blcksz contents_off lower - low)"

definition weave_page_blob_chunk_len :: "nat \<Rightarrow> nat \<Rightarrow> nat \<Rightarrow> nat \<Rightarrow> nat \<Rightarrow> nat" where
  "weave_page_blob_chunk_len blcksz contents_off lower len done_at =
     (let avail = weave_page_entry_avail blcksz contents_off lower; remain = (if done_at < len then len - done_at else 0)
      in if avail < remain then avail else remain)"

abbreviation BLCKSZ :: nat where
  "BLCKSZ \<equiv> 8192"

abbreviation CONTENTS :: nat where
  \<comment> \<open>\<open>MAXALIGN(SizeOfPageHeaderData)\<close>\<close>
  "CONTENTS \<equiv> 24"

abbreviation SPECIAL :: nat where
  \<comment> \<open>where the special area begins\<close>
  "SPECIAL \<equiv> BLCKSZ - 16"

record post_page =
  pd_lower :: nat
  pimage :: "u8 list"
  nextblk :: "nat option"

definition weave_page_entry_end :: "post_page \<Rightarrow> nat" where
  "weave_page_entry_end pg = weave_page_entry_end_off BLCKSZ CONTENTS (pd_lower pg)"

definition weave_init_page :: post_page where
  "weave_init_page = \<lparr>pd_lower = CONTENTS, pimage = replicate BLCKSZ 0, nextblk = None\<rparr>"

subsection \<open>Writing a term\<close>

record build_posting =
  \<comment> \<open>one index of the parallel arrays of \<open>BuildTerm\<close>\<close>
  bptid :: tid
  bptf :: u32
  bpdoclen :: u32
  bpposoff :: u32
  bpposcnt :: u32

record build_term =
  bterm :: "u8 list"
  bposts :: "build_posting list"
  bpositions :: "u32 list option"
  bmax_tf :: u32
  bnext :: int

record post_writer =
  pw_store :: "nat \<Rightarrow> post_page option"
  pw_open :: "(nat \<times> post_page) option"
  pw_taken :: nat
  pw_no_doclen_col :: bool

definition pw_begin :: "(nat \<Rightarrow> post_page option) \<Rightarrow> post_writer" where
  "pw_begin rel = \<lparr>pw_store = rel, pw_open = None, pw_taken = 0, pw_no_doclen_col = False\<rparr>"

definition pw_finish :: "post_writer \<Rightarrow> post_writer" where
  "pw_finish pw =
     (case pw_open pw of None \<Rightarrow> pw
      | Some (b, pg) \<Rightarrow> pw\<lparr>pw_store := (pw_store pw)(b \<mapsto> pg), pw_open := None\<rparr>)"

record posting_sort =
  sdocid :: u64
  stf :: u32
  sdoclen :: u32
  sposoff :: u32
  sposcnt :: u32

abbreviation WEAVE_BLOCK_SIZE :: nat where
  "WEAVE_BLOCK_SIZE \<equiv> 128"

abbreviation BLOCK_HDR :: nat where
  \<comment> \<open>\<open>sizeof(WeaveBlockHdr)\<close>\<close>
  "BLOCK_HDR \<equiv> 28"

definition posting_sort_of :: "u64 \<Rightarrow> build_term \<Rightarrow> build_posting \<Rightarrow> posting_sort" where
  "posting_sort_of F bt p =
     \<lparr>sdocid = weave_tid_to_docid F (bptid p), stf = bptf p, sdoclen = bpdoclen p,
      sposoff = (if bpositions bt = None then 0 else bpposoff p),
      sposcnt = (if bpositions bt = None then 0 else bpposcnt p)\<rparr>"

fun gaps_from :: "u64 \<Rightarrow> posting_sort list \<Rightarrow> u64 list" where
  "gaps_from prev [] = []"
| "gaps_from prev (s # ss) = (sdocid s - prev) # gaps_from (sdocid s) ss"

definition block_columns :: "bool \<Rightarrow> posting_sort list \<Rightarrow> u8 list" where
  "block_columns no_doclen_col ss =
     weave_for_pack (gaps_from (sdocid (hd ss)) ss) @ weave_for_pack (map (\<lambda>s. ucast (stf s)) ss) @
     (if no_doclen_col then [] else weave_for_pack (map (\<lambda>s. ucast (sdoclen s)) ss))"

fun pos_deltas :: "u32 \<Rightarrow> u32 list \<Rightarrow> u64 list" where
  "pos_deltas prev [] = []"
| "pos_deltas prev (p # ps) =
     (let ord = WEAVE_POS_ORD p in ucast (ord - prev) # pos_deltas ord ps)"

definition posting_positions :: "u32 list \<Rightarrow> posting_sort \<Rightarrow> u32 list" where
  "posting_positions arena s = take (unat (stf s)) (drop (unat (sposoff s)) arena)"

definition block_positions :: "u32 list option \<Rightarrow> posting_sort list \<Rightarrow> u8 list option" where
  \<comment> \<open>\<open>None\<close>: a run is read past the arena, or the \<open>int\<close> arithmetic of the column overflows\<close>
  "block_positions positions ss =
     (case positions of None \<Rightarrow> Some []
      | Some arena \<Rightarrow>
          if 0 < sum_list (map (\<lambda>s. unat (stf s)) ss) \<and> list_all (\<lambda>s. sposcnt s = stf s) ss
          then if list_all (\<lambda>s. unat (sposoff s) + unat (stf s) \<le> length arena) ss
               then int_pack (concat (map (\<lambda>s. pos_deltas 0 (posting_positions arena s)) ss))
               else None
          else Some [])"

definition block_max_tf :: "posting_sort list \<Rightarrow> u32" where
  "block_max_tf ss = foldl (\<lambda>m s. if m < stf s then stf s else m) 0 ss"

definition block_min_doclen :: "posting_sort list \<Rightarrow> u32" where
  "block_min_doclen ss =
     (let m = foldl (\<lambda>m s. if sdoclen s < m then sdoclen s else m) (- 1) ss in if m = - 1 then 0 else m)"

definition le32 :: "u32 \<Rightarrow> u8 list" where
  "le32 w = le_bytes 4 (unat w)"

definition block_header :: "posting_sort list \<Rightarrow> nat \<Rightarrow> nat \<Rightarrow> u8 list" where
  "block_header ss sclen poslen =
     le32 (of_nat (length ss)) @ le32 (block_max_tf ss) @ le32 (block_min_doclen ss) @
     le32 (ucast (drop_bit 32 (sdocid (hd ss)))) @ le32 (ucast (sdocid (hd ss))) @
     le32 (of_nat sclen) @ le32 (of_nat poslen)"

definition fitting_positions :: "u8 list \<Rightarrow> u8 list \<Rightarrow> u8 list" where
  \<comment> \<open>positions that push the block past a whole page are dropped\<close>
  "fitting_positions cols posbuf =
     (let usable = BLCKSZ - CONTENTS - 16
      in if usable < MAXALIGN (BLOCK_HDR + length cols + length posbuf) then [] else posbuf)"

definition pw_room :: "(nat \<Rightarrow> nat) \<Rightarrow> nat \<Rightarrow> post_writer \<Rightarrow> post_writer" where
  \<comment> \<open>\<open>fresh k\<close> is the \<open>k\<close>-th block \<open>weave_new_buffer\<close> hands out\<close>
  "pw_room fresh need pw =
     (let nb = fresh (pw_taken pw) in
      case pw_open pw of
        None \<Rightarrow> pw\<lparr>pw_open := Some (nb, weave_init_page), pw_taken := pw_taken pw + 1\<rparr>
      | Some (b, pg) \<Rightarrow>
          if SPECIAL < weave_page_entry_end pg + need then
            pw\<lparr>pw_store := (pw_store pw)(b \<mapsto> pg\<lparr>nextblk := Some nb\<rparr>),
               pw_open := Some (nb, weave_init_page), pw_taken := pw_taken pw + 1\<rparr>
          else pw)"

definition put_bytes :: "u8 list \<Rightarrow> nat \<Rightarrow> u8 list \<Rightarrow> u8 list" where
  "put_bytes img i bs = take i img @ bs @ drop (i + length bs) img"

definition write_block ::
  "(nat \<Rightarrow> nat) \<Rightarrow> u32 list option \<Rightarrow> posting_sort list \<Rightarrow> post_writer \<Rightarrow> (post_writer \<times> (nat \<times> nat)) option" where
  \<comment> \<open>the writer, and the block and offset where this block starts\<close>
  "write_block fresh positions ss pw =
     (let cols = block_columns (pw_no_doclen_col pw) ss
      in case block_positions positions ss of None \<Rightarrow> None
         | Some posbuf \<Rightarrow>
             let pos = fitting_positions cols posbuf;
                 need = MAXALIGN (BLOCK_HDR + length cols + length pos);
                 pw = pw_room fresh need pw
             in case pw_open pw of None \<Rightarrow> None
                | Some (b, pg) \<Rightarrow>
                    let dst = weave_page_entry_end pg in
                    if length (pimage pg) < dst + need then None
                    else
                      Some (pw\<lparr>pw_open := Some (b, pg\<lparr>
                                 pimage := put_bytes (pimage pg) dst (block_header ss (length cols) (length pos) @ cols @ pos),
                                 pd_lower := pd_lower pg + need\<rparr>)\<rparr>,
                            (b, dst)))"

function write_blocks ::
  "(nat \<Rightarrow> nat) \<Rightarrow> u32 list option \<Rightarrow> posting_sort list \<Rightarrow> post_writer \<Rightarrow> (nat \<times> nat) option \<Rightarrow>
   (post_writer \<times> (nat \<times> nat) option) option" where
  "write_blocks fresh positions ss pw start =
     (if ss = [] then Some (pw, start)
      else do {
        (pw, at) \<leftarrow> write_block fresh positions (take WEAVE_BLOCK_SIZE ss) pw;
        write_blocks fresh positions (drop WEAVE_BLOCK_SIZE ss) pw (if start = None then Some at else start)
      })"
  by pat_completeness auto
termination
  by (relation "measure (\<lambda>(_, _, ss, _). length ss)") auto

declare write_blocks.simps [simp del]

definition weave_write_postings ::
  "(nat \<Rightarrow> nat) \<Rightarrow> u64 \<Rightarrow> post_writer \<Rightarrow> build_term \<Rightarrow> (post_writer \<times> build_term \<times> (nat \<times> nat) option) option" where
  "weave_write_postings fresh F pw bt =
     (let ss = sort_key sdocid (map (posting_sort_of F bt) (bposts bt)) in do {
        (pw, start) \<leftarrow> write_blocks fresh (bpositions bt) ss pw None;
        Some (pw, bt\<lparr>bmax_tf := block_max_tf ss\<rparr>, start)
      })"

subsection \<open>Reading a term\<close>

record raw_posting =
  \<comment> \<open>a posting of the result and its \<open>pos_start\<close>\<close>
  rtid :: tid
  rtf :: u32
  rdoclen :: u32
  rmax :: u32
  rstart :: int

record decoder =
  dec_posts :: "raw_posting list"
  dec_arena :: "u32 list"
  dec_cap :: nat

definition bytelen_at :: "u8 list \<Rightarrow> nat \<Rightarrow> nat \<Rightarrow> nat option" where
  "bytelen_at img i cnt = (if i < length img then Some (weave_for_bytelen (drop i img) cnt) else None)"

definition unpack_at :: "u8 list \<Rightarrow> nat \<Rightarrow> nat \<Rightarrow> (u64 list \<times> nat) option" where
  "unpack_at img i cnt = weave_for_unpack (drop i img) cnt"

definition columns_fit :: "u8 list \<Rightarrow> nat \<Rightarrow> nat \<Rightarrow> nat \<Rightarrow> (bool \<times> bool) option" where
  \<comment> \<open>whether the block has a doclen column, and whether the columns stay within \<open>bytelen\<close>\<close>
  "columns_fit img s cnt bytelen = do {
     gl \<leftarrow> bytelen_at img s cnt;
     tl' \<leftarrow> (if gl \<le> bytelen then bytelen_at img (s + gl) cnt else Some 0);
     let has_doclen_col = gl + tl' < bytelen;
     dl \<leftarrow> (if has_doclen_col \<and> gl + tl' \<le> bytelen then bytelen_at img (s + gl + tl') cnt else Some 0);
     Some (has_doclen_col, gl + tl' + dl \<le> bytelen)
   }"

definition c_int :: "u64 \<Rightarrow> int" where
  \<comment> \<open>the C cast to \<open>int\<close>\<close>
  "c_int v = sint (ucast v :: u32)"

definition sum_tf :: "u64 list \<Rightarrow> int" where
  \<comment> \<open>the \<open>int\<close> sum of the loop, which wraps around\<close>
  "sum_tf tfs = sint (foldl (\<lambda>a v. a + ucast v) (0 :: u32) tfs)"

fun undelta_run :: "nat \<Rightarrow> u64 list \<Rightarrow> u32 \<Rightarrow> nat \<Rightarrow> u32 list \<Rightarrow> (u64 list \<times> u32 list) option" where
  \<comment> \<open>the deltas left and the arena, which has room for \<open>cap\<close> positions\<close>
  "undelta_run 0 ds run cap arena = Some (ds, arena)"
| "undelta_run (Suc t) [] run cap arena = None"
| "undelta_run (Suc t) (d # ds) run cap arena =
     (if length arena < cap then undelta_run t ds (run + ucast d) cap (arena @ [run + ucast d]) else None)"

fun undelta :: "u64 list \<Rightarrow> u64 list \<Rightarrow> nat \<Rightarrow> u32 list \<Rightarrow> (int list \<times> u32 list) option" where
  \<comment> \<open>the start of every posting's run, and the arena\<close>
  "undelta [] ds cap arena = Some ([], arena)"
| "undelta (v # tfs) ds cap arena = do {
     (ds, arena') \<leftarrow> undelta_run (nat (c_int v)) ds 0 cap arena;
     (starts, arena'') \<leftarrow> undelta tfs ds cap arena';
     Some (int (length arena) # starts, arena'')
   }"

definition positions_need :: "nat \<Rightarrow> int \<Rightarrow> nat" where
  "positions_need pw sumtf =
     (if sumtf < 0 then MaxAllocSize + 1 else if pw = 0 then 1 else 1 + (nat sumtf * pw + 7) div 8)"

definition decode_positions ::
  "u8 list \<Rightarrow> nat \<Rightarrow> nat \<Rightarrow> u64 list \<Rightarrow> decoder \<Rightarrow> (int list \<times> decoder) option option" where
  \<comment> \<open>\<open>Some None\<close>: the positions need more bytes than the block declares\<close>
  "decode_positions img ps posbytelen tfs d = do {
     let sumtf = sum_tf tfs;
     pw \<leftarrow> rd8 img ps;
     if posbytelen < positions_need (unat pw) sumtf then Some None
     else do {
       (deltas, _) \<leftarrow> unpack_at img ps (nat sumtf);
       let want = length (dec_arena d) + nat sumtf;
       let cap = (if dec_cap d < want then max (dec_cap d * 2) want else dec_cap d);
       (starts, arena) \<leftarrow> undelta tfs deltas cap (dec_arena d);
       Some (Some (starts, d\<lparr>dec_arena := arena, dec_cap := cap\<rparr>))
     }
   }"

fun emit_postings ::
  "u64 \<Rightarrow> bool \<Rightarrow> u32 \<Rightarrow> nat \<Rightarrow> u64 \<Rightarrow> u64 list \<Rightarrow> u64 list \<Rightarrow> u64 list \<Rightarrow> int list \<Rightarrow> raw_posting list \<Rightarrow> raw_posting list" where
  \<comment> \<open>at most \<open>df\<close> postings in all\<close>
  "emit_postings F docids_only mx df docid (g # gs) (t # ts) (l # ls) (p # ps) posts =
     (if length posts < df then
        emit_postings F docids_only mx df (docid + g) gs ts ls ps
          (posts @ [\<lparr>rtid = weave_docid_to_tid F (docid + g), rtf = (if docids_only then 0 else ucast t),
                     rdoclen = (if docids_only then 0 else ucast l), rmax = mx, rstart = p\<rparr>])
      else posts)"
| "emit_postings F docids_only mx df docid _ _ _ _ posts = posts"

datatype block_result = BlkStop | BlkEnd | BlkNext nat decoder

definition decode_block ::
  "u64 \<Rightarrow> bool \<Rightarrow> bool \<Rightarrow> nat \<Rightarrow> u8 list \<Rightarrow> nat \<Rightarrow> nat \<Rightarrow> decoder \<Rightarrow> block_result option" where
  \<comment> \<open>the block at \<open>p\<close>: stop the term, end the page, or go on at an offset\<close>
  "decode_block F want_positions docids_only df img pend p d = do {
     count \<leftarrow> rd32 img p;
     max_tf \<leftarrow> rd32 img (p + 4);
     hi \<leftarrow> rd32 img (p + 12);
     lo \<leftarrow> rd32 img (p + 16);
     bytelen \<leftarrow> map_option unat (rd32 img (p + 20));
     posbytelen \<leftarrow> map_option unat (rd32 img (p + 24));
     let stream = p + BLOCK_HDR;
     let docid = push_bit 32 (ucast hi) OR ucast lo;
     if count = 0 then Some BlkEnd
     else do {
       let cnt = (if count = 0 \<or> of_nat WEAVE_BLOCK_SIZE < count then WEAVE_BLOCK_SIZE else unat count);
       if pend < stream + bytelen + posbytelen then Some BlkStop
       else do {
         (has_doclen_col, fit) \<leftarrow> columns_fit img stream cnt bytelen;
         if \<not> fit then Some BlkStop
         else do {
           (gaps, gl) \<leftarrow> unpack_at img stream cnt;
           (tfs, tl') \<leftarrow> (if docids_only then Some (replicate cnt 0, 0) else unpack_at img (stream + gl) cnt);
           (dls, _) \<leftarrow> (if \<not> docids_only \<and> has_doclen_col then unpack_at img (stream + gl + tl') cnt
                       else Some (replicate cnt 0, 0));
           pos \<leftarrow> (if want_positions \<and> 0 < posbytelen then decode_positions img (stream + bytelen) posbytelen tfs d
                   else Some (Some (replicate cnt (- 1), d)));
           (case pos of
              None \<Rightarrow> Some BlkStop
            | Some (starts, d) \<Rightarrow>
                Some (BlkNext (MAXALIGN (stream + bytelen + posbytelen))
                  (d\<lparr>dec_posts := emit_postings F docids_only max_tf df docid gaps tfs dls starts (dec_posts d)\<rparr>)))
         }
       }
     }
   }"

function decode_page ::
  "u64 \<Rightarrow> bool \<Rightarrow> bool \<Rightarrow> nat \<Rightarrow> u8 list \<Rightarrow> nat \<Rightarrow> nat \<Rightarrow> decoder \<Rightarrow> (bool \<times> decoder) option" where
  \<comment> \<open>whether the term is to be stopped\<close>
  "decode_page F want_positions docids_only df img pend p d =
     (if p + BLOCK_HDR \<le> pend \<and> length (dec_posts d) < df then
        (case decode_block F want_positions docids_only df img pend p d of
           None \<Rightarrow> None
         | Some BlkStop \<Rightarrow> Some (True, d)
         | Some BlkEnd \<Rightarrow> Some (False, d)
         | Some (BlkNext p' d') \<Rightarrow>
             if p < p' then decode_page F want_positions docids_only df img pend p' d' else None)
      else Some (False, d))"
  by pat_completeness auto
termination
  by (relation "measure (\<lambda>(F, w, dn, df, img, pend, p, d). pend - p)") auto

declare decode_page.simps [simp del]

datatype decode_error = InvalidAccess | NoSuchBlock

partial_function (option) decode_pages ::
  "(nat \<Rightarrow> post_page option) \<Rightarrow> u64 \<Rightarrow> bool \<Rightarrow> bool \<Rightarrow> nat \<Rightarrow> nat option \<Rightarrow> nat \<Rightarrow> decoder \<Rightarrow> (decode_error + decoder) option" where
  \<comment> \<open>\<open>None\<close>: the walk does not end\<close>
  "decode_pages rel F want_positions docids_only df b i d =
     (case b of
        None \<Rightarrow> Some (Inr d)
      | Some b \<Rightarrow>
          if length (dec_posts d) < df then
            (case rel b of
               None \<Rightarrow> Some (Inl NoSuchBlock)
             | Some pg \<Rightarrow>
                 (case decode_page F want_positions docids_only df (pimage pg) (weave_page_entry_end pg) i d of
                    None \<Rightarrow> Some (Inl InvalidAccess)
                  | Some (stop, d) \<Rightarrow>
                      if stop then Some (Inr d)
                      else decode_pages rel F want_positions docids_only df (nextblk pg) CONTENTS d))
          else Some (Inr d))"

record decoded_posting = posting +
  pdoclen :: u32
  pmax :: u32

definition finish_posting :: "bool \<Rightarrow> decoder \<Rightarrow> raw_posting \<Rightarrow> decoded_posting" where
  "finish_posting want_positions d r =
     \<lparr>ptid = rtid r, ptf = rtf r,
      ppos = (if want_positions \<and> 0 < dec_cap d \<and> 0 < rtf r \<and> 0 \<le> rstart r
              then Some (take (unat (rtf r)) (drop (nat (rstart r)) (dec_arena d))) else None),
      pdoclen = rdoclen r, pmax = rmax r\<rparr>"

definition clamp_df :: "nat \<Rightarrow> u32 \<Rightarrow> u32" where
  \<comment> \<open>\<open>recorded\<close> is the number of documents ever recorded\<close>
  "clamp_df recorded df =
     (let maxdf = (if 2 ^ 32 - 1 \<le> recorded then - 1 else of_nat recorded); maxdf = (if maxdf < 1 then 1 else maxdf)
      in if maxdf < df then maxdf else df)"

definition weave_decode_term ::
  "(nat \<Rightarrow> post_page option) \<Rightarrow> u64 \<Rightarrow> nat \<Rightarrow> nat option \<Rightarrow> nat \<Rightarrow> u32 \<Rightarrow> bool \<Rightarrow> bool \<Rightarrow>
   (decode_error + decoded_posting list) option" where
  "weave_decode_term rel F recorded firstblk firstoff df want_positions docids_only =
     (let want = (want_positions \<and> \<not> docids_only); df = clamp_df recorded df
      in map_option (map_sum id (\<lambda>d. map (finish_posting want d) (dec_posts d)))
           (decode_pages rel F want docids_only (nat (sint df)) firstblk firstoff
              \<lparr>dec_posts = [], dec_arena = [], dec_cap = 0\<rparr>))"

end
