(* ===== verification/Weave_Postblock.thy ===== *)
theory Weave_Postblock
  imports Weave_Postings
begin

text \<open>
  A block of postings is read back as it was written: the columns of packed gaps, frequencies and document lengths,
  the header in front of them, and the packed position deltas behind them, wherever they lie on a page.
  \<open>block_reads\<close> is what a reader sees of a block: the postings, with positions only where the block kept them.
\<close>

subsection \<open>Packed columns inside an image\<close>

lemma load_le_append: "load_le bits i k = Some w \<Longrightarrow> load_le (bits @ rest) i k = Some w"
  by (induction k arbitrary: w) (auto simp: byte_at_def nth_append split: option.splits if_splits)

lemma byte_at_append: "byte_at bits i = Some x \<Longrightarrow> byte_at (bits @ rest) i = Some x"
  by (auto simp: byte_at_def nth_append split: if_splits)

lemma unpack_value_append:
  assumes "unpack_value w bits bp = Some v"
  shows "unpack_value w (bits @ rest) bp = Some v"
proof (cases "bp mod 8 + w \<le> 64")
  case True
  then obtain x where "load_le bits (bp div 8) ((bp mod 8 + w + 7) div 8) = Some x"
    using assms by (auto simp: unpack_value_def Let_def)
  then show ?thesis using assms True load_le_append [of bits] by (simp add: unpack_value_def Let_def)
next
  case False
  then obtain x where x: "load_le bits (bp div 8) 8 = Some x"
    using assms by (auto simp: unpack_value_def Let_def split: option.splits)
  obtain y where "byte_at bits (bp div 8 + 8) = Some y"
    using assms x False by (auto simp: unpack_value_def Let_def split: option.splits)
  then show ?thesis
    using assms x False load_le_append [OF x] byte_at_append [of bits] by (simp add: unpack_value_def Let_def)
qed

lemma unpack_from_append:
  "unpack_from w bits bp n = Some vs \<Longrightarrow> unpack_from w (bits @ rest) bp n = Some vs"
proof (induction n arbitrary: bp vs)
  case (Suc n)
  then obtain v vs' where v: "unpack_value w bits bp = Some v" "unpack_from w bits (bp + w) n = Some vs'" "vs = v # vs'"
    by (auto split: option.splits)
  show ?case using unpack_value_append [OF v(1)] Suc.IH [OF v(2)] v(3) by simp
qed simp

lemma for_unpack_append:
  "weave_for_unpack buf n = Some r \<Longrightarrow> weave_for_unpack (buf @ rest) n = Some r"
  by (cases buf) (auto simp: weave_for_unpack_def Let_def dest: unpack_from_append split: if_splits)

lemma bytes_for_bits: "(m + 7) div 8 \<le> k \<longleftrightarrow> m \<le> 8 * (k :: nat)"
proof -
  have "(m + 7) div 8 \<le> k \<longleftrightarrow> m + 7 < Suc k * 8"
    by (metis div_less_iff_less_mult less_Suc_eq_le zero_less_numeral)
  then show ?thesis by linarith
qed

lemma unpack_value_total:
  assumes "0 < w" and "bp + w \<le> 8 * length bits"
  shows "\<exists>v. unpack_value w bits bp = Some v"
proof -
  have split: "8 * (bp div 8) + bp mod 8 = bp" by simp
  have in_load: "(bp div 8) + ((bp mod 8) + w + 7) div 8 \<le> length bits"
  proof -
    have "bp mod 8 + w \<le> 8 * (length bits - bp div 8)" using assms(2) split by linarith
    then have "(bp mod 8 + w + 7) div 8 \<le> length bits - bp div 8" by (simp only: bytes_for_bits)
    moreover have "bp div 8 \<le> length bits" using assms(2) split by linarith
    ultimately show ?thesis by linarith
  qed
  show ?thesis
  proof (cases "bp mod 8 + w \<le> 64")
    case True
    then show ?thesis using load_le_Some [OF in_load] by (auto simp: unpack_value_def)
  next
    case False
    then have "bp div 8 + 9 \<le> length bits" using assms(2) split by linarith
    then show ?thesis
      using False load_le_Some [of "bp div 8" 8 bits] by (auto simp: unpack_value_def byte_at_def Let_def)
  qed
qed

lemma unpack_from_total:
  assumes "0 < w" and "bp + n * w \<le> 8 * length bits"
  shows "\<exists>vs. unpack_from w bits bp n = Some vs \<and> length vs = n"
  using assms(2)
proof (induction n arbitrary: bp)
  case (Suc n)
  obtain v where "unpack_value w bits bp = Some v"
    using unpack_value_total [OF assms(1), of bp bits] Suc.prems by auto
  moreover obtain vs where "unpack_from w bits (bp + w) n = Some vs" "length vs = n"
    using Suc.IH [of "bp + w"] Suc.prems by (auto simp: algebra_simps)
  ultimately show ?case by simp
qed simp

lemma for_unpack_total:
  assumes "buf \<noteq> []" and "weave_for_bytelen buf n \<le> length buf"
  shows "\<exists>vs. weave_for_unpack buf n = Some (vs, weave_for_bytelen buf n) \<and> length vs = n"
proof (cases buf)
  case (Cons w bits)
  show ?thesis
  proof (cases "unat w = 0")
    case False
    then have "n * unat w \<le> 8 * length bits" using assms(2) Cons bytes_for_bits [of "n * unat w" "length bits"] by (simp add: weave_for_bytelen_def)
    then show ?thesis
      using unpack_from_total [of "unat w" 0 n bits] False Cons by (auto simp: weave_for_unpack_def weave_for_bytelen_def)
  qed (simp add: Cons weave_for_unpack_def weave_for_bytelen_def)
qed (use assms in simp)

definition holds :: "u8 list \<Rightarrow> nat \<Rightarrow> u8 list \<Rightarrow> bool" where
  \<comment> \<open>the image has these bytes from \<open>i\<close> on\<close>
  "holds img i bs \<longleftrightarrow> (\<exists>pre post. img = pre @ bs @ post \<and> length pre = i)"

lemma holds_append: "holds img i (xs @ ys) \<longleftrightarrow> holds img i xs \<and> holds img (i + length xs) ys"
proof
  assume "holds img i (xs @ ys)"
  then obtain pre post where img: "img = pre @ (xs @ ys) @ post" "length pre = i" by (auto simp: holds_def)
  then have "img = pre @ xs @ (ys @ post)" "img = (pre @ xs) @ ys @ post" "length (pre @ xs) = i + length xs" by simp_all
  then show "holds img i xs \<and> holds img (i + length xs) ys" unfolding holds_def using img(2) by blast
next
  assume "holds img i xs \<and> holds img (i + length xs) ys"
  then obtain pre post pre' post' where img: "img = pre @ xs @ post" "length pre = i"
      "img = pre' @ ys @ post'" "length pre' = i + length xs"
    unfolding holds_def by blast
  then have "(pre @ xs) @ post = pre' @ (ys @ post')" "length (pre @ xs) = length pre'" by simp_all
  then have "post = ys @ post'" using append_eq_append_conv [of "pre @ xs" pre' post "ys @ post'"] by blast
  then have "img = pre @ (xs @ ys) @ post'" using img(1) by simp
  then show "holds img i (xs @ ys)" using img(2) by (auto simp: holds_def)
qed

lemma holds_split: "holds img i bs \<Longrightarrow> drop i img = bs @ drop (i + length bs) img"
  by (auto simp: holds_def)

lemma holds_length: "holds img i bs \<Longrightarrow> i + length bs \<le> length img"
  by (auto simp: holds_def)

lemma holds_le32 [simp]: "holds img i (le32 w) \<Longrightarrow> rd32 img i = Some w"
  using holds_split [of img i "le32 w"] holds_length [of img i "le32 w"] by (simp add: rd32_def le32_def)

lemma le32_length [simp]: "length (le32 w) = 4"
  by (simp add: le32_def)

lemma holds_pack:
  assumes "holds img i (weave_for_pack vals)" and "n = length vals"
  shows "unpack_at img i n = Some (vals, length (weave_for_pack vals))"
    and "bytelen_at img i n = Some (length (weave_for_pack vals))"
proof -
  have d: "drop i img = weave_for_pack vals @ drop (i + length (weave_for_pack vals)) img"
    using holds_split [OF assms(1)] .
  show "unpack_at img i n = Some (vals, length (weave_for_pack vals))"
    unfolding unpack_at_def d using assms(2) for_unpack_append [OF weave_for_pack_unpack] by simp
  have ne: "weave_for_pack vals \<noteq> []" by (rule pack_shape(1))
  then have "weave_for_bytelen (drop i img) n = length (weave_for_pack vals)"
    unfolding d using assms(2) pack_shape(2) [of vals] by (simp add: weave_for_bytelen_def hd_append)
  moreover have "i < length img" using holds_length [OF assms(1)] ne by (cases "weave_for_pack vals") auto
  ultimately show "bytelen_at img i n = Some (length (weave_for_pack vals))" by (simp add: bytelen_at_def)
qed

subsection \<open>A block reads back\<close>

lemma gaps_from_length [simp]: "length (gaps_from prev ss) = length ss"
  by (induction ss arbitrary: prev) auto

lemma ucast_back [simp]: "ucast (ucast (w :: u32) :: u64) = w"
  by (rule bit_word_eqI) (auto simp: bit_simps)

lemma docid_halves: "push_bit 32 (ucast (ucast (drop_bit 32 d) :: u32)) OR ucast (ucast d :: u32) = (d :: u64)"
  by (rule bit_word_eqI) (auto simp: bit_simps)

lemma doclen_column: "pack \<noteq> [] \<Longrightarrow> (a + b < a + b + length (if nd then [] else pack)) = (\<not> nd)" for pack :: "u8 list" and a b :: nat
  by simp

lemma block_header_length [simp]: "length (block_header ss m n) = BLOCK_HDR"
  by (simp add: block_header_def)

lemma header_reads:
  assumes "holds img p (block_header ss m n)"
  shows "rd32 img p = Some (of_nat (length ss))" "rd32 img (p + 4) = Some (block_max_tf ss)"
    "rd32 img (p + 12) = Some (ucast (drop_bit 32 (sdocid (hd ss))))" "rd32 img (p + 16) = Some (ucast (sdocid (hd ss)))"
    "rd32 img (p + 20) = Some (of_nat m)" "rd32 img (p + 24) = Some (of_nat n)"
  using assms unfolding block_header_def holds_append by (auto simp: add.assoc)

lemma of_nat_32: "n < 2 ^ 32 \<Longrightarrow> unat (of_nat n :: u32) = n"
  by (simp add: unat_of_nat take_bit_nat_eq_self)

lemma columns_fit_ok:
  assumes "holds img s (weave_for_pack gs @ weave_for_pack ts @ (if nd then [] else weave_for_pack ls))"
    and "length gs = n" "length ts = n" "length ls = n"
    and "m = length (weave_for_pack gs @ weave_for_pack ts @ (if nd then [] else weave_for_pack ls))"
  shows "columns_fit img s n m = Some (\<not> nd, True)"
proof -
  have h: "holds img s (weave_for_pack gs)" "holds img (s + length (weave_for_pack gs)) (weave_for_pack ts)"
    using assms(1) by (simp_all add: holds_append)
  have l: "holds img (s + length (weave_for_pack gs) + length (weave_for_pack ts)) (weave_for_pack ls)" if "\<not> nd"
    using assms(1) that by (simp add: holds_append)
  have "0 < length (weave_for_pack ls)" using pack_shape(1) by simp
  then show ?thesis
    using assms(2-5) holds_pack(2) [OF h(1), of n] holds_pack(2) [OF h(2), of n] holds_pack(2) [OF l, of n]
    by (simp add: columns_fit_def Let_def)
qed

lemma decode_block_image:
  assumes img: "holds img p (block_header ss (length (block_columns nd ss)) (length posb) @ block_columns nd ss @ posb)"
    and n: "0 < length ss" "length ss \<le> WEAVE_BLOCK_SIZE"
    and e: "p + BLOCK_HDR + length (block_columns nd ss) + length posb \<le> pend" "length (block_columns nd ss) + length posb < 2 ^ 32"
  shows "decode_block F want docids_only df img pend p d =
    (case (if want \<and> posb \<noteq> []
           then decode_positions img (p + BLOCK_HDR + length (block_columns nd ss)) (length posb)
                  (if docids_only then replicate (length ss) 0 else map (\<lambda>s. ucast (stf s)) ss) d
           else Some (Some (replicate (length ss) (- 1), d))) of
       None \<Rightarrow> None
     | Some None \<Rightarrow> Some BlkStop
     | Some (Some (starts, d)) \<Rightarrow>
         Some (BlkNext (MAXALIGN (p + BLOCK_HDR + length (block_columns nd ss) + length posb))
           (d\<lparr>dec_posts := emit_postings F docids_only (block_max_tf ss) df (sdocid (hd ss))
                (gaps_from (sdocid (hd ss)) ss)
                (if docids_only then replicate (length ss) 0 else map (\<lambda>s. ucast (stf s)) ss)
                (if docids_only \<or> nd then replicate (length ss) 0 else map (\<lambda>s. ucast (sdoclen s)) ss)
                starts (dec_posts d)\<rparr>)))"
proof -
  let ?gs = "gaps_from (sdocid (hd ss)) ss" and ?ts = "map (\<lambda>s. ucast (stf s) :: u64) ss"
  let ?ls = "map (\<lambda>s. ucast (sdoclen s) :: u64) ss"
  have hdr: "holds img p (block_header ss (length (block_columns nd ss)) (length posb))"
    and cols: "holds img (p + BLOCK_HDR) (block_columns nd ss)"
    using img by (simp_all add: holds_append)
  have c: "unat (of_nat (length ss) :: u32) = length ss" "(of_nat (length ss) :: u32) \<noteq> 0"
      "\<not> 128 < (of_nat (length ss) :: u32)"
    using n of_nat_32 [of "length ss"] by (auto simp: word_less_nat_alt unat_eq_0 [symmetric] simp del: unat_eq_0)
  have fit: "columns_fit img (p + BLOCK_HDR) (length ss) (length (block_columns nd ss)) = Some (\<not> nd, True)"
    using columns_fit_ok [of img "p + BLOCK_HDR" ?gs ?ts nd ?ls "length ss"] cols by (simp add: block_columns_def)
  have h: "holds img (p + BLOCK_HDR) (weave_for_pack ?gs)"
      "holds img (p + BLOCK_HDR + length (weave_for_pack ?gs)) (weave_for_pack ?ts)"
    using cols by (simp_all add: holds_append block_columns_def)
  have l: "holds img (p + BLOCK_HDR + length (weave_for_pack ?gs) + length (weave_for_pack ?ts)) (weave_for_pack ?ls)" if "\<not> nd"
    using cols that by (simp add: holds_append block_columns_def)
  show ?thesis
    using header_reads [OF hdr] c e fit holds_pack(1) [OF h(1), of "length ss"] holds_pack(1) [OF h(2), of "length ss"]
      holds_pack(1) [OF l, of "length ss"] n
    by (cases docids_only; cases nd) (simp_all add: decode_block_def Let_def of_nat_32 docid_halves split: option.split)
qed

lemma emit_full: "df \<le> length posts \<Longrightarrow> emit_postings F docids_only mx df docid gs ts ls ps posts = posts"
  by (induction F docids_only mx df docid gs ts ls ps posts rule: emit_postings.induct) auto

lemma emit_ok:
  assumes "length ps = length ss"
  shows "emit_postings F docids_only mx df docid (gaps_from docid ss)
      (if docids_only then replicate (length ss) 0 else map (\<lambda>s. ucast (stf s)) ss)
      (if docids_only \<or> nd then replicate (length ss) 0 else map (\<lambda>s. ucast (sdoclen s)) ss) ps posts =
    posts @ take (df - length posts) (map2 (\<lambda>s p. \<lparr>rtid = weave_docid_to_tid F (sdocid s), rtf = (if docids_only then 0 else stf s),
       rdoclen = (if docids_only \<or> nd then 0 else sdoclen s), rmax = mx, rstart = p\<rparr>) ss ps)"
  using assms
proof (induction ss arbitrary: docid ps posts)
  case (Cons s ss)
  obtain p ps' where ps: "ps = p # ps'" "length ps' = length ss" using Cons.prems(1) by (cases ps) auto
  show ?case
  proof (cases "length posts < df")
    case True
    then obtain k where "df - length posts = Suc k" "df - Suc (length posts) = k" by (cases "df - length posts") auto
    then show ?thesis
      using Cons.IH [OF ps(2), of "sdocid s" "posts @ [\<lparr>rtid = weave_docid_to_tid F (sdocid s), rtf = (if docids_only then 0 else stf s),
       rdoclen = (if docids_only \<or> nd then 0 else sdoclen s), rmax = mx, rstart = p\<rparr>]"] ps(1) True
      by (cases docids_only; cases nd) simp_all
  next
    case False
    then show ?thesis by (simp add: emit_full)
  qed
qed simp

subsection \<open>Positions of a block\<close>

lemma pos_deltas_length [simp]: "length (pos_deltas prev ps) = length ps"
  by (induction ps arbitrary: prev) (auto simp: Let_def)

lemma undelta_run_ok:
  "length arena + length ps \<le> cap \<Longrightarrow>
   undelta_run (length ps) (pos_deltas prev ps @ ds) prev cap arena = Some (ds, arena @ map WEAVE_POS_ORD ps)"
proof (induction ps arbitrary: prev arena)
  case (Cons p ps)
  show ?case
    using Cons.IH [of "arena @ [WEAVE_POS_ORD p]" "WEAVE_POS_ORD p"] Cons.prems by (simp add: Let_def)
qed simp

fun starts_from :: "nat \<Rightarrow> posting_sort list \<Rightarrow> int list" where
  "starts_from k [] = []"
| "starts_from k (s # ss) = int k # starts_from (k + unat (stf s)) ss"

abbreviation ordinals :: "u32 list \<Rightarrow> posting_sort \<Rightarrow> u32 list" where
  "ordinals arena s \<equiv> map WEAVE_POS_ORD (posting_positions arena s)"

abbreviation tf_sum :: "posting_sort list \<Rightarrow> nat" where
  "tf_sum ss \<equiv> sum_list (map (\<lambda>s. unat (stf s)) ss)"

definition runs_complete :: "u32 list \<Rightarrow> posting_sort list \<Rightarrow> bool" where
  "runs_complete arena ss \<longleftrightarrow> list_all (\<lambda>s. length (posting_positions arena s) = unat (stf s)) ss"

lemma sint_small: assumes "unat (w :: u32) < 2 ^ 31" shows "sint w = int (unat w)"
proof -
  define n where "n = unat w"
  have "uint w = int n" unfolding n_def by (rule uint_nat)
  moreover have "n < 2147483648" using assms by (simp add: n_def)
  then have "signed_take_bit 31 (int n) = int n"
    by (subst signed_take_bit_int_eq_self_iff) simp
  ultimately show ?thesis by (simp add: sint_uint n_def)
qed

lemma c_int_small: "unat w < 2 ^ 31 \<Longrightarrow> nat (c_int (ucast (w :: u32))) = unat w"
  by (simp add: c_int_def sint_small)

lemma undelta_ok:
  assumes "runs_complete arena ss" and "tf_sum ss < 2 ^ 31" and "length ar + tf_sum ss \<le> cap"
  shows "undelta (map (\<lambda>s. ucast (stf s)) ss) (concat (map (\<lambda>s. pos_deltas 0 (posting_positions arena s)) ss)) cap ar =
    Some (starts_from (length ar) ss, ar @ concat (map (ordinals arena) ss))"
  using assms
proof (induction ss arbitrary: ar)
  case (Cons s ss)
  let ?ps = "posting_positions arena s"
  have l: "length ?ps = unat (stf s)" "runs_complete arena ss" using Cons.prems(1) by (simp_all add: runs_complete_def)
  have "undelta_run (nat (c_int (ucast (stf s))))
      (pos_deltas 0 ?ps @ concat (map (\<lambda>s. pos_deltas 0 (posting_positions arena s)) ss)) 0 cap ar =
      Some (concat (map (\<lambda>s. pos_deltas 0 (posting_positions arena s)) ss), ar @ ordinals arena s)"
    using undelta_run_ok [of ar ?ps cap 0] Cons.prems l(1) by (simp add: c_int_small)
  then show ?case using Cons.IH [OF l(2), of "ar @ ordinals arena s"] Cons.prems l(1) by (simp add: add.assoc)
qed simp

lemma sum_tf_ok: "tf_sum ss < 2 ^ 31 \<Longrightarrow> sum_tf (map (\<lambda>s. ucast (stf s)) ss) = int (tf_sum ss)"
proof -
  have "foldl (\<lambda>a v. a + ucast v) a (map (\<lambda>s. ucast (stf s) :: u64) ss) = a + of_nat (tf_sum ss)" for a :: u32
    by (induction ss arbitrary: a) (simp_all add: algebra_simps)
  then have e: "foldl (\<lambda>a v. a + ucast v) (0 :: u32) (map (\<lambda>s. ucast (stf s) :: u64) ss) = of_nat (tf_sum ss)" by simp
  assume *: "tf_sum ss < 2 ^ 31"
  then have "unat (of_nat (tf_sum ss) :: u32) = tf_sum ss" by (simp add: of_nat_32)
  then show ?thesis
    unfolding sum_tf_def e using * by (simp add: sint_small)
qed

lemma decode_positions_ok:
  assumes "holds img ps posb" and "posb = weave_for_pack (concat (map (\<lambda>s. pos_deltas 0 (posting_positions arena s)) ss))"
    and "runs_complete arena ss" and "tf_sum ss < 2 ^ 31" and "length (dec_arena d) \<le> dec_cap d"
  shows "\<exists>cap. decode_positions img ps (length posb) (map (\<lambda>s. ucast (stf s)) ss) d =
      Some (Some (starts_from (length (dec_arena d)) ss,
        d\<lparr>dec_arena := dec_arena d @ concat (map (ordinals arena) ss), dec_cap := cap\<rparr>)) \<and>
    dec_cap d \<le> cap \<and> length (dec_arena d) + tf_sum ss \<le> cap"
proof -
  let ?ds = "concat (map (\<lambda>s. pos_deltas 0 (posting_positions arena s)) ss)"
  let ?cap = "if dec_cap d < length (dec_arena d) + tf_sum ss then max (dec_cap d * 2) (length (dec_arena d) + tf_sum ss) else dec_cap d"
  have n: "length ?ds = tf_sum ss" using assms(3) by (induction ss) (auto simp: runs_complete_def)
  have u: "unpack_at img ps (tf_sum ss) = Some (?ds, length posb)"
    using holds_pack(1) [OF assms(1) [unfolded assms(2)], of "tf_sum ss"] n assms(2) by simp
  have "posb \<noteq> []" using assms(2) pack_shape(1) by simp
  then have w: "rd8 img ps = Some (hd posb)"
    using assms(1) by (cases posb) (auto simp: holds_def rd8_def nth_append)
  have need: "positions_need (unat (hd posb)) (int (tf_sum ss)) = length posb"
    using pack_shape(2) [of ?ds] n assms(2) by (simp add: positions_need_def weave_for_bytelen_def Let_def mult.commute)
  have und: "undelta (map (\<lambda>s. ucast (stf s)) ss) ?ds ?cap (dec_arena d) =
      Some (starts_from (length (dec_arena d)) ss, dec_arena d @ concat (map (ordinals arena) ss))"
    by (rule undelta_ok [OF assms(3,4)]) simp
  have "decode_positions img ps (length posb) (map (\<lambda>s. ucast (stf s)) ss) d =
      Some (Some (starts_from (length (dec_arena d)) ss,
        d\<lparr>dec_arena := dec_arena d @ concat (map (ordinals arena) ss), dec_cap := ?cap\<rparr>))"
    unfolding decode_positions_def sum_tf_ok [OF assms(4)] Let_def nat_int using w need u und by simp
  then show ?thesis by (intro exI [of _ ?cap] conjI) auto
qed

subsection \<open>What a written posting reads as\<close>

definition stored_posting :: "u64 \<Rightarrow> bool \<Rightarrow> bool \<Rightarrow> bool \<Rightarrow> u32 list option \<Rightarrow> u32 \<Rightarrow> posting_sort \<Rightarrow> decoded_posting" where
  \<comment> \<open>\<open>kept\<close> is the position arena when the posting's block stores positions\<close>
  "stored_posting F want docids_only nd kept mx s =
     \<lparr>ptid = weave_docid_to_tid F (sdocid s), ptf = (if docids_only then 0 else stf s),
      ppos = (if want \<and> 0 < stf s then map_option (\<lambda>arena. ordinals arena s) kept else None),
      pdoclen = (if docids_only \<or> nd then 0 else sdoclen s), pmax = mx\<rparr>"

definition reads_as :: "bool \<Rightarrow> decoder \<Rightarrow> decoded_posting list \<Rightarrow> bool" where
  "reads_as want d out \<longleftrightarrow> map (finish_posting want d) (dec_posts d) = out \<and> length (dec_arena d) \<le> dec_cap d \<and>
     list_all (\<lambda>r. 0 < rtf r \<and> 0 \<le> rstart r \<longrightarrow> nat (rstart r) + unat (rtf r) \<le> length (dec_arena d)) (dec_posts d)"

lemma finish_extend:
  assumes "0 < rtf r \<and> 0 \<le> rstart r \<longrightarrow> nat (rstart r) + unat (rtf r) \<le> length (dec_arena d)"
    and "length (dec_arena d) \<le> dec_cap d" and "dec_cap d \<le> dec_cap d'" and "dec_arena d' = dec_arena d @ tail"
  shows "finish_posting want d' r = finish_posting want d r"
proof (cases "0 < rtf r \<and> 0 \<le> rstart r")
  case True
  then have "0 < unat (rtf r)" by (simp add: word_less_nat_alt)
  then have "0 < dec_cap d" "nat (rstart r) + unat (rtf r) \<le> length (dec_arena d)" using assms True by linarith+
  then show ?thesis using assms by (simp add: finish_posting_def)
qed (auto simp: finish_posting_def)

abbreviation raw_of :: "u64 \<Rightarrow> bool \<Rightarrow> bool \<Rightarrow> u32 \<Rightarrow> posting_sort \<Rightarrow> int \<Rightarrow> raw_posting" where
  "raw_of F docids_only nd mx s p \<equiv>
     \<lparr>rtid = weave_docid_to_tid F (sdocid s), rtf = (if docids_only then 0 else stf s),
      rdoclen = (if docids_only \<or> nd then 0 else sdoclen s), rmax = mx, rstart = p\<rparr>"

lemma starts_length [simp]: "length (starts_from k ss) = length ss"
  by (induction ss arbitrary: k) auto

lemma finish_runs:
  assumes "runs_complete arena ss" and "dec_arena d = pre @ concat (map (ordinals arena) ss) @ post"
    and "length (dec_arena d) \<le> dec_cap d" and "docids_only \<longrightarrow> \<not> want"
  shows "map (finish_posting want d) (map2 (raw_of F docids_only nd mx) ss (starts_from (length pre) ss)) =
      map (stored_posting F want docids_only nd (Some arena) mx) ss \<and>
    list_all (\<lambda>r. 0 < rtf r \<and> 0 \<le> rstart r \<longrightarrow> nat (rstart r) + unat (rtf r) \<le> length (dec_arena d))
      (map2 (raw_of F docids_only nd mx) ss (starts_from (length pre) ss))"
  using assms(1,2)
proof (induction ss arbitrary: pre)
  case (Cons s ss)
  have l: "length (posting_positions arena s) = unat (stf s)" "runs_complete arena ss"
    using Cons.prems(1) by (simp_all add: runs_complete_def)
  have "dec_arena d = (pre @ ordinals arena s) @ concat (map (ordinals arena) ss) @ post" using Cons.prems(2) by simp
  from Cons.IH [OF l(2) this] show ?case
    using assms(3,4) l(1) Cons.prems(2) by (auto simp: finish_posting_def stored_posting_def word_less_nat_alt)
qed simp

subsection \<open>A written block\<close>

definition stored_positions :: "bool \<Rightarrow> u32 list option \<Rightarrow> posting_sort list \<Rightarrow> u8 list" where
  "stored_positions nd positions ss =
     (case block_positions positions ss of None \<Rightarrow> []
      | Some posbuf \<Rightarrow> fitting_positions (block_columns nd ss) posbuf)"

definition block_image :: "bool \<Rightarrow> u32 list option \<Rightarrow> posting_sort list \<Rightarrow> u8 list" where
  "block_image nd positions ss =
     block_header ss (length (block_columns nd ss)) (length (stored_positions nd positions ss)) @
     block_columns nd ss @ stored_positions nd positions ss"

definition block_need :: "bool \<Rightarrow> u32 list option \<Rightarrow> posting_sort list \<Rightarrow> nat" where
  "block_need nd positions ss = MAXALIGN (length (block_image nd positions ss))"

definition kept_arena :: "bool \<Rightarrow> u32 list option \<Rightarrow> posting_sort list \<Rightarrow> u32 list option" where
  "kept_arena nd positions ss = (if stored_positions nd positions ss = [] then None else positions)"

definition block_reads ::
  "u64 \<Rightarrow> bool \<Rightarrow> bool \<Rightarrow> bool \<Rightarrow> u32 list option \<Rightarrow> posting_sort list \<Rightarrow> decoded_posting list" where
  "block_reads F want docids_only nd positions ss =
     map (stored_posting F want docids_only nd (kept_arena nd positions ss) (block_max_tf ss)) ss"

definition positions_ok :: "u32 list option \<Rightarrow> posting_sort list \<Rightarrow> bool" where
  \<comment> \<open>every run of a block lies in the arena, and a column of that many 32-bit deltas has an \<open>int\<close> number of bits\<close>
  "positions_ok positions ss \<longleftrightarrow>
     (case positions of None \<Rightarrow> True
      | Some arena \<Rightarrow> list_all (\<lambda>s. unat (sposoff s) + unat (sposcnt s) \<le> length arena) ss \<and>
          sum_list (map (\<lambda>s. unat (sposcnt s)) ss) < 2 ^ 26)"

lemma int_pack_small:
  assumes "length vals < 2 ^ 26" and "\<And>v. v \<in> set vals \<Longrightarrow> unat v < 2 ^ 32"
  shows "int_pack vals = Some (weave_for_pack vals)"
proof -
  have "foldl (\<lambda>m v. if m < v then v else m) m vals \<in> insert m (set vals)" for m
  proof (induction vals arbitrary: m)
    case (Cons v vals)
    show ?case using Cons.IH [of "if m < v then v else m"] by auto
  qed simp
  then have "max_value vals \<in> insert 0 (set vals)" unfolding max_value_def .
  then have "unat (max_value vals) < 2 ^ 32" using assms(2) by auto
  then have w: "weave_bitwidth (max_value vals) \<le> 32" by (simp add: bitwidth_le_iff)
  have "length vals * weave_bitwidth (max_value vals) \<le> (2 ^ 26 - 1) * 32"
    using assms(1) by (intro mult_le_mono w) simp
  then show ?thesis using assms(1) by (simp add: int_pack_def)
qed

lemma pos_deltas_small: "v \<in> set (pos_deltas prev ps) \<Longrightarrow> unat v < 2 ^ 32"
proof (induction ps arbitrary: prev)
  case (Cons p ps)
  have "unat (ucast w :: u64) < 2 ^ 32" for w :: u32
    using unat_u32 [of w] by (simp add: unsigned_ucast_eq take_bit_nat_eq_self)
  then show ?case using Cons by (auto simp: Let_def)
qed simp

lemma block_positions_ok:
  assumes "positions_ok positions ss"
  shows "\<exists>posbuf. block_positions positions ss = Some posbuf"
proof (cases positions)
  case (Some arena)
  let ?ds = "concat (map (\<lambda>s. pos_deltas 0 (posting_positions arena s)) ss)"
  have ok: "list_all (\<lambda>s. unat (sposoff s) + unat (sposcnt s) \<le> length arena) ss"
      "sum_list (map (\<lambda>s. unat (sposcnt s)) ss) < 2 ^ 26"
    using assms Some by (simp_all add: positions_ok_def)
  have "int_pack ?ds = Some (weave_for_pack ?ds)" if all: "list_all (\<lambda>s. sposcnt s = stf s) ss"
  proof (rule int_pack_small)
    have "length ?ds \<le> sum_list (map (\<lambda>s. unat (sposcnt s)) ss)"
      using all by (induction ss) (auto simp: posting_positions_def)
    then show "length ?ds < 2 ^ 26" using ok(2) by simp
  qed (auto dest: pos_deltas_small)
  then show ?thesis using ok(1) Some by (auto simp: block_positions_def list_all_iff)
qed (simp add: block_positions_def)

lemma for_pack_length: "length vals \<le> WEAVE_BLOCK_SIZE \<Longrightarrow> length (weave_for_pack vals) \<le> 1025"
proof -
  assume "length vals \<le> WEAVE_BLOCK_SIZE"
  then have "length vals * weave_bitwidth (max_value vals) \<le> 128 * 64"
    using bitwidth_64 by (intro mult_le_mono) simp_all
  then have "(length vals * weave_bitwidth (max_value vals) + 7) div 8 \<le> 1024" by (simp only: bytes_for_bits)
  then show ?thesis
    using pack_shape(2,3) [of vals] by (simp add: weave_for_bytelen_def Let_def)
qed

lemma block_columns_length: "length ss \<le> WEAVE_BLOCK_SIZE \<Longrightarrow> length (block_columns nd ss) \<le> 3075"
  using for_pack_length [of "gaps_from (sdocid (hd ss)) ss"] for_pack_length [of "map (\<lambda>s. ucast (stf s)) ss"]
    for_pack_length [of "map (\<lambda>s. ucast (sdoclen s)) ss"]
  by (simp add: block_columns_def)

lemma maxalign_bound: "n \<le> 8 * k \<Longrightarrow> MAXALIGN n \<le> 8 * k"
  unfolding MAXALIGN_def using bytes_for_bits [of n k] by simp

lemma block_image_length:
  "length (block_image nd positions ss) = BLOCK_HDR + length (block_columns nd ss) + length (stored_positions nd positions ss)"
  by (simp add: block_image_def)

lemma block_need_bounds:
  assumes "length ss \<le> WEAVE_BLOCK_SIZE"
  shows "length (block_image nd positions ss) \<le> block_need nd positions ss" "block_need nd positions ss \<le> SPECIAL - CONTENTS"
    "block_need nd positions ss mod 8 = 0" "BLOCK_HDR \<le> block_need nd positions ss"
proof -
  show l: "length (block_image nd positions ss) \<le> block_need nd positions ss" by (simp add: block_need_def maxalign_ge)
  then show "BLOCK_HDR \<le> block_need nd positions ss" by (simp add: block_image_length)
  show "block_need nd positions ss mod 8 = 0" by (simp add: block_need_def MAXALIGN_def)
  show "block_need nd positions ss \<le> SPECIAL - CONTENTS"
  proof (cases "stored_positions nd positions ss = []")
    case True
    then show ?thesis
      using block_columns_length [OF assms, of nd] maxalign_bound [of "28 + length (block_columns nd ss)" 1019]
      by (simp add: block_need_def block_image_length)
  next
    case False
    then show ?thesis
      by (simp add: block_need_def block_image_length)
        (simp add: stored_positions_def fitting_positions_def Let_def split: if_splits option.splits)
  qed
qed

lemma stored_complete:
  assumes "stored_positions nd positions ss \<noteq> []" and "positions_ok positions ss"
  shows "\<exists>arena. positions = Some arena \<and> runs_complete arena ss \<and> tf_sum ss < 2 ^ 31 \<and>
    stored_positions nd positions ss = weave_for_pack (concat (map (\<lambda>s. pos_deltas 0 (posting_positions arena s)) ss))"
proof -
  obtain arena where arena: "positions = Some arena" and cnt: "list_all (\<lambda>s. sposcnt s = stf s) ss"
    and e: "stored_positions nd positions ss = weave_for_pack (concat (map (\<lambda>s. pos_deltas 0 (posting_positions arena s)) ss))"
    using assms(1)
    by (auto simp: stored_positions_def fitting_positions_def block_positions_def int_pack_def Let_def
      split: option.splits if_splits)
  have "map (\<lambda>s. unat (sposcnt s)) ss = map (\<lambda>s. unat (stf s)) ss" using cnt by (simp add: list_all_iff)
  then have "tf_sum ss < 2 ^ 26" using assms(2) arena by (simp only: positions_ok_def option.case)
  then have "tf_sum ss < 2 ^ 31" by simp
  moreover have "runs_complete arena ss"
    using assms(2) arena cnt by (auto simp: runs_complete_def positions_ok_def posting_positions_def list_all_iff)
  ultimately show ?thesis using arena e by blast
qed

lemma reads_as_emit:
  assumes "reads_as want d out" and "length starts = length ss"
    and "dec_arena d' = dec_arena d @ tail" and "dec_posts d' = dec_posts d" and "dec_cap d \<le> dec_cap d'"
    and "length (dec_arena d') \<le> dec_cap d'"
    and "map (finish_posting want d') (map2 (raw_of F docids_only nd mx) ss starts) = new"
    and "list_all (\<lambda>r. 0 < rtf r \<and> 0 \<le> rstart r \<longrightarrow> nat (rstart r) + unat (rtf r) \<le> length (dec_arena d'))
      (map2 (raw_of F docids_only nd mx) ss starts)"
  shows "reads_as want (d'\<lparr>dec_posts := emit_postings F docids_only mx df docid (gaps_from docid ss)
      (if docids_only then replicate (length ss) 0 else map (\<lambda>s. ucast (stf s)) ss)
      (if docids_only \<or> nd then replicate (length ss) 0 else map (\<lambda>s. ucast (sdoclen s)) ss) starts (dec_posts d)\<rparr>)
      (out @ take (df - length out) new)"
proof -
  have old: "map (finish_posting want d) (dec_posts d) = out" "length (dec_arena d) \<le> dec_cap d"
    "list_all (\<lambda>r. 0 < rtf r \<and> 0 \<le> rstart r \<longrightarrow> nat (rstart r) + unat (rtf r) \<le> length (dec_arena d)) (dec_posts d)"
    using assms(1) by (simp_all add: reads_as_def)
  have out: "length (dec_posts d) = length out" using old(1) by auto
  have fin: "finish_posting want (d'\<lparr>dec_posts := ps\<rparr>) = finish_posting want d'" for ps
    by (simp add: fun_eq_iff finish_posting_def)
  have "map (finish_posting want d') (dec_posts d) = out"
    using old assms(3,5) finish_extend [of _ d d' tail want] by (auto simp: list_all_iff)
  moreover have "list_all (\<lambda>r. 0 < rtf r \<and> 0 \<le> rstart r \<longrightarrow> nat (rstart r) + unat (rtf r) \<le> length (dec_arena d')) (dec_posts d)"
    using old(3) assms(3) by (auto simp: list_all_iff)
  moreover have "list_all P (take k xs)" if "list_all P xs" for P k and xs :: "raw_posting list"
    using that by (meson in_set_takeD list_all_iff)
  moreover define rs where "rs = map2 (raw_of F docids_only nd mx) ss starts"
  moreover have "map (finish_posting want d') (take k rs) = take k new" for k
    using assms(7) take_map [of k "finish_posting want d'" rs] by (simp only: rs_def)
  ultimately show ?thesis
    unfolding emit_ok [OF assms(2)] reads_as_def fin out using assms(6,8) by (simp flip: rs_def)
qed

lemma block_reads_back:
  assumes img: "holds img p (block_image nd positions ss)"
    and n: "0 < length ss" "length ss \<le> WEAVE_BLOCK_SIZE"
    and e: "p + block_need nd positions ss \<le> pend" "p mod 8 = 0"
    and pos: "positions_ok positions ss" "docids_only \<longrightarrow> \<not> want"
    and d: "reads_as want d out"
  shows "\<exists>d'. decode_block F want docids_only df img pend p d = Some (BlkNext (p + block_need nd positions ss) d') \<and>
    reads_as want d' (out @ take (df - length out) (block_reads F want docids_only nd positions ss))"
proof -
  let ?cols = "block_columns nd ss" and ?posb = "stored_positions nd positions ss" and ?mx = "block_max_tf ss"
  let ?q = "p + BLOCK_HDR + length ?cols"
  have need: "MAXALIGN (?q + length ?posb) = p + block_need nd positions ss"
    using e(2) by (simp add: block_need_def block_image_length MAXALIGN_def) presburger
  have room: "?q + length ?posb \<le> pend" "length ?cols + length ?posb < 2 ^ 32"
    using block_need_bounds(1,2) [OF n(2), of nd positions] e(1) by (simp_all add: block_image_length)
  note step = decode_block_image [OF img [unfolded block_image_def] n room, of F want docids_only df d, unfolded need]
  show ?thesis
  proof (cases "want \<and> ?posb \<noteq> []")
    case True
    then obtain arena where arena: "positions = Some arena" "runs_complete arena ss" "tf_sum ss < 2 ^ 31"
        "?posb = weave_for_pack (concat (map (\<lambda>s. pos_deltas 0 (posting_positions arena s)) ss))"
      using stored_complete [OF _ pos(1)] by blast
    have held: "holds img ?q ?posb" using img by (simp add: block_image_def holds_append add.assoc)
    have cap: "length (dec_arena d) \<le> dec_cap d" using d by (simp add: reads_as_def)
    obtain cap where dp: "decode_positions img ?q (length ?posb) (map (\<lambda>s. ucast (stf s)) ss) d =
        Some (Some (starts_from (length (dec_arena d)) ss,
          d\<lparr>dec_arena := dec_arena d @ concat (map (ordinals arena) ss), dec_cap := cap\<rparr>))"
        and c: "dec_cap d \<le> cap" "length (dec_arena d) + tf_sum ss \<le> cap"
      using decode_positions_ok [OF held arena(4,2,3) cap] by blast
    let ?d = "d\<lparr>dec_arena := dec_arena d @ concat (map (ordinals arena) ss), dec_cap := cap\<rparr>"
    have len: "length (dec_arena ?d) \<le> dec_cap ?d"
      using c(2) arena(2) by (simp add: length_concat comp_def runs_complete_def list_all_iff cong: map_cong)
    have runs: "map (finish_posting want ?d) (map2 (raw_of F docids_only nd ?mx) ss (starts_from (length (dec_arena d)) ss)) =
          block_reads F want docids_only nd positions ss \<and>
        list_all (\<lambda>r. 0 < rtf r \<and> 0 \<le> rstart r \<longrightarrow> nat (rstart r) + unat (rtf r) \<le> length (dec_arena ?d))
          (map2 (raw_of F docids_only nd ?mx) ss (starts_from (length (dec_arena d)) ss))"
      using finish_runs [OF arena(2) _ len pos(2), of "dec_arena d" "[]" F nd ?mx] True arena(1)
      by (simp add: block_reads_def kept_arena_def)
    have "\<not> docids_only" using pos(2) True by blast
    then show ?thesis
      using reads_as_emit [OF d starts_length, where d' = ?d and tail = "concat (map (ordinals arena) ss)"
          and F = F and docids_only = docids_only and nd = nd and mx = ?mx]
        runs len c(1) step True dp by simp
  next
    case False
    let ?starts = "replicate (length ss) (- 1) :: int list"
    have "map2 g ss ?starts = map (\<lambda>s. g s (- 1)) ss" for g :: "posting_sort \<Rightarrow> int \<Rightarrow> raw_posting"
      by (induction ss) auto
    then have "map (finish_posting want d) (map2 (raw_of F docids_only nd ?mx) ss ?starts) =
          block_reads F want docids_only nd positions ss"
        "list_all (\<lambda>r. 0 < rtf r \<and> 0 \<le> rstart r \<longrightarrow> nat (rstart r) + unat (rtf r) \<le> length (dec_arena d))
          (map2 (raw_of F docids_only nd ?mx) ss ?starts)"
      using False by (auto simp: block_reads_def finish_posting_def stored_posting_def kept_arena_def list_all_iff)
    then show ?thesis
      using reads_as_emit [OF d, where starts = ?starts and d' = d and tail = "[]" and F = F and docids_only = docids_only
          and nd = nd and mx = ?mx and new = "block_reads F want docids_only nd positions ss"]
        d step False by (auto simp: reads_as_def)
  qed
qed

end
