(* ===== verification/Weave_Postchain.thy ===== *)
theory Weave_Postchain
  imports Weave_Postblock
begin

text \<open>
  Posting chains. \<open>laid\<close> says that a term's blocks follow each other on the pages of a relation from some byte on;
  the writer lays every term out so, keeps its pages well formed and never touches what it has laid out, and
  \<open>weave_decode_term\<close> reads a term that is laid out back. Two orders carry the argument: a page grows at its end
  until it has a successor, a relation grows by pages.
\<close>

subsection \<open>Blocks on pages\<close>

definition page_ok :: "post_page \<Rightarrow> bool" where
  "page_ok pg \<longleftrightarrow> CONTENTS \<le> pd_lower pg \<and> pd_lower pg \<le> SPECIAL \<and> pd_lower pg mod 8 = 0 \<and> length (pimage pg) = BLCKSZ"

definition page_le :: "post_page \<Rightarrow> post_page \<Rightarrow> bool" where
  \<comment> \<open>items may be appended to a page that has no successor yet\<close>
  "page_le pg pg' \<longleftrightarrow> page_ok pg' \<and> pd_lower pg \<le> pd_lower pg' \<and>
     take (pd_lower pg) (pimage pg') = take (pd_lower pg) (pimage pg) \<and> (nextblk pg \<noteq> None \<longrightarrow> pg' = pg)"

definition rel_le :: "(nat \<Rightarrow> post_page option) \<Rightarrow> (nat \<Rightarrow> post_page option) \<Rightarrow> bool" where
  "rel_le rel rel' \<longleftrightarrow> (\<forall>b pg. rel b = Some pg \<longrightarrow> page_ok pg \<longrightarrow> (\<exists>pg'. rel' b = Some pg' \<and> page_le pg pg'))"

inductive laid :: "bool \<Rightarrow> u32 list option \<Rightarrow> (nat \<Rightarrow> post_page option) \<Rightarrow> nat \<Rightarrow> nat \<Rightarrow> posting_sort list list \<Rightarrow> bool"
  for nd positions rel where
  \<comment> \<open>from byte \<open>i\<close> of block \<open>b\<close> on, these groups of postings follow\<close>
  laid_end: "laid nd positions rel b i []"
| laid_here: "rel b = Some pg \<Longrightarrow> page_ok pg \<Longrightarrow> i mod 8 = 0 \<Longrightarrow> holds (pimage pg) i (block_image nd positions ss) \<Longrightarrow>
    i + block_need nd positions ss \<le> pd_lower pg \<Longrightarrow> laid nd positions rel b (i + block_need nd positions ss) cs \<Longrightarrow>
    laid nd positions rel b i (ss # cs)"
| laid_next: "rel b = Some pg \<Longrightarrow> page_ok pg \<Longrightarrow> i = pd_lower pg \<Longrightarrow> nextblk pg = Some b' \<Longrightarrow>
    laid nd positions rel b' CONTENTS (ss # cs) \<Longrightarrow> laid nd positions rel b i (ss # cs)"

lemma page_end: "page_ok pg \<Longrightarrow> weave_page_entry_end pg = pd_lower pg"
  by (simp add: page_ok_def weave_page_entry_end_def weave_page_entry_end_off_def Let_def)

lemma holds_prefix:
  assumes "holds img i bs" and "i + length bs \<le> k" and "take k img' = take k img"
  shows "holds img' i bs"
proof -
  obtain pre post where "img = pre @ bs @ post" "length pre = i" using assms(1) by (auto simp: holds_def)
  then have "take k img' = pre @ bs @ take (k - i - length bs) post" using assms(2,3) by simp
  then have "img' = pre @ bs @ (take (k - i - length bs) post @ drop k img')"
    using append_take_drop_id [of k img'] by simp
  then show ?thesis unfolding holds_def using \<open>length pre = i\<close> by blast
qed

lemma laid_mono:
  assumes "laid nd positions rel b i cs" and "rel_le rel rel'" and "\<forall>ss\<in>set cs. length ss \<le> WEAVE_BLOCK_SIZE"
  shows "laid nd positions rel' b i cs"
  using assms(1,3)
proof induction
  case (laid_here b pg i ss cs)
  obtain pg' where pg': "rel' b = Some pg'" "page_le pg pg'"
    using assms(2) laid_here.hyps(1,2) unfolding rel_le_def by blast
  have "i + length (block_image nd positions ss) \<le> pd_lower pg"
    using laid_here.hyps(5) block_need_bounds(1) [of ss nd positions] laid_here.prems by simp
  then have "holds (pimage pg') i (block_image nd positions ss)"
    using holds_prefix [OF laid_here.hyps(4)] pg'(2) by (simp add: page_le_def)
  then show ?case
    using laid.laid_here [where rel = rel' and b = b and pg = pg', OF pg'(1)] pg'(2) laid_here.hyps(3,5) laid_here.IH laid_here.prems by (simp add: page_le_def)
next
  case (laid_next b pg i b' ss cs)
  obtain pg' where pg': "rel' b = Some pg'" "page_le pg pg'"
    using assms(2) laid_next.hyps(1,2) unfolding rel_le_def by blast
  then have "pg' = pg" using laid_next.hyps(4) by (simp add: page_le_def)
  then show ?case using laid.laid_next [where rel = rel' and b = b and pg = pg', OF pg'(1)] laid_next.hyps laid_next.IH laid_next.prems by simp
qed (rule laid.laid_end)

lemma page_le_refl [simp]: "page_ok pg \<Longrightarrow> page_le pg pg"
  by (simp add: page_le_def)

lemma page_le_trans: "page_le p q \<Longrightarrow> page_le q r \<Longrightarrow> page_le p r"
proof -
  assume pq: "page_le p q" and qr: "page_le q r"
  have "take (pd_lower p) (pimage r) = take (pd_lower p) (take (pd_lower q) (pimage r))"
    using pq by (simp add: page_le_def min_absorb1)
  also have "\<dots> = take (pd_lower p) (pimage q)" using pq qr by (simp add: page_le_def min_absorb1)
  finally show ?thesis using pq qr by (auto simp: page_le_def)
qed

lemma rel_le_trans: "rel_le r s \<Longrightarrow> rel_le s t \<Longrightarrow> rel_le r t"
  unfolding rel_le_def by (meson page_le_def page_le_trans)

lemma rel_le_refl: "rel_le r r"
  by (simp add: rel_le_def)

lemma rel_le_new: "rel b = None \<Longrightarrow> rel_le rel (rel(b \<mapsto> pg))"
  by (auto simp: rel_le_def)

lemma rel_le_upd: "(\<forall>pg0. rel b = Some pg0 \<and> page_ok pg0 \<longrightarrow> page_le pg0 pg) \<Longrightarrow> rel_le rel (rel(b \<mapsto> pg))"
  by (auto simp: rel_le_def)

subsection \<open>Reading what is laid out\<close>

lemma decode_step:
  assumes "rel b = Some pg" and "i + BLOCK_HDR \<le> weave_page_entry_end pg" and "length (dec_posts d) < df" and "i < i'"
    and "decode_block F want docids_only df (pimage pg) (weave_page_entry_end pg) i d = Some (BlkNext i' d')"
  shows "decode_pages rel F want docids_only df (Some b) i d = decode_pages rel F want docids_only df (Some b) i' d'"
proof -
  have page: "decode_page F want docids_only df (pimage pg) (weave_page_entry_end pg) i d =
      decode_page F want docids_only df (pimage pg) (weave_page_entry_end pg) i' d'"
    by (subst decode_page.simps) (simp add: assms)
  show ?thesis
  proof (cases "length (dec_posts d') < df")
    case True
    then show ?thesis by (subst (1 2) decode_pages.simps) (simp add: assms(1,3) page)
  next
    case False
    then have stop: "decode_pages rel F want docids_only df b'' k d' = Some (Inr d')" for b'' k
      by (subst decode_pages.simps) (simp split: option.split)
    have "decode_page F want docids_only df (pimage pg) (weave_page_entry_end pg) i' d' = Some (False, d')"
      using False by (subst decode_page.simps) simp
    then show ?thesis by (subst (1 2) decode_pages.simps) (simp add: assms(1,3) page stop False)
  qed
qed

lemma decode_next:
  assumes "rel b = Some pg" and "weave_page_entry_end pg < i + BLOCK_HDR" and "length (dec_posts d) < df"
  shows "decode_pages rel F want docids_only df (Some b) i d = decode_pages rel F want docids_only df (nextblk pg) CONTENTS d"
proof -
  have "decode_page F want docids_only df (pimage pg) (weave_page_entry_end pg) i d = Some (False, d)"
    using assms(2) by (subst decode_page.simps) simp
  then show ?thesis by (subst decode_pages.simps) (simp add: assms)
qed

definition groups_ok :: "u32 list option \<Rightarrow> posting_sort list list \<Rightarrow> bool" where
  "groups_ok positions cs \<longleftrightarrow> list_all (\<lambda>ss. ss \<noteq> [] \<and> length ss \<le> WEAVE_BLOCK_SIZE \<and> positions_ok positions ss) cs"

lemma laid_decodes:
  assumes "laid nd positions rel b i cs" and "groups_ok positions cs" and "docids_only \<longrightarrow> \<not> want"
    and "reads_as want d out" and "length out \<le> df" and "df \<le> length out + length (concat cs)"
  shows "\<exists>d'. decode_pages rel F want docids_only df (Some b) i d = Some (Inr d') \<and>
    reads_as want d' (out @ take (df - length out) (concat (map (block_reads F want docids_only nd positions) cs)))"
  using assms(1,2,4,5,6)
proof (induction arbitrary: d out)
  case (laid_end b i)
  then have "length (dec_posts d) = df" by (auto simp: reads_as_def)
  then show ?case using laid_end.prems(2) by (subst decode_pages.simps) simp
next
  case (laid_here b pg i ss cs)
  have ss: "0 < length ss" "length ss \<le> WEAVE_BLOCK_SIZE" "positions_ok positions ss" "groups_ok positions cs"
    using laid_here.prems(1) by (simp_all add: groups_ok_def)
  have n: "length (dec_posts d) = length out" using laid_here.prems(2) by (auto simp: reads_as_def)
  show ?case
  proof (cases "length out < df")
    case False
    then show ?thesis using n laid_here.prems(2) by (subst decode_pages.simps) simp
  next
    case True
    let ?new = "take (df - length out) (block_reads F want docids_only nd positions ss)"
    note e = page_end [OF laid_here.hyps(2)] and hdr = block_need_bounds(4) [OF ss(2), of nd positions]
    obtain d' where d': "decode_block F want docids_only df (pimage pg) (pd_lower pg) i d =
          Some (BlkNext (i + block_need nd positions ss) d')" "reads_as want d' (out @ ?new)"
      using block_reads_back [OF laid_here.hyps(4) ss(1,2) laid_here.hyps(5,3) ss(3) assms(3) laid_here.prems(2), of F df] by blast
    have "decode_pages rel F want docids_only df (Some b) i d =
        decode_pages rel F want docids_only df (Some b) (i + block_need nd positions ss) d'"
      by (rule decode_step [where rel = rel and b = b and pg = pg, OF laid_here.hyps(1)])
        (use e hdr d'(1) laid_here.hyps(5) True n in auto)
    moreover have "length (out @ ?new) \<le> df" "df \<le> length (out @ ?new) + length (concat cs)"
      using laid_here.prems(3,4) by (auto simp: block_reads_def min_def)
    moreover have "df - (length out + min (length ss) (df - length out)) = df - (length out + length ss)"
      by (auto simp: min_def)
    ultimately show ?thesis using laid_here.IH [OF ss(4) d'(2)] by (simp add: block_reads_def)
  qed
next
  case (laid_next b pg i b' ss cs)
  have n: "length (dec_posts d) = length out" using laid_next.prems(2) by (auto simp: reads_as_def)
  show ?case
  proof (cases "length out < df")
    case False
    then show ?thesis using n laid_next.prems(2) by (subst decode_pages.simps) simp
  next
    case True
    then have "decode_pages rel F want docids_only df (Some b) i d = decode_pages rel F want docids_only df (Some b') CONTENTS d"
      using decode_next [where rel = rel and b = b and pg = pg, OF laid_next.hyps(1)] laid_next.hyps(3,4) page_end [OF laid_next.hyps(2)] n
      by simp
    then show ?thesis using laid_next.IH [OF laid_next.prems] by simp
  qed
qed

subsection \<open>The writer keeps its pages and lays the blocks out\<close>

abbreviation pw_pages :: "post_writer \<Rightarrow> nat \<Rightarrow> post_page option" where
  \<comment> \<open>the relation as \<open>pw_finish\<close> leaves it\<close>
  "pw_pages pw \<equiv> pw_store (pw_finish pw)"

definition pw_inv :: "(nat \<Rightarrow> nat) \<Rightarrow> post_writer \<Rightarrow> bool" where
  "pw_inv fresh pw \<longleftrightarrow> inj fresh \<and> (\<forall>k\<ge>pw_taken pw. pw_pages pw (fresh k) = None) \<and>
     (case pw_open pw of None \<Rightarrow> True
      | Some (b, pg) \<Rightarrow> page_ok pg \<and> nextblk pg = None \<and> pw_store pw b = None)"

lemma init_page_ok: "page_ok weave_init_page" "nextblk weave_init_page = None" "pd_lower weave_init_page = CONTENTS"
  by (simp_all add: page_ok_def weave_init_page_def)

lemma pw_begin_inv: "inj fresh \<Longrightarrow> \<forall>k. rel (fresh k) = None \<Longrightarrow> pw_inv fresh (pw_begin rel)"
  by (simp add: pw_inv_def pw_begin_def pw_finish_def)

lemma put_bytes_spec:
  assumes "i + length bs \<le> length img"
  shows "length (put_bytes img i bs) = length img" "holds (put_bytes img i bs) i bs"
    "k \<le> i \<Longrightarrow> take k (put_bytes img i bs) = take k img"
  using assms by (auto simp: put_bytes_def holds_def min_absorb2 intro: exI [of _ "take i img"])

lemma room_ok:
  assumes "pw_inv fresh pw" and "need \<le> SPECIAL - CONTENTS"
  shows "\<exists>b pg. pw_open (pw_room fresh need pw) = Some (b, pg) \<and> pw_inv fresh (pw_room fresh need pw) \<and>
    pd_lower pg + need \<le> SPECIAL \<and> rel_le (pw_pages pw) (pw_pages (pw_room fresh need pw)) \<and>
    pw_no_doclen_col (pw_room fresh need pw) = pw_no_doclen_col pw \<and>
    (\<forall>b0 pg0. pw_open pw = Some (b0, pg0) \<longrightarrow> b = b0 \<and> pg = pg0 \<or>
       pd_lower pg = CONTENTS \<and> pw_pages (pw_room fresh need pw) b0 = Some (pg0\<lparr>nextblk := Some b\<rparr>))"
proof -
  let ?nb = "fresh (pw_taken pw)"
  have inj: "fresh k \<noteq> ?nb" if "k \<ge> pw_taken pw + 1" for k
    using assms(1) that by (auto simp: pw_inv_def dest: injD)
  have free: "\<forall>k\<ge>pw_taken pw. pw_pages pw (fresh k) = None" using assms(1) by (simp add: pw_inv_def)
  then have nb: "pw_pages pw ?nb = None" by simp
  show ?thesis
  proof (cases "pw_open pw")
    case None
    then have p: "pw_pages pw = pw_store pw" by (simp add: pw_finish_def)
    then show ?thesis
      using None nb free inj assms init_page_ok
      by (auto simp: pw_room_def pw_inv_def pw_finish_def Let_def rel_le_new)
  next
    case (Some bp)
    obtain b0 pg0 where o: "pw_open pw = Some (b0, pg0)" using Some by (cases bp) simp
    then have p: "pw_pages pw = (pw_store pw)(b0 \<mapsto> pg0)" by (simp add: pw_finish_def)
    have pg0: "page_ok pg0" "nextblk pg0 = None" "pw_store pw b0 = None" using assms(1) o by (simp_all add: pw_inv_def)
    show ?thesis
    proof (cases "SPECIAL < weave_page_entry_end pg0 + need")
      case False
      then show ?thesis
        using o assms(1) page_end [OF pg0(1)] by (simp add: pw_room_def rel_le_refl)
    next
      case True
      have ne: "?nb \<noteq> b0" using nb p by auto
      have "page_ok (pg0\<lparr>nextblk := Some ?nb\<rparr>)" using pg0(1) by (simp add: page_ok_def)
      then have "page_le pg0 (pg0\<lparr>nextblk := Some ?nb\<rparr>)" using pg0(2) by (simp add: page_le_def)
      then have le: "rel_le (pw_pages pw) ((pw_pages pw)(b0 \<mapsto> pg0\<lparr>nextblk := Some ?nb\<rparr>))"
        using p by (intro rel_le_upd) simp
      have le': "rel_le ((pw_pages pw)(b0 \<mapsto> pg0\<lparr>nextblk := Some ?nb\<rparr>))
          ((pw_pages pw)(b0 \<mapsto> pg0\<lparr>nextblk := Some ?nb\<rparr>, ?nb \<mapsto> weave_init_page))"
        using nb ne by (intro rel_le_new) simp
      have pages: "pw_pages (pw_room fresh need pw) = (pw_pages pw)(b0 \<mapsto> pg0\<lparr>nextblk := Some ?nb\<rparr>, ?nb \<mapsto> weave_init_page)"
        using True o p by (simp add: pw_room_def pw_finish_def Let_def)
      have room: "pw_open (pw_room fresh need pw) = Some (?nb, weave_init_page)"
          "pw_taken (pw_room fresh need pw) = pw_taken pw + 1"
          "pw_store (pw_room fresh need pw) = (pw_store pw)(b0 \<mapsto> pg0\<lparr>nextblk := Some ?nb\<rparr>)"
          "pw_no_doclen_col (pw_room fresh need pw) = pw_no_doclen_col pw"
        using True o by (simp_all add: pw_room_def Let_def)
      have b0: "fresh k \<noteq> b0" if "pw_taken pw \<le> k" for k using free that p by auto
      have store: "pw_store pw ?nb = None" using nb p ne by simp
      have "pw_inv fresh (pw_room fresh need pw)"
        unfolding pw_inv_def pages room using free inj b0 store ne assms(1) init_page_ok
        by (auto simp: pw_inv_def)
      then show ?thesis
        using room pages rel_le_trans [OF le le'] assms(2) init_page_ok(3) ne o by simp
    qed
  qed
qed

lemma write_block_ok:
  assumes "pw_inv fresh pw" and "length ss \<le> WEAVE_BLOCK_SIZE" and nd: "nd = pw_no_doclen_col pw"
    and pos: "positions_ok positions ss"
  shows "\<exists>pw' b i pg. write_block fresh positions ss pw = Some (pw', (b, i)) \<and> pw_inv fresh pw' \<and>
    rel_le (pw_pages pw) (pw_pages pw') \<and> pw_no_doclen_col pw' = nd \<and>
    pw_open pw' = Some (b, pg) \<and> pd_lower pg = i + block_need nd positions ss \<and>
    holds (pimage pg) i (block_image nd positions ss) \<and> i mod 8 = 0 \<and>
    (\<forall>b0 pg0. pw_open pw = Some (b0, pg0) \<longrightarrow> b = b0 \<and> i = pd_lower pg0 \<or>
       i = CONTENTS \<and> pw_pages pw' b0 = Some (pg0\<lparr>nextblk := Some b\<rparr>))"
proof -
  let ?need = "block_need nd positions ss" and ?bs = "block_image nd positions ss"
  let ?pw = "pw_room fresh ?need pw"
  note bounds = block_need_bounds [OF assms(2), of nd positions]
  obtain b pg where r: "pw_open ?pw = Some (b, pg)" "pw_inv fresh ?pw" "pd_lower pg + ?need \<le> SPECIAL"
      "rel_le (pw_pages pw) (pw_pages ?pw)" "pw_no_doclen_col ?pw = nd"
      "\<forall>b0 pg0. pw_open pw = Some (b0, pg0) \<longrightarrow> b = b0 \<and> pg = pg0 \<or>
         pd_lower pg = CONTENTS \<and> pw_pages ?pw b0 = Some (pg0\<lparr>nextblk := Some b\<rparr>)"
    using room_ok [OF assms(1) bounds(2)] nd by metis
  have pg: "page_ok pg" "nextblk pg = None" "pw_store ?pw b = None" using r(1,2) by (simp_all add: pw_inv_def)
  let ?i = "pd_lower pg"
  let ?pg = "pg\<lparr>pimage := put_bytes (pimage pg) ?i ?bs, pd_lower := ?i + ?need\<rparr>"
  let ?pw' = "?pw\<lparr>pw_open := Some (b, ?pg)\<rparr>"
  have fits: "?i + length ?bs \<le> length (pimage pg)" "?i + ?need \<le> length (pimage pg)"
    using bounds(1) r(3) pg(1) by (simp_all add: page_ok_def)
  have ok: "page_ok ?pg"
    using pg(1) r(3) bounds(3) put_bytes_spec(1) [OF fits(1)] by (simp add: page_ok_def) presburger
  have w: "write_block fresh positions ss pw = Some (?pw', (b, ?i))"
    using block_positions_ok [OF pos] r(1) fits(2) page_end [OF pg(1)] nd
    by (auto simp: write_block_def Let_def block_need_def block_image_def stored_positions_def add.assoc)
  have pages: "pw_pages ?pw' = (pw_pages ?pw)(b \<mapsto> ?pg)" using r(1) by (simp add: pw_finish_def)
  have "page_le pg ?pg" using ok put_bytes_spec(3) [OF fits(1), of ?i] pg(2) by (simp add: page_le_def)
  then have le: "rel_le (pw_pages ?pw) (pw_pages ?pw')"
    unfolding pages using r(1) by (intro rel_le_upd) (simp add: pw_finish_def)
  have free: "pw_pages ?pw (fresh k) = None" if "pw_taken ?pw \<le> k" for k using r(2) that by (simp add: pw_inv_def)
  have "fresh k \<noteq> b" if "pw_taken ?pw \<le> k" for k
    using free [OF that] r(1) by (auto simp: pw_finish_def)
  then have inv: "pw_inv fresh ?pw'"
    using r(2) ok pg free pages by (auto simp: pw_inv_def)
  have cont: "\<forall>b0 pg0. pw_open pw = Some (b0, pg0) \<longrightarrow> b = b0 \<and> ?i = pd_lower pg0 \<or>
       ?i = CONTENTS \<and> pw_pages ?pw' b0 = Some (pg0\<lparr>nextblk := Some b\<rparr>)"
  proof (intro allI impI)
    fix b0 pg0 assume o: "pw_open pw = Some (b0, pg0)"
    show "b = b0 \<and> ?i = pd_lower pg0 \<or> ?i = CONTENTS \<and> pw_pages ?pw' b0 = Some (pg0\<lparr>nextblk := Some b\<rparr>)"
    proof (cases "b = b0 \<and> pg = pg0")
      case False
      then have new: "?i = CONTENTS" "pw_pages ?pw b0 = Some (pg0\<lparr>nextblk := Some b\<rparr>)" using r(6) o by blast+
      have "b0 \<noteq> b" using new(2) r(1) pg(2) by (auto simp: pw_finish_def)
      then show ?thesis using new pages by simp
    qed simp
  qed
  show ?thesis
    by (rule exI [of _ ?pw'], rule exI [of _ b], rule exI [of _ ?i], rule exI [of _ ?pg])
      (use w inv rel_le_trans [OF r(4) le] r(5) put_bytes_spec(2) [OF fits(1)] pg(1) cont in \<open>simp add: page_ok_def\<close>)
qed

function groups :: "'a list \<Rightarrow> 'a list list" where
  "groups xs = (if xs = [] then [] else take WEAVE_BLOCK_SIZE xs # groups (drop WEAVE_BLOCK_SIZE xs))"
  by pat_completeness auto
termination
  by (relation "measure length") auto

declare groups.simps [simp del]

lemma groups_Nil [simp]: "groups [] = []"
  by (subst groups.simps) simp

lemma groups_concat: "concat (groups xs) = xs"
  by (induction xs rule: groups.induct) (subst groups.simps, simp)

lemma groups_sizes: "ss \<in> set (groups xs) \<Longrightarrow> ss \<noteq> [] \<and> length ss \<le> WEAVE_BLOCK_SIZE"
  by (induction xs rule: groups.induct) (subst (asm) (2) groups.simps, auto split: if_splits)

lemma write_blocks_ok:
  assumes "pw_inv fresh pw" and "ss \<noteq> []" and "nd = pw_no_doclen_col pw" and "groups_ok positions (groups ss)"
  shows "\<exists>pw' b i. write_blocks fresh positions ss pw start = Some (pw', Some (case start of None \<Rightarrow> (b, i) | Some st \<Rightarrow> st)) \<and>
    pw_inv fresh pw' \<and> rel_le (pw_pages pw) (pw_pages pw') \<and> pw_no_doclen_col pw' = nd \<and>
    laid nd positions (pw_pages pw') b i (groups ss) \<and>
    (\<forall>b0 pg0. pw_open pw = Some (b0, pg0) \<longrightarrow> laid nd positions (pw_pages pw') b0 (pd_lower pg0) (groups ss))"
  using assms
proof (induction ss arbitrary: pw start rule: groups.induct)
  case (1 ss)
  let ?c = "take WEAVE_BLOCK_SIZE ss" and ?rest = "drop WEAVE_BLOCK_SIZE ss"
  have g: "groups ss = ?c # groups ?rest" using "1.prems"(2) by (subst groups.simps) simp
  then have pos: "positions_ok positions ?c" "groups_ok positions (groups ?rest)"
    using "1.prems"(4) by (simp_all add: groups_ok_def)
  obtain pw1 b i pg where w: "write_block fresh positions ?c pw = Some (pw1, (b, i))" "pw_inv fresh pw1"
      "rel_le (pw_pages pw) (pw_pages pw1)" "pw_no_doclen_col pw1 = nd"
      "pw_open pw1 = Some (b, pg)" "pd_lower pg = i + block_need nd positions ?c"
      "holds (pimage pg) i (block_image nd positions ?c)" "i mod 8 = 0"
      "\<forall>b0 pg0. pw_open pw = Some (b0, pg0) \<longrightarrow> b = b0 \<and> i = pd_lower pg0 \<or>
       i = CONTENTS \<and> pw_pages pw1 b0 = Some (pg0\<lparr>nextblk := Some b\<rparr>)"
    using write_block_ok [OF "1.prems"(1) _ "1.prems"(3) pos(1)] by auto
  let ?st = "if start = None then Some (b, i) else start"
  obtain pw2 where r: "write_blocks fresh positions ?rest pw1 ?st = Some (pw2, ?st)" "pw_inv fresh pw2"
      "rel_le (pw_pages pw1) (pw_pages pw2)" "pw_no_doclen_col pw2 = nd"
      "laid nd positions (pw_pages pw2) b (pd_lower pg) (groups ?rest)"
  proof (cases "?rest = []")
    case True
    then show ?thesis
      using that [of pw1] True w(2,4) rel_le_refl laid_end by (simp add: write_blocks.simps)
  next
    case False
    show ?thesis
      using "1.IH" [OF "1.prems"(2) w(2) False w(4) [symmetric] pos(2), of ?st] that w(5) by (auto split: option.splits if_splits)
  qed
  have pg: "page_ok pg" "pw_pages pw1 b = Some pg" using w(2,5) by (simp_all add: pw_inv_def pw_finish_def)
  obtain pg' where pg': "pw_pages pw2 b = Some pg'" "page_le pg pg'" using r(3) pg unfolding rel_le_def by blast
  have "i + length (block_image nd positions ?c) \<le> pd_lower pg"
    using w(6) block_need_bounds(1) [of ?c nd positions] by simp
  then have "holds (pimage pg') i (block_image nd positions ?c)"
    using holds_prefix [OF w(7)] pg'(2) by (simp add: page_le_def)
  then have here: "laid nd positions (pw_pages pw2) b i (groups ss)"
    unfolding g using laid.laid_here [where rel = "pw_pages pw2" and b = b and pg = pg' and i = i, OF pg'(1)]
      pg'(2) w(6,8) r(5) by (simp add: page_le_def)
  have old: "laid nd positions (pw_pages pw2) b0 (pd_lower pg0) (groups ss)" if o: "pw_open pw = Some (b0, pg0)" for b0 pg0
  proof -
    consider (same) "b = b0" "i = pd_lower pg0" | (link) "i = CONTENTS" "pw_pages pw1 b0 = Some (pg0\<lparr>nextblk := Some b\<rparr>)"
      using w(9) o by blast
    then show ?thesis
    proof cases
      case same
      then show ?thesis using here by simp
    next
      case link
      have "page_ok (pg0\<lparr>nextblk := Some b\<rparr>)" using "1.prems"(1) o by (simp add: pw_inv_def page_ok_def)
      then obtain q where q: "pw_pages pw2 b0 = Some q" "page_le (pg0\<lparr>nextblk := Some b\<rparr>) q"
        using r(3) link(2) unfolding rel_le_def by blast
      then have "pw_pages pw2 b0 = Some (pg0\<lparr>nextblk := Some b\<rparr>)" by (simp add: page_le_def)
      then show ?thesis
        using laid.laid_next [where rel = "pw_pages pw2" and b = b0 and pg = "pg0\<lparr>nextblk := Some b\<rparr>" and b' = b]
          \<open>page_ok (pg0\<lparr>nextblk := Some b\<rparr>)\<close> here link(1) g by simp
    qed
  qed
  have "write_blocks fresh positions ss pw start = Some (pw2, ?st)"
    using "1.prems"(2) w(1) r(1) by (subst write_blocks.simps) simp
  then show ?case using r(2-4) rel_le_trans [OF w(3) r(3)] here old by (intro exI [of _ pw2] exI [of _ b] exI [of _ i]) (auto split: option.split)
qed

subsection \<open>Terms\<close>

definition build_term_ok :: "build_term \<Rightarrow> bool" where
  \<comment> \<open>counts the C \<open>int\<close>s hold: fewer than \<open>2 ^ 31\<close> postings and positions, and in a posting fewer than
      \<open>2 ^ 19\<close> positions, so that the positions of 128 postings have fewer than \<open>2 ^ 31\<close> bits\<close>
  "build_term_ok bt \<longleftrightarrow> length (bposts bt) < 2 ^ 31 \<and>
     (case bpositions bt of None \<Rightarrow> True
      | Some arena \<Rightarrow> list_all (\<lambda>p. unat (bpposoff p) + unat (bpposcnt p) \<le> length arena \<and>
            unat (bpposcnt p) < 2 ^ 19) (bposts bt) \<and>
          sum_list (map (\<lambda>p. unat (bpposcnt p)) (bposts bt)) < 2 ^ 31)"

definition sorted_postings :: "u64 \<Rightarrow> build_term \<Rightarrow> posting_sort list" where
  "sorted_postings F bt = sort_key sdocid (map (posting_sort_of F bt) (bposts bt))"

definition term_reads :: "u64 \<Rightarrow> bool \<Rightarrow> bool \<Rightarrow> bool \<Rightarrow> build_term \<Rightarrow> decoded_posting list" where
  "term_reads F want docids_only nd bt =
     concat (map (block_reads F want docids_only nd (bpositions bt)) (groups (sorted_postings F bt)))"

lemma groups_sub: "ss \<in> set (groups xs) \<Longrightarrow> set ss \<subseteq> set xs"
  using groups_concat [of xs] by (metis UN_upper set_concat)

lemma small_sum: "length xs \<le> 128 \<Longrightarrow> list_all (\<lambda>x. f x < 2 ^ 19) xs \<Longrightarrow> sum_list (map f xs) < (2 :: nat) ^ 26"
proof -
  assume l: "length xs \<le> 128" and small: "list_all (\<lambda>x. f x < 2 ^ 19) xs"
  have "sum_list (map f xs) \<le> length xs * (2 ^ 19 - 1)" using small by (induction xs) auto
  then show ?thesis using l by simp
qed

lemma term_groups_ok: "build_term_ok bt \<Longrightarrow> groups_ok (bpositions bt) (groups (sorted_postings F bt))"
proof -
  assume ok: "build_term_ok bt"
  have "mset (sorted_postings F bt) = mset (map (posting_sort_of F bt) (bposts bt))" by (simp add: sorted_postings_def)
  then have set: "set (sorted_postings F bt) = posting_sort_of F bt ` set (bposts bt)"
    by (metis list.set_map mset_eq_setD)
  have "positions_ok (bpositions bt) ss" if ss: "ss \<in> set (groups (sorted_postings F bt))" for ss
  proof (cases "bpositions bt")
    case (Some arena)
    have "list_all (\<lambda>s. unat (sposoff s) + unat (sposcnt s) \<le> length arena \<and> unat (sposcnt s) < 2 ^ 19) ss"
      using ok groups_sub [OF ss] Some
      by (auto simp: set build_term_ok_def list_all_iff posting_sort_of_def)
    then have runs: "list_all (\<lambda>s. unat (sposoff s) + unat (sposcnt s) \<le> length arena) ss"
        "list_all (\<lambda>s. unat (sposcnt s) < 2 ^ 19) ss"
      by (simp_all add: list_all_iff)
    show ?thesis
      using runs(1) small_sum [OF _ runs(2)] groups_sizes [OF ss] Some unfolding positions_ok_def by simp
  qed (simp add: positions_ok_def)
  then show ?thesis using groups_sizes by (auto simp: groups_ok_def list_all_iff)
qed

lemma sorted_postings_length [simp]: "length (sorted_postings F bt) = length (bposts bt)"
  by (simp add: sorted_postings_def)

lemma write_postings_ok:
  assumes "pw_inv fresh pw" and "nd = pw_no_doclen_col pw" and "build_term_ok bt"
  shows "\<exists>pw' start. weave_write_postings fresh F pw bt = Some (pw', bt\<lparr>bmax_tf := block_max_tf (sorted_postings F bt)\<rparr>, start) \<and>
    pw_inv fresh pw' \<and> rel_le (pw_pages pw) (pw_pages pw') \<and> pw_no_doclen_col pw' = nd \<and>
    (case start of None \<Rightarrow> bposts bt = []
     | Some (b, i) \<Rightarrow> laid nd (bpositions bt) (pw_pages pw') b i (groups (sorted_postings F bt)))"
proof (cases "bposts bt = []")
  case True
  then show ?thesis
    using assms by (simp add: weave_write_postings_def write_blocks.simps sorted_postings_def rel_le_refl)
next
  case False
  then have "sorted_postings F bt \<noteq> []" by (metis length_0_conv sorted_postings_length)
  from write_blocks_ok [OF assms(1) this assms(2) term_groups_ok [OF assms(3)], of None]
  show ?thesis by (auto simp: weave_write_postings_def sorted_postings_def)
qed

fun write_terms ::
  "(nat \<Rightarrow> nat) \<Rightarrow> u64 \<Rightarrow> post_writer \<Rightarrow> build_term list \<Rightarrow> (post_writer \<times> (build_term \<times> (nat \<times> nat) option) list) option" where
  \<comment> \<open>the loop of \<open>weave_write_segment\<close> over the terms, with their first blocks and offsets\<close>
  "write_terms fresh F pw [] = Some (pw, [])"
| "write_terms fresh F pw (bt # bts) = do {
     (pw, bt, start) \<leftarrow> weave_write_postings fresh F pw bt;
     (pw, outs) \<leftarrow> write_terms fresh F pw bts;
     Some (pw, (bt, start) # outs)
   }"

lemma groups_ok_sizes: "groups_ok positions cs \<Longrightarrow> \<forall>ss\<in>set cs. length ss \<le> WEAVE_BLOCK_SIZE"
  by (simp add: groups_ok_def list_all_iff)

lemma write_terms_ok:
  assumes "pw_inv fresh pw" and "nd = pw_no_doclen_col pw" and "list_all build_term_ok bts"
  shows "\<exists>pw' outs. write_terms fresh F pw bts = Some (pw', outs) \<and> pw_inv fresh pw' \<and> rel_le (pw_pages pw) (pw_pages pw') \<and>
    list_all2 (\<lambda>bt (bt', start). bt' = bt\<lparr>bmax_tf := block_max_tf (sorted_postings F bt)\<rparr> \<and>
      (case start of None \<Rightarrow> bposts bt = []
       | Some (b, i) \<Rightarrow> laid nd (bpositions bt) (pw_pages pw') b i (groups (sorted_postings F bt)))) bts outs"
  using assms
proof (induction bts arbitrary: pw)
  case (Cons bt bts)
  have ok: "build_term_ok bt" "list_all build_term_ok bts" using Cons.prems(3) by simp_all
  obtain pw1 start where w: "weave_write_postings fresh F pw bt = Some (pw1, bt\<lparr>bmax_tf := block_max_tf (sorted_postings F bt)\<rparr>, start)"
      "pw_inv fresh pw1" "rel_le (pw_pages pw) (pw_pages pw1)" "pw_no_doclen_col pw1 = nd"
      "case start of None \<Rightarrow> bposts bt = []
       | Some (b, i) \<Rightarrow> laid nd (bpositions bt) (pw_pages pw1) b i (groups (sorted_postings F bt))"
    using write_postings_ok [OF Cons.prems(1,2) ok(1)] by blast
  obtain pw2 outs where r: "write_terms fresh F pw1 bts = Some (pw2, outs)" "pw_inv fresh pw2"
      "rel_le (pw_pages pw1) (pw_pages pw2)"
      "list_all2 (\<lambda>bt (bt', start). bt' = bt\<lparr>bmax_tf := block_max_tf (sorted_postings F bt)\<rparr> \<and>
        (case start of None \<Rightarrow> bposts bt = []
         | Some (b, i) \<Rightarrow> laid nd (bpositions bt) (pw_pages pw2) b i (groups (sorted_postings F bt)))) bts outs"
    using Cons.IH [OF w(2) w(4) [symmetric] ok(2)] by blast
  have "case start of None \<Rightarrow> bposts bt = []
       | Some (b, i) \<Rightarrow> laid nd (bpositions bt) (pw_pages pw2) b i (groups (sorted_postings F bt))"
    using w(5) laid_mono [OF _ r(3) groups_ok_sizes [OF term_groups_ok [OF ok(1)]]] by (auto split: option.splits)
  then show ?case using w(1) r rel_le_trans [OF w(3) r(3)] by simp
qed (simp add: rel_le_refl)

lemma clamp_df_value: "unat (clamp_df recorded df) = min (unat df) (max recorded 1)"
proof (cases "2 ^ 32 - 1 \<le> recorded")
  case True
  then have "unat df \<le> recorded" using unat_u32 [of df] by simp
  then show ?thesis using True by (simp add: clamp_df_def Let_def)
next
  case False
  then have n: "unat (of_nat recorded :: u32) = recorded" by (intro of_nat_32) simp
  then have "of_nat recorded < (1 :: u32) \<longleftrightarrow> recorded = 0" by (simp add: word_less_nat_alt)
  then show ?thesis using False n by (auto simp: clamp_df_def Let_def word_less_nat_alt)
qed

lemma clamp_df_id: "unat df \<le> recorded \<Longrightarrow> clamp_df recorded df = df"
  using clamp_df_value [of recorded df] by (simp add: word_unat_eq_iff)

lemma term_reads_length [simp]: "length (term_reads F want docids_only nd bt) = length (bposts bt)"
proof -
  have "length (concat (map (block_reads F want docids_only nd ps) cs)) = length (concat cs)" for ps cs
    by (induction cs) (simp_all add: block_reads_def)
  then show ?thesis by (simp add: term_reads_def groups_concat)
qed

lemma laid_term_clamped:
  assumes laid: "laid nd (bpositions bt) rel b i (groups (sorted_postings F bt))" and ok: "build_term_ok bt"
  shows "weave_decode_term rel F recorded (Some b) i (of_nat (length (bposts bt))) want docids_only =
    Some (Inr (take (max recorded 1) (term_reads F (want \<and> \<not> docids_only) docids_only nd bt)))"
proof -
  let ?d = "\<lparr>dec_posts = [], dec_arena = [], dec_cap = 0\<rparr>" and ?reads = "term_reads F (want \<and> \<not> docids_only) docids_only nd bt"
  let ?df = "clamp_df recorded (of_nat (length (bposts bt)))"
  have n: "unat (of_nat (length (bposts bt)) :: u32) = length (bposts bt)"
    using ok by (intro of_nat_32) (simp add: build_term_ok_def)
  have df: "unat ?df = min (length (bposts bt)) (max recorded 1)" using clamp_df_value n by simp
  then have "unat ?df \<le> length (bposts bt)" by simp
  then have "unat ?df < 2 ^ 31" using ok unfolding build_term_ok_def by linarith
  then have s: "nat (sint ?df) = unat ?df" using sint_small [of ?df] by simp
  have "reads_as (want \<and> \<not> docids_only) ?d []" by (simp add: reads_as_def)
  moreover have "unat ?df \<le> length ([] :: decoded_posting list) + length (concat (groups (sorted_postings F bt)))"
    using df by (simp add: groups_concat)
  moreover have "docids_only \<longrightarrow> \<not> (want \<and> \<not> docids_only)" by simp
  ultimately obtain d' where d': "decode_pages rel F (want \<and> \<not> docids_only) docids_only (unat ?df) (Some b) i ?d = Some (Inr d')"
      "reads_as (want \<and> \<not> docids_only) d' (take (unat ?df) ?reads)"
    using laid_decodes [OF laid term_groups_ok [OF ok], of docids_only "want \<and> \<not> docids_only" ?d "[]" "unat ?df"]
    by (auto simp: term_reads_def)
  have "take (unat ?df) ?reads = take (max recorded 1) ?reads"
    unfolding df by (cases "length (bposts bt) \<le> max recorded 1") (simp_all add: min_def)
  then show ?thesis using d' by (simp add: weave_decode_term_def Let_def s reads_as_def)
qed

lemma laid_term_reads:
  assumes "laid nd (bpositions bt) rel b i (groups (sorted_postings F bt))" and "build_term_ok bt"
    and "length (bposts bt) \<le> recorded"
  shows "weave_decode_term rel F recorded (Some b) i (of_nat (length (bposts bt))) want docids_only =
    Some (Inr (term_reads F (want \<and> \<not> docids_only) docids_only nd bt))"
  using laid_term_clamped [OF assms(1,2)] assms(3) by simp

subsection \<open>The pages of the writer\<close>

definition rel_ok :: "(nat \<Rightarrow> post_page option) \<Rightarrow> bool" where
  "rel_ok rel \<longleftrightarrow> (\<forall>b pg. rel b = Some pg \<longrightarrow> page_ok pg)"

lemma rel_ok_upd: "rel_ok rel \<Longrightarrow> page_ok pg \<Longrightarrow> rel_ok (rel(b \<mapsto> pg))"
  by (simp add: rel_ok_def)

lemma rel_ok_shadowed: "rel_ok (rel(b \<mapsto> pg)) \<Longrightarrow> page_ok pg' \<Longrightarrow> rel_ok (rel(b \<mapsto> pg'))"
  by (simp add: rel_ok_def) metis

abbreviation pages_ok :: "post_writer \<Rightarrow> bool" where
  \<comment> \<open>the pages in the relation and the one in the writer's buffer are well formed\<close>
  "pages_ok pw \<equiv> rel_ok (pw_store pw) \<and> (\<forall>b pg. pw_open pw = Some (b, pg) \<longrightarrow> page_ok pg)"

lemma finish_ok: "pages_ok pw \<Longrightarrow> rel_ok (pw_pages pw)"
  by (auto simp: pw_finish_def rel_ok_def split: option.split prod.split)

lemma write_block_pages:
  assumes "pages_ok pw" and "length ss \<le> WEAVE_BLOCK_SIZE" and w: "write_block fresh positions ss pw = Some (pw', at)"
  shows "pages_ok pw' \<and> pw_no_doclen_col pw' = pw_no_doclen_col pw"
proof -
  let ?need = "block_need (pw_no_doclen_col pw) positions ss" and ?pw = "pw_room fresh (block_need (pw_no_doclen_col pw) positions ss) pw"
  let ?bs = "block_image (pw_no_doclen_col pw) positions ss"
  note bounds = block_need_bounds [OF assms(2), of "pw_no_doclen_col pw" positions]
  have nd: "pw_no_doclen_col ?pw = pw_no_doclen_col pw"
    by (simp add: pw_room_def Let_def split: option.split prod.split)
  have "pw_open ?pw \<noteq> None" by (simp add: pw_room_def Let_def split: option.split prod.split)
  then obtain b pg where o: "pw_open ?pw = Some (b, pg)" by auto
  have ok: "pages_ok ?pw" "page_ok pg" "pd_lower pg + ?need \<le> SPECIAL"
  proof -
    have init: "pd_lower weave_init_page + ?need \<le> SPECIAL" using bounds(2) init_page_ok(3) by simp
    show "pages_ok ?pw" "page_ok pg" "pd_lower pg + ?need \<le> SPECIAL"
      using assms(1) o init init_page_ok(1) page_end
      by (auto simp: pw_room_def Let_def page_ok_def intro!: rel_ok_upd split: option.splits if_splits prod.splits)
  qed
  have "length ?bs \<le> ?need" by (rule bounds(1))
  then have fits: "pd_lower pg + length ?bs \<le> length (pimage pg)" using ok(2,3) by (simp add: page_ok_def)
  have new: "page_ok (pg\<lparr>pimage := put_bytes (pimage pg) (pd_lower pg) ?bs, pd_lower := pd_lower pg + ?need\<rparr>)"
    using ok(2,3) bounds(3) put_bytes_spec(1) [OF fits] by (simp add: page_ok_def) presburger
  have "pw' = ?pw\<lparr>pw_open := Some (b, pg\<lparr>pimage := put_bytes (pimage pg) (pd_lower pg) ?bs, pd_lower := pd_lower pg + ?need\<rparr>)\<rparr>"
    using w o page_end [OF ok(2)]
    by (auto simp: write_block_def Let_def block_need_def block_image_def stored_positions_def add.assoc
      split: if_splits option.splits)
  then show ?thesis using ok(1) new nd by simp
qed

lemma write_blocks_pages:
  "write_blocks fresh positions ss pw start = Some (pw', start') \<Longrightarrow> pages_ok pw \<Longrightarrow> pages_ok pw'"
proof (induction fresh positions ss pw start rule: write_blocks.induct)
  case (1 fresh positions ss pw start)
  show ?case
  proof (cases "ss = []")
    case True
    then show ?thesis using "1.prems" by (simp add: write_blocks.simps)
  next
    case False
    obtain pw1 at where w: "write_block fresh positions (take WEAVE_BLOCK_SIZE ss) pw = Some (pw1, at)"
        "write_blocks fresh positions (drop WEAVE_BLOCK_SIZE ss) pw1 (if start = None then Some at else start) = Some (pw', start')"
      using "1.prems"(1) False by (subst (asm) write_blocks.simps) (auto simp: bind_eq_Some_conv)
    show ?thesis
      using "1.IH" [OF False w(1) refl w(2)] write_block_pages [OF "1.prems"(2) _ w(1)] by simp
  qed
qed

lemma write_terms_pages:
  "write_terms fresh F pw bts = Some (pw', outs) \<Longrightarrow> pages_ok pw \<Longrightarrow> pages_ok pw'"
proof (induction bts arbitrary: pw outs)
  case (Cons bt bts)
  then show ?case
    by (auto simp: bind_eq_Some_conv weave_write_postings_def Let_def dest!: write_blocks_pages)
qed simp

subsection \<open>Properties\<close>

abbreviation (input) first_block :: "(nat \<times> nat) option \<Rightarrow> nat option" where "first_block start \<equiv> map_option fst start"
abbreviation (input) first_off :: "(nat \<times> nat) option \<Rightarrow> nat" where
  "first_off start \<equiv> (case start of Some (_, i) \<Rightarrow> i | None \<Rightarrow> 0)"

lemma start_reads:
  assumes "case start of None \<Rightarrow> bposts bt = []
     | Some (b, i) \<Rightarrow> laid nd (bpositions bt) pages1 b i (groups (sorted_postings F bt))"
    and "rel_le pages1 rel" and "build_term_ok bt"
  shows "weave_decode_term rel F recorded (first_block start) (first_off start) (of_nat (length (bposts bt))) want docids_only =
    Some (Inr (take (max recorded 1) (term_reads F (want \<and> \<not> docids_only) docids_only nd bt)))"
proof (cases start)
  case None
  then have e: "bposts bt = []" using assms(1) by simp
  then have "term_reads F (want \<and> \<not> docids_only) docids_only nd bt = []"
    using term_reads_length [of F "want \<and> \<not> docids_only" docids_only nd bt] by (simp only: list.size length_0_conv)
  then show ?thesis using None e by (simp add: weave_decode_term_def) (subst decode_pages.simps, simp)
next
  case (Some bi)
  obtain b i where bi: "start = Some (b, i)" using Some by (cases bi) simp
  have "laid nd (bpositions bt) rel b i (groups (sorted_postings F bt))"
    using assms(1) bi laid_mono [OF _ assms(2) groups_ok_sizes [OF term_groups_ok [OF assms(3)]]] by simp
  then show ?thesis using laid_term_clamped [OF _ assms(3)] bi by simp
qed


abbreviation (input) demo_bt :: build_term where
  "demo_bt \<equiv> \<lparr>bterm = [97], bposts = [\<lparr>bptid = \<lparr>blk = 1, off = 1\<rparr>, bptf = 1, bpdoclen = 3, bpposoff = 0, bpposcnt = 1\<rparr>,
      \<lparr>bptid = \<lparr>blk = 0, off = 2\<rparr>, bptf = 2, bpdoclen = 5, bpposoff = 1, bpposcnt = 2\<rparr>],
    bpositions = Some [7, 2, 3], bmax_tf = 0, bnext = - 1\<rparr>"




end
