(* ===== verification/Weave_Postsafe.thy ===== *)
theory Weave_Postsafe
  imports Weave_Postchain
begin

text \<open>
  Reading pages with arbitrary bytes. Without positions the reader never leaves a page whose items end before the
  image does; the positions of a block can send it past its position arena, and a page filled to its very end past
  the page.
\<close>

subsection \<open>Reading arbitrary pages\<close>

lemma columns_fit_total:
  fixes cnt :: nat
  assumes "s + bytelen \<le> pend" and "pend < length img"
  defines "gl \<equiv> weave_for_bytelen (drop s img) cnt"
  defines "tl' \<equiv> weave_for_bytelen (drop (s + gl) img) cnt"
  defines "dl \<equiv> weave_for_bytelen (drop (s + gl + tl') img) cnt"
  shows "\<exists>has fit. columns_fit img s cnt bytelen = Some (has, fit) \<and>
    (fit \<longrightarrow> gl + tl' + (if has then dl else 0) \<le> bytelen)"
proof -
  have g: "bytelen_at img s cnt = Some gl" using assms(1,2) by (simp add: bytelen_at_def gl_def)
  show ?thesis
  proof (cases "gl \<le> bytelen")
    case False
    then show ?thesis by (intro exI [of _ False]) (simp add: columns_fit_def g Let_def)
  next
    case True
    then have t: "bytelen_at img (s + gl) cnt = Some tl'" using assms(1,2) by (simp add: bytelen_at_def tl'_def)
    have "bytelen_at img (s + gl + tl') cnt = Some dl" if "gl + tl' < bytelen"
      using assms(1,2) that by (simp add: bytelen_at_def dl_def)
    then show ?thesis
      using True
      by - (rule exI [of _ "gl + tl' < bytelen"], rule exI [of _ "gl + tl' + (if gl + tl' < bytelen then dl else 0) \<le> bytelen"],
        simp add: columns_fit_def g t Let_def)
  qed
qed

lemma unpack_at_total:
  "i + weave_for_bytelen (drop i img) cnt \<le> pend \<Longrightarrow> pend < length img \<Longrightarrow>
   \<exists>vs. unpack_at img i cnt = Some (vs, weave_for_bytelen (drop i img) cnt)"
proof -
  assume "i + weave_for_bytelen (drop i img) cnt \<le> pend" "pend < length img"
  then have "drop i img \<noteq> []" "weave_for_bytelen (drop i img) cnt \<le> length (drop i img)" by simp_all
  from for_unpack_total [OF this] show ?thesis unfolding unpack_at_def by blast
qed

lemma rd32_total: "i + 4 \<le> length img \<Longrightarrow> \<exists>w. rd32 img i = Some w"
  by (simp add: rd32_def)

lemma decode_block_total:
  assumes "p + BLOCK_HDR \<le> pend" and "pend < length img"
  shows "\<exists>r. decode_block F False docids_only df img pend p d = Some r \<and> (\<forall>p' d'. r = BlkNext p' d' \<longrightarrow> p < p')"
proof -
  obtain count max_tf hi lo bl pl where h: "rd32 img p = Some count" "rd32 img (p + 4) = Some max_tf"
      "rd32 img (p + 12) = Some hi" "rd32 img (p + 16) = Some lo" "rd32 img (p + 20) = Some bl" "rd32 img (p + 24) = Some pl"
    using assms rd32_total [of p img] rd32_total [of "p + 4" img] rd32_total [of "p + 12" img] rd32_total [of "p + 16" img]
      rd32_total [of "p + 20" img] rd32_total [of "p + 24" img] by auto
  let ?s = "p + BLOCK_HDR" and ?cnt = "if count = 0 \<or> of_nat WEAVE_BLOCK_SIZE < count then WEAVE_BLOCK_SIZE else unat count"
  let ?gl = "weave_for_bytelen (drop ?s img) ?cnt"
  let ?tl = "weave_for_bytelen (drop (?s + ?gl) img) ?cnt"
  show ?thesis
  proof (cases "count = 0 \<or> pend < ?s + unat bl + unat pl")
    case True
    then show ?thesis by (auto simp: decode_block_def h Let_def)
  next
    case False
    then have room: "?s + unat bl + unat pl \<le> pend" "count \<noteq> 0" by auto
    then obtain has fit where c: "columns_fit img ?s ?cnt (unat bl) = Some (has, fit)"
        "fit \<Longrightarrow> ?gl + ?tl + (if has then weave_for_bytelen (drop (?s + ?gl + ?tl) img) ?cnt else 0) \<le> unat bl"
      using columns_fit_total [of ?s "unat bl" pend img ?cnt] assms(2) by auto
    show ?thesis
    proof (cases fit)
      case False
      then show ?thesis using room c(1) by (simp add: decode_block_def h Let_def)
    next
      case True
      have p': "p < MAXALIGN (?s + unat bl + unat pl)" using maxalign_ge [of "?s + unat bl + unat pl"] by simp
      obtain gs where g: "unpack_at img ?s ?cnt = Some (gs, ?gl)"
        using unpack_at_total [of ?s img ?cnt pend] c(2) True room assms(2) by auto
      obtain ts where t: "unpack_at img (?s + ?gl) ?cnt = Some (ts, ?tl)"
        using unpack_at_total [of "?s + ?gl" img ?cnt pend] c(2) True room assms(2) by auto
      have l: "\<exists>ls n. unpack_at img (?s + ?gl + ?tl) ?cnt = Some (ls, n)" if has
        using unpack_at_total [of "?s + ?gl + ?tl" img ?cnt pend] c(2) True room assms(2) that by auto
      show ?thesis
        using room c(1) True g t l p' unfolding decode_block_def h Let_def
        by (cases docids_only; cases has) auto
    qed
  qed
qed

lemma decode_page_total:
  "\<not> want \<Longrightarrow> pend < length img \<Longrightarrow> decode_page F want docids_only df img pend p d \<noteq> None"
proof (induction F want docids_only df img pend p d rule: decode_page.induct)
  case (1 F want docids_only df img pend p d)
  show ?case
  proof (cases "p + BLOCK_HDR \<le> pend \<and> length (dec_posts d) < df")
    case True
    then obtain r where r: "decode_block F want docids_only df img pend p d = Some r" "\<forall>p' d'. r = BlkNext p' d' \<longrightarrow> p < p'"
      using decode_block_total [of p pend img F docids_only df d] "1.prems" by auto
    show ?thesis
    proof (cases r)
      case (BlkNext p' d')
      then have "p < p'" using r(2) by simp
      from "1.IH" [OF True r(1) BlkNext this "1.prems"] show ?thesis
        using True r(1) BlkNext \<open>p < p'\<close> by (subst decode_page.simps) simp
    qed (use True r(1) in \<open>subst decode_page.simps, simp\<close>)+
  next
    case False
    then have "decode_page F want docids_only df img pend p d = Some (False, d)"
      by (subst decode_page.simps) (simp only: if_False)
    then show ?thesis by simp
  qed
qed

lemma decode_pages_safe:
  assumes "decode_pages rel F want docids_only df b i d = Some r" and "\<not> want"
    and "\<forall>b pg. rel b = Some pg \<longrightarrow> weave_page_entry_end pg < length (pimage pg)"
  shows "r \<noteq> Inl InvalidAccess"
proof -
  let ?safe = "\<lambda>rel. \<forall>b pg. rel b = Some pg \<longrightarrow> weave_page_entry_end pg < length (pimage pg)"
  have "\<not> want \<longrightarrow> ?safe rel \<longrightarrow> r \<noteq> Inl InvalidAccess"
  proof (rule decode_pages.raw_induct [where P = "\<lambda>rel F want docids_only df b i d r.
        \<not> want \<longrightarrow> ?safe rel \<longrightarrow> r \<noteq> Inl InvalidAccess", OF _ assms(1)], intro impI)
    fix f :: "(nat \<Rightarrow> post_page option) \<Rightarrow> u64 \<Rightarrow> bool \<Rightarrow> bool \<Rightarrow> nat \<Rightarrow> nat option \<Rightarrow> nat \<Rightarrow> decoder \<Rightarrow> (decode_error + decoder) option"
      and rel F want docids_only df b i d r
    assume IH: "\<And>rel F want docids_only df b i d r. f rel F want docids_only df b i d = Some r \<Longrightarrow>
          \<not> want \<longrightarrow> ?safe rel \<longrightarrow> r \<noteq> Inl InvalidAccess"
      and step: "(case b of None \<Rightarrow> Some (Inr d)
        | Some b \<Rightarrow> if length (dec_posts d) < df then
            (case rel b of None \<Rightarrow> Some (Inl NoSuchBlock)
             | Some pg \<Rightarrow>
                 (case decode_page F want docids_only df (pimage pg) (weave_page_entry_end pg) i d of
                    None \<Rightarrow> Some (Inl InvalidAccess)
                  | Some (stop, d) \<Rightarrow>
                      if stop then Some (Inr d) else f rel F want docids_only df (nextblk pg) CONTENTS d))
          else Some (Inr d)) = Some r"
      and w: "\<not> want" "?safe rel"
    show "r \<noteq> Inl InvalidAccess"
    proof (cases "\<exists>k pg. b = Some k \<and> rel k = Some pg \<and> length (dec_posts d) < df")
      case True
      then obtain k pg where pg: "b = Some k" "rel k = Some pg" "length (dec_posts d) < df" by blast
      obtain stop d' where "decode_page F want docids_only df (pimage pg) (weave_page_entry_end pg) i d = Some (stop, d')"
        using decode_page_total [of want "weave_page_entry_end pg" "pimage pg" F docids_only df i d] w pg(2) by auto
      then show ?thesis using step IH w pg by (cases stop) auto
    qed (use step in \<open>auto split: if_splits option.splits\<close>)
  qed
  then show ?thesis using assms(2,3) by blast
qed

subsection \<open>A block whose term frequencies wrap around\<close>

definition wrapping_tfs :: "posting_sort list" where
  \<comment> \<open>the three frequencies sum to 1 as a C \<open>int\<close>\<close>
  "wrapping_tfs = map (\<lambda>(d, tf). \<lparr>sdocid = d, stf = tf, sdoclen = 0, sposoff = 0, sposcnt = 0\<rparr>)
     [(1, 0x80000000), (2, 0x7fffffff), (3, 2)]"

definition wrapping_page :: post_page where
  "wrapping_page =
     (let cols = block_columns True wrapping_tfs;
          items = replicate CONTENTS 0 @ block_header wrapping_tfs (length cols) 1 @ cols @ [0]
      in \<lparr>pd_lower = MAXALIGN (length items), pimage = items @ replicate (BLCKSZ - length items) 0, nextblk = None\<rparr>)"

lemma undelta_run_short: "2 \<le> n \<Longrightarrow> undelta_run n [d] run cap ar = None"
  by (cases n; cases "n - 1") auto

lemma wrapping_undelta: "undelta (map (\<lambda>s. ucast (stf s)) wrapping_tfs) [d] cap ar = None"
proof -
  have "nat (c_int (ucast (0x80000000 :: u32))) = 0" "nat (c_int (ucast (0x7fffffff :: u32))) = 2147483647"
    by (simp_all add: c_int_def)
  then show ?thesis by (simp add: wrapping_tfs_def undelta_run_short)
qed

lemma wrapping_sum: "sum_tf (map (\<lambda>s. ucast (stf s)) wrapping_tfs) = 1"
  by (simp add: sum_tf_def wrapping_tfs_def)

lemma wrapping_page_spec:
  "page_ok wrapping_page" "CONTENTS + BLOCK_HDR + length (block_columns True wrapping_tfs) + 1 \<le> pd_lower wrapping_page"
  "holds (pimage wrapping_page) CONTENTS
     (block_header wrapping_tfs (length (block_columns True wrapping_tfs)) (length [0 :: u8]) @ block_columns True wrapping_tfs @ [0])"
proof -
  let ?cols = "block_columns True wrapping_tfs"
  have l: "length ?cols \<le> 3075" by (rule block_columns_length) (simp add: wrapping_tfs_def)
  then have "MAXALIGN (CONTENTS + BLOCK_HDR + length ?cols + 1) \<le> 8 * 1022" by (intro maxalign_bound) simp
  moreover have "CONTENTS + BLOCK_HDR + length ?cols + 1 \<le> MAXALIGN (CONTENTS + BLOCK_HDR + length ?cols + 1)"
    by (rule maxalign_ge)
  ultimately show "page_ok wrapping_page" "CONTENTS + BLOCK_HDR + length ?cols + 1 \<le> pd_lower wrapping_page"
    using l by (simp_all add: page_ok_def wrapping_page_def Let_def) (simp_all add: MAXALIGN_def)
  show "holds (pimage wrapping_page) CONTENTS (block_header wrapping_tfs (length ?cols) (length [0 :: u8]) @ ?cols @ [0])"
    unfolding wrapping_page_def Let_def holds_def
    by (rule exI [of _ "replicate CONTENTS 0"], rule exI [of _ "replicate (BLCKSZ - length (replicate CONTENTS 0 @
        block_header wrapping_tfs (length ?cols) 1 @ ?cols @ [0 :: u8])) 0"]) simp
qed

lemma wrapping_positions:
  assumes "holds img i [0 :: u8]"
  shows "decode_positions img i 1 (map (\<lambda>s. ucast (stf s)) wrapping_tfs) d = None"
proof -
  have r: "rd8 img i = Some 0" using assms by (auto simp: holds_def rd8_def nth_append)
  have u: "unpack_at img i (Suc 0) = Some ([0], 1)"
    using holds_split [OF assms] by (simp add: unpack_at_def weave_for_unpack_def)
  show ?thesis by (simp add: decode_positions_def wrapping_sum Let_def r u positions_need_def wrapping_undelta)
qed

text \<open>
  C39: frequencies that wrap around send the position decoder past its arena. On a page whose block of three postings
  has the frequencies 2^31, 2^31 - 1 and 2, which sum to 1 as a C \<open>int\<close>, the room for positions is computed from the
  sum and the loop then stores one position per occurrence, beyond the arena and the decoded deltas. A reader of
  recycled pages, which \<open>weave_decode_term\<close> expects, can meet such a block.
\<close>

theorem positions_overrun:
  "page_ok wrapping_page \<and>
   weave_decode_term [0 \<mapsto> wrapping_page] F 3 (Some 0) CONTENTS 3 True False = Some (Inl InvalidAccess)"
proof -
  let ?cols = "block_columns True wrapping_tfs" and ?d = "\<lparr>dec_posts = [], dec_arena = [], dec_cap = 0\<rparr>"
  note spec = wrapping_page_spec
  have n: "length wrapping_tfs = 3" by (simp add: wrapping_tfs_def)
  have "holds (pimage wrapping_page) (CONTENTS + BLOCK_HDR + length ?cols) [0]"
    using spec(3) by (simp add: holds_append)
  note pos = wrapping_positions [OF this, of ?d]
  have "length ?cols \<le> 3075" by (rule block_columns_length) (simp add: n)
  then have b: "decode_block F True False 3 (pimage wrapping_page) (pd_lower wrapping_page) CONTENTS ?d = None"
    using decode_block_image [OF spec(3), of "pd_lower wrapping_page" F True False 3 ?d] spec(2) pos n by simp
  have "decode_page F True False 3 (pimage wrapping_page) (pd_lower wrapping_page) CONTENTS ?d = None"
    using b spec(2) by (subst decode_page.simps) simp
  then have "decode_pages [0 \<mapsto> wrapping_page] F True False 3 (Some 0) CONTENTS ?d = Some (Inl InvalidAccess)"
    using page_end [OF spec(1)] by (subst decode_pages.simps) simp
  moreover have "clamp_df 3 3 = 3" by (simp add: clamp_df_id)
  ultimately show ?thesis using spec(1) by (simp add: weave_decode_term_def)
qed

subsection \<open>A page whose items reach its end\<close>

definition full_page :: post_page where
  \<comment> \<open>its last 28 bytes are the header of a block of one posting and no payload\<close>
  "full_page =
     \<lparr>pd_lower = BLCKSZ,
      pimage = replicate (BLCKSZ - BLOCK_HDR) 0 @
        block_header [\<lparr>sdocid = 0, stf = 0, sdoclen = 0, sposoff = 0, sposcnt = 0\<rparr>] 0 0,
      nextblk = None\<rparr>"

lemma full_page_overread:
  "weave_decode_term [0 \<mapsto> full_page] F 1 (Some 0) (BLCKSZ - BLOCK_HDR) 1 False False = Some (Inl InvalidAccess)"
proof -
  let ?s = "\<lparr>sdocid = 0, stf = 0, sdoclen = 0, sposoff = 0, sposcnt = 0\<rparr> :: posting_sort"
  let ?p = "BLCKSZ - BLOCK_HDR" and ?d = "\<lparr>dec_posts = [], dec_arena = [], dec_cap = 0\<rparr>"
  have "holds (pimage full_page) ?p (block_header [?s] 0 0)"
    unfolding holds_def full_page_def by (rule exI [of _ "replicate ?p 0"], rule exI [of _ "[]"]) simp
  note h = header_reads [OF this]
  have len: "length (pimage full_page) = BLCKSZ" by (simp add: full_page_def)
  have e: "weave_page_entry_end full_page = BLCKSZ"
    by (simp add: full_page_def weave_page_entry_end_def weave_page_entry_end_off_def Let_def)
  have "decode_block F False False 1 (pimage full_page) BLCKSZ ?p ?d = None"
    using h by (simp add: decode_block_def columns_fit_def bytelen_at_def len Let_def)
  then have "decode_page F False False 1 (pimage full_page) BLCKSZ ?p ?d = None"
    by (subst decode_page.simps) simp
  then have "decode_pages [0 \<mapsto> full_page] F False False 1 (Some 0) ?p ?d = Some (Inl InvalidAccess)"
    using e by (subst decode_pages.simps) simp
  moreover have "clamp_df 1 1 = 1" by (simp add: clamp_df_id)
  ultimately show ?thesis by (simp add: weave_decode_term_def)
qed

subsection \<open>Properties\<close>

text \<open>
  C38: a reader of recycled pages stays on them. Whatever bytes the pages of a relation hold, as long as the items of
  each end before its image does, reading a term without positions never reads outside a page or an array: when the
  walk ends, it ends with postings or at a block the relation does not have.
\<close>

theorem decode_stays_on_page:
  assumes "weave_decode_term rel F recorded firstblk firstoff df want docids_only = Some r" and "\<not> want \<or> docids_only"
    and "\<And>b pg. rel b = Some pg \<Longrightarrow> weave_page_entry_end pg < length (pimage pg)"
  shows "r \<noteq> Inl InvalidAccess"
proof -
  have w: "(want \<and> \<not> docids_only) = False" using assms(2) by blast
  obtain r' where r': "decode_pages rel F False docids_only (nat (sint (clamp_df recorded df))) firstblk firstoff
      \<lparr>dec_posts = [], dec_arena = [], dec_cap = 0\<rparr> = Some r'" "r = map_sum id (\<lambda>d. map (finish_posting False d) (dec_posts d)) r'"
    using assms(1) unfolding weave_decode_term_def Let_def w by auto
  have "r' \<noteq> Inl InvalidAccess" by (rule decode_pages_safe [OF r'(1)]) (use assms(3) in auto)
  then show ?thesis using r'(2) by (cases r') auto
qed

definition garbage_page :: post_page where
  "garbage_page = \<lparr>pd_lower = 8000, pimage = replicate 8192 255, nextblk = Some 0\<rparr>"

theorem decode_stays_on_page_witness:
  "\<exists>r. weave_decode_term [0 \<mapsto> garbage_page] 300 7 (Some 0) 24 7 False False = Some r \<and> r \<noteq> Inl InvalidAccess"
proof -
  let ?d = "\<lparr>dec_posts = [], dec_arena = [], dec_cap = 0\<rparr>"
  have e: "weave_page_entry_end garbage_page = 8000" "length (pimage garbage_page) = 8192"
    by (simp_all add: garbage_page_def weave_page_entry_end_def weave_page_entry_end_off_def)
  have r: "rd32 (pimage garbage_page) i = Some (- 1)" if "i \<le> 8000" for i
  proof -
    have "take 4 (drop i (pimage garbage_page)) = replicate 4 255" using that by (simp add: garbage_page_def)
    then have "take 4 (drop i (pimage garbage_page)) = [255, 255, 255, 255]" by (simp add: numeral_eq_Suc)
    then show ?thesis using that e by (simp add: rd32_def)
  qed
  have u: "unat (- 1 :: u32) = 4294967295" by (simp add: unsigned_minus_1_eq_mask mask_eq_exp_minus_1)
  have "decode_block 300 False False 7 (pimage garbage_page) 8000 24 ?d = Some BlkStop"
    by (simp add: decode_block_def r u)
  then have "decode_page 300 False False 7 (pimage garbage_page) 8000 24 ?d = Some (True, ?d)"
    by (subst decode_page.simps) simp
  then have "decode_pages [0 \<mapsto> garbage_page] 300 False False 7 (Some 0) 24 ?d = Some (Inr ?d)"
    using e by (subst decode_pages.simps) simp
  moreover have "clamp_df 7 7 = 7" by (simp add: clamp_df_id)
  ultimately obtain r where r: "weave_decode_term [0 \<mapsto> garbage_page] 300 7 (Some 0) 24 7 False False = Some r"
    by (simp add: weave_decode_term_def)
  have "r \<noteq> Inl InvalidAccess"
    by (rule decode_stays_on_page [OF r]) (use e in \<open>auto split: if_splits\<close>)
  then show ?thesis using r by blast
qed

end
