(* ===== verification/Weave_Build.thy ===== *)
theory Weave_Build
  imports Weave_Postsafe Weave_Lexscan
begin

text \<open>
  The build state of \<open>src/am/ambuild.c\<close>: the terms of the segment in memory, found through a hash table whose keys
  are a term's length and first 64 bytes, with a chain through the terms that share a key. \<open>row_posts\<close> says what a
  heap tuple puts into a term; the operations refine it.
\<close>

subsection \<open>The state\<close>

record build_state =
  bs_terms :: "build_term list"
  bs_ht :: "nat \<times> u8 list \<Rightarrow> int option"
  bs_want_positions :: bool
  bs_want_sidecar :: bool
  bs_ndocs :: nat
  bs_sumdoclen :: nat
  bs_tsv_positionless :: nat
  bs_dl_all :: "u64 list"
  bs_dl_null :: "u64 list"

definition build_init :: "bool \<Rightarrow> bool \<Rightarrow> build_state" where
  "build_init want_positions want_sidecar =
     \<lparr>bs_terms = [], bs_ht = Map.empty, bs_want_positions = want_positions, bs_want_sidecar = want_sidecar,
      bs_ndocs = 0, bs_sumdoclen = 0, bs_tsv_positionless = 0, bs_dl_all = [], bs_dl_null = []\<rparr>"

definition bs_doclist_push :: "build_state \<Rightarrow> u64 \<Rightarrow> bool \<Rightarrow> build_state" where
  "bs_doclist_push bs docid isnulldoc =
     bs\<lparr>bs_dl_all := bs_dl_all bs @ [docid],
        bs_dl_null := (if isnulldoc then bs_dl_null bs @ [docid] else bs_dl_null bs)\<rparr>"

subsection \<open>Adding a posting\<close>

definition make_termkey :: "u8 list \<Rightarrow> nat \<times> u8 list" where
  \<comment> \<open>the length, and at most \<open>WEAVE_TERMKEYLEN\<close> bytes\<close>
  "make_termkey t = (length t, take 64 t)"

definition build_term_new :: "build_state \<Rightarrow> u8 list \<Rightarrow> int \<Rightarrow> build_state" where
  "build_term_new bs t nxt =
     bs\<lparr>bs_terms := bs_terms bs @
       [\<lparr>bterm = t, bposts = [], bpositions = (if bs_want_positions bs then Some [] else None), bmax_tf = 0, bnext = nxt\<rparr>]\<rparr>"

definition build_term_append ::
  "bool \<Rightarrow> build_term \<Rightarrow> tid \<Rightarrow> u32 \<Rightarrow> u32 \<Rightarrow> u32 list option \<Rightarrow> int \<Rightarrow> build_term" where
  \<comment> \<open>\<open>ptr\<close> is what the pointer to the positions reaches, \<open>npos\<close> how many the caller has\<close>
  "build_term_append want_positions bt t tf doclen ptr npos =
     (let stored = (want_positions \<and> ptr \<noteq> None \<and> npos = sint tf \<and> 0 < tf);
          arena = (case bpositions bt of None \<Rightarrow> [] | Some arena \<Rightarrow> arena)
      in bt\<lparr>bposts := bposts bt @ [\<lparr>bptid = t, bptf = tf, bpdoclen = doclen, bpposoff = of_nat (length arena),
                bpposcnt = (if stored then tf else 0)\<rparr>],
            bpositions := (if stored then Some (arena @ take (unat tf) (the ptr)) else bpositions bt)\<rparr>)"

function chain_find :: "build_term list \<Rightarrow> u8 list \<Rightarrow> int \<Rightarrow> int option option" where
  \<comment> \<open>the walk over the terms of one key; \<open>None\<close> if it leaves the array or does not go to older terms\<close>
  "chain_find terms t idx =
     (if idx < 0 then Some None
      else if int (length terms) \<le> idx then None
      else if bterm (terms ! nat idx) = t then Some (Some idx)
      else if bnext (terms ! nat idx) < idx then chain_find terms t (bnext (terms ! nat idx))
      else None)"
  by pat_completeness auto
termination
  by (relation "measure (\<lambda>(_, _, idx). nat (idx + 1))") auto

declare chain_find.simps [simp del]

definition add_posting ::
  "build_state \<Rightarrow> u8 list \<Rightarrow> tid \<Rightarrow> u32 \<Rightarrow> u32 \<Rightarrow> u32 list option \<Rightarrow> int \<Rightarrow> build_state option" where
  "add_posting bs t x tf doclen ptr npos =
     (let key = make_termkey t in do {
        bt \<leftarrow> (case bs_ht bs key of None \<Rightarrow> Some None | Some head \<Rightarrow> chain_find (bs_terms bs) t head);
        let (bs, idx) =
          (case bt of
             Some i \<Rightarrow> (bs, nat i)
           | None \<Rightarrow>
               let bs = build_term_new bs t (case bs_ht bs key of Some head \<Rightarrow> head | None \<Rightarrow> - 1)
               in (bs\<lparr>bs_ht := (bs_ht bs)(key \<mapsto> int (length (bs_terms bs)) - 1)\<rparr>, length (bs_terms bs) - 1));
        Some (bs\<lparr>bs_terms := (bs_terms bs)[idx := build_term_append (bs_want_positions bs) (bs_terms bs ! idx) x tf doclen ptr npos]\<rparr>)
      })"

subsection \<open>A heap tuple\<close>

record build_row =
  \<comment> \<open>\<open>None\<close> is a NULL document; the flag is \<open>WEAVE_TSV_POSITIONLESS\<close>\<close>
  rw_tid :: tid
  rw_doc :: "(wdoc \<times> bool) option"
  rw_alive :: bool

fun add_entries :: "build_state \<Rightarrow> wdoc \<Rightarrow> tid \<Rightarrow> term_entry list \<Rightarrow> build_state option" where
  "add_entries bs d x [] = Some bs"
| "add_entries bs d x (e # es) = do {
     let haspos = (bs_want_positions bs \<and> WEAVE_DOC_HAS_POS d);
     bs \<leftarrow> add_posting bs (term_text d e) x (etf e) (ddoclen d)
            (if haspos then Some (drop (unat (eposoff e)) (dpositions d)) else None) (if haspos then sint (etf e) else 0);
     add_entries bs d x es
   }"

definition weave_build_callback :: "u64 \<Rightarrow> build_state \<Rightarrow> build_row \<Rightarrow> build_state option" where
  \<comment> \<open>after the check of the memory budget, for the lexical column\<close>
  "weave_build_callback F bs row =
     (let bs = bs_doclist_push bs (weave_tid_to_docid F (rw_tid row)) (rw_doc row = None) in
      case rw_doc row of
        None \<Rightarrow> Some bs
      | Some (d, positionless) \<Rightarrow> do {
          bs \<leftarrow> add_entries bs d (rw_tid row) (dentries d);
          Some (if rw_alive row then
                  bs\<lparr>bs_ndocs := bs_ndocs bs + 1, bs_sumdoclen := bs_sumdoclen bs + unat (ddoclen d),
                     bs_tsv_positionless := (if positionless then bs_tsv_positionless bs + 1 else bs_tsv_positionless bs)\<rparr>
                else bs)
        })"

subsection \<open>What a term holds\<close>

record logical_posting =
  lptid :: tid
  lptf :: u32
  lpdoclen :: u32
  lppos :: "u32 list option"

definition logical_of :: "u32 list option \<Rightarrow> build_posting \<Rightarrow> logical_posting" where
  "logical_of positions p =
     \<lparr>lptid = bptid p, lptf = bptf p, lpdoclen = bpdoclen p,
      lppos = (case positions of None \<Rightarrow> None
               | Some arena \<Rightarrow> if bpposcnt p = 0 then None
                   else Some (take (unat (bpposcnt p)) (drop (unat (bpposoff p)) arena)))\<rparr>"

definition term_posts :: "build_state \<Rightarrow> u8 list \<Rightarrow> logical_posting list" where
  "term_posts bs t =
     (case find (\<lambda>bt. bterm bt = t) (bs_terms bs) of None \<Rightarrow> []
      | Some bt \<Rightarrow> map (logical_of (bpositions bt)) (bposts bt))"

definition entry_posting :: "bool \<Rightarrow> wdoc \<Rightarrow> tid \<Rightarrow> term_entry \<Rightarrow> logical_posting" where
  "entry_posting want_positions d x e =
     \<lparr>lptid = x, lptf = etf e, lpdoclen = ddoclen d,
      lppos = (if want_positions \<and> WEAVE_DOC_HAS_POS d \<and> 0 < etf e then Some (term_pos d e) else None)\<rparr>"

definition row_posts :: "bool \<Rightarrow> u8 list \<Rightarrow> build_row \<Rightarrow> logical_posting list" where
  "row_posts want_positions t row =
     (case rw_doc row of None \<Rightarrow> []
      | Some (d, _) \<Rightarrow> map (entry_posting want_positions d (rw_tid row)) (filter (\<lambda>e. term_text d e = t) (dentries d)))"

subsection \<open>The hash chains\<close>

inductive key_chain :: "build_term list \<Rightarrow> int \<Rightarrow> nat list \<Rightarrow> bool" for terms where
  \<comment> \<open>the terms a walk from an index visits\<close>
  chain_end: "key_chain terms (- 1) []"
| chain_step: "i < length terms \<Longrightarrow> bnext (terms ! i) < int i \<Longrightarrow> key_chain terms (bnext (terms ! i)) is \<Longrightarrow>
    key_chain terms (int i) (i # is)"

definition same_links :: "build_term list \<Rightarrow> build_term list \<Rightarrow> bool" where
  "same_links ts us \<longleftrightarrow> length ts \<le> length us \<and> (\<forall>i<length ts. bterm (us ! i) = bterm (ts ! i) \<and> bnext (us ! i) = bnext (ts ! i))"

lemma key_chain_same: "key_chain ts h is \<Longrightarrow> same_links ts us \<Longrightarrow> key_chain us h is"
  by (induction rule: key_chain.induct) (auto simp: same_links_def intro!: key_chain.intros)

lemma chain_find_ok:
  assumes "key_chain terms h is"
  shows "chain_find terms t h = Some (map_option int (find (\<lambda>i. bterm (terms ! i) = t) is))"
  using assms
proof induction
  case chain_end
  show ?case by (subst chain_find.simps) simp
next
  case (chain_step i "is")
  then show ?case by (subst chain_find.simps) simp
qed

definition key_ok :: "build_term list \<Rightarrow> nat \<times> u8 list \<Rightarrow> int option \<Rightarrow> bool" where
  "key_ok terms k head \<longleftrightarrow>
     (case head of None \<Rightarrow> {i. i < length terms \<and> make_termkey (bterm (terms ! i)) = k} = {}
      | Some h \<Rightarrow> \<exists>is. key_chain terms h is \<and> set is = {i. i < length terms \<and> make_termkey (bterm (terms ! i)) = k})"

definition chains_ok :: "build_term list \<Rightarrow> (nat \<times> u8 list \<Rightarrow> int option) \<Rightarrow> bool" where
  "chains_ok terms ht \<longleftrightarrow> (\<forall>k. key_ok terms k (ht k))"

lemma chains_key: "chains_ok terms ht \<Longrightarrow> key_ok terms k (ht k)"
  unfolding chains_ok_def by (rule spec)

lemma chains_found:
  assumes "chains_ok terms ht" and "distinct (map bterm terms)"
  shows "(case ht (make_termkey t) of None \<Rightarrow> Some None | Some head \<Rightarrow> chain_find terms t head) =
    Some (if \<exists>i<length terms. bterm (terms ! i) = t then Some (int (THE i. i < length terms \<and> bterm (terms ! i) = t)) else None)"
proof (cases "ht (make_termkey t)")
  case None
  then have "{i. i < length terms \<and> make_termkey (bterm (terms ! i)) = make_termkey t} = {}"
    using chains_key [OF assms(1), of "make_termkey t"] by (simp add: key_ok_def)
  then have "\<not> (\<exists>i<length terms. bterm (terms ! i) = t)" by auto
  then show ?thesis using None by simp
next
  case (Some h)
  then obtain "is" where c: "key_chain terms h is" "set is = {i. i < length terms \<and> make_termkey (bterm (terms ! i)) = make_termkey t}"
    using chains_key [OF assms(1), of "make_termkey t"] by (auto simp: key_ok_def)
  have "find (\<lambda>i. bterm (terms ! i) = t) is =
      (if \<exists>i<length terms. bterm (terms ! i) = t then Some (THE i. i < length terms \<and> bterm (terms ! i) = t) else None)"
  proof (cases "find (\<lambda>i. bterm (terms ! i) = t) is")
    case None
    then show ?thesis using c(2) by (auto simp: find_None_iff)
  next
    case f: (Some i)
    then have "i \<in> set is" and i': "bterm (terms ! i) = t" by (auto simp: find_Some_iff in_set_conv_nth)
    then have i: "i < length terms" "bterm (terms ! i) = t" using c(2) by auto
    have "(THE i. i < length terms \<and> bterm (terms ! i) = t) = i"
      by (rule the_equality) (use i assms(2) in \<open>auto simp: distinct_conv_nth\<close>)
    then show ?thesis using f i by auto
  qed
  then show ?thesis using Some chain_find_ok [OF c(1), of t] by simp
qed

lemma chains_push:
  assumes "chains_ok terms ht" and "bnext b = (case ht (make_termkey (bterm b)) of Some head \<Rightarrow> head | None \<Rightarrow> - 1)"
  shows "chains_ok (terms @ [b]) (ht(make_termkey (bterm b) \<mapsto> int (length terms)))"
  unfolding chains_ok_def
proof
  fix k
  let ?us = "terms @ [b]" and ?k = "make_termkey (bterm b)"
  let ?at = "\<lambda>ts k. {i. i < length ts \<and> make_termkey (bterm (ts ! i)) = k}"
  have same: "same_links terms ?us" by (simp add: same_links_def nth_append)
  have at: "?at ?us k = (if k = ?k then insert (length terms) (?at terms k) else ?at terms k)"
    by (auto simp: nth_append less_Suc_eq)
  have old: "key_ok terms k (ht k)" using chains_key [OF assms(1)] .
  show "key_ok ?us k ((ht(?k \<mapsto> int (length terms))) k)"
  proof (cases "k = ?k")
    case False
    then show ?thesis
      using old key_chain_same [OF _ same] unfolding key_ok_def at by (simp split: option.splits) blast
  next
    case True
    obtain "is" where c: "key_chain terms (bnext b) is" "set is = ?at terms ?k"
      using old True assms(2) chain_end [of terms] by (cases "ht ?k") (auto simp: key_ok_def intro: that [of "[]"])
    have "bnext b < int (length terms)" using c(1) by cases auto
    then have "key_chain ?us (int (length terms)) (length terms # is)"
      using key_chain_same [OF c(1) same] by (intro chain_step) simp_all
    moreover have "set (length terms # is) = ?at ?us k" unfolding at using c(2) True by simp
    ultimately show ?thesis unfolding key_ok_def using True by auto
  qed
qed

lemma chains_same:
  assumes "chains_ok ts ht" and "same_links ts us" and "length us = length ts"
  shows "chains_ok us ht"
  unfolding chains_ok_def
proof
  fix k
  have "{i. i < length us \<and> make_termkey (bterm (us ! i)) = k} = {i. i < length ts \<and> make_termkey (bterm (ts ! i)) = k}"
    using assms(2,3) by (auto simp: same_links_def)
  then show "key_ok us k (ht k)"
    using chains_key [OF assms(1), of k] key_chain_same [OF _ assms(2)] unfolding key_ok_def
    by (simp split: option.splits) blast
qed

subsection \<open>The invariant of the build state\<close>

definition term_wf :: "bool \<Rightarrow> nat \<Rightarrow> build_term \<Rightarrow> bool" where
  \<comment> \<open>\<open>n\<close> bounds the occurrences so far\<close>
  "term_wf want n bt \<longleftrightarrow> (bpositions bt = None \<longleftrightarrow> \<not> want) \<and> list_all (\<lambda>p. 0 < bptf p) (bposts bt) \<and>
     sum_list (map (\<lambda>p. unat (bptf p)) (bposts bt)) \<le> n \<and>
     (case bpositions bt of None \<Rightarrow> True
      | Some arena \<Rightarrow> length arena \<le> n \<and> sum_list (map (\<lambda>p. unat (bpposcnt p)) (bposts bt)) = length arena \<and>
          list_all (\<lambda>p. unat (bpposoff p) + unat (bpposcnt p) \<le> length arena) (bposts bt))"

definition build_inv :: "nat \<Rightarrow> build_state \<Rightarrow> bool" where
  "build_inv n bs \<longleftrightarrow> distinct (map bterm (bs_terms bs)) \<and> chains_ok (bs_terms bs) (bs_ht bs) \<and>
     list_all (term_wf (bs_want_positions bs) n) (bs_terms bs)"

lemma term_wf_mono: "term_wf want n bt \<Longrightarrow> n \<le> m \<Longrightarrow> term_wf want m bt"
  by (auto simp: term_wf_def split: option.splits)

lemma logical_extend:
  "unat (bpposoff p) + unat (bpposcnt p) \<le> length arena \<Longrightarrow> logical_of (Some (arena @ ps)) p = logical_of (Some arena) p"
  by (simp add: logical_of_def)

lemma term_append_ok:
  fixes x :: tid and doclen :: u32 and npos :: int
  assumes wf: "term_wf want n bt" and tf: "0 < tf" and n: "n + unat tf < 2 ^ 31"
    and ptr: "want \<Longrightarrow> ptr \<noteq> None \<Longrightarrow> unat tf \<le> length (the ptr)"
  defines "bt' \<equiv> build_term_append want bt x tf doclen ptr npos"
  shows "term_wf want (n + unat tf) bt'" and "bterm bt' = bterm bt" and "bnext bt' = bnext bt"
    and "map (logical_of (bpositions bt')) (bposts bt') = map (logical_of (bpositions bt)) (bposts bt) @
      [\<lparr>lptid = x, lptf = tf, lpdoclen = doclen,
        lppos = (if want \<and> ptr \<noteq> None \<and> npos = sint tf then Some (take (unat tf) (the ptr)) else None)\<rparr>]"
proof -
  show "bterm bt' = bterm bt" "bnext bt' = bnext bt" by (simp_all add: bt'_def build_term_append_def Let_def)
  have u: "0 < unat tf" using tf by (simp add: word_less_nat_alt)
  have off: "unat (of_nat (length arena) :: u32) = length arena" if "bpositions bt = Some arena" for arena
    using wf n that by (intro of_nat_32) (simp add: term_wf_def)
  show "term_wf want (n + unat tf) bt'"
  proof (cases "want \<and> ptr \<noteq> None \<and> npos = sint tf")
    case True
    then obtain arena where "bpositions bt = Some arena" using wf by (auto simp: term_wf_def)
    then show ?thesis
      using wf tf u ptr True off
      by (auto simp: bt'_def build_term_append_def Let_def term_wf_def list_all_iff)
  next
    case False
    then show ?thesis
      using wf tf off unfolding bt'_def build_term_append_def Let_def term_wf_def
      by (cases "bpositions bt") auto
  qed
  show "map (logical_of (bpositions bt')) (bposts bt') = map (logical_of (bpositions bt)) (bposts bt) @
      [\<lparr>lptid = x, lptf = tf, lpdoclen = doclen,
        lppos = (if want \<and> ptr \<noteq> None \<and> npos = sint tf then Some (take (unat tf) (the ptr)) else None)\<rparr>]"
  proof (cases "want \<and> ptr \<noteq> None \<and> npos = sint tf")
    case True
    then obtain arena where a: "bpositions bt = Some arena" using wf by (auto simp: term_wf_def)
    have old: "map (logical_of (Some (arena @ ps))) (bposts bt) = map (logical_of (Some arena)) (bposts bt)" for ps
      using wf a by (auto simp: term_wf_def list_all_iff intro!: logical_extend)
    show ?thesis
      using True tf u a old off [OF a] ptr
      by (simp add: bt'_def build_term_append_def Let_def) (auto simp: logical_of_def)
  next
    case False
    then show ?thesis
      using tf by (cases "bpositions bt") (auto simp: bt'_def build_term_append_def Let_def logical_of_def)
  qed
qed

lemma find_index:
  assumes "distinct (map f xs)" and "i < length xs" and "f (xs ! i) = t"
  shows "find (\<lambda>x. f x = t) xs = Some (xs ! i)"
  using assms by (auto simp: find_Some_iff distinct_conv_nth intro!: exI [of _ i])

lemma term_posts_at:
  "distinct (map bterm (bs_terms bs)) \<Longrightarrow> i < length (bs_terms bs) \<Longrightarrow>
   term_posts bs (bterm (bs_terms bs ! i)) = map (logical_of (bpositions (bs_terms bs ! i))) (bposts (bs_terms bs ! i))"
  by (simp add: term_posts_def find_index)

lemma term_posts_update:
  assumes d: "distinct (map bterm (bs_terms bs))" and i: "i < length (bs_terms bs)" and b: "bterm b = bterm (bs_terms bs ! i)"
  shows "term_posts (bs\<lparr>bs_terms := (bs_terms bs)[i := b]\<rparr>) t =
    (if t = bterm b then map (logical_of (bpositions b)) (bposts b) else term_posts bs t)"
proof -
  have same: "map bterm ((bs_terms bs)[i := b]) = map bterm (bs_terms bs)"
    using b i by (simp add: map_update list_update_same_conv)
  show ?thesis
  proof (cases "t = bterm b")
    case True
    then show ?thesis
      using find_index [of bterm "(bs_terms bs)[i := b]" i t] same d i by (simp add: term_posts_def)
  next
    case False
    have "find (\<lambda>bt. bterm bt = t) ((bs_terms bs)[i := b]) = find (\<lambda>bt. bterm bt = t) (bs_terms bs)"
    proof -
      have "bs_terms bs = take i (bs_terms bs) @ bs_terms bs ! i # drop (Suc i) (bs_terms bs)" using i by (rule id_take_nth_drop)
      moreover have "(bs_terms bs)[i := b] = take i (bs_terms bs) @ b # drop (Suc i) (bs_terms bs)" using i by (rule upd_conv_take_nth_drop)
      moreover have "find P (us @ v # ws) = find P (us @ w # ws)" if "\<not> P v" "\<not> P w" for P and us ws :: "build_term list" and v w
        using that by (induction us) auto
      ultimately show ?thesis using False b by metis
    qed
    then show ?thesis using False by (simp add: term_posts_def)
  qed
qed

subsection \<open>Adding postings refines the specification\<close>

lemma update_inv:
  assumes "build_inv n bs" and "i < length (bs_terms bs)" and "bterm b = bterm (bs_terms bs ! i)"
    and "bnext b = bnext (bs_terms bs ! i)" and "term_wf (bs_want_positions bs) m b" and "n \<le> m"
  shows "build_inv m (bs\<lparr>bs_terms := (bs_terms bs)[i := b]\<rparr>)"
proof -
  have same: "map bterm ((bs_terms bs)[i := b]) = map bterm (bs_terms bs)"
    using assms(2,3) by (simp add: map_update list_update_same_conv)
  have "same_links (bs_terms bs) ((bs_terms bs)[i := b])"
    using assms(2-4) by (auto simp: same_links_def nth_list_update)
  then have "chains_ok ((bs_terms bs)[i := b]) (bs_ht bs)"
    using assms(1) chains_same unfolding build_inv_def by (metis length_list_update)
  moreover have "list_all (term_wf (bs_want_positions bs) m) ((bs_terms bs)[i := b])"
    using assms(1,5,6) term_wf_mono set_update_subset_insert [of "bs_terms bs" i b]
    by (fastforce simp: build_inv_def list_all_iff)
  ultimately show ?thesis using assms(1) same by (simp add: build_inv_def)
qed

lemma new_inv:
  assumes inv: "build_inv n bs" and new: "\<not> (\<exists>i<length (bs_terms bs). bterm (bs_terms bs ! i) = t)"
  defines "bs1 \<equiv> build_term_new bs t (case bs_ht bs (make_termkey t) of Some head \<Rightarrow> head | None \<Rightarrow> - 1)"
  defines "bs' \<equiv> bs1\<lparr>bs_ht := (bs_ht bs1)(make_termkey t \<mapsto> int (length (bs_terms bs1)) - 1)\<rparr>"
  shows "build_inv n bs'" and "length (bs_terms bs') = Suc (length (bs_terms bs))"
    and "bterm (bs_terms bs' ! length (bs_terms bs)) = t" and "bs_want_positions bs' = bs_want_positions bs"
    and "term_posts bs' u = term_posts bs u" and "map bterm (bs_terms bs') = map bterm (bs_terms bs) @ [t]"
    and "bposts (bs_terms bs' ! length (bs_terms bs)) = []"
proof -
  let ?b = "\<lparr>bterm = t, bposts = [], bpositions = (if bs_want_positions bs then Some [] else None), bmax_tf = 0,
      bnext = (case bs_ht bs (make_termkey t) of Some head \<Rightarrow> head | None \<Rightarrow> - 1)\<rparr>"
  have terms: "bs_terms bs' = bs_terms bs @ [?b]" "bs_ht bs' = (bs_ht bs)(make_termkey t \<mapsto> int (length (bs_terms bs)))"
      "bs_want_positions bs' = bs_want_positions bs"
    by (simp_all add: bs'_def bs1_def build_term_new_def)
  then show "length (bs_terms bs') = Suc (length (bs_terms bs))" "bterm (bs_terms bs' ! length (bs_terms bs)) = t"
      "bs_want_positions bs' = bs_want_positions bs" "map bterm (bs_terms bs') = map bterm (bs_terms bs) @ [t]"
      "bposts (bs_terms bs' ! length (bs_terms bs)) = []" by simp_all
  have "t \<notin> set (map bterm (bs_terms bs))" using new by (auto simp: in_set_conv_nth)
  moreover have "chains_ok (bs_terms bs @ [?b]) ((bs_ht bs)(make_termkey t \<mapsto> int (length (bs_terms bs))))"
    using chains_push [of "bs_terms bs" "bs_ht bs" ?b] inv by (simp add: build_inv_def)
  moreover have "term_wf (bs_want_positions bs) n ?b" by (simp add: term_wf_def)
  ultimately show "build_inv n bs'" using inv terms by (simp add: build_inv_def)
  have "find P (xs @ [?b]) = (case find P xs of None \<Rightarrow> if P ?b then Some ?b else None | Some x \<Rightarrow> Some x)" for P xs
    by (induction xs) auto
  then show "term_posts bs' u = term_posts bs u"
    by (simp add: term_posts_def terms split: option.split)
qed

abbreviation same_frame :: "build_state \<Rightarrow> build_state \<Rightarrow> bool" where
  \<comment> \<open>only the terms and the hash table differ\<close>
  "same_frame bs bs' \<equiv> bs' = bs\<lparr>bs_terms := bs_terms bs', bs_ht := bs_ht bs'\<rparr>"

lemma add_posting_ok:
  assumes inv: "build_inv n bs" and tf: "0 < tf" and n: "n + unat tf < 2 ^ 31"
    and ptr: "bs_want_positions bs \<Longrightarrow> ptr \<noteq> None \<Longrightarrow> unat tf \<le> length (the ptr)"
  shows "\<exists>bs'. add_posting bs t x tf doclen ptr npos = Some bs' \<and> build_inv (n + unat tf) bs' \<and> same_frame bs bs' \<and>
    set (map bterm (bs_terms bs')) = insert t (set (map bterm (bs_terms bs))) \<and>
    (\<forall>u. term_posts bs' u = term_posts bs u @ (if u = t then
      [\<lparr>lptid = x, lptf = tf, lpdoclen = doclen,
        lppos = (if bs_want_positions bs \<and> ptr \<noteq> None \<and> npos = sint tf then Some (take (unat tf) (the ptr)) else None)\<rparr>] else []))"
proof -
  have core: "\<exists>bs'. bs' = bs0\<lparr>bs_terms := (bs_terms bs0)[i := build_term_append (bs_want_positions bs0) (bs_terms bs0 ! i) x tf doclen ptr npos]\<rparr> \<and>
      build_inv (n + unat tf) bs' \<and> map bterm (bs_terms bs') = map bterm (bs_terms bs0) \<and>
      (\<forall>u. term_posts bs' u = term_posts bs0 u @ (if u = t then
        [\<lparr>lptid = x, lptf = tf, lpdoclen = doclen,
          lppos = (if bs_want_positions bs \<and> ptr \<noteq> None \<and> npos = sint tf then Some (take (unat tf) (the ptr)) else None)\<rparr>] else []))"
    if i: "build_inv n bs0" "i < length (bs_terms bs0)" "bterm (bs_terms bs0 ! i) = t" "bs_want_positions bs0 = bs_want_positions bs"
    for bs0 i
  proof -
    have wf: "term_wf (bs_want_positions bs0) n (bs_terms bs0 ! i)" and d: "distinct (map bterm (bs_terms bs0))"
      using i(1,2) by (simp_all add: build_inv_def list_all_iff)
    let ?b = "build_term_append (bs_want_positions bs0) (bs_terms bs0 ! i) x tf doclen ptr npos"
    note app = term_append_ok [OF wf tf n ptr [unfolded i(4) [symmetric]], of x doclen npos]
    have b: "bterm ?b = bterm (bs_terms bs0 ! i)" using app(2) by simp
    show ?thesis
      using update_inv [OF i(1,2) b _ app(1)] app(3,4) term_posts_update [OF d i(2) b] term_posts_at [OF d i(2)] i(2-4) b
      by (auto simp: map_update list_update_same_conv)
  qed
  let ?ex = "\<exists>i<length (bs_terms bs). bterm (bs_terms bs ! i) = t"
  have d: "distinct (map bterm (bs_terms bs))" "chains_ok (bs_terms bs) (bs_ht bs)" using inv by (simp_all add: build_inv_def)
  note found = chains_found [OF d(2,1), of t]
  show ?thesis
  proof (cases ?ex)
    case True
    then obtain i where i: "i < length (bs_terms bs)" "bterm (bs_terms bs ! i) = t" by blast
    have the: "(THE i. i < length (bs_terms bs) \<and> bterm (bs_terms bs ! i) = t) = i"
      by (rule the_equality) (use i d(1) in \<open>auto simp: distinct_conv_nth\<close>)
    have t: "insert t (set (map bterm (bs_terms bs))) = set (map bterm (bs_terms bs))" using i by (auto simp: insert_absorb)
    obtain bs' where bs': "bs' = bs\<lparr>bs_terms := (bs_terms bs)[i := build_term_append (bs_want_positions bs) (bs_terms bs ! i) x tf doclen ptr npos]\<rparr>"
        and r: "build_inv (n + unat tf) bs'" "map bterm (bs_terms bs') = map bterm (bs_terms bs)"
          "\<forall>u. term_posts bs' u = term_posts bs u @ (if u = t then
            [\<lparr>lptid = x, lptf = tf, lpdoclen = doclen,
              lppos = (if bs_want_positions bs \<and> ptr \<noteq> None \<and> npos = sint tf then Some (take (unat tf) (the ptr)) else None)\<rparr>] else [])"
      using core [OF inv i refl] by blast
    have "add_posting bs t x tf doclen ptr npos = Some bs'"
      unfolding add_posting_def Let_def found bs' using True the by simp
    moreover have "same_frame bs bs'" unfolding bs' by simp
    moreover have "set (map bterm (bs_terms bs')) = set (map bterm (bs_terms bs))" unfolding r(2) ..
    ultimately show ?thesis unfolding t using r(1,3) by blast
  next
    case False
    let ?bs1 = "build_term_new bs t (case bs_ht bs (make_termkey t) of Some head \<Rightarrow> head | None \<Rightarrow> - 1)"
    let ?bs2 = "?bs1\<lparr>bs_ht := (bs_ht ?bs1)(make_termkey t \<mapsto> int (length (bs_terms ?bs1)) - 1)\<rparr>"
    note new = new_inv [OF inv False]
    have len: "length (bs_terms ?bs2) - 1 = length (bs_terms bs)" using new(2) by simp
    have lt: "length (bs_terms bs) < length (bs_terms ?bs2)" using new(2) by simp
    have frame: "same_frame bs ?bs2" by (simp add: build_term_new_def)
    have add: "add_posting bs t x tf doclen ptr npos = Some (?bs2\<lparr>bs_terms := (bs_terms ?bs2)[length (bs_terms bs) :=
        build_term_append (bs_want_positions ?bs2) (bs_terms ?bs2 ! length (bs_terms bs)) x tf doclen ptr npos]\<rparr>)"
      using found False len unfolding add_posting_def Let_def by simp
    obtain bs' where bs': "bs' = ?bs2\<lparr>bs_terms := (bs_terms ?bs2)[length (bs_terms bs) :=
          build_term_append (bs_want_positions ?bs2) (bs_terms ?bs2 ! length (bs_terms bs)) x tf doclen ptr npos]\<rparr>"
        and r: "build_inv (n + unat tf) bs'" "map bterm (bs_terms bs') = map bterm (bs_terms ?bs2)"
          "\<forall>u. term_posts bs' u = term_posts ?bs2 u @ (if u = t then
            [\<lparr>lptid = x, lptf = tf, lpdoclen = doclen,
              lppos = (if bs_want_positions bs \<and> ptr \<noteq> None \<and> npos = sint tf then Some (take (unat tf) (the ptr)) else None)\<rparr>] else [])"
      using core [OF new(1) lt new(3,4)] by blast
    have names: "set (map bterm (bs_terms bs')) = insert t (set (map bterm (bs_terms bs)))" unfolding r(2) new(6) by simp
    have "same_frame bs bs'" unfolding bs' by (simp add: build_term_new_def)
    then show ?thesis
      using add [folded bs'] r(1,3) names unfolding new(5) by blast
  qed
qed

definition doc_indexable :: "wdoc \<Rightarrow> bool" where
  "doc_indexable d \<longleftrightarrow> doc_ok d \<and>
     list_all (\<lambda>e. 0 < etf e \<and> (WEAVE_DOC_HAS_POS d \<longrightarrow> length (term_pos d e) = unat (etf e))) (dentries d)"

definition entries_weight :: "term_entry list \<Rightarrow> nat" where
  "entries_weight es = sum_list (map (\<lambda>e. unat (etf e)) es)"

definition row_weight :: "build_row \<Rightarrow> nat" where
  "row_weight row = (case rw_doc row of None \<Rightarrow> 0 | Some (d, _) \<Rightarrow> entries_weight (dentries d))"

definition row_terms :: "build_row \<Rightarrow> u8 list set" where
  "row_terms row = (case rw_doc row of None \<Rightarrow> {} | Some (d, _) \<Rightarrow> set (doc_terms d))"

lemma same_frame_trans: "same_frame a b \<Longrightarrow> same_frame b c \<Longrightarrow> same_frame a c"
  by (cases a; cases b; cases c) simp

lemma add_entries_ok:
  assumes "build_inv n bs" and "n + entries_weight es < 2 ^ 31"
    and "list_all (\<lambda>e. 0 < etf e \<and> (WEAVE_DOC_HAS_POS d \<longrightarrow> length (term_pos d e) = unat (etf e))) es"
  shows "\<exists>bs'. add_entries bs d x es = Some bs' \<and> build_inv (n + entries_weight es) bs' \<and> same_frame bs bs' \<and>
    set (map bterm (bs_terms bs')) = set (map bterm (bs_terms bs)) \<union> term_text d ` set es \<and>
    (\<forall>t. term_posts bs' t = term_posts bs t @
      map (entry_posting (bs_want_positions bs) d x) (filter (\<lambda>e. term_text d e = t) es))"
  using assms
proof (induction es arbitrary: n bs)
  case (Cons e es)
  let ?ptr = "if bs_want_positions bs \<and> WEAVE_DOC_HAS_POS d then Some (drop (unat (eposoff e)) (dpositions d)) else None"
  let ?npos = "if bs_want_positions bs \<and> WEAVE_DOC_HAS_POS d then sint (etf e) else 0"
  have tf: "0 < etf e" "WEAVE_DOC_HAS_POS d \<Longrightarrow> unat (etf e) \<le> length (drop (unat (eposoff e)) (dpositions d))"
    using Cons.prems(3) by (auto simp: term_pos_def)
  have w: "n + unat (etf e) < 2 ^ 31" "(n + unat (etf e)) + entries_weight es < 2 ^ 31"
    using Cons.prems(2) by (simp_all add: entries_weight_def)
  have ptr: "unat (etf e) \<le> length (the ?ptr)" if "bs_want_positions bs" "?ptr \<noteq> None"
    using tf(2) that by (auto split: if_splits)
  obtain bs1 where a: "add_posting bs (term_text d e) x (etf e) (ddoclen d) ?ptr ?npos = Some bs1"
      "build_inv (n + unat (etf e)) bs1" "same_frame bs bs1"
      "set (map bterm (bs_terms bs1)) = insert (term_text d e) (set (map bterm (bs_terms bs)))"
      "\<forall>u. term_posts bs1 u = term_posts bs u @ (if u = term_text d e then
        [\<lparr>lptid = x, lptf = etf e, lpdoclen = ddoclen d,
          lppos = (if bs_want_positions bs \<and> ?ptr \<noteq> None \<and> ?npos = sint (etf e)
            then Some (take (unat (etf e)) (the ?ptr)) else None)\<rparr>] else [])"
    using add_posting_ok [OF Cons.prems(1) tf(1) w(1) ptr, of "term_text d e" x "ddoclen d" ?npos] by blast
  have want: "bs_want_positions bs1 = bs_want_positions bs" using arg_cong [OF a(3), of bs_want_positions] by simp
  have lp: "\<lparr>lptid = x, lptf = etf e, lpdoclen = ddoclen d,
          lppos = (if bs_want_positions bs \<and> ?ptr \<noteq> None \<and> ?npos = sint (etf e)
            then Some (take (unat (etf e)) (the ?ptr)) else None)\<rparr> = entry_posting (bs_want_positions bs) d x e"
    using tf(1) by (auto simp: entry_posting_def term_pos_def)
  obtain bs2 where r: "add_entries bs1 d x es = Some bs2" "build_inv (n + unat (etf e) + entries_weight es) bs2" "same_frame bs1 bs2"
      "set (map bterm (bs_terms bs2)) = set (map bterm (bs_terms bs1)) \<union> term_text d ` set es"
      "\<forall>t. term_posts bs2 t = term_posts bs1 t @
        map (entry_posting (bs_want_positions bs1) d x) (filter (\<lambda>e. term_text d e = t) es)"
    using Cons.IH [OF a(2) w(2)] Cons.prems(3) by auto
  have "add_entries bs d x (e # es) = Some bs2" using a(1) r(1) by simp
  moreover have "same_frame bs bs2" using a(3) r(3) by (rule same_frame_trans)
  moreover have "build_inv (n + entries_weight (e # es)) bs2" using r(2) by (simp add: entries_weight_def add.assoc)
  moreover have "\<forall>t. term_posts bs2 t = term_posts bs t @
      map (entry_posting (bs_want_positions bs) d x) (filter (\<lambda>e. term_text d e = t) (e # es))"
    using r(5) a(5) want unfolding lp by simp
  moreover have "set (map bterm (bs_terms bs2)) = set (map bterm (bs_terms bs)) \<union> term_text d ` set (e # es)"
    unfolding r(4) a(4) by auto
  ultimately show ?case by blast
qed (simp add: entries_weight_def)

fun build_rows :: "u64 \<Rightarrow> build_state \<Rightarrow> build_row list \<Rightarrow> build_state option" where
  "build_rows F bs [] = Some bs"
| "build_rows F bs (row # rows) = do {
     bs \<leftarrow> weave_build_callback F bs row;
     build_rows F bs rows
   }"

definition rows_indexable :: "build_row list \<Rightarrow> bool" where
  "rows_indexable rows \<longleftrightarrow> list_all (\<lambda>row. case rw_doc row of None \<Rightarrow> True | Some (d, _) \<Rightarrow> doc_indexable d) rows"

abbreviation counted_rows :: "build_row list \<Rightarrow> build_row list" where
  "counted_rows rows \<equiv> filter (\<lambda>row. rw_doc row \<noteq> None \<and> rw_alive row) rows"

definition builds :: "u64 \<Rightarrow> build_state \<Rightarrow> build_row list \<Rightarrow> build_state \<Rightarrow> bool" where
  \<comment> \<open>what the state holds after these rows\<close>
  "builds F bs rows bs' \<longleftrightarrow>
     bs_want_positions bs' = bs_want_positions bs \<and> bs_want_sidecar bs' = bs_want_sidecar bs \<and>
     set (map bterm (bs_terms bs')) = set (map bterm (bs_terms bs)) \<union> (\<Union>row\<in>set rows. row_terms row) \<and>
     (\<forall>t. term_posts bs' t = term_posts bs t @ concat (map (row_posts (bs_want_positions bs) t) rows)) \<and>
     bs_dl_all bs' = bs_dl_all bs @ map (\<lambda>row. weave_tid_to_docid F (rw_tid row)) rows \<and>
     bs_dl_null bs' = bs_dl_null bs @ map (\<lambda>row. weave_tid_to_docid F (rw_tid row)) (filter (\<lambda>row. rw_doc row = None) rows) \<and>
     bs_ndocs bs' = bs_ndocs bs + length (counted_rows rows)"

lemma build_callback_ok:
  assumes "build_inv n bs" and "n + row_weight row < 2 ^ 31" and "rows_indexable [row]"
  shows "\<exists>bs'. weave_build_callback F bs row = Some bs' \<and> build_inv (n + row_weight row) bs' \<and> builds F bs [row] bs'"
proof -
  let ?bs = "bs_doclist_push bs (weave_tid_to_docid F (rw_tid row)) (rw_doc row = None)"
  have inv: "build_inv n ?bs" using assms(1) by (simp add: build_inv_def bs_doclist_push_def)
  have tp: "term_posts (bs_doclist_push bs i b) = term_posts bs" for i b by (simp add: fun_eq_iff term_posts_def bs_doclist_push_def)
  show ?thesis
  proof (cases "rw_doc row")
    case None
    then show ?thesis
      using inv tp by (simp add: weave_build_callback_def builds_def row_weight_def row_terms_def row_posts_def) (simp add: bs_doclist_push_def)
  next
    case (Some dp)
    obtain d positionless where d: "rw_doc row = Some (d, positionless)" using Some by (cases dp) simp
    have es: "list_all (\<lambda>e. 0 < etf e \<and> (WEAVE_DOC_HAS_POS d \<longrightarrow> length (term_pos d e) = unat (etf e))) (dentries d)"
      using assms(3) d by (simp add: rows_indexable_def doc_indexable_def)
    have w: "n + entries_weight (dentries d) < 2 ^ 31" using assms(2) d by (simp add: row_weight_def)
    obtain bs1 where a: "add_entries ?bs d (rw_tid row) (dentries d) = Some bs1" "build_inv (n + entries_weight (dentries d)) bs1"
        "same_frame ?bs bs1"
        "set (map bterm (bs_terms bs1)) = set (map bterm (bs_terms ?bs)) \<union> term_text d ` set (dentries d)"
        "\<forall>t. term_posts bs1 t = term_posts ?bs t @
          map (entry_posting (bs_want_positions ?bs) d (rw_tid row)) (filter (\<lambda>e. term_text d e = t) (dentries d))"
      using add_entries_ok [OF inv w es, of "rw_tid row"] by blast
    let ?bs2 = "if rw_alive row then
        bs1\<lparr>bs_ndocs := bs_ndocs bs1 + 1, bs_sumdoclen := bs_sumdoclen bs1 + unat (ddoclen d),
           bs_tsv_positionless := (if positionless then bs_tsv_positionless bs1 + 1 else bs_tsv_positionless bs1)\<rparr>
        else bs1"
    have c: "weave_build_callback F bs row = Some ?bs2" using d a(1) by (simp add: weave_build_callback_def Let_def)
    have fields: "bs_want_positions bs1 = bs_want_positions bs" "bs_want_sidecar bs1 = bs_want_sidecar bs" "bs_ndocs bs1 = bs_ndocs bs"
        "bs_dl_all bs1 = bs_dl_all bs @ [weave_tid_to_docid F (rw_tid row)]" "bs_dl_null bs1 = bs_dl_null bs"
      using arg_cong [OF a(3), of bs_want_positions] arg_cong [OF a(3), of bs_want_sidecar] arg_cong [OF a(3), of bs_ndocs]
        arg_cong [OF a(3), of bs_dl_all] arg_cong [OF a(3), of bs_dl_null] d by (simp_all add: bs_doclist_push_def)
    have inv2: "build_inv (n + row_weight row) ?bs2" using a(2) d by (simp add: build_inv_def row_weight_def)
    have tp2: "term_posts ?bs2 = term_posts bs1" "bs_terms ?bs2 = bs_terms bs1" by (simp_all add: fun_eq_iff term_posts_def)
    have "builds F bs [row] ?bs2"
      using fields a(4,5) d unfolding builds_def tp2 tp
      by (simp add: row_posts_def row_terms_def doc_terms_def) (simp add: bs_doclist_push_def)
    then show ?thesis using c inv2 by blast
  qed
qed

lemma builds_trans: "builds F bs [row] bs1 \<Longrightarrow> builds F bs1 rows bs2 \<Longrightarrow> builds F bs (row # rows) bs2"
  by (auto simp: builds_def)

lemma build_rows_ok:
  assumes "build_inv n bs" and "n + sum_list (map row_weight rows) < 2 ^ 31" and "rows_indexable rows"
  shows "\<exists>bs'. build_rows F bs rows = Some bs' \<and> build_inv (n + sum_list (map row_weight rows)) bs' \<and> builds F bs rows bs'"
  using assms
proof (induction rows arbitrary: n bs)
  case (Cons row rows)
  have p: "n + row_weight row < 2 ^ 31" "rows_indexable [row]" "rows_indexable rows"
      "(n + row_weight row) + sum_list (map row_weight rows) < 2 ^ 31"
    using Cons.prems(2,3) by (simp_all add: rows_indexable_def)
  obtain bs1 where a: "weave_build_callback F bs row = Some bs1" "build_inv (n + row_weight row) bs1" "builds F bs [row] bs1"
    using build_callback_ok [OF Cons.prems(1) p(1,2)] by blast
  obtain bs2 where r: "build_rows F bs1 rows = Some bs2" "build_inv (n + row_weight row + sum_list (map row_weight rows)) bs2"
      "builds F bs1 rows bs2"
    using Cons.IH [OF a(2) p(4,3)] by blast
  show ?case using a(1) r(1,2) builds_trans [OF a(3) r(3)] by (simp add: add.assoc)
qed (simp add: builds_def)

subsection \<open>Properties\<close>


definition shared_key_doc :: "u8 \<Rightarrow> wdoc" where
  \<comment> \<open>one term of 65 bytes that differs from its siblings in the last one only\<close>
  "shared_key_doc c = \<lparr>dflags = 1, ddoclen = 1, dentries = [\<lparr>eoff = 0, elen = 65, etf = 1, eposoff = 0\<rparr>],
     dlexemes = replicate 64 97 @ [c], dpositions = [1]\<rparr>"

lemma shared_key_indexable: "doc_indexable (shared_key_doc c)"
  by (simp add: doc_indexable_def doc_ok_def doc_sorted_def doc_terms_def shared_key_doc_def term_text_def term_pos_def)


end
