(* ===== verification/Weave_Bolt.thy ===== *)
theory Weave_Bolt
  imports Weave_Build
begin

text \<open>
  Segment builds. A heap scan fills the build state and writes it out as a segment (a bolt) when its memory is used
  up and at its end: the terms in byte order, their postings on the pages of the relation, the dictionary, the
  document list; \<open>weave_build_finalize\<close> then decides whether segments are merged. The segments of a build hold its
  documents, in the sense the lexical scan needs, so its answers are those of the evaluator on the rows. The merge
  itself is not modelled: where the code starts one, here the build is \<open>None\<close>.
\<close>

subsection \<open>Writing a bolt\<close>

record bolt =
  \<comment> \<open>the dictionary's pages (per term its bytes, its document count and where its postings start), its block index,
      the document list\<close>
  bolt_dict :: "(u8 list \<times> u32 \<times> (nat \<times> nat) option) list list"
  bolt_index :: "(u8 list \<times> nat) list list"
  bolt_ndocs :: nat
  bolt_docs :: "u64 list"
  bolt_nulls :: "u64 list"

abbreviation bolt_terms :: "bolt \<Rightarrow> (u8 list \<times> u32 \<times> (nat \<times> nat) option) list" where
  "bolt_terms \<equiv> (\<lambda>b. concat (bolt_dict b))"

abbreviation DICT_ROOM :: nat where
  \<comment> \<open>from the contents of an empty page to its special area\<close>
  "DICT_ROOM \<equiv> SPECIAL - CONTENTS"

definition weave_write_segment ::
  "(nat \<Rightarrow> nat) \<Rightarrow> u64 \<Rightarrow> (nat \<Rightarrow> post_page option) \<Rightarrow> build_state \<Rightarrow> ((nat \<Rightarrow> post_page option) \<times> nat \<times> bolt) option" where
  \<comment> \<open>the relation after it, and the number of blocks it took\<close>
  "weave_write_segment fresh F pages bs = do {
     (pw, outs) \<leftarrow> write_terms fresh F ((pw_begin pages)\<lparr>pw_no_doclen_col := bs_want_sidecar bs\<rparr>) (bs_terms bs);
     let pw = pw_finish pw;
     (dict, index) \<leftarrow> weave_write_dictionary_iter fst DICT_ROOM
       (map (\<lambda>(bt, start). (bterm bt, of_nat (length (bposts bt)), start)) outs);
     Some (pw_store pw, pw_taken pw,
       \<lparr>bolt_dict = dict, bolt_index = index, bolt_ndocs = bs_ndocs bs,
        bolt_docs = weave_doclist_sort_uniq (bs_dl_all bs), bolt_nulls = weave_doclist_sort_uniq (bs_dl_null bs)\<rparr>)
   }"

record build_run =
  br_state :: build_state
  br_rel :: "nat \<Rightarrow> post_page option"
  br_taken :: nat
  br_bolts :: "bolt list"

definition build_reset :: "build_state \<Rightarrow> build_state" where
  "build_reset bs = (build_init (bs_want_positions bs) (bs_want_sidecar bs))\<lparr>bs_tsv_positionless := bs_tsv_positionless bs\<rparr>"

abbreviation WEAVE_MAX_SEGMENTS :: nat where
  "WEAVE_MAX_SEGMENTS \<equiv> 128"

definition weave_meta_add_segment :: "bolt list \<Rightarrow> bolt \<Rightarrow> bolt list option" where
  \<comment> \<open>\<open>None\<close>: the directory is full\<close>
  "weave_meta_add_segment bolts b = (if WEAVE_MAX_SEGMENTS \<le> length bolts then None else Some (bolts @ [b]))"

definition weave_build_flush_segment :: "(nat \<Rightarrow> nat) \<Rightarrow> u64 \<Rightarrow> build_run \<Rightarrow> build_run option" where
  \<comment> \<open>\<open>None\<close> also when the directory is full: segments are then merged to make room\<close>
  "weave_build_flush_segment fresh F st =
     (let bs = br_state st in
      if bs_dl_all bs = [] then Some st
      else
        let bs = bs\<lparr>bs_terms := sort_key bterm (bs_terms bs)\<rparr> in do {
          (pages, taken, b) \<leftarrow> weave_write_segment (\<lambda>k. fresh (br_taken st + k)) F (br_rel st) bs;
          bolts \<leftarrow> weave_meta_add_segment (br_bolts st) b;
          Some \<lparr>br_state = build_reset bs, br_rel = pages, br_taken = br_taken st + taken, br_bolts = bolts\<rparr>
        })"

fun weave_build_scan :: "(nat \<Rightarrow> nat) \<Rightarrow> u64 \<Rightarrow> build_run \<Rightarrow> (build_row \<times> bool) list \<Rightarrow> build_run option" where
  \<comment> \<open>the heap scan and the last flush; the flag of a row says that the memory budget is used up before it\<close>
  "weave_build_scan fresh F st [] = weave_build_flush_segment fresh F st"
| "weave_build_scan fresh F st ((row, full) # rows) = do {
     st \<leftarrow> (if (bs_terms (br_state st) \<noteq> [] \<or> bs_dl_all (br_state st) \<noteq> []) \<and> full
           then weave_build_flush_segment fresh F st else Some st);
     bs \<leftarrow> weave_build_callback F (br_state st) row;
     weave_build_scan fresh F (st\<lparr>br_state := bs\<rparr>) rows
   }"

subsection \<open>What a scan reads of a bolt\<close>

definition bolt_entry :: "(nat \<Rightarrow> post_page option) \<Rightarrow> u64 \<Rightarrow> nat \<Rightarrow> u8 list \<times> u32 \<times> (nat \<times> nat) option \<Rightarrow> dict_entry" where
  "bolt_entry pages F recorded = (\<lambda>(t, df, start).
     \<lparr>dterm = t,
      dposts = (case weave_decode_term pages F recorded (map_option fst start) (case start of Some (_, i) \<Rightarrow> i | None \<Rightarrow> 0) df True False of
                  Some (Inr ps) \<Rightarrow> map posting.truncate ps | _ \<Rightarrow> [])\<rparr>)"

definition bolt_segment :: "(nat \<Rightarrow> post_page option) \<Rightarrow> u64 \<Rightarrow> nat \<Rightarrow> bolt \<Rightarrow> segment" where
  "bolt_segment pages F recorded b =
     \<lparr>sdict = Some \<lparr>dpages = map (map (bolt_entry pages F recorded)) (bolt_dict b), dindex = bolt_index b\<rparr>,
      sndocs = bolt_ndocs b, sdoclist = Doclist (bolt_docs b) (bolt_nulls b), stombs = None\<rparr>"

subsection \<open>A term reads back its logical postings\<close>

lemma term_reads_tids:
  "map ptid (term_reads F want docids_only nd bt) = map (\<lambda>s. weave_docid_to_tid F (sdocid s)) (sorted_postings F bt)"
proof -
  have "map ptid (concat (map (block_reads F want docids_only nd (bpositions bt)) cs)) =
      map (\<lambda>s. weave_docid_to_tid F (sdocid s)) (concat cs)" for cs
    by (induction cs) (simp_all add: block_reads_def stored_posting_def)
  then show ?thesis by (simp add: term_reads_def groups_concat)
qed

lemma sorted_postings_set: "set (sorted_postings F bt) = posting_sort_of F bt ` set (bposts bt)"
  by (simp add: sorted_postings_def)

lemma term_reads_posting:
  assumes "p \<in> set (term_reads F True False nd bt)"
  shows "\<exists>q\<in>set (bposts bt). ptid p = weave_docid_to_tid F (weave_tid_to_docid F (bptid q)) \<and> ptf p = bptf q \<and>
    (\<forall>ps. ppos p = Some ps \<longrightarrow> (\<exists>zs. lppos (logical_of (bpositions bt) q) = Some zs \<and> ps = map WEAVE_POS_ORD zs))"
proof -
  obtain ss where ss: "ss \<in> set (groups (sorted_postings F bt))" "p \<in> set (block_reads F True False nd (bpositions bt) ss)"
    using assms by (auto simp: term_reads_def)
  then obtain s where s: "s \<in> set ss" "p = stored_posting F True False nd (kept_arena nd (bpositions bt) ss) (block_max_tf ss) s"
    by (auto simp: block_reads_def)
  have "s \<in> set (concat (groups (sorted_postings F bt)))" using ss(1) s(1) by auto
  then obtain q where q: "q \<in> set (bposts bt)" "s = posting_sort_of F bt q"
    by (auto simp: groups_concat sorted_postings_set)
  have "\<exists>zs. lppos (logical_of (bpositions bt) q) = Some zs \<and> ps = map WEAVE_POS_ORD zs" if "ppos p = Some ps" for ps
  proof -
    have "(if 0 < stf s then map_option (\<lambda>arena. ordinals arena s) (kept_arena nd (bpositions bt) ss) else None) = Some ps"
      using that unfolding s(2) stored_posting_def by simp
    then obtain arena where a: "kept_arena nd (bpositions bt) ss = Some arena" "0 < stf s" "ps = ordinals arena s"
      by (auto split: if_splits)
    then have k: "stored_positions nd (bpositions bt) ss \<noteq> []" "bpositions bt = Some arena"
      by (auto simp: kept_arena_def split: if_splits)
    then have "list_all (\<lambda>s. sposcnt s = stf s) ss"
      by (auto simp: stored_positions_def fitting_positions_def block_positions_def Let_def split: if_splits option.splits)
    then have "sposcnt s = stf s" using s(1) by (simp add: list_all_iff)
    then have "bpposcnt q = bptf q" "sposoff s = bpposoff q" using q(2) k(2) by (simp_all add: posting_sort_of_def)
    then show ?thesis
      using a(2,3) q(2) k(2) by (auto simp: logical_of_def posting_positions_def posting_sort_of_def)
  qed
  then show ?thesis using q s(2) by (intro bexI [of _ q]) (auto simp: stored_posting_def posting_sort_of_def)
qed

subsection \<open>A built segment holds its documents\<close>

definition docs_of :: "build_row list \<Rightarrow> docs" where
  "docs_of rows = map (\<lambda>row. (rw_tid row, fst (the (rw_doc row)))) (filter (\<lambda>row. rw_doc row \<noteq> None) rows)"

definition row_writable :: "build_row \<Rightarrow> bool" where
  \<comment> \<open>every term fits on a dictionary page, and has so few positions that a block of them has fewer than \<open>2 ^ 31\<close> bits\<close>
  "row_writable row \<longleftrightarrow>
     (case rw_doc row of None \<Rightarrow> True
      | Some (d, _) \<Rightarrow> list_all (\<lambda>e. dict_need (term_text d e) \<le> DICT_ROOM \<and> (WEAVE_DOC_HAS_POS d \<longrightarrow> unat (etf e) < 2 ^ 19)) (dentries d))"

definition rows_ok :: "u64 \<Rightarrow> build_row list \<Rightarrow> bool" where
  "rows_ok F rows \<longleftrightarrow> distinct (map rw_tid rows) \<and> list_all (\<lambda>row. valid_tid F (rw_tid row)) rows \<and> rows_indexable rows \<and>
     list_all row_writable rows \<and> sum_list (map row_weight rows) < 2 ^ 31"

lemma docs_of_mem: "(x, d) \<in> set (docs_of rows) \<longleftrightarrow> (\<exists>row\<in>set rows. rw_tid row = x \<and> (\<exists>f. rw_doc row = Some (d, f)))"
  by (auto simp: docs_of_def image_iff)

lemma docs_of_tids: "fst ` set (docs_of rows) = rw_tid ` {row \<in> set rows. rw_doc row \<noteq> None}"
  by (auto simp: docs_of_def image_image)

lemma term_ok_of_wf:
  assumes "term_wf want n bt" and "n < 2 ^ 31" and "\<And>arena. bpositions bt = Some arena \<Longrightarrow> list_all (\<lambda>p. unat (bpposcnt p) < 2 ^ 19) (bposts bt)"
  shows "build_term_ok bt"
proof -
  have "list_all (\<lambda>p. 0 < bptf p) ps \<Longrightarrow> length ps \<le> sum_list (map (\<lambda>p. unat (bptf p)) ps)"
    for ps :: "build_posting list"
  proof (induction ps)
    case (Cons p ps)
    then have "0 < unat (bptf p)" by (simp add: word_less_nat_alt)
    then show ?case using Cons by simp
  qed simp
  then have "length (bposts bt) \<le> sum_list (map (\<lambda>p. unat (bptf p)) (bposts bt))"
    using assms(1) by (simp add: term_wf_def)
  then show ?thesis
    using assms by (auto simp: build_term_ok_def term_wf_def list_all_iff split: option.splits)
qed

lemma posting_positions_few:
  assumes wf: "term_wf want n bt" and arena: "bpositions bt = Some arena" and rows: "list_all row_writable rows"
    and posts: "map (logical_of (bpositions bt)) (bposts bt) = concat (map (row_posts want t) rows)"
  shows "list_all (\<lambda>p. unat (bpposcnt p) < 2 ^ 19) (bposts bt)"
  unfolding list_all_iff
proof
  fix p assume p: "p \<in> set (bposts bt)"
  show "unat (bpposcnt p) < 2 ^ 19"
  proof (cases "bpposcnt p = 0")
    case False
    have "logical_of (bpositions bt) p \<in> set (concat (map (row_posts want t) rows))" unfolding posts [symmetric] using p by simp
    then obtain row where row: "row \<in> set rows" "logical_of (bpositions bt) p \<in> set (row_posts want t row)" by auto
    obtain d f where doc: "rw_doc row = Some (d, f)" using row(2) by (cases "rw_doc row") (auto simp: row_posts_def)
    then obtain e where e: "rw_doc row = Some (d, f)" "e \<in> set (dentries d)"
        "logical_of (bpositions bt) p = entry_posting want d (rw_tid row) e"
      using row(2) by (auto simp: row_posts_def)
    have "unat (bpposoff p) + unat (bpposcnt p) \<le> length arena" using wf arena p by (simp add: term_wf_def list_all_iff)
    then have "lppos (logical_of (bpositions bt) p) = Some (take (unat (bpposcnt p)) (drop (unat (bpposoff p)) arena))"
        "length (take (unat (bpposcnt p)) (drop (unat (bpposoff p)) arena)) = unat (bpposcnt p)"
      using False arena by (simp_all add: logical_of_def)
    then have pos: "WEAVE_DOC_HAS_POS d" "length (term_pos d e) = unat (bpposcnt p)"
      using arg_cong [OF e(3), of lppos] by (auto simp: entry_posting_def split: if_splits)
    moreover have "length (term_pos d e) \<le> unat (etf e)" by (simp add: term_pos_def)
    ultimately have "WEAVE_DOC_HAS_POS d" "unat (bpposcnt p) \<le> unat (etf e)" by simp_all
    then show ?thesis using rows row(1) e(1,2) by (force simp: list_all_iff row_writable_def)
  qed simp
qed

lemma bolt_entry_reads:
  assumes "laid nd (bpositions bt) pages1 b i (groups (sorted_postings F bt))" and "rel_le pages1 pages"
    and "build_term_ok bt"
  shows "bolt_entry pages F recorded (t, of_nat (length (bposts bt)), Some (b, i)) =
    \<lparr>dterm = t, dposts = map posting.truncate (take (max recorded 1) (term_reads F True False nd bt))\<rparr>"
  using laid_term_clamped [OF laid_mono [OF assms(1,2) groups_ok_sizes [OF term_groups_ok [OF assms(3)]]] assms(3)]
  by (simp add: bolt_entry_def)

lemma bolt_entry_empty:
  assumes "bposts bt = []"
  shows "bolt_entry pages F recorded (t, of_nat (length (bposts bt)), None) =
    \<lparr>dterm = t, dposts = map posting.truncate (take (max recorded 1) (term_reads F True False nd bt))\<rparr>"
proof -
  have "term_reads F True False nd bt = []" using assms by (metis length_0_conv term_reads_length)
  then show ?thesis
    by (simp add: bolt_entry_def weave_decode_term_def) (subst decode_pages.simps, simp)
qed

lemma written_segment:
  assumes inv: "\<forall>k. pages0 (fresh k) = None" "inj fresh"
    and ok: "list_all build_term_ok (bs_terms bs)" and fits: "list_all (\<lambda>bt. dict_need (bterm bt) \<le> DICT_ROOM) (bs_terms bs)"
  shows "\<exists>pages1 taken dict index. weave_write_segment fresh F pages0 bs = Some (pages1, taken,
      \<lparr>bolt_dict = dict, bolt_index = index, bolt_ndocs = bs_ndocs bs,
       bolt_docs = weave_doclist_sort_uniq (bs_dl_all bs), bolt_nulls = weave_doclist_sort_uniq (bs_dl_null bs)\<rparr>) \<and>
    rel_le pages0 pages1 \<and> (\<forall>k\<ge>taken. pages1 (fresh k) = None) \<and>
    weave_write_dictionary_iter fst DICT_ROOM (concat dict) = Some (dict, index) \<and>
    (\<forall>pages recorded. rel_le pages1 pages \<longrightarrow>
      map (bolt_entry pages F recorded) (concat dict) =
      map (\<lambda>bt. \<lparr>dterm = bterm bt, dposts = map posting.truncate (take (max recorded 1) (term_reads F True False (bs_want_sidecar bs) bt))\<rparr>)
        (bs_terms bs))"
proof -
  let ?pw = "(pw_begin pages0)\<lparr>pw_no_doclen_col := bs_want_sidecar bs\<rparr>"
  have pw: "pw_inv fresh ?pw" "pw_pages ?pw = pages0" using inv by (simp_all add: pw_inv_def pw_begin_def pw_finish_def)
  obtain pw' outs where w: "write_terms fresh F ?pw (bs_terms bs) = Some (pw', outs)" "pw_inv fresh pw'" "rel_le pages0 (pw_pages pw')"
      and l: "list_all2 (\<lambda>bt (bt', start). bt' = bt\<lparr>bmax_tf := block_max_tf (sorted_postings F bt)\<rparr> \<and>
        (case start of None \<Rightarrow> bposts bt = []
         | Some (b, i) \<Rightarrow> laid (bs_want_sidecar bs) (bpositions bt) (pw_pages pw') b i (groups (sorted_postings F bt)))) (bs_terms bs) outs"
    using write_terms_ok [OF pw(1) _ ok, of "bs_want_sidecar bs" F] unfolding pw(2) by auto
  let ?outs = "map (\<lambda>(bt, start). (bterm bt, of_nat (length (bposts bt)) :: u32, start)) outs"
  have "list_all (\<lambda>r. dict_need (fst r) \<le> DICT_ROOM) ?outs" using l fits
  proof (induction rule: list_all2_induct)
    case (Cons bt bts out outs)
    then show ?case by (cases out) simp
  qed simp
  then obtain dict index where d: "weave_write_dictionary_iter fst DICT_ROOM ?outs = Some (dict, index)"
    using write_dictionary_total by blast
  have c: "concat dict = ?outs" by (rule write_dictionary_Some(1) [OF d])
  have e: "weave_write_segment fresh F pages0 bs = Some (pw_pages pw', pw_taken (pw_finish pw'),
      \<lparr>bolt_dict = dict, bolt_index = index, bolt_ndocs = bs_ndocs bs,
       bolt_docs = weave_doclist_sort_uniq (bs_dl_all bs), bolt_nulls = weave_doclist_sort_uniq (bs_dl_null bs)\<rparr>)"
    using w(1) d by (simp add: weave_write_segment_def Let_def)
  have taken: "pw_taken (pw_finish pw') = pw_taken pw'" by (simp add: pw_finish_def split: option.split prod.split)
  let ?entry = "\<lambda>recorded bt. \<lparr>dterm = bterm bt,
      dposts = map posting.truncate (take (max recorded 1) (term_reads F True False (bs_want_sidecar bs) bt))\<rparr>"
  have reads: "map (bolt_entry pages F recorded) ?outs = map (?entry recorded) (bs_terms bs)"
    if le: "rel_le (pw_pages pw') pages" for pages recorded
    using l ok
  proof (induction rule: list_all2_induct)
    case (Cons bt bts out outs)
    obtain bt' start where o: "out = (bt', start)" by (cases out)
    then have b: "bterm bt' = bterm bt" "bposts bt' = bposts bt" using Cons.hyps(1) by simp_all
    have "bolt_entry pages F recorded (bterm bt, of_nat (length (bposts bt)), start) = ?entry recorded bt"
      using Cons.hyps(1) Cons.prems o bolt_entry_empty bolt_entry_reads [OF _ le] by (cases start) (auto split: prod.splits)
    then show ?case using Cons.IH Cons.prems o b by simp
  qed simp
  show ?thesis
    using e w(2,3) taken reads d unfolding c [symmetric]
    by (intro exI [of _ "pw_pages pw'"] exI [of _ "pw_taken pw'"] exI [of _ dict] exI [of _ index]) (simp add: pw_inv_def)
qed

lemma indicator_sum: "distinct ts \<Longrightarrow> sum_list (map (\<lambda>t. if c = t then 1 else 0) ts) \<le> (1 :: nat)"
proof (induction ts)
  case (Cons t ts)
  have "c \<notin> set us \<Longrightarrow> sum_list (map (\<lambda>t. if c = t then 1 else 0) us) = (0 :: nat)" for us :: "'a list" by (induction us) auto
  then show ?case using Cons by auto
qed simp

lemma filter_sum:
  assumes "distinct ts"
  shows "sum_list (map (\<lambda>t. length (filter (\<lambda>e. f e = t) es)) ts) \<le> length es"
proof (induction es)
  case (Cons e es)
  have "length (filter (\<lambda>e. f e = t) (e # es)) = (if f e = t then 1 else 0) + length (filter (\<lambda>e. f e = t) es)" for t by simp
  then have "sum_list (map (\<lambda>t. length (filter (\<lambda>e. f e = t) (e # es))) ts) =
      sum_list (map (\<lambda>t. if f e = t then 1 else 0) ts) + sum_list (map (\<lambda>t. length (filter (\<lambda>e. f e = t) es)) ts)"
    by (simp only: sum_list_addf)
  then show ?case using Cons indicator_sum [OF assms, of "f e"] by simp
qed simp

definition row_entries :: "build_row \<Rightarrow> nat" where
  "row_entries row = (case rw_doc row of None \<Rightarrow> 0 | Some (d, _) \<Rightarrow> length (dentries d))"

lemma row_posts_sum:
  assumes "distinct ts"
  shows "sum_list (map (\<lambda>t. length (concat (map (row_posts want t) rows))) ts) \<le> sum_list (map row_entries rows)"
proof (induction rows)
  case (Cons row rows)
  have "sum_list (map (\<lambda>t. length (row_posts want t row)) ts) \<le> row_entries row"
    using filter_sum [OF assms] by (cases "rw_doc row") (auto simp: row_posts_def row_entries_def split: prod.splits)
  then show ?case using Cons by (simp add: sum_list_addf)
qed simp

lemma sort_key_asc: "distinct (map f xs) \<Longrightarrow> asc (map f (sort_key f xs))"
proof -
  assume d: "distinct (map f xs)"
  have "mset (map f (sort_key f xs)) = mset (map f xs)" by simp
  then have "distinct (map f (sort_key f xs))" using d by (metis mset_eq_imp_distinct_iff)
  then show ?thesis using sorted_sort_key [of f xs] by (simp add: strict_sorted_iff)
qed

lemma docs_distinct: "distinct (map rw_tid rows) \<Longrightarrow> distinct (map fst (docs_of rows))"
proof -
  have "map fst (docs_of rows) = map rw_tid (filter (\<lambda>row. rw_doc row \<noteq> None) rows)" by (simp add: docs_of_def comp_def)
  then show "distinct (map rw_tid rows) \<Longrightarrow> distinct (map fst (docs_of rows))" by (simp add: distinct_map_filter)
qed

lemma doc_entries_distinct: "doc_ok d \<Longrightarrow> distinct (map (term_text d) (dentries d))"
  using asc_distinct [of "doc_terms d"] by (simp add: doc_ok_def doc_sorted_def doc_terms_def)

lemma rows_indexable_doc: "rows_indexable rows \<Longrightarrow> row \<in> set rows \<Longrightarrow> rw_doc row = Some (d, f) \<Longrightarrow> doc_indexable d"
  by (auto simp: rows_indexable_def list_all_iff)

lemma row_posts_single:
  assumes "rows_indexable rows" and "row \<in> set rows"
  shows "length (row_posts want t row) \<le> 1"
proof (cases "rw_doc row")
  case (Some dp)
  obtain d f where d: "rw_doc row = Some (d, f)" using Some by (cases dp) simp
  then have dist: "distinct (map (term_text d) (dentries d))"
    using rows_indexable_doc [OF assms] doc_entries_distinct by (simp add: doc_indexable_def)
  have "distinct (map g es) \<Longrightarrow> length (filter (\<lambda>e. g e = t) es) \<le> 1" for g and es :: "term_entry list"
  proof (induction es)
    case (Cons e es)
    have "filter (\<lambda>e. g e = t) es = []" if "g e = t"
      using Cons.prems that by (auto simp: filter_empty_conv rev_image_eqI)
    then show ?case using Cons by (cases "g e = t") simp_all
  qed simp
  then show ?thesis using dist d by (simp add: row_posts_def)
qed (simp add: row_posts_def)

lemma built_tids_distinct:
  assumes "rows_indexable rows" and "distinct (map rw_tid rows)"
  shows "distinct (map lptid (concat (map (row_posts want t) rows)))"
  using assms
proof (induction rows)
  case (Cons row rows)
  have tid: "lptid p = rw_tid row'" if "p \<in> set (row_posts want t row')" for p row'
    using that by (auto simp: row_posts_def entry_posting_def split: option.splits)
  have one: "distinct (map lptid (row_posts want t row))"
    using row_posts_single [OF Cons.prems(1), of row want t] by (cases "row_posts want t row") auto
  have "lptid p \<noteq> lptid q" if "p \<in> set (row_posts want t row)" "row' \<in> set rows" "q \<in> set (row_posts want t row')" for p q row'
    using tid [OF that(1)] tid [OF that(3)] that(2) Cons.prems(2) by auto
  then show ?case using Cons one by (auto simp: rows_indexable_def)
qed simp

lemma term_reads_tids_valid:
  assumes "F \<le> 2 ^ 16" and "\<forall>q\<in>set (bposts bt). valid_tid F (bptid q)"
  shows "mset (map ptid (term_reads F want docids_only nd bt)) = mset (map bptid (bposts bt))"
proof -
  have "mset (map (\<lambda>s. weave_docid_to_tid F (sdocid s)) (sorted_postings F bt)) =
      mset (map (\<lambda>q. weave_docid_to_tid F (weave_tid_to_docid F (bptid q))) (bposts bt))"
    by (simp add: sorted_postings_def posting_sort_of_def image_mset.compositionality comp_def)
  also have "map (\<lambda>q. weave_docid_to_tid F (weave_tid_to_docid F (bptid q))) (bposts bt) = map bptid (bposts bt)"
    using assms docid_roundtrip by auto
  finally show ?thesis by (simp only: term_reads_tids)
qed

lemma built_posting:
  assumes "p \<in> set (concat (map (row_posts want t) rows))" and "rows_indexable rows"
  shows "\<exists>d e. (lptid p, d) \<in> set (docs_of rows) \<and> find (\<lambda>e. term_text d e = t) (dentries d) = Some e \<and> p = entry_posting want d (lptid p) e \<and>
    doc_indexable d"
proof -
  obtain row where row: "row \<in> set rows" "p \<in> set (row_posts want t row)" using assms(1) by auto
  obtain d f where r0: "rw_doc row = Some (d, f)" using row(2) by (cases "rw_doc row") (auto simp: row_posts_def)
  then obtain e where r1: "e \<in> set (dentries d)" "term_text d e = t" "p = entry_posting want d (rw_tid row) e"
    using row(2) by (auto simp: row_posts_def)
  note r = row(1) r0 r1
  have d: "doc_indexable d" using rows_indexable_doc [OF assms(2) r(1,2)] .
  then have "find (\<lambda>e. term_text d e = t) (dentries d) = Some e"
    using find_unique [OF doc_entries_distinct] r(3,4) by (simp add: doc_indexable_def)
  then show ?thesis using r d by (auto simp: docs_of_mem entry_posting_def)
qed

lemma truncate_posting [simp]: "ptid (posting.truncate p) = ptid p" "ptf (posting.truncate p) = ptf p" "ppos (posting.truncate p) = ppos p"
  by (simp_all add: posting.truncate_def)

lemma built_entry_ok:
  assumes F: "F \<le> 2 ^ 16" and rows: "rows_ok F rows"
    and posts: "map (logical_of (bpositions bt)) (bposts bt) = concat (map (row_posts want (bterm bt)) rows)"
  shows "entry_ok (docs_of rows) \<lparr>dterm = bterm bt, dposts = map posting.truncate (term_reads F True False nd bt)\<rparr>"
    and "ptid ` set (term_reads F True False nd bt) = lptid ` set (concat (map (row_posts want (bterm bt)) rows))"
    and "length (term_reads F True False nd bt) = length (bposts bt)"
proof -
  have tids: "map bptid (bposts bt) = map lptid (concat (map (row_posts want (bterm bt)) rows))"
    unfolding posts [symmetric] by (simp add: logical_of_def)
  have idx: "rows_indexable rows" "distinct (map rw_tid rows)" "list_all (\<lambda>row. valid_tid F (rw_tid row)) rows"
    using rows by (simp_all add: rows_ok_def)
  have from_row: "\<exists>row\<in>set rows. rw_tid row = lptid p" if "p \<in> set (concat (map (row_posts want (bterm bt)) rows))" for p
    using built_posting [OF that idx(1)] by (auto simp: docs_of_mem)
  have valid: "\<forall>q\<in>set (bposts bt). valid_tid F (bptid q)"
  proof
    fix q assume "q \<in> set (bposts bt)"
    then have "bptid q \<in> lptid ` set (concat (map (row_posts want (bterm bt)) rows))" using tids by (metis image_eqI list.set_map)
    then show "valid_tid F (bptid q)" using from_row idx(3) by (force simp: list_all_iff)
  qed
  note m = term_reads_tids_valid [OF F valid, of True False nd]
  show "length (term_reads F True False nd bt) = length (bposts bt)" using arg_cong [OF m, of size] by simp
  show "ptid ` set (term_reads F True False nd bt) = lptid ` set (concat (map (row_posts want (bterm bt)) rows))"
    using arg_cong [OF m, of set_mset] arg_cong [OF tids, of set] by simp
  have "distinct (map ptid (term_reads F True False nd bt))"
    using m tids built_tids_distinct [OF idx(1,2)] by (metis mset_eq_imp_distinct_iff)
  moreover have "\<exists>d en. (ptid p, d) \<in> set (docs_of rows) \<and> find (\<lambda>en. term_text d en = bterm bt) (dentries d) = Some en \<and>
      posting_ok (posting.truncate p) d en" if p: "p \<in> set (term_reads F True False nd bt)" for p
  proof -
    obtain q where q: "q \<in> set (bposts bt)" "ptid p = weave_docid_to_tid F (weave_tid_to_docid F (bptid q))" "ptf p = bptf q"
        "\<forall>ps. ppos p = Some ps \<longrightarrow> (\<exists>zs. lppos (logical_of (bpositions bt) q) = Some zs \<and> ps = map WEAVE_POS_ORD zs)"
      using term_reads_posting [OF p] by blast
    let ?l = "logical_of (bpositions bt) q"
    have tid: "ptid p = bptid q" using q(1,2) valid docid_roundtrip [OF F] by simp
    have "?l \<in> set (concat (map (row_posts want (bterm bt)) rows))" unfolding posts [symmetric] using q(1) by simp
    from built_posting [OF this idx(1)] obtain d en where d: "(lptid ?l, d) \<in> set (docs_of rows)"
        "find (\<lambda>e. term_text d e = bterm bt) (dentries d) = Some en" "?l = entry_posting want d (lptid ?l) en" "doc_indexable d"
      by blast
    have l: "lptid ?l = bptid q" "lptf ?l = bptf q" by (simp_all add: logical_of_def)
    have en: "en \<in> set (dentries d)" using find_in [OF d(2)] by simp
    have "ptf p = etf en" using arg_cong [OF d(3), of lptf] l(2) q(3) by (simp add: entry_posting_def)
    moreover have "0 < etf en" "WEAVE_DOC_HAS_POS d \<Longrightarrow> length (term_pos d en) = unat (etf en)"
      using d(4) en by (auto simp: doc_indexable_def list_all_iff)
    moreover have "ppos p = Some ps \<Longrightarrow> WEAVE_DOC_HAS_POS d \<and> ps = map WEAVE_POS_ORD (term_pos d en)" for ps
      using q(4) arg_cong [OF d(3), of lppos] by (auto simp: entry_posting_def split: if_splits)
    ultimately have "posting_ok (posting.truncate p) d en" unfolding posting_ok_def by auto
    then show ?thesis using d(1,2) l(1) tid by auto
  qed
  ultimately show "entry_ok (docs_of rows) \<lparr>dterm = bterm bt, dposts = map posting.truncate (term_reads F True False nd bt)\<rparr>"
    by (auto simp: entry_ok_def comp_def)
qed

lemma posts_count:
  assumes "rows_indexable rows"
  shows "length (concat (map (row_posts want t) rows)) \<le> length (docs_of rows)"
  using assms
proof (induction rows)
  case (Cons row rows)
  have "length (row_posts want t row) \<le> (if rw_doc row = None then 0 else 1)"
    using row_posts_single [OF Cons.prems, of row want t] by (simp add: row_posts_def)
  then show ?case using Cons by (cases "rw_doc row") (simp_all add: rows_indexable_def docs_of_def)
qed (simp add: docs_of_def)

lemma init_posts: "term_posts (build_init want side) t = []" "bs_terms (build_init want side) = []"
  by (simp_all add: build_init_def term_posts_def)

definition bolt_good :: "u64 \<Rightarrow> (nat \<Rightarrow> post_page option) \<Rightarrow> build_row list \<Rightarrow> bolt \<Rightarrow> bool" where
  \<comment> \<open>however the relation grows, a scan finds the documents of these rows in the bolt\<close>
  "bolt_good F pages rows b \<longleftrightarrow> bolt_ndocs b = length (counted_rows rows) \<and>
     (\<forall>pages' recorded. rel_le pages pages' \<longrightarrow> length (docs_of rows) \<le> recorded \<longrightarrow>
        segment_holds F (docs_of rows) (bolt_segment pages' F recorded b))"

lemma bolt_good_mono: "bolt_good F pages rows b \<Longrightarrow> rel_le pages pages' \<Longrightarrow> bolt_good F pages' rows b"
  using rel_le_trans unfolding bolt_good_def by blast

lemma doclist_holds:
  assumes F: "F \<le> 2 ^ 16" and valid: "list_all (\<lambda>row. valid_tid F (rw_tid row)) rows" and d: "distinct (map rw_tid rows)"
  defines "docid \<equiv> \<lambda>row :: build_row. weave_tid_to_docid F (rw_tid row)"
  shows "docid ` {row \<in> set rows. rw_doc row = None} \<subseteq> docid ` set rows"
    and "docid ` set rows - docid ` {row \<in> set rows. rw_doc row = None} = weave_tid_to_docid F ` fst ` set (docs_of rows)"
proof -
  show "docid ` {row \<in> set rows. rw_doc row = None} \<subseteq> docid ` set rows" by auto
  have "inj_on (weave_tid_to_docid F) (rw_tid ` set rows)"
    using docid_inj [OF F, of "rw_tid ` set rows"] valid by (auto simp: list_all_iff)
  then have "inj_on (weave_tid_to_docid F \<circ> rw_tid) (set rows)" using d by (intro comp_inj_on) (simp_all add: distinct_map)
  then have inj: "inj_on docid (set rows)" by (simp add: docid_def comp_def)
  have "docid ` set rows - docid ` {row \<in> set rows. rw_doc row = None} = docid ` (set rows - {row \<in> set rows. rw_doc row = None})"
    using inj by (intro inj_on_image_set_diff [symmetric]) auto
  also have "set rows - {row \<in> set rows. rw_doc row = None} = {row \<in> set rows. rw_doc row \<noteq> None}" by auto
  finally show "docid ` set rows - docid ` {row \<in> set rows. rw_doc row = None} = weave_tid_to_docid F ` fst ` set (docs_of rows)"
    by (simp add: docs_of_tids image_image docid_def)
qed

lemma segment_of_bolt:
  assumes F: "F \<le> 2 ^ 16" and rows: "rows_ok F rows" and entries: "sum_list (map row_entries rows) \<le> TIDSET_MAX_N"
    and terms: "distinct (map bterm bts)" "sorted (map bterm bts)" "set (map bterm bts) = (\<Union>row\<in>set rows. row_terms row)"
    and posts: "\<forall>bt\<in>set bts. map (logical_of (bpositions bt)) (bposts bt) = concat (map (row_posts want (bterm bt)) rows)"
    and dict: "weave_write_dictionary_iter fst DICT_ROOM (bolt_terms b) = Some (bolt_dict b, bolt_index b)"
    and es: "map (bolt_entry pages F recorded) (bolt_terms b) =
      map (\<lambda>bt. \<lparr>dterm = bterm bt, dposts = map posting.truncate (term_reads F True False nd bt)\<rparr>) bts"
    and dl: "bolt_docs b = weave_doclist_sort_uniq (map (\<lambda>row. weave_tid_to_docid F (rw_tid row)) rows)"
      "bolt_nulls b = weave_doclist_sort_uniq (map (\<lambda>row. weave_tid_to_docid F (rw_tid row)) (filter (\<lambda>row. rw_doc row = None) rows))"
  shows "segment_holds F (docs_of rows) (bolt_segment pages F recorded b)"
proof -
  let ?entry = "\<lambda>bt. \<lparr>dterm = bterm bt, dposts = map posting.truncate (term_reads F True False nd bt)\<rparr>"
  let ?D = "\<lparr>dpages = map (map (bolt_entry pages F recorded)) (bolt_dict b), dindex = bolt_index b\<rparr>"
  have idx: "rows_indexable rows" "distinct (map rw_tid rows)" "list_all (\<lambda>row. valid_tid F (rw_tid row)) rows"
    using rows by (simp_all add: rows_ok_def)
  have trm: "dterm (bolt_entry pages F recorded r) = fst r" for r by (cases r) (simp add: bolt_entry_def)
  then have "map fst (bolt_terms b) = map dterm (map (bolt_entry pages F recorded) (bolt_terms b))" by simp
  then have "asc (map fst (bolt_terms b))" unfolding es using terms(1,2) by (simp add: strict_sorted_iff comp_def)
  from written_dict_ok [OF dict _ this, of "bolt_entry pages F recorded"]
  have D: "dict_ok ?D" "concat (dpages ?D) = map ?entry bts" using trm es by simp_all
  note entry = built_entry_ok [OF F rows posts [rule_format], of _ nd]
  have "\<forall>e\<in>set (concat (dpages ?D)). entry_ok (docs_of rows) e" unfolding D(2) using entry(1) by simp
  moreover have "\<exists>e\<in>set (concat (dpages ?D)). dterm e = t \<and> x \<in> ptid ` set (dposts e)"
    if xd: "(x, d) \<in> set (docs_of rows)" "t \<in> set (doc_terms d)" for x d t
  proof -
    obtain row f where row: "row \<in> set rows" "rw_tid row = x" "rw_doc row = Some (d, f)" using xd(1) by (auto simp: docs_of_mem)
    then have "t \<in> set (map bterm bts)" using xd(2) unfolding terms(3) by (intro UN_I [of row]) (simp_all add: row_terms_def)
    then obtain bt where bt: "bt \<in> set bts" "bterm bt = t" by auto
    obtain e where "e \<in> set (dentries d)" "term_text d e = t" using xd(2) by (auto simp: doc_terms_def)
    then have "x \<in> lptid ` set (row_posts want t row)" using row by (auto simp: row_posts_def entry_posting_def image_iff)
    then have "x \<in> lptid ` set (concat (map (row_posts want t) rows))" using row(1) by auto
    then have "x \<in> ptid ` set (dposts (?entry bt))" using entry(2) [OF bt(1)] bt(2) by (simp add: image_image)
    then show ?thesis unfolding D(2) using bt by auto
  qed
  moreover have "length (concat (map dposts (concat (dpages ?D)))) \<le> TIDSET_MAX_N"
  proof -
    have "length (bposts bt) = length (concat (map (row_posts want (bterm bt)) rows))" if "bt \<in> set bts" for bt
      using arg_cong [OF posts [rule_format, OF that], of length] by simp
    then have "length (concat (map dposts (concat (dpages ?D)))) =
        sum_list (map (\<lambda>t. length (concat (map (row_posts want t) rows))) (map bterm bts))"
      unfolding D(2) using entry(3) by (simp add: length_concat comp_def cong: map_cong)
    also have "\<dots> \<le> sum_list (map row_entries rows)" by (rule row_posts_sum [OF terms(1)])
    finally show ?thesis using entries by simp
  qed
  ultimately have "dict_holds (docs_of rows) ?D" unfolding dict_holds_def using D(1) by blast
  moreover have "\<forall>(x, d)\<in>set (docs_of rows). valid_tid F x \<and> doc_ok d"
    using idx(3) rows_indexable_doc [OF idx(1)] by (auto simp: docs_of_mem list_all_iff doc_indexable_def)
  moreover have "asc (bolt_docs b) \<and> asc (bolt_nulls b) \<and> set (bolt_nulls b) \<subseteq> set (bolt_docs b) \<and>
      set (bolt_docs b) - set (bolt_nulls b) = weave_tid_to_docid F ` fst ` set (docs_of rows)"
    using doclist_holds [OF F idx(3,2)] unfolding dl by (simp add: doclist_sort_uniq)
  ultimately show ?thesis
    using docs_distinct [OF idx(2)] unfolding segment_holds_def bolt_segment_def by simp
qed

subsection \<open>The heap scan\<close>

abbreviation blocks_free :: "(nat \<Rightarrow> nat) \<Rightarrow> build_run \<Rightarrow> bool" where
  "blocks_free fresh st \<equiv> inj fresh \<and> (\<forall>k\<ge>br_taken st. br_rel st (fresh k) = None)"

definition scan_ok :: "u64 \<Rightarrow> bool \<Rightarrow> bool \<Rightarrow> build_run \<Rightarrow> build_row list \<Rightarrow> bool" where
  \<comment> \<open>the state in memory comes from these rows\<close>
  "scan_ok F want side st rows \<longleftrightarrow> build_inv (sum_list (map row_weight rows)) (br_state st) \<and>
     (\<exists>p. builds F ((build_init want side)\<lparr>bs_tsv_positionless := p\<rparr>) rows (br_state st))"

lemma build_init_inv: "build_inv n ((build_init want side)\<lparr>bs_tsv_positionless := p\<rparr>)"
  by (simp add: build_inv_def build_init_def chains_ok_def key_ok_def)

lemma flush_ok:
  assumes F: "F \<le> 2 ^ 16" and run: "scan_ok F want side st rows" and rows: "rows_ok F rows"
    and entries: "sum_list (map row_entries rows) \<le> TIDSET_MAX_N" and free: "blocks_free fresh st"
    and slot: "length (br_bolts st) < WEAVE_MAX_SEGMENTS"
  shows "\<exists>st'. weave_build_flush_segment fresh F st = Some st' \<and> scan_ok F want side st' [] \<and> blocks_free fresh st' \<and>
    rel_le (br_rel st) (br_rel st') \<and>
    (if rows = [] then st' = st else \<exists>b. br_bolts st' = br_bolts st @ [b] \<and> bolt_good F (br_rel st') rows b)"
proof (cases "rows = []")
  case True
  then have "bs_dl_all (br_state st) = []" using run by (auto simp: scan_ok_def builds_def build_init_def)
  then show ?thesis using True run free by (simp add: weave_build_flush_segment_def rel_le_refl Let_def)
next
  case False
  let ?bs = "br_state st" and ?n = "sum_list (map row_weight rows)"
  let ?bs' = "?bs\<lparr>bs_terms := sort_key bterm (bs_terms ?bs)\<rparr>"
  obtain p where b: "builds F ((build_init want side)\<lparr>bs_tsv_positionless := p\<rparr>) rows ?bs" and inv: "build_inv ?n ?bs"
    using run by (auto simp: scan_ok_def)
  have n: "?n < 2 ^ 31" and idx: "rows_indexable rows" and writable: "list_all row_writable rows"
    using rows by (simp_all add: rows_ok_def)
  have bs: "bs_want_positions ?bs = want" "bs_want_sidecar ?bs = side"
      "set (map bterm (bs_terms ?bs)) = (\<Union>row\<in>set rows. row_terms row)"
      "\<forall>t. term_posts ?bs t = concat (map (row_posts want t) rows)"
      "bs_dl_all ?bs = map (\<lambda>row. weave_tid_to_docid F (rw_tid row)) rows"
      "bs_dl_null ?bs = map (\<lambda>row. weave_tid_to_docid F (rw_tid row)) (filter (\<lambda>row. rw_doc row = None) rows)"
      "bs_ndocs ?bs = length (counted_rows rows)"
    using b by (simp_all add: builds_def build_init_def term_posts_def)
  have d: "distinct (map bterm (bs_terms ?bs))" and wf: "list_all (term_wf want ?n) (bs_terms ?bs)"
    using inv bs(1) by (simp_all add: build_inv_def)
  let ?fresh = "\<lambda>k. fresh (br_taken st + k)"
  have fr: "\<forall>k. br_rel st (?fresh k) = None" "inj ?fresh" using free by (auto intro!: injI dest: injD)
  have posts: "map (logical_of (bpositions bt)) (bposts bt) = concat (map (row_posts want (bterm bt)) rows)"
    if "bt \<in> set (bs_terms ?bs)" for bt
    using that term_posts_at [OF d] bs(4) by (metis in_set_conv_nth)
  have "build_term_ok bt" if bt: "bt \<in> set (bs_terms ?bs)" for bt
  proof -
    have wf_bt: "term_wf want ?n bt" using wf bt by (simp add: list_all_iff)
    show ?thesis using term_ok_of_wf [OF wf_bt n] posting_positions_few [OF wf_bt _ writable posts [OF bt]] by blast
  qed
  then have ok: "list_all build_term_ok (bs_terms ?bs')" by (simp add: list_all_iff)
  have "dict_need t \<le> DICT_ROOM" if t: "t \<in> set (map bterm (bs_terms ?bs))" for t
  proof -
    have "t \<in> (\<Union>row\<in>set rows. row_terms row)" using t bs(3) by simp
    then obtain row where row: "row \<in> set rows" "t \<in> row_terms row" by blast
    then obtain d f where d: "rw_doc row = Some (d, f)" by (cases "rw_doc row") (auto simp: row_terms_def)
    then obtain e where "e \<in> set (dentries d)" "t = term_text d e" using row(2) by (auto simp: row_terms_def doc_terms_def)
    moreover have "row_writable row" using writable row(1) by (simp add: list_all_iff)
    ultimately show ?thesis using d by (auto simp: row_writable_def list_all_iff)
  qed
  then have fits: "list_all (\<lambda>bt. dict_need (bterm bt) \<le> DICT_ROOM) (bs_terms ?bs')" by (simp add: list_all_iff)
  obtain pages1 taken dict index where w: "weave_write_segment ?fresh F (br_rel st) ?bs' = Some (pages1, taken,
        \<lparr>bolt_dict = dict, bolt_index = index, bolt_ndocs = bs_ndocs ?bs',
         bolt_docs = weave_doclist_sort_uniq (bs_dl_all ?bs'), bolt_nulls = weave_doclist_sort_uniq (bs_dl_null ?bs')\<rparr>)"
      "rel_le (br_rel st) pages1" "\<forall>k\<ge>taken. pages1 (?fresh k) = None"
      "weave_write_dictionary_iter fst DICT_ROOM (concat dict) = Some (dict, index)"
      and reads: "\<forall>pages recorded. rel_le pages1 pages \<longrightarrow>
        map (bolt_entry pages F recorded) (concat dict) =
        map (\<lambda>bt. \<lparr>dterm = bterm bt,
          dposts = map posting.truncate (take (max recorded 1) (term_reads F True False (bs_want_sidecar ?bs') bt))\<rparr>) (bs_terms ?bs')"
    using written_segment [OF fr ok fits, of F] by blast
  let ?b = "\<lparr>bolt_dict = dict, bolt_index = index, bolt_ndocs = bs_ndocs ?bs',
         bolt_docs = weave_doclist_sort_uniq (bs_dl_all ?bs'), bolt_nulls = weave_doclist_sort_uniq (bs_dl_null ?bs')\<rparr>"
  let ?st = "\<lparr>br_state = build_reset ?bs', br_rel = pages1, br_taken = br_taken st + taken, br_bolts = br_bolts st @ [?b]\<rparr>"
  have flush: "weave_build_flush_segment fresh F st = Some ?st"
    using w(1) False bs(5) slot by (simp add: weave_build_flush_segment_def weave_meta_add_segment_def Let_def)
  have few: "length (bposts bt) \<le> length (docs_of rows)" if "bt \<in> set (bs_terms ?bs)" for bt
    using arg_cong [OF posts [OF that], of length] posts_count [OF idx, of want "bterm bt"] by simp
  have "segment_holds F (docs_of rows) (bolt_segment pages F recorded ?b)"
    if "rel_le pages1 pages" "length (docs_of rows) \<le> recorded" for pages recorded
  proof (rule segment_of_bolt [OF F rows entries, of "bs_terms ?bs'" want])
    show "distinct (map bterm (bs_terms ?bs'))" "sorted (map bterm (bs_terms ?bs'))"
      using sort_key_asc [OF d] by (simp_all add: strict_sorted_iff)
    show "set (map bterm (bs_terms ?bs')) = (\<Union>row\<in>set rows. row_terms row)" using bs(3) by simp
    show "\<forall>bt\<in>set (bs_terms ?bs'). map (logical_of (bpositions bt)) (bposts bt) = concat (map (row_posts want (bterm bt)) rows)"
      using posts by simp
    have "take (max recorded 1) (term_reads F True False side bt) = term_reads F True False side bt" if "bt \<in> set (bs_terms ?bs)" for bt
      using few [OF that] \<open>length (docs_of rows) \<le> recorded\<close> by simp
    then show "map (bolt_entry pages F recorded) (bolt_terms ?b) =
        map (\<lambda>bt. \<lparr>dterm = bterm bt, dposts = map posting.truncate (term_reads F True False (bs_want_sidecar ?bs') bt)\<rparr>) (bs_terms ?bs')"
      using reads that(1) by simp
  qed (use w(4) in \<open>simp_all add: bs\<close>)
  then have "bolt_good F (br_rel ?st) rows ?b" using bs(7) by (simp add: bolt_good_def)
  moreover have "scan_ok F want side ?st []"
    using build_init_inv bs(1,2) by (auto simp: scan_ok_def build_reset_def builds_def)
  moreover have "blocks_free fresh ?st"
  proof -
    have "pages1 (fresh k) = None" if "br_taken st + taken \<le> k" for k
      using w(3) [rule_format, of "k - br_taken st"] that by simp
    then show ?thesis using free by simp
  qed
  ultimately show ?thesis using flush w(2) False by (intro exI [of _ ?st]) auto
qed

lemma scan_callback:
  assumes "scan_ok F want side st open_rows" and "rows_ok F (open_rows @ [row])"
  shows "\<exists>bs. weave_build_callback F (br_state st) row = Some bs \<and> scan_ok F want side (st\<lparr>br_state := bs\<rparr>) (open_rows @ [row])"
proof -
  obtain p where p: "builds F ((build_init want side)\<lparr>bs_tsv_positionless := p\<rparr>) open_rows (br_state st)"
    using assms(1) by (auto simp: scan_ok_def)
  have "sum_list (map row_weight open_rows) + row_weight row < 2 ^ 31" "rows_indexable [row]"
    using assms(2) by (simp_all add: rows_ok_def rows_indexable_def)
  then obtain bs where bs: "weave_build_callback F (br_state st) row = Some bs"
      "build_inv (sum_list (map row_weight open_rows) + row_weight row) bs" "builds F (br_state st) [row] bs"
    using build_callback_ok [of _ "br_state st" row F] assms(1) unfolding scan_ok_def by blast
  have "builds F ((build_init want side)\<lparr>bs_tsv_positionless := p\<rparr>) (open_rows @ [row]) bs"
    using p bs(3) by (auto simp: builds_def)
  then show ?thesis using bs(1,2) by (auto simp: scan_ok_def)
qed

lemma rows_ok_append: "rows_ok F (xs @ ys) \<Longrightarrow> rows_ok F xs \<and> rows_ok F ys"
  by (simp add: rows_ok_def rows_indexable_def)

lemma build_scan_ok:
  assumes F: "F \<le> 2 ^ 16"
  shows "scan_ok F want side st open_rows \<Longrightarrow> rows_ok F (open_rows @ map fst rows) \<Longrightarrow>
    sum_list (map row_entries (open_rows @ map fst rows)) \<le> TIDSET_MAX_N \<Longrightarrow> blocks_free fresh st \<Longrightarrow>
    length (br_bolts st) + length (filter snd rows) < WEAVE_MAX_SEGMENTS \<Longrightarrow>
    list_all2 (bolt_good F (br_rel st)) gs (br_bolts st) \<Longrightarrow>
    \<exists>st' gs'. weave_build_scan fresh F st rows = Some st' \<and> concat gs' = concat gs @ open_rows @ map fst rows \<and>
      length (br_bolts st') \<le> length (br_bolts st) + length (filter snd rows) + 1 \<and>
      rel_le (br_rel st) (br_rel st') \<and> list_all2 (bolt_good F (br_rel st')) gs' (br_bolts st')"
proof (induction rows arbitrary: st open_rows gs)
  case Nil
  have "rows_ok F open_rows" "sum_list (map row_entries open_rows) \<le> TIDSET_MAX_N" using Nil.prems(2,3) by simp_all
  then obtain st' where f: "weave_build_flush_segment fresh F st = Some st'" "rel_le (br_rel st) (br_rel st')"
      "if open_rows = [] then st' = st else \<exists>b. br_bolts st' = br_bolts st @ [b] \<and> bolt_good F (br_rel st') open_rows b"
    using flush_ok [OF F Nil.prems(1) _ _ Nil.prems(4)] Nil.prems(5) by auto
  have old: "list_all2 (bolt_good F (br_rel st')) gs (br_bolts st)"
    using Nil.prems(6) bolt_good_mono [OF _ f(2)] by (auto elim: list_all2_mono)
  show ?case
  proof (cases "open_rows = []")
    case True
    then show ?thesis using f old by auto
  next
    case False
    then obtain b where b: "br_bolts st' = br_bolts st @ [b]" "bolt_good F (br_rel st') open_rows b" using f(3) by auto
    have "list_all2 (bolt_good F (br_rel st')) (gs @ [open_rows]) (br_bolts st')"
      unfolding b(1) using old b(2) by (intro list_all2_appendI) simp_all
    then show ?thesis using f(1,2) b(1) by (intro exI [of _ st'] exI [of _ "gs @ [open_rows]"]) simp
  qed
next
  case (Cons rf rows)
  obtain row full where rf: "rf = (row, full)" by (cases rf)
  have ok: "rows_ok F open_rows" "sum_list (map row_entries open_rows) \<le> TIDSET_MAX_N" "rows_ok F (open_rows @ [row])" "rows_ok F ([row] @ map fst rows)"
    using Cons.prems(2,3) rf by (auto simp: rows_ok_def rows_indexable_def)
  let ?flush = "(bs_terms (br_state st) \<noteq> [] \<or> bs_dl_all (br_state st) \<noteq> []) \<and> full"
  show ?case
  proof (cases ?flush)
    case False
    obtain bs where bs: "weave_build_callback F (br_state st) row = Some bs" "scan_ok F want side (st\<lparr>br_state := bs\<rparr>) (open_rows @ [row])"
      using scan_callback [OF Cons.prems(1) ok(3)] by blast
    have "(if ?flush then weave_build_flush_segment fresh F st else Some st) = Some st" using False by (rule if_not_P)
    then have step: "weave_build_scan fresh F st (rf # rows) = weave_build_scan fresh F (st\<lparr>br_state := bs\<rparr>) rows"
      unfolding rf weave_build_scan.simps using bs(1) by simp
    obtain st' gs' where r: "weave_build_scan fresh F (st\<lparr>br_state := bs\<rparr>) rows = Some st'"
        "concat gs' = concat gs @ (open_rows @ [row]) @ map fst rows"
        "length (br_bolts st') \<le> length (br_bolts st) + length (filter snd rows) + 1"
        "rel_le (br_rel st) (br_rel st')" "list_all2 (bolt_good F (br_rel st')) gs' (br_bolts st')"
      using Cons.IH [OF bs(2), of gs] Cons.prems(2-6) rf by (auto split: if_splits)
    show ?thesis unfolding step by (rule exI [of _ st'], rule exI [of _ gs']) (use r rf in auto)
  next
    case True
    obtain st1 where f: "weave_build_flush_segment fresh F st = Some st1" "scan_ok F want side st1 []" "blocks_free fresh st1"
        "rel_le (br_rel st) (br_rel st1)"
        "if open_rows = [] then st1 = st else \<exists>b. br_bolts st1 = br_bolts st @ [b] \<and> bolt_good F (br_rel st1) open_rows b"
      using flush_ok [OF F Cons.prems(1) ok(1,2) Cons.prems(4)] Cons.prems(5) by auto
    have slots: "length (br_bolts st1) + length (filter snd rows) \<le> length (br_bolts st) + length (filter snd (rf # rows))"
      using f(5) True rf by (auto split: if_splits)
    obtain gs1 where g: "concat gs1 = concat gs @ open_rows" "list_all2 (bolt_good F (br_rel st1)) gs1 (br_bolts st1)"
    proof (cases "open_rows = []")
      case True
      then show ?thesis using that [of gs] Cons.prems(6) f(5) by simp
    next
      case False
      then obtain b where b: "br_bolts st1 = br_bolts st @ [b]" "bolt_good F (br_rel st1) open_rows b" using f(5) by auto
      have "list_all2 (bolt_good F (br_rel st1)) gs (br_bolts st)"
        using Cons.prems(6) bolt_good_mono [OF _ f(4)] by (auto elim: list_all2_mono)
      then have "list_all2 (bolt_good F (br_rel st1)) (gs @ [open_rows]) (br_bolts st1)"
        unfolding b(1) using b(2) by (intro list_all2_appendI) simp_all
      then show ?thesis using that [of "gs @ [open_rows]"] by simp
    qed
    have "rows_ok F ([] @ [row])" using rows_ok_append [OF ok(3)] by simp
    from scan_callback [OF f(2) this]
    obtain bs where bs: "weave_build_callback F (br_state st1) row = Some bs" "scan_ok F want side (st1\<lparr>br_state := bs\<rparr>) [row]"
      by auto
    have e: "sum_list (map row_entries ([row] @ map fst rows)) \<le> TIDSET_MAX_N" using Cons.prems(3) rf by simp
    obtain st' gs' where r: "weave_build_scan fresh F (st1\<lparr>br_state := bs\<rparr>) rows = Some st'" "concat gs' = concat gs1 @ [row] @ map fst rows"
        "rel_le (br_rel st1) (br_rel st')" "list_all2 (bolt_good F (br_rel st')) gs' (br_bolts st')"
        "length (br_bolts st') \<le> length (br_bolts st1) + length (filter snd rows) + 1"
      using Cons.IH [OF bs(2) ok(4) e, of gs1] f(3) g(2) slots Cons.prems(5) by auto
    have "(if ?flush then weave_build_flush_segment fresh F st else Some st) = Some st1"
      using f(1) by (subst if_P [OF True])
    then have "weave_build_scan fresh F st (rf # rows) = Some st'"
      unfolding rf weave_build_scan.simps using bs(1) r(1) by simp
    moreover have "length (br_bolts st') \<le> length (br_bolts st) + length (filter snd (rf # rows)) + 1" using r(5) slots by linarith
    ultimately show ?thesis using r(2,4) g(1) rf rel_le_trans [OF f(4) r(3)] by (intro exI [of _ st'] exI [of _ gs']) simp
  qed
qed

subsection \<open>The index a build leaves\<close>

definition build_start :: "bool \<Rightarrow> bool \<Rightarrow> (nat \<Rightarrow> post_page option) \<Rightarrow> build_run" where
  "build_start want_positions want_sidecar pages =
     \<lparr>br_state = build_init want_positions want_sidecar, br_rel = pages, br_taken = 0, br_bolts = []\<rparr>"

definition index_recorded :: "build_run \<Rightarrow> nat" where
  \<comment> \<open>the sum of the segments' document counts, which bounds a term's postings when they are read\<close>
  "index_recorded st = sum_list (map bolt_ndocs (br_bolts st))"

definition built_index :: "u64 \<Rightarrow> u32 \<Rightarrow> build_run \<Rightarrow> lex_index" where
  "built_index F gen st =
     \<lparr>igen = gen, isegs = map (bolt_segment (br_rel st) F (index_recorded st)) (br_bolts st), ipending = [],
      iwants_positions = bs_want_positions (br_state st)\<rparr>"

lemma all_counted: "list_all rw_alive rows \<Longrightarrow> length (counted_rows rows) = length (docs_of rows)"
  by (simp add: docs_of_def list_all_iff cong: filter_cong)

lemma built_segments_ok:
  assumes "F \<le> 2 ^ 16" and "rows_ok F (map fst rows)" and "sum_list (map row_entries (map fst rows)) \<le> TIDSET_MAX_N"
    and "inj fresh" and "\<forall>k. pages (fresh k) = None" and "list_all rw_alive (map fst rows)"
    and "length (filter snd rows) < WEAVE_MAX_SEGMENTS"
  shows "\<exists>st gs. weave_build_scan fresh F (build_start want side pages) rows = Some st \<and> concat gs = map fst rows \<and>
    length (br_bolts st) \<le> length (filter snd rows) + 1 \<and>
    list_all2 (segment_holds F) (map docs_of gs) (isegs (built_index F gen st))"
proof -
  let ?st = "build_start want side pages"
  have "scan_ok F want side ?st []"
    using build_init_inv by (auto simp: scan_ok_def build_start_def builds_def intro!: exI [of _ 0]) (simp_all add: build_init_def)
  moreover have "blocks_free fresh ?st" using assms(4,5) by (simp add: build_start_def)
  ultimately obtain st gs where st: "weave_build_scan fresh F ?st rows = Some st" "concat gs = map fst rows"
      "list_all2 (bolt_good F (br_rel st)) gs (br_bolts st)" "length (br_bolts st) \<le> length (filter snd rows) + 1"
    using build_scan_ok [OF assms(1), of want side ?st "[]" rows fresh "[]"] assms(2,3,7) by (auto simp: build_start_def)
  have alive: "list_all rw_alive g" if "g \<in> set gs" for g
    using assms(6) that unfolding st(2) [symmetric] by (auto simp: list_all_iff)
  have count: "length (docs_of g) \<le> index_recorded st" if "i < length gs" "g = gs ! i" for i g
  proof -
    have "bolt_good F (br_rel st) g (br_bolts st ! i)" using st(3) that by (simp add: list_all2_conv_all_nth)
    then have "bolt_ndocs (br_bolts st ! i) = length (docs_of g)"
      using all_counted [of g] alive that by (simp add: bolt_good_def)
    moreover have "i < length (br_bolts st)" using st(3) that(1) list_all2_lengthD by fastforce
    ultimately have "length (docs_of g) \<in> set (map bolt_ndocs (br_bolts st))" by (metis in_set_conv_nth length_map nth_map)
    then show ?thesis unfolding index_recorded_def by (rule member_le_sum_list) simp
  qed
  have "list_all2 (\<lambda>g b. segment_holds F (docs_of g) (bolt_segment (br_rel st) F (index_recorded st) b)) gs (br_bolts st)"
    using st(3) count rel_le_refl unfolding list_all2_conv_all_nth bolt_good_def by blast
  then show ?thesis using st(1,2,4) by (auto simp: built_index_def list_all2_map1 list_all2_map2)
qed

lemma docs_of_concat: "set (docs_of (concat gs)) = (\<Union>g\<in>set gs. set (docs_of g))"
  by (auto simp: docs_of_def)

definition matching_rows ::
  "(wdoc \<Rightarrow> u8 list \<Rightarrow> bool) \<Rightarrow> (wdoc \<Rightarrow> u8 list \<Rightarrow> int \<Rightarrow> bool) \<Rightarrow> wquery \<Rightarrow> build_row list \<Rightarrow> tid set" where
  "matching_rows hr hf q rows = {x. \<exists>d. (x, d) \<in> set (docs_of rows) \<and> matches hr hf q d}"

lemma index_answers_docs:
  "list_all (\<lambda>s. stombs s = None) segs \<Longrightarrow> length dss = length segs \<Longrightarrow>
   index_answers F hr hf q dss segs = {x. \<exists>ds\<in>set dss. \<exists>d. (x, d) \<in> set ds \<and> matches hr hf q d} \<and>
   index_live F dss segs = (\<Union>ds\<in>set dss. tids ds)"
proof (induction dss segs rule: list_induct2')
  case (4 ds dss s segs)
  have "answers F hr hf q ds s = {x. \<exists>d. (x, d) \<in> set ds \<and> matches hr hf q d}" "live_tids F ds s = tids ds"
    using 4(2) by (auto simp: answers_def live_tids_def live_def)
  then show ?case using 4 by auto
qed simp_all

lemma built_index_found:
  assumes "F \<le> 2 ^ 16" "weave_query_validate verify q = Valid" "query_typed q"
    and segs: "list_all2 (segment_holds F) (map docs_of gs) (isegs (built_index F gen st))"
    and walks: "list_all2 (lex_walks_ok hr hf wk) (map docs_of gs) (isegs (built_index F gen st))"
    and few: "length (docs_of (concat gs)) \<le> TIDSET_MAX_N"
    and pass: "weave_collect_matches F wk hr hf q m (\<lambda>_. (built_index F gen st, gen)) 0 = Some (Inr (r, recheck))"
  shows "found (matching_rows hr hf q (concat gs)) (tids (docs_of (concat gs))) r recheck"
proof -
  let ?ix = "built_index F gen st"
  have "length (docs_of (concat gs)) = sum_list (map length (map docs_of gs))"
    by (induction gs) (simp_all add: docs_of_def)
  then have holds: "index_holds F hr hf wk (map docs_of gs) ?ix"
    using segs walks few by (simp add: index_holds_def list_all2_conv_all_nth)
  have "collect_pass F wk hr hf q ?ix (igen ?ix) = Some (Inr (r, recheck))" using collect_matches_pass [OF pass] by auto
  note f = collect_pass_found [OF assms(1-3) holds this]
  have "list_all (\<lambda>s. stombs s = None) (isegs ?ix)" "ipending ?ix = []"
    by (simp_all add: built_index_def list_all_iff bolt_segment_def)
  moreover have "length (map docs_of gs) = length (isegs ?ix)" using segs by (rule list_all2_lengthD)
  moreover have "{x. \<exists>ds\<in>set (map docs_of gs). \<exists>d. (x, d) \<in> set ds \<and> matches hr hf q d} = matching_rows hr hf q (concat gs)"
      "(\<Union>ds\<in>set (map docs_of gs). tids ds) = tids (docs_of (concat gs))"
    unfolding matching_rows_def docs_of_concat by auto
  ultimately show ?thesis
    using f index_answers_docs [of "isegs ?ix" "map docs_of gs" F hr hf q] by (simp add: pending_answers_def)
qed

subsection \<open>The end of a build\<close>

abbreviation WEAVE_MERGE_FANOUT :: nat where "WEAVE_MERGE_FANOUT \<equiv> 8"
abbreviation WEAVE_MERGE_MAX_LEVELS :: nat where "WEAVE_MERGE_MAX_LEVELS \<equiv> 24"
abbreviation WEAVE_MERGE_THRESHOLD :: nat where "WEAVE_MERGE_THRESHOLD \<equiv> 8"

function level_from :: "nat \<Rightarrow> nat \<Rightarrow> nat \<Rightarrow> nat" where
  "level_from s cap level =
     (if cap \<le> s \<and> level < WEAVE_MERGE_MAX_LEVELS - 1 then level_from s (cap * WEAVE_MERGE_FANOUT) (level + 1) else level)"
  by pat_completeness auto
termination
  by (relation "measure (\<lambda>(_, _, level). WEAVE_MERGE_MAX_LEVELS - 1 - level)") auto

declare level_from.simps [simp del]

definition weave_seg_level :: "nat \<Rightarrow> nat" where
  \<comment> \<open>of a segment with this many live documents\<close>
  "weave_seg_level livesize = level_from (if livesize < 1 then 1 else livesize) WEAVE_MERGE_FANOUT 0"

definition merge_target :: "nat list \<Rightarrow> nat option" where
  \<comment> \<open>the level the first pass of \<open>weave_merge_segments\<close> compacts\<close>
  "merge_target sizes =
     (let lvlcount = (\<lambda>l. length (filter (\<lambda>n. weave_seg_level n = l) sizes)) in
      case find (\<lambda>l. WEAVE_MERGE_FANOUT \<le> lvlcount l) [0..<WEAVE_MERGE_MAX_LEVELS] of
        Some l \<Rightarrow> Some l
      | None \<Rightarrow> if WEAVE_MERGE_THRESHOLD < length sizes then find (\<lambda>l. 2 \<le> lvlcount l) [0..<WEAVE_MERGE_MAX_LEVELS] else None)"

definition weave_merge_segments :: "bolt list \<Rightarrow> bolt list option" where
  \<comment> \<open>\<open>None\<close>: a level's segments are merged\<close>
  "weave_merge_segments bolts =
     (if length bolts \<le> 1 then Some bolts
      else case merge_target (map bolt_ndocs bolts) of None \<Rightarrow> Some bolts | Some _ \<Rightarrow> None)"

definition weave_merge_all :: "bolt list \<Rightarrow> bolt list option" where
  \<comment> \<open>\<open>None\<close>: the smallest segments are merged\<close>
  "weave_merge_all bolts = (if length bolts \<le> 1 then Some bolts else None)"

definition weave_build_finalize :: "nat \<Rightarrow> nat \<Rightarrow> bolt list \<Rightarrow> bolt list option" where
  \<comment> \<open>\<open>pg_weave.build_collapse_max_mb\<close> and the size of the index in megabytes\<close>
  "weave_build_finalize build_collapse_max_mb sizemb bolts = do {
     bolts \<leftarrow> weave_merge_segments bolts;
     if build_collapse_max_mb = 0 \<or> sizemb \<le> build_collapse_max_mb then weave_merge_all bolts else Some bolts
   }"

definition weave_build ::
  "nat \<Rightarrow> nat \<Rightarrow> (nat \<Rightarrow> nat) \<Rightarrow> u64 \<Rightarrow> build_run \<Rightarrow> (build_row \<times> bool) list \<Rightarrow> build_run option" where
  \<comment> \<open>the serial build: the scan, its last flush, and the segment layout\<close>
  "weave_build build_collapse_max_mb sizemb fresh F st rows = do {
     st \<leftarrow> weave_build_scan fresh F st rows;
     bolts \<leftarrow> weave_build_finalize build_collapse_max_mb sizemb (br_bolts st);
     Some (st\<lparr>br_bolts := bolts\<rparr>)
   }"

lemma level_from_bounds:
  "level < WEAVE_MERGE_MAX_LEVELS \<Longrightarrow> cap = 8 ^ (level + 1) \<Longrightarrow> 8 ^ level \<le> s \<Longrightarrow>
   level_from s cap level < WEAVE_MERGE_MAX_LEVELS \<and> 8 ^ level_from s cap level \<le> s \<and>
   (level_from s cap level < WEAVE_MERGE_MAX_LEVELS - 1 \<longrightarrow> s < 8 ^ (level_from s cap level + 1))"
proof (induction s cap level rule: level_from.induct)
  case (1 s cap level)
  show ?case
  proof (cases "cap \<le> s \<and> level < WEAVE_MERGE_MAX_LEVELS - 1")
    case True
    then have "8 ^ (level + 1) \<le> s" using "1.prems"(2) by simp
    then show ?thesis using "1.IH" [OF True] "1.prems"(2) True by (subst (1 2 3 4) level_from.simps) (simp add: mult.commute)
  next
    case False
    then have "level_from s cap level = level" by (subst level_from.simps) auto
    then show ?thesis using False "1.prems" by auto
  qed
qed

lemma seg_level_bounds:
  "weave_seg_level n < WEAVE_MERGE_MAX_LEVELS \<and> (1 \<le> n \<longrightarrow> 8 ^ weave_seg_level n \<le> n) \<and>
   (weave_seg_level n < WEAVE_MERGE_MAX_LEVELS - 1 \<longrightarrow> n < 8 ^ (weave_seg_level n + 1))"
  using level_from_bounds [of 0 8 n] level_from_bounds [of 0 8 1] by (cases "n = 0") (auto simp: weave_seg_level_def)

lemma length_by_level:
  fixes f :: "'a \<Rightarrow> nat"
  assumes "\<forall>x\<in>set xs. f x < m"
  shows "length xs = (\<Sum>l<m. length (filter (\<lambda>x. f x = l) xs))"
  using assms
proof (induction xs)
  case (Cons x xs)
  have "length (filter (\<lambda>x. f x = l) (x # xs)) = (if f x = l then 1 else 0) + length (filter (\<lambda>x. f x = l) xs)" for l by simp
  then have "(\<Sum>l<m. length (filter (\<lambda>x. f x = l) (x # xs))) =
      (\<Sum>l<m. if f x = l then 1 else 0) + (\<Sum>l<m. length (filter (\<lambda>x. f x = l) xs))"
    by (simp only: sum.distrib)
  also have "(\<Sum>l<m. if f x = l then 1 else 0 :: nat) = 1" using Cons.prems by simp
  finally show ?case using Cons by simp
qed simp

lemma merge_segments_few:
  assumes "weave_merge_segments bolts = Some bolts'"
  shows "bolts' = bolts \<and> length bolts \<le> WEAVE_MERGE_MAX_LEVELS"
proof (cases "length bolts \<le> WEAVE_MERGE_THRESHOLD")
  case True
  then show ?thesis using assms by (auto simp: weave_merge_segments_def split: if_splits option.splits)
next
  case False
  let ?count = "\<lambda>l. length (filter (\<lambda>n. weave_seg_level n = l) (map bolt_ndocs bolts))"
  have "merge_target (map bolt_ndocs bolts) = None" and same: "bolts' = bolts"
    using assms False by (auto simp: weave_merge_segments_def split: if_splits option.splits)
  then have "find (\<lambda>l. 2 \<le> ?count l) [0..<WEAVE_MERGE_MAX_LEVELS] = None"
    using False unfolding merge_target_def Let_def by (simp split: option.splits)
  then have "\<forall>l<WEAVE_MERGE_MAX_LEVELS. ?count l \<le> 1" by (auto simp: find_None_iff not_le)
  then have "(\<Sum>l<WEAVE_MERGE_MAX_LEVELS. ?count l) \<le> (\<Sum>l<WEAVE_MERGE_MAX_LEVELS. 1)" by (intro sum_mono) simp
  then show ?thesis
    using length_by_level [of "map bolt_ndocs bolts" weave_seg_level WEAVE_MERGE_MAX_LEVELS] seg_level_bounds same by simp
qed

lemma finalize_few:
  assumes "weave_build_finalize cap mb bolts = Some bolts'"
  shows "bolts' = bolts" "length bolts \<le> WEAVE_MERGE_MAX_LEVELS" "cap = 0 \<or> mb \<le> cap \<Longrightarrow> length bolts \<le> 1"
  using assms merge_segments_few [of bolts]
  by (auto simp: weave_build_finalize_def bind_eq_Some_conv weave_merge_all_def split: if_splits)

lemma finalize_single: "length bolts \<le> 1 \<Longrightarrow> weave_build_finalize cap mb bolts = Some bolts"
  by (simp add: weave_build_finalize_def weave_merge_segments_def weave_merge_all_def)

lemma build_finished:
  assumes "weave_build cap mb fresh F st0 rows = Some st"
  shows "weave_build_scan fresh F st0 rows = Some st" "length (br_bolts st) \<le> WEAVE_MERGE_MAX_LEVELS"
    "cap = 0 \<or> mb \<le> cap \<Longrightarrow> length (br_bolts st) \<le> 1"
proof -
  obtain st1 bolts where r: "weave_build_scan fresh F st0 rows = Some st1"
      "weave_build_finalize cap mb (br_bolts st1) = Some bolts" "st = st1\<lparr>br_bolts := bolts\<rparr>"
    using assms by (auto simp: weave_build_def bind_eq_Some_conv)
  note f = finalize_few [OF r(2)]
  have "st = st1" using r(3) f(1) by simp
  then show "weave_build_scan fresh F st0 rows = Some st" "length (br_bolts st) \<le> WEAVE_MERGE_MAX_LEVELS"
      "cap = 0 \<or> mb \<le> cap \<Longrightarrow> length (br_bolts st) \<le> 1"
    using r(1) f(2,3) by simp_all
qed

subsection \<open>Recently dead rows\<close>

lemma term_reads_plain:
  assumes "bpositions bt = None"
  shows "map posting.truncate (term_reads F True False nd bt) =
    map (\<lambda>s. \<lparr>ptid = weave_docid_to_tid F (sdocid s), ptf = stf s, ppos = None\<rparr>) (sorted_postings F bt)"
proof -
  have "map posting.truncate (concat (map (block_reads F True False nd None) cs)) =
      map (\<lambda>s. \<lparr>ptid = weave_docid_to_tid F (sdocid s), ptf = stf s, ppos = None\<rparr>) (concat cs)" for cs
    by (induction cs) (simp_all add: block_reads_def stored_posting_def kept_arena_def posting.truncate_def)
  then show ?thesis using assms by (simp add: term_reads_def groups_concat)
qed

abbreviation (input) demo_row :: "tid \<Rightarrow> bool \<Rightarrow> build_row" where
  "demo_row x alive \<equiv> \<lparr>rw_tid = x, rw_doc = Some (demo_wdoc, False), rw_alive = alive\<rparr>"

lemma demo_rows: "rows_ok 300 [demo_row demo_x a, demo_row demo_y b]"
  by (simp add: rows_ok_def rows_indexable_def doc_indexable_def row_weight_def entries_weight_def row_writable_def MAXALIGN_def
      doc_ok_def doc_sorted_def doc_terms_def term_text_def term_pos_def)

lemma demo_run:
  assumes st: "st = build_start False False (\<lambda>_. None)" and rows: "rows = [(demo_row demo_x a, False), (demo_row demo_y b, False)]"
  obtains st' bo where "weave_build_scan id 300 st rows = Some st'" "br_bolts st' = [bo]"
    "bolt_ndocs bo = (if a then 1 else 0) + (if b then 1 else 0)"
    "\<And>recorded. map (bolt_entry (br_rel st') 300 recorded) (bolt_terms bo) =
      [\<lparr>dterm = [97], dposts = take (max recorded 1) [\<lparr>ptid = demo_x, ptf = 1, ppos = None\<rparr>, \<lparr>ptid = demo_y, ptf = 1, ppos = None\<rparr>]\<rparr>]"
    "bolt_docs bo = weave_doclist_sort_uniq [weave_tid_to_docid 300 demo_x, weave_tid_to_docid 300 demo_y]" "bolt_nulls bo = []"
    "weave_write_dictionary_iter fst DICT_ROOM (bolt_terms bo) = Some (bolt_dict bo, bolt_index bo)"
proof -
  let ?p = "\<lambda>x. \<lparr>bptid = x, bptf = 1, bpdoclen = 1, bpposoff = 0, bpposcnt = 0\<rparr> :: build_posting"
  let ?bt = "\<lparr>bterm = [97], bposts = [?p demo_x, ?p demo_y], bpositions = None, bmax_tf = 0, bnext = - 1\<rparr> :: build_term"
  let ?n = "\<lambda>a. if a then 1 else 0"
  let ?dl = "[weave_tid_to_docid 300 demo_x, weave_tid_to_docid 300 demo_y]"
  let ?bs = "\<lparr>bs_terms = [?bt], bs_ht = [(1, [97]) \<mapsto> 0], bs_want_positions = False, bs_want_sidecar = False,
      bs_ndocs = ?n a + ?n b, bs_sumdoclen = ?n a + ?n b, bs_tsv_positionless = 0, bs_dl_all = ?dl, bs_dl_null = []\<rparr>"
  have "\<exists>bs1. weave_build_callback 300 (build_init False False) (demo_row demo_x a) = Some bs1 \<and>
      weave_build_callback 300 bs1 (demo_row demo_y b) = Some ?bs"
    by (simp add: weave_build_callback_def build_init_def bs_doclist_push_def add_posting_def build_term_new_def build_term_append_def
        make_termkey_def term_text_def chain_find.simps [of _ _ 0] Let_def)
  then have scan: "weave_build_scan id 300 st rows = weave_build_flush_segment id 300 (st\<lparr>br_state := ?bs\<rparr>)"
    by (auto simp: st rows build_start_def)
  have wf: "list_all build_term_ok (bs_terms ?bs)" "list_all (\<lambda>bt. dict_need (bterm bt) \<le> DICT_ROOM) (bs_terms ?bs)"
    by (simp_all add: build_term_ok_def MAXALIGN_def)
  obtain pages1 taken dict index where w: "weave_write_segment id 300 (\<lambda>_. None) ?bs = Some (pages1, taken,
        \<lparr>bolt_dict = dict, bolt_index = index, bolt_ndocs = ?n a + ?n b, bolt_docs = weave_doclist_sort_uniq ?dl, bolt_nulls = weave_doclist_sort_uniq []\<rparr>)"
      "weave_write_dictionary_iter fst DICT_ROOM (concat dict) = Some (dict, index)"
      "\<forall>pages recorded. rel_le pages1 pages \<longrightarrow> map (bolt_entry pages 300 recorded) (concat dict) =
      map (\<lambda>bt. \<lparr>dterm = bterm bt, dposts = map posting.truncate (take (max recorded 1) (term_reads 300 True False False bt))\<rparr>) [?bt]"
    using written_segment [OF _ _ wf, of "\<lambda>_. None" id 300] by auto
  have "sorted_postings 300 ?bt = map (posting_sort_of 300 ?bt) [?p demo_x, ?p demo_y]"
    by (simp add: sorted_postings_def posting_sort_of_def weave_tid_to_docid_def)
  then have r: "map posting.truncate (term_reads 300 True False False ?bt) =
      [\<lparr>ptid = demo_x, ptf = 1, ppos = None\<rparr>, \<lparr>ptid = demo_y, ptf = 1, ppos = None\<rparr>]"
    by (simp add: term_reads_plain posting_sort_of_def weave_tid_to_docid_def weave_docid_to_tid_def)
  let ?bo = "\<lparr>bolt_dict = dict, bolt_index = index, bolt_ndocs = ?n a + ?n b, bolt_docs = weave_doclist_sort_uniq ?dl, bolt_nulls = weave_doclist_sort_uniq []\<rparr>"
  let ?st = "\<lparr>br_state = build_reset ?bs, br_rel = pages1, br_taken = taken, br_bolts = [?bo]\<rparr>"
  have run: "weave_build_scan id 300 st rows = Some ?st"
    using w(1) unfolding scan weave_build_flush_segment_def
    by (simp add: st build_start_def weave_meta_add_segment_def id_def)
  have "map (bolt_entry pages1 300 recorded) (concat dict) =
      [\<lparr>dterm = [97], dposts = take (max recorded 1) [\<lparr>ptid = demo_x, ptf = 1, ppos = None\<rparr>, \<lparr>ptid = demo_y, ptf = 1, ppos = None\<rparr>]\<rparr>]"
    for recorded
    using w(3) [rule_format, OF rel_le_refl, of recorded] by (simp only: r list.map build_term.simps flip: take_map)
  then show thesis
    using that [of ?st ?bo] run w(2) by (simp add: weave_doclist_sort_uniq_def del: One_nat_def)
qed

text \<open>
  C40: postings of live rows are lost when the scan met recently dead ones. Of two rows with the same term the first
  is dead but not yet removable; the build indexes both and counts one. The reader takes the segments' document
  counts for a bound on a term's postings and returns the dead row only, so a query for the term that the live row
  satisfies does not find it.
\<close>

theorem dead_row_hides_live:
  "\<exists>st. weave_build_scan id 300 (build_start False False (\<lambda>_. None)) [(demo_row demo_x False, False), (demo_row demo_y True, False)] = Some st \<and>
    index_recorded st = 1 \<and>
    map (bolt_entry (br_rel st) 300 (index_recorded st)) (concat (map bolt_terms (br_bolts st))) =
      [\<lparr>dterm = [97], dposts = [\<lparr>ptid = demo_x, ptf = 1, ppos = None\<rparr>]\<rparr>] \<and>
    weave_doc_matches (\<lambda>_ _. False) (\<lambda>_ _ _. False) demo_wdoc demo_term = Some True"
proof (rule demo_run [OF refl refl, of False True])
  fix st bo
  assume st: "weave_build_scan id 300 (build_start False False (\<lambda>_. None)) [(demo_row demo_x False, False), (demo_row demo_y True, False)] = Some st"
      "br_bolts st = [bo]" "bolt_ndocs bo = (if False then 1 else 0) + (if True then 1 else 0)"
    and reads: "\<And>recorded. map (bolt_entry (br_rel st) 300 recorded) (bolt_terms bo) =
      [\<lparr>dterm = [97], dposts = take (max recorded 1) [\<lparr>ptid = demo_x, ptf = 1, ppos = None\<rparr>, \<lparr>ptid = demo_y, ptf = 1, ppos = None\<rparr>]\<rparr>]"
  have "index_recorded st = 1" using st(2,3) by (simp add: index_recorded_def)
  then show ?thesis using st(1,2) reads [of 1] demo_match by (intro exI [of _ st]) simp
qed


abbreviation (input) flush_between :: "(build_row \<times> bool) list" where
  \<comment> \<open>the memory budget is used up before the second row\<close>
  "flush_between \<equiv> [(demo_row demo_x True, False), (demo_row demo_y True, True)]"

lemma demo_scan_hyps:
  "rows_ok 300 (map fst [(demo_row demo_x a, f), (demo_row demo_y b, g)])"
  "sum_list (map row_entries (map fst [(demo_row demo_x a, f), (demo_row demo_y b, g)])) \<le> TIDSET_MAX_N"
  using demo_rows [of a b] by (simp_all add: row_entries_def TIDSET_MAX_N_def MaxAllocSize_def)



lemma demo_walks_ok: "lex_walks_ok (\<lambda>_ _. False) (\<lambda>_ _ _. False) demo_walks ds s"
  by (simp add: lex_walks_ok_def)

lemma built_pass:
  assumes "map (bolt_entry (br_rel st) 300 2) (bolt_terms bo) =
      [\<lparr>dterm = [97], dposts = [\<lparr>ptid = demo_x, ptf = 1, ppos = None\<rparr>, \<lparr>ptid = demo_y, ptf = 1, ppos = None\<rparr>]\<rparr>]"
    and "br_bolts st = [bo]" and "bolt_ndocs bo = 2"
    and w: "weave_write_dictionary_iter fst DICT_ROOM (bolt_terms bo) = Some (bolt_dict bo, bolt_index bo)"
  shows "collect_pass 300 demo_walks (\<lambda>_ _. False) (\<lambda>_ _ _. False) demo_term (built_index 300 5 st) 5 = Some (Inr ([demo_x, demo_y], False))"
proof -
  let ?e = "\<lparr>dterm = [97], dposts = [\<lparr>ptid = demo_x, ptf = 1, ppos = None\<rparr>, \<lparr>ptid = demo_y, ptf = 1, ppos = None\<rparr>]\<rparr>"
  let ?D = "\<lparr>dpages = map (map (bolt_entry (br_rel st) 300 2)) (bolt_dict bo), dindex = bolt_index bo\<rparr>"
  have rec: "index_recorded st = 2" using assms(2,3) by (simp add: index_recorded_def)
  then have seg: "isegs (built_index 300 5 st) = [\<lparr>sdict = Some ?D, sndocs = 2,
      sdoclist = Doclist (bolt_docs bo) (bolt_nulls bo), stombs = None\<rparr>]"
    using assms(2,3) by (simp add: built_index_def bolt_segment_def)
  have trm: "dterm (bolt_entry (br_rel st) 300 2 r) = fst r" for r by (cases r) (simp add: bolt_entry_def)
  then have "map fst (bolt_terms bo) = map dterm (map (bolt_entry (br_rel st) 300 2) (bolt_terms bo))" by simp
  then have "asc (map fst (bolt_terms bo))" unfolding assms(1) by simp
  from written_dict_ok [OF w _ this, of "bolt_entry (br_rel st) 300 2"]
  have D: "dict_ok ?D" "concat (dpages ?D) = [?e]" using trm assms(1) by simp_all
  have "find_term ?D [97] = Some ?e" unfolding find_term_spec [OF D(1)] D(2) by simp
  then have "collect_segs (bool_segment 300 5 5 demo_term) (isegs (built_index 300 5 st)) [] False = Some (Inr ([demo_x, demo_y], False))"
    unfolding seg
    by (simp add: bool_segment_def weave_eval_query_def eval_leaf_def item_text_def weave_lookup_term_def query_consts
      tidset_sort_uniq_def TIDSET_MAX_N_def MaxAllocSize_def weave_filter_tombstoned_seg_def has_op_def tidset_or_def tidset_sane_def
      palloc_tids_def tid_less less_eq_tid_ext_def ItemPointerCompare_def)
  moreover have "tidset_sort_uniq [demo_x, demo_y] = [demo_x, demo_y]"
    by (simp add: tidset_sort_uniq_def TIDSET_MAX_N_def MaxAllocSize_def tid_less less_eq_tid_ext_def ItemPointerCompare_def)
  moreover have "igen (built_index 300 5 st) = 5" "ipending (built_index 300 5 st) = []" by (simp_all add: built_index_def)
  ultimately show ?thesis
    by (simp add: collect_pass_def has_flag_def has_op_def query_consts tidset_sort_uniq_def TIDSET_MAX_N_def MaxAllocSize_def)
qed


end
