(* ===== verification/Spec2Isabelle.thy ===== *)
theory Spec2Isabelle
  imports Weave_Filter Weave_For Weave_Pagekind Weave_Edit Weave_Query Weave_Docvals_Gate Weave_Docvals_Key Weave_Chandesc Weave_Doclist Weave_Lexscan
    Weave_Bolt
begin

text \<open>
  \<^bold>\<open>pg_weave\<close> is a PostgreSQL index access method for combined lexical, vector and scalar search. Documents
  are \<open>wdoc\<close> values, queries are \<open>wquery\<close> values, and a fused scan merges the channels of an index. This
  development models the parts of it that decide which rows are returned, and in which order.

  \<^bold>\<open>The parts and how they interact.\<close> A heap row's text becomes a document (sorted terms with their
  positions, \<open>src/query/doc.c\<close>). A query is a postfix list of items that \<open>src/query/parse.c\<close> validates and
  \<open>src/query/match.c\<close> evaluates on a document; its fuzzy terms go through a trigram filter
  (\<open>src/query/trgm.c\<close>) and, on the index side, through a Levenshtein automaton (\<open>src/query/lev.c\<close>). In the index
  every document is a \<open>docid\<close>; an index channel is a cursor over ascending docids with a bound on the scores
  of its current block. \<open>src/am/fuse.c\<close> merges scored channels and required ones (gates, \<open>src/query/gate.c\<close>,
  and vector lanes, \<open>src/am/vecdocmap.c\<close>) and keeps the best \<open>k\<close>. A facet predicate becomes a gate: the store of
  \<open>include/weave/docvals.h\<close> yields the docids whose value satisfies it. Document lengths are bit-packed blocks
  (\<open>include/weave/for.h\<close>), and every index page says what it is by its kind (\<open>include/weave/pagekind.h\<close>).

  \<^bold>\<open>Theories and the code they model.\<close>
  \<^item> \<open>Weave_Prelude\<close>: word types, wrap-around lemmas (\<open>word_step\<close>), lower bounds in sorted lists.
    \<open>Weave_Float32\<close>: binary32 addition, multiplication and comparison, with rounding. \<open>Weave_Bytes\<close>: little-endian
    fields and bounds-checked reads. \<open>Weave_Postfix\<close>: postfix lists, operator trees, and the locale
    \<open>stack_machine\<close>.
  \<^item> \<open>Weave_Channel\<close>: \<open>include/weave/channel.h\<close>. A shuttle and a core channel are records of operations and an
    abstract state; the locale \<open>channel_contract\<close> states what \<open>channel.h\<close> promises: seeks are lower bounds, a block
    bound dominates the scores of its range.
  \<^item> \<open>Weave_Fuse\<close>: every function of \<open>src/am/fuse.c\<close> under its own name: the state \<open>fstate\<close>, the bounded heap, set-up,
    the scan loop cut at its numbered steps, the drain, and the brute-force \<open>weave_fuse_reference\<close>.
    \<open>Weave_Fuse_Spec\<close>, \<open>Weave_Fuse_Heap\<close> and \<open>Weave_Fuse_Run\<close> hold its specification and invariants. \<open>Weave_Scan\<close> interprets
    the contract on concrete arrays of documents and states the scan's properties.
  \<^item> \<open>Weave_Gate\<close>: \<open>include/weave/gate.h\<close> and \<open>src/query/gate.c\<close>. \<open>Weave_Vecdoc\<close>: \<open>include/weave/vecdocmap.h\<close> and
    \<open>src/am/vecdocmap.c\<close>. \<open>Weave_Filter\<close>: \<open>src/am/fuseshuttle.c\<close>, shuttles as core channels, and scans over gates.
  \<^item> \<open>Weave_For\<close>: \<open>include/weave/for.h\<close>. \<open>Weave_Pagekind\<close>: \<open>include/weave/pagekind.h\<close>.
  \<^item> \<open>Weave_Edit\<close>: edit distance (\<open>lev\<close>, and the relation \<open>edits\<close>), \<open>src/query/lev.c\<close> and \<open>src/query/trgm.c\<close>.
  \<^item> \<open>Weave_Doc\<close>: \<open>weave_doc_build\<close>, the searches and the fuzzy test of \<open>src/query/doc.c\<close>. \<open>Weave_Docvalid\<close>:
    \<open>include/weave/docvalid.h\<close> and the image \<open>weave_doc_build\<close> stores.
  \<^item> \<open>Weave_Query\<close>: query items, \<open>weave_query_validate\<close> of \<open>src/query/parse.c\<close> and the evaluator of \<open>src/query/match.c\<close>.
  \<^item> \<open>Weave_Chandesc\<close>: the channel-descriptor page of \<open>include/weave/chandesc.h\<close>. \<open>Weave_Doclist\<close>: the document
    list of \<open>include/weave/doclist.h\<close>, over any bitmap library.
  \<^item> \<open>Weave_Docvals\<close>, \<open>Weave_Docvals_Key\<close>, \<open>Weave_Docvals_Gate\<close>: \<open>include/weave/docvals.h\<close>.
  \<^item> The lexical scan of \<open>src/am/amscan.c\<close>. \<open>Weave_Tidset\<close>: the tuple-id sets. \<open>Weave_Dict\<close>: the dictionary, with its
    writer in \<open>src/am/ambuild.c\<close>. \<open>Weave_Collect\<close>: the evaluators over a segment and \<open>weave_collect_matches\<close>.
    \<open>Weave_Lexeval\<close>, \<open>Weave_Lexphrase\<close> and \<open>Weave_Lexscan\<close> prove them against \<open>weave_doc_matches\<close>: the boolean
    evaluator, the positional phrases, the whole scan.
  \<^item> The build. \<open>Weave_Postings\<close>: posting pages, \<open>weave_write_postings\<close> of \<open>src/am/ambuild.c\<close> and \<open>weave_decode_term\<close> of
    \<open>src/am/am.c\<close>; \<open>Weave_Postblock\<close>, \<open>Weave_Postchain\<close> and \<open>Weave_Postsafe\<close> prove blocks, chains of pages and arbitrary
    pages. \<open>Weave_Build\<close>: the build state and the heap-scan callback. \<open>Weave_Bolt\<close>: flushing a segment (postings,
    dictionary, directory), the heap scan, \<open>weave_build_finalize\<close>, and the index a build leaves, as the lexical scan
    sees it.

  \<^bold>\<open>How code is rendered.\<close> C structs are records, enums datatypes, \<open>uint32\<close> and its kin words of that width, so
  sums wrap where the code's do; a C \<open>int\<close> is an \<open>int\<close>, with \<open>int16\<close> or \<open>int32\<close> around a store or product that can
  leave the range. A buffer is a list and a read outside it is \<open>None\<close>; a failed \<open>assert\<close> is \<open>None\<close> too. An \<open>ereport\<close> is a
  value of an error datatype. Loops are recursive functions, total by structural recursion or a measure.
  \<open>ItemPointerCompare\<close>, \<open>qsort\<close> and \<open>memcmp\<close> stand for their documented behaviour. PostgreSQL's own functions (hashing, encodings, its bounded Levenshtein distance, collations) are
  arguments of the definitions that use them.

  \<^bold>\<open>What is shown.\<close>
  \<^item> The fused scan returns what the reference returns, for every set of channels that keeps the contract and
    whose weighted scores add without rounding (the arrays of \<open>Weave_Scan\<close> with scores on a grid: at most 252
    summands keep binary32 sums exact); it moves strictly forward; gates and the vector adapter keep the
    contract; where a precondition fails (negative ceilings, negative block bounds) a concrete scan that
    loses a document is given.
  \<^item> The gate's gallop has fuel \<open>gallop_fuel = 33\<close>: its step doubles from 1 in 32 bits, so 33 rounds pass any end;
    the lower-bound property includes that it never runs out.
  \<^item> Packing round-trips and random access agrees with unpacking; the walks find exactly what is stored.
  \<^item> The automaton and both filters of the fuzzy test agree with edit distance.
  \<^item> A built document returns its terms and positions; its image passes the validator; the validators read
    only their buffers and accept exactly what their specifications say.
  \<^item> A query is valid exactly when it is the postfix form of a tree of the inductive grammar \<open>legal_query\<close>, and
    evaluating it is that tree's meaning.
  \<^item> A lexical scan returns what evaluating the query on every document returns (a superset only when it asks for
    the recheck), over the segments, their tombstones and the pending list, and across passes that other
    backends overtake.
  \<^item> Writing a dictionary fails exactly when an entry is larger than an empty page; otherwise no page is overfilled
    and the lookups find every term and prefix.
  \<^item> Writing postings and reading them back are inverse, across pages and terms, while a posting has fewer than
    \<open>2 ^ 19\<close> positions; every page stays well formed, and without positions the reader never leaves a page, whatever
    bytes it holds (with positions it can).
  \<^item> A heap scan of live rows within these bounds ends in segments that hold the rows. When the build then finishes
    without a merge, as it does when it made one segment, the lexical scan over the fresh index answers with the
    evaluator's rows. Recently dead rows break this: a concrete build hides a live row.
  \<^item> A facet gate is exactly the set of documents whose value compares as asked.

  \<^bold>\<open>Assumptions.\<close> Pointers the code does not check are not null, and allocation succeeds. The codec of \<open>for.h\<close> is
  stated over natural numbers where the code has an \<open>int\<close> count times a width: the gap, frequency and length columns
  of a block have at most 128 values. Its positions column has no such bound (the code packs \<open>(int) sumtf\<close> values), so
  there the writer goes through \<open>int_pack\<close>, which is \<open>None\<close> where the \<open>int\<close> arithmetic overflows; \<open>2 ^ 19\<close> positions in
  each of 128 postings, at 32 bits, are the \<open>2 ^ 31\<close> bits where it begins. Likewise a dictionary entry larger than an
  empty page, which the code copies past the page, makes the writer \<open>None\<close>, and so does a query longer than the rows of
  the automaton (\<open>WEAVE_LEV_MAXQ\<close>, 255 bytes). Images are shorter than \<open>2 ^ 64\<close> bytes and documents than PostgreSQL's
  \<open>MaxAllocSize\<close>.

  \<^bold>\<open>Not modelled.\<close> The rest of the access method (\<open>src/am/am*.c\<close>, \<open>customscan.c\<close>, \<open>fusepath.c\<close>, \<open>src/pages\<close>) works on
  PostgreSQL buffers, WAL and locks; the scan is modelled over an index that is what its pages say, so that a page
  a concurrent merge recycles shows up as a changed generation only. A build is the serial one, for the lexical
  column and the document list, without the other channels and the pages of the doclen sidecar; the blocks
  a build takes are an argument (\<open>fresh\<close>), as are the rows before which its memory is used up and the size of the
  index in megabytes. Merging segments is not modelled: where a build starts a merge (a full directory, a level of
  8 runs, or more than one segment below the collapse cap) it is \<open>None\<close>, so nothing is shown of such builds beyond
  the segments their scan writes. Without a merge no page is freed and \<open>weave_vacuum_compact\<close> has nothing to move.
  The vector kernels and quantizers are floating-point code over large
  arrays. The sparse bitmap and the regular-expression matcher are vendored and the regular-expression
  grammar is generated. The SQL entry points only fetch arguments. The surface trie, the universal
  Levenshtein automata, code-point grams, the query lexer and the regular-expression tree are pure code that
  is left for later.
\<close>

end
